(* ===== verification/Prelude.thy ===== *)
theory Prelude
  imports Main "HOL-Library.Word"
begin

text \<open>
  Shared vocabulary of the development: machine integer types, the faults by which the C code
  stops, the result type of an operation that may stop, and generic lemmas on words, lists and
  sums that several components use.

  Naming: a C function that starts with an underscore keeps its name without it; where this would
  clash with the public function of the same name the static one has the suffix \<open>_i\<close>.
\<close>

unbundle bit_operations_syntax

named_theorems mach_simps \<open>reading machine integers as mathematical ones\<close>

type_synonym u8 = "8 word"
type_synonym u16 = "16 word"
type_synonym u32 = "32 word"
type_synonym u64 = "64 word"

section \<open>Faults and results\<close>

text \<open>
  The ways in which the modelled code stops without returning: a crash the library raises on
  purpose (\<open>DISPATCH_INTERNAL_CRASH\<close>, \<open>DISPATCH_CLIENT_CRASH\<close>, a failed
  \<open>dispatch_assert\<close>), an access outside the memory it owns, and fuel of the model
  that was too small (excluded by a theorem wherever fuel is used).
\<close>

datatype fault =
    Internal_crash
  | Client_crash
  | Assert_failed
  | Null_deref
  | Out_of_bounds
  | Use_after_free
  | Out_of_fuel

type_synonym 'a result = "fault + 'a"

fun bindR :: "'a result \<Rightarrow> ('a \<Rightarrow> 'b result) \<Rightarrow> 'b result" where
  "bindR (Inl e) f = Inl e"
| "bindR (Inr x) f = f x"

lemma bindR_Inr_iff: "bindR m f = Inr y \<longleftrightarrow> (\<exists>x. m = Inr x \<and> f x = Inr y)"
  by (cases m) auto

lemma bindR_InrE:
  assumes "bindR m f = Inr y"
  obtains x where "m = Inr x" "f x = Inr y"
  using assms by (auto simp: bindR_Inr_iff)

lemma bindR_assoc: "bindR (bindR m f) g = bindR m (\<lambda>x. bindR (f x) g)"
  by (cases m) auto

section \<open>Machine integers\<close>

lemma sint_u64 [mach_simps]:
  "sint (x :: u64) = (if uint x < 2 ^ 63 then uint x else uint x - 2 ^ 64)"
proof -
  have b: "0 \<le> uint x" "uint x < 2 ^ 64" using uint_bounded [of x] by simp_all
  have eq: "sint x = (uint x + 2 ^ 63) mod 2 ^ 64 - 2 ^ 63"
    by (simp add: sint_uint signed_take_bit_eq_take_bit_shift take_bit_eq_mod)
  show ?thesis
  proof (cases "uint x < 2 ^ 63")
    case True
    then show ?thesis using b by (simp add: eq mod_pos_pos_trivial)
  next
    case False
    then have "(uint x + 2 ^ 63) mod 2 ^ 64 = uint x + 2 ^ 63 - 2 ^ 64"
      using b by (simp add: mod_pos_geq)
    then show ?thesis using False by (simp add: eq)
  qed
qed

lemma uint_add_u64 [mach_simps]:
  "uint (a + b :: u64) =
    (if uint a + uint b < 2 ^ 64 then uint a + uint b else uint a + uint b - 2 ^ 64)"
  using uint_plus_if' [of a b] by simp

lemma uint_sub_u64 [mach_simps]:
  "uint (a - b :: u64) =
    (if uint b \<le> uint a then uint a - uint b else uint a - uint b + 2 ^ 64)"
  using uint_sub_if' [of a b] by simp

lemma uint_neg_u64 [mach_simps]:
  "uint (- b :: u64) = (if b = 0 then 0 else 2 ^ 64 - uint b)"
  using uint_sub_if' [of 0 b] by (auto simp: word_uint_eq_iff)

lemma uint_u64_bounds: "0 \<le> uint (x :: u64)" "uint x < 2 ^ 64"
  using uint_bounded [of x] by simp_all

lemma sint_u64_bounds: "- (2 ^ 63) \<le> sint (x :: u64)" "sint x < 2 ^ 63"
  using uint_u64_bounds(2) [of x]
  by (auto simp: sint_u64; use uint_u64_bounds(1) [of x] in linarith)+

lemma bit_u64_iff: "bit (x :: u64) n \<longleftrightarrow> n < 64 \<and> odd (uint x div 2 ^ n)"
proof -
  have "bit (uint x) n \<longleftrightarrow> n < 64 \<and> bit x n" by (simp add: bit_uint_iff)
  moreover have "bit x n \<Longrightarrow> n < 64" by (drule bit_imp_le_length) simp
  ultimately show ?thesis by (auto simp only: bit_iff_odd [of "uint x"])
qed

lemma and_exp_u64: "x AND 2 ^ n \<noteq> (0 :: u64) \<longleftrightarrow> n < 64 \<and> odd (uint x div 2 ^ n)"
  by (simp add: and_exp_eq_0_iff_not_bit bit_u64_iff)

lemma and_exp_eq_exp:
  assumes "bit (x :: u64) n"
  shows "x AND 2 ^ n = 2 ^ n"
proof (rule bit_eqI)
  fix m
  show "bit (x AND 2 ^ n) m = bit (2 ^ n :: u64) m"
    using assms by (auto simp: bit_and_iff bit_exp_iff)
qed

lemma and_plus_and_not: "(x AND m) + (x AND NOT m) = (x :: u64)"
proof -
  have "(x AND m) AND (x AND NOT m) = 0"
    by (rule bit_eqI) (auto simp: bit_simps)
  then have "(x AND m) + (x AND NOT m) = (x AND m) OR (x AND NOT m)"
    by (rule disjunctive_add_eq_or)
  also have "\<dots> = x" by (rule bit_eqI) (auto simp: bit_simps)
  finally show ?thesis .
qed

section \<open>Bit operations on natural numbers\<close>

lemma and_mask_mod:
  "and n 1 = n mod 2" "and n 3 = n mod 4" "and n 7 = n mod 8" "and n 15 = n mod 16"
  "and n 31 = n mod 32" "and n 63 = n mod 64" "and n 255 = n mod (256 :: nat)"
  using take_bit_eq_mask [of 1 n] take_bit_eq_mask [of 2 n] take_bit_eq_mask [of 3 n]
    take_bit_eq_mask [of 4 n] take_bit_eq_mask [of 5 n] take_bit_eq_mask [of 6 n] take_bit_eq_mask [of 8 n]
  by (simp_all add: mask_eq_exp_minus_1 take_bit_eq_mod)

lemma or_shift: "r < 2 ^ n \<Longrightarrow> or (push_bit n q) r = q * 2 ^ n + (r :: nat)"
proof -
  assume r: "r < 2 ^ n"
  have "and (push_bit n q) r = 0"
  proof (rule bit_eqI)
    fix m
    have "\<not> bit r m" if "n \<le> m"
    proof -
      have "r < 2 ^ m" using r that by (meson less_le_trans one_le_numeral power_increasing)
      then show ?thesis by (simp add: bit_iff_odd)
    qed
    then show "bit (and (push_bit n q) r) m = bit (0 :: nat) m" by (auto simp: bit_and_iff bit_push_bit_iff)
  qed
  then show ?thesis using disjunctive_add_eq_or [of "push_bit n q" r] by (simp add: push_bit_eq_mult)
qed

lemma bit_unat: "bit x n \<longleftrightarrow> odd (unat x div 2 ^ n)" for x :: "'a :: len word"
proof -
  have "bit x n \<longleftrightarrow> bit (unat x) n" by (auto simp: bit_unsigned_iff dest: bit_imp_possible_bit)
  then show ?thesis by (simp add: bit_iff_odd)
qed

end
