(* ===== verification/Time.thy ===== *)
theory Time
  imports Prelude
begin

text \<open>
  The time values of \<open>src/time.c\<close> and \<open>src/shims/time.h\<close>: a
  \<open>dispatch_time_t\<close> is a 64-bit word whose two top bits say which clock it belongs to.
  The clocks of the operating system are the parameter \<open>clocks\<close> of every operation
  that reads one. The configuration is the one where the time unit is the nanosecond
  (\<open>DISPATCH_TIME_UNIT_USES_NANOSECONDS\<close>: x86 and every platform without
  \<open>mach_absolute_time\<close>). Signed arithmetic is two's complement, as the library is built.
\<close>

section \<open>Clocks and constants\<close>

datatype dispatch_clock_t =
    DISPATCH_CLOCK_UPTIME
  | DISPATCH_CLOCK_MONOTONIC
  | DISPATCH_CLOCK_WALL

record clocks =
  uptime :: u64
  monotonic_time :: u64
  nanoseconds :: u64

record timespec =
  tv_sec :: u64
  tv_nsec :: u64

abbreviation (input) DISPATCH_TIME_FOREVER :: u64 where
  "DISPATCH_TIME_FOREVER \<equiv> 0xFFFFFFFFFFFFFFFF"
abbreviation (input) DISPATCH_TIME_NOW :: u64 where
  "DISPATCH_TIME_NOW \<equiv> 0"
abbreviation (input) DISPATCH_WALLTIME_NOW :: u64 where
  "DISPATCH_WALLTIME_NOW \<equiv> 0xFFFFFFFFFFFFFFFE"
abbreviation (input) DISPATCH_MONOTONICTIME_NOW :: u64 where
  "DISPATCH_MONOTONICTIME_NOW \<equiv> 0x8000000000000000"
abbreviation (input) DISPATCH_UP_OR_MONOTONIC_TIME_MASK :: u64 where
  "DISPATCH_UP_OR_MONOTONIC_TIME_MASK \<equiv> 0x8000000000000000"
abbreviation (input) DISPATCH_WALLTIME_MASK :: u64 where
  "DISPATCH_WALLTIME_MASK \<equiv> 0x4000000000000000"
abbreviation (input) DISPATCH_TIME_MAX_VALUE :: u64 where
  "DISPATCH_TIME_MAX_VALUE \<equiv> 0x3FFFFFFFFFFFFFFF"
abbreviation (input) NSEC_PER_SEC :: u64 where
  "NSEC_PER_SEC \<equiv> 1000000000"

section \<open>Reading the clocks\<close>

definition dispatch_time_mach2nano :: "u64 \<Rightarrow> u64" where
  "dispatch_time_mach2nano machtime = machtime"

definition dispatch_time_nano2mach :: "u64 \<Rightarrow> u64" where
  "dispatch_time_nano2mach nsec = nsec"

definition dispatch_timespec_to_nano :: "timespec \<Rightarrow> u64" where
  "dispatch_timespec_to_nano ts = tv_sec ts * NSEC_PER_SEC + tv_nsec ts"

fun dispatch_time_now :: "clocks \<Rightarrow> dispatch_clock_t \<Rightarrow> u64" where
  "dispatch_time_now c DISPATCH_CLOCK_UPTIME = uptime c"
| "dispatch_time_now c DISPATCH_CLOCK_MONOTONIC = monotonic_time c"
| "dispatch_time_now c DISPATCH_CLOCK_WALL = nanoseconds c"

text \<open>
  The cache of a timer drain: one value per clock, 0 for "not read yet". A miss reads all three
  clocks at once (\<open>mach_get_times\<close>).
\<close>

record dispatch_clock_now_cache_s =
  now_uptime :: u64
  now_monotonic :: u64
  now_wall :: u64

fun nows :: "dispatch_clock_now_cache_s \<Rightarrow> dispatch_clock_t \<Rightarrow> u64" where
  "nows cache DISPATCH_CLOCK_UPTIME = now_uptime cache"
| "nows cache DISPATCH_CLOCK_MONOTONIC = now_monotonic cache"
| "nows cache DISPATCH_CLOCK_WALL = now_wall cache"

definition dispatch_time_now_cached ::
  "clocks \<Rightarrow> dispatch_clock_t \<Rightarrow> dispatch_clock_now_cache_s
   \<Rightarrow> dispatch_clock_now_cache_s \<times> u64" where
  "dispatch_time_now_cached c clock cache =
     (if nows cache clock \<noteq> 0 then (cache, nows cache clock)
      else
        let cache' = \<lparr>now_uptime = uptime c, now_monotonic = monotonic_time c,
                      now_wall = nanoseconds c\<rparr>
        in (cache', nows cache' clock))"

section \<open>Encoding and decoding\<close>

definition dispatch_time_to_clock_and_value ::
  "clocks \<Rightarrow> u64 \<Rightarrow> bool \<Rightarrow> dispatch_clock_t \<times> u64" where
  "dispatch_time_to_clock_and_value c time allow_now =
     (if allow_now \<and> time = DISPATCH_TIME_NOW then
        (DISPATCH_CLOCK_UPTIME, uptime c)
      else if allow_now \<and> time = DISPATCH_MONOTONICTIME_NOW then
        (DISPATCH_CLOCK_MONOTONIC, monotonic_time c)
      else if allow_now \<and> time = DISPATCH_WALLTIME_NOW then
        (DISPATCH_CLOCK_WALL, nanoseconds c)
      else
        let (clock, actual_value) =
          (if sint time < 0 then
             (if time AND DISPATCH_WALLTIME_MASK \<noteq> 0 then (DISPATCH_CLOCK_WALL, - time)
              else (DISPATCH_CLOCK_MONOTONIC, time AND NOT DISPATCH_UP_OR_MONOTONIC_TIME_MASK))
           else (DISPATCH_CLOCK_UPTIME, time))
        in (clock, if actual_value > DISPATCH_TIME_MAX_VALUE then DISPATCH_TIME_FOREVER
                   else actual_value))"

definition dispatch_clock_and_value_to_time :: "dispatch_clock_t \<Rightarrow> u64 \<Rightarrow> u64" where
  "dispatch_clock_and_value_to_time clock value =
     (if value \<ge> DISPATCH_TIME_MAX_VALUE then DISPATCH_TIME_FOREVER
      else case clock of
        DISPATCH_CLOCK_WALL \<Rightarrow> - value
      | DISPATCH_CLOCK_UPTIME \<Rightarrow> value
      | DISPATCH_CLOCK_MONOTONIC \<Rightarrow> value OR DISPATCH_UP_OR_MONOTONIC_TIME_MASK)"

section \<open>The operations of time.c\<close>

definition dispatch_time :: "clocks \<Rightarrow> u64 \<Rightarrow> u64 \<Rightarrow> u64" where
  "dispatch_time c inval delta =
     (if inval = DISPATCH_TIME_FOREVER then DISPATCH_TIME_FOREVER
      else
        let (clock, value) = dispatch_time_to_clock_and_value c inval True in
        if value = DISPATCH_TIME_FOREVER then value
        else if clock = DISPATCH_CLOCK_WALL then
          let value' = value + delta in
          (if sint delta \<ge> 0 then
             (if sint value' \<le> 0 then DISPATCH_TIME_FOREVER
              else dispatch_clock_and_value_to_time DISPATCH_CLOCK_WALL value')
           else
             (if sint value' < 1
              then dispatch_clock_and_value_to_time DISPATCH_CLOCK_WALL 2
              else dispatch_clock_and_value_to_time DISPATCH_CLOCK_WALL value'))
        else if sint delta \<ge> 0 then
          let value' = value + dispatch_time_nano2mach delta in
          (if sint value' \<le> 0 then DISPATCH_TIME_FOREVER
           else dispatch_clock_and_value_to_time clock value')
        else
          let value' = value - dispatch_time_nano2mach (- delta) in
          (if sint value' < 1 then dispatch_clock_and_value_to_time clock 1
           else dispatch_clock_and_value_to_time clock value'))"

text \<open>The result of \<open>dispatch_time_to_nsecs\<close>: clock id, nanoseconds, success.\<close>

definition dispatch_time_to_nsecs :: "clocks \<Rightarrow> u64 \<Rightarrow> u64 \<times> u64 \<times> bool" where
  "dispatch_time_to_nsecs c time =
     (let (clock, nsecs) = dispatch_time_to_clock_and_value c time True in
      if nsecs \<noteq> DISPATCH_TIME_FOREVER then
        (case clock of
           DISPATCH_CLOCK_WALL \<Rightarrow> (3, nsecs, True)
         | DISPATCH_CLOCK_UPTIME \<Rightarrow> (1, nsecs, True)
         | DISPATCH_CLOCK_MONOTONIC \<Rightarrow> (2, nsecs, True))
      else (0, 0xFFFFFFFFFFFFFFFF, False))"

definition dispatch_walltime :: "clocks \<Rightarrow> timespec option \<Rightarrow> u64 \<Rightarrow> u64" where
  "dispatch_walltime c inval delta =
     (let nsec = (case inval of Some ts \<Rightarrow> dispatch_timespec_to_nano ts
                  | None \<Rightarrow> nanoseconds c);
          nsec' = nsec + delta
      in if sint nsec' \<le> 1 then
           (if sint delta \<ge> 0 then DISPATCH_TIME_FOREVER else - 2)
         else - nsec')"

definition dispatch_timeout :: "clocks \<Rightarrow> u64 \<Rightarrow> u64" where
  "dispatch_timeout c when =
     (if when = DISPATCH_TIME_FOREVER then DISPATCH_TIME_FOREVER
      else if when = DISPATCH_TIME_NOW \<or> when = DISPATCH_MONOTONICTIME_NOW \<or>
              when = DISPATCH_WALLTIME_NOW then 0
      else
        let (clock, value) = dispatch_time_to_clock_and_value c when False in
        if clock = DISPATCH_CLOCK_WALL then
          (let now = nanoseconds c in if now \<ge> value then 0 else value - now)
        else
          (let now = (if clock = DISPATCH_CLOCK_UPTIME then uptime c else monotonic_time c)
           in if now \<ge> value then 0 else dispatch_time_mach2nano (value - now)))"

definition dispatch_time_nanoseconds_since_epoch :: "clocks \<Rightarrow> u64 \<Rightarrow> u64" where
  "dispatch_time_nanoseconds_since_epoch c when =
     (if when = DISPATCH_TIME_FOREVER then DISPATCH_TIME_FOREVER
      else if sint when < 0 then - when
      else nanoseconds c + dispatch_timeout c when)"

section \<open>The two top bits\<close>

lemma and_walltime_mask:
  assumes "2 ^ 63 \<le> uint x"
  shows "x AND DISPATCH_WALLTIME_MASK \<noteq> 0 \<longleftrightarrow> 2 ^ 63 + 2 ^ 62 \<le> uint x"
proof -
  have "uint x < 2 ^ 64" by (rule uint_u64_bounds)
  with assms have "uint x div 2 ^ 62 = 2 \<or> uint x div 2 ^ 62 = 3" by auto
  moreover have "uint x div 2 ^ 62 = 3 \<longleftrightarrow> 2 ^ 63 + 2 ^ 62 \<le> uint x"
    using assms \<open>uint x < 2 ^ 64\<close> by auto
  ultimately show ?thesis using and_exp_u64 [of x 62] by auto
qed

lemma uint_set_top:
  assumes "uint x < 2 ^ 63"
  shows "uint (x OR DISPATCH_UP_OR_MONOTONIC_TIME_MASK) = uint x + 2 ^ 63"
proof -
  have "x AND 2 ^ 63 = 0"
    using assms and_exp_u64 [of x 63] uint_u64_bounds(1) [of x] by auto
  then have "x OR 2 ^ 63 = x + 2 ^ 63" by (simp add: disjunctive_add_eq_or)
  then show ?thesis using assms by (simp add: uint_add_u64)
qed

lemma uint_clear_top:
  assumes "2 ^ 63 \<le> uint x"
  shows "uint (x AND NOT DISPATCH_UP_OR_MONOTONIC_TIME_MASK) = uint x - 2 ^ 63"
proof -
  have "uint x div 2 ^ 63 = 1" using assms uint_u64_bounds(2) [of x] by auto
  then have "bit x 63" by (simp add: bit_u64_iff)
  then have "x AND 2 ^ 63 = 2 ^ 63" by (rule and_exp_eq_exp)
  then have "2 ^ 63 + (x AND NOT (2 ^ 63)) = x"
    using and_plus_and_not [of x "2 ^ 63"] by simp
  then have "x AND NOT (2 ^ 63) = x - 2 ^ 63" by (metis add_diff_cancel_left')
  then show ?thesis using assms by (simp add: uint_sub_u64)
qed

section \<open>Round trip of the encoding\<close>

lemma decode_encode:
  assumes "uint v < 2 ^ 62 - 1" and "clock = DISPATCH_CLOCK_WALL \<Longrightarrow> 1 \<le> uint v"
  shows "dispatch_time_to_clock_and_value c (dispatch_clock_and_value_to_time clock v) False
         = (clock, v)"
proof -
  have v: "\<not> DISPATCH_TIME_MAX_VALUE \<le> v" "\<not> DISPATCH_TIME_MAX_VALUE < v"
    using assms(1) by (simp_all add: word_le_def word_less_def)
  have pos: "0 \<le> uint v" by simp
  show ?thesis
  proof (cases clock)
    case DISPATCH_CLOCK_UPTIME
    with v assms(1) show ?thesis
      by (simp add: dispatch_time_to_clock_and_value_def dispatch_clock_and_value_to_time_def
          sint_u64)
  next
    case DISPATCH_CLOCK_MONOTONIC
    have top: "uint (v OR DISPATCH_UP_OR_MONOTONIC_TIME_MASK) = uint v + 2 ^ 63"
      using assms(1) by (intro uint_set_top) simp
    then have "uint ((v OR DISPATCH_UP_OR_MONOTONIC_TIME_MASK) AND
        NOT DISPATCH_UP_OR_MONOTONIC_TIME_MASK) = uint v"
      using pos by (subst uint_clear_top) simp_all
    then have "(v OR DISPATCH_UP_OR_MONOTONIC_TIME_MASK) AND
        NOT DISPATCH_UP_OR_MONOTONIC_TIME_MASK = v"
      by (simp only: word_uint_eq_iff)
    moreover have "(v OR DISPATCH_UP_OR_MONOTONIC_TIME_MASK) AND DISPATCH_WALLTIME_MASK = 0"
      using and_walltime_mask [of "v OR DISPATCH_UP_OR_MONOTONIC_TIME_MASK"] top assms(1) pos
      by auto
    ultimately show ?thesis
      using DISPATCH_CLOCK_MONOTONIC v top assms(1) pos
      by (simp add: dispatch_time_to_clock_and_value_def dispatch_clock_and_value_to_time_def
          sint_u64)
  next
    case DISPATCH_CLOCK_WALL
    then have "1 \<le> uint v" by (rule assms(2))
    then have neg: "uint (- v) = 2 ^ 64 - uint v" by (auto simp: uint_neg_u64)
    have "- v AND DISPATCH_WALLTIME_MASK \<noteq> 0"
      using neg assms(1) by (subst and_walltime_mask) simp_all
    then show ?thesis
      using DISPATCH_CLOCK_WALL v neg assms(1) \<open>1 \<le> uint v\<close>
      by (simp add: dispatch_time_to_clock_and_value_def dispatch_clock_and_value_to_time_def
          sint_u64)
  qed
qed

section \<open>The specification of dispatch_time\<close>

text \<open>
  What \<open>dispatch_time\<close> promises, on mathematical integers: add the offset to the value
  of the start time and saturate at both ends of the clock's range.
\<close>

definition time_saturate :: "dispatch_clock_t \<Rightarrow> int \<Rightarrow> u64" where
  "time_saturate clock n =
     (if n \<ge> 2 ^ 62 - 1 then DISPATCH_TIME_FOREVER
      else dispatch_clock_and_value_to_time clock
        (if 1 \<le> n then word_of_int n
         else if clock = DISPATCH_CLOCK_WALL then 2 else 1))"

lemma saturate_add:
  fixes v delta :: u64
  assumes "uint v + d < 2 ^ 63" "1 \<le> uint v + d" "d = sint delta"
  shows "uint (v + delta) = uint v + d" 
  using assms uint_u64_bounds(2) [of v] uint_u64_bounds(2) [of delta]
  by (auto simp: uint_add_u64 sint_u64 split: if_splits;
      use uint_u64_bounds(1) [of v] uint_u64_bounds(1) [of delta] in linarith)

lemma sint_add_small:
  fixes v delta :: u64
  assumes "uint v < 2 ^ 62"
  shows "sint (v + delta) = 
     (if uint v + sint delta < 2 ^ 63 then uint v + sint delta else uint v + sint delta - 2 ^ 64)"
  using assms uint_u64_bounds(2) [of v] uint_u64_bounds(2) [of delta]
  by (auto simp: uint_add_u64 sint_u64 split: if_splits;
      use uint_u64_bounds(1) [of v] uint_u64_bounds(1) [of delta] in linarith)

lemma saturating_sum:
  assumes dec: "dispatch_time_to_clock_and_value c inval True = (clock, v)"
    and "inval \<noteq> DISPATCH_TIME_FOREVER" and v: "1 \<le> uint v" "uint v < 2 ^ 62"
  shows "dispatch_time c inval delta = time_saturate clock (uint v + sint delta)"
proof -
  have nf: "v \<noteq> DISPATCH_TIME_FOREVER" using v by auto
  let ?n = "uint v + sint delta"
  have wrap: "v - - delta = v + delta" by simp
  have s: "sint (v + delta) = (if ?n < 2 ^ 63 then ?n else ?n - 2 ^ 64)"
    using v(2) by (rule sint_add_small)
  have lo: "- (2 ^ 63) \<le> sint delta" "sint delta < 2 ^ 63"
    using sint_u64_bounds [of delta] by simp_all
  have w: "v + delta = word_of_int ?n" by (simp add: of_int_sint)
  have fv: "dispatch_clock_and_value_to_time k (v + delta) = DISPATCH_TIME_FOREVER" 
    if "2 ^ 62 - 1 \<le> ?n" "?n < 2 ^ 63" for k
    using saturate_add [of v "sint delta" delta] that
    by (simp add: dispatch_clock_and_value_to_time_def word_le_def)
  show ?thesis
    using assms(2) nf s lo v fv
    by (auto simp: dispatch_time_def dec Let_def wrap time_saturate_def dispatch_time_nano2mach_def
        w [symmetric])
qed

section \<open>Deadlines\<close>

text \<open>The three start times that stand for the current value of a clock.\<close>

fun time_now_constant :: "dispatch_clock_t \<Rightarrow> u64" where
  "time_now_constant DISPATCH_CLOCK_UPTIME = DISPATCH_TIME_NOW"
| "time_now_constant DISPATCH_CLOCK_MONOTONIC = DISPATCH_MONOTONICTIME_NOW"
| "time_now_constant DISPATCH_CLOCK_WALL = DISPATCH_WALLTIME_NOW"

lemma decode_now:
  "dispatch_time_to_clock_and_value c (time_now_constant clock) True =
     (clock, dispatch_time_now c clock)"
  by (cases clock) (simp_all add: dispatch_time_to_clock_and_value_def)

lemma time_now_constant_not_forever: "time_now_constant clock \<noteq> DISPATCH_TIME_FOREVER"
  by (cases clock) simp_all

lemma encode_not_special:
  assumes "uint v < 2 ^ 62 - 1" "1 \<le> uint v" "clock = DISPATCH_CLOCK_WALL \<Longrightarrow> 3 \<le> uint v"
  defines "t \<equiv> dispatch_clock_and_value_to_time clock v"
  shows "t \<noteq> DISPATCH_TIME_FOREVER \<and> t \<noteq> DISPATCH_TIME_NOW \<and>
         t \<noteq> DISPATCH_MONOTONICTIME_NOW \<and> t \<noteq> DISPATCH_WALLTIME_NOW"
proof -
  have le: "\<not> DISPATCH_TIME_MAX_VALUE \<le> v" using assms(1) by (simp add: word_le_def)
  have "uint t = (case clock of DISPATCH_CLOCK_WALL \<Rightarrow> 2 ^ 64 - uint v
      | DISPATCH_CLOCK_UPTIME \<Rightarrow> uint v | DISPATCH_CLOCK_MONOTONIC \<Rightarrow> uint v + 2 ^ 63)"
  proof (cases clock)
    case DISPATCH_CLOCK_MONOTONIC
    with le assms(1) uint_set_top [of v] show ?thesis
      by (simp add: t_def dispatch_clock_and_value_to_time_def)
  next
    case DISPATCH_CLOCK_WALL
    with le assms(3) show ?thesis
      by (auto simp: t_def dispatch_clock_and_value_to_time_def uint_neg_u64)
  next
    case DISPATCH_CLOCK_UPTIME
    with le show ?thesis by (simp add: t_def dispatch_clock_and_value_to_time_def)
  qed
  with assms(1-3) show ?thesis
    by (auto simp: word_uint_eq_iff split: dispatch_clock_t.splits)
qed

lemma timeout_encode:
  assumes "uint v < 2 ^ 62 - 1" "1 \<le> uint v" "clock = DISPATCH_CLOCK_WALL \<Longrightarrow> 3 \<le> uint v"
  shows "dispatch_timeout c (dispatch_clock_and_value_to_time clock v) =
    (if dispatch_time_now c clock \<ge> v then 0 else v - dispatch_time_now c clock)"
proof -
  have dec: "dispatch_time_to_clock_and_value c (dispatch_clock_and_value_to_time clock v) False
      = (clock, v)"
    using assms by (intro decode_encode) simp_all
  have "dispatch_clock_and_value_to_time clock v \<noteq> DISPATCH_TIME_FOREVER \<and>
      dispatch_clock_and_value_to_time clock v \<noteq> DISPATCH_TIME_NOW \<and>
      dispatch_clock_and_value_to_time clock v \<noteq> DISPATCH_MONOTONICTIME_NOW \<and>
      dispatch_clock_and_value_to_time clock v \<noteq> DISPATCH_WALLTIME_NOW"
    using assms by (intro encode_not_special)
  then have "dispatch_timeout c (dispatch_clock_and_value_to_time clock v) =
      (if clock = DISPATCH_CLOCK_WALL then if nanoseconds c \<ge> v then 0 else v - nanoseconds c
       else let now = (if clock = DISPATCH_CLOCK_UPTIME then uptime c else monotonic_time c)
            in if now \<ge> v then 0 else v - now)"
    by (simp add: dispatch_timeout_def dec dispatch_time_mach2nano_def Let_def)
  then show ?thesis by (cases clock) simp_all
qed

text \<open>a deadline set \<open>delta\<close> nanoseconds from now, on any of the three clocks, times
  out in exactly \<open>delta\<close> nanoseconds: \<open>dispatch_timeout\<close> inverts
  \<open>dispatch_time\<close> through the encoding of the clock in the top bits.\<close>

theorem dispatch_time_deadline:
  assumes "3 \<le> uint (dispatch_time_now c clock)" "0 \<le> sint delta"
    and "uint (dispatch_time_now c clock) + sint delta < 2 ^ 62 - 1"
  shows "dispatch_timeout c (dispatch_time c (time_now_constant clock) delta) = delta"
proof -
  let ?now = "dispatch_time_now c clock"
  have pos: "1 \<le> uint ?now + uint delta" "3 \<le> uint ?now + uint delta"
    using assms(1) uint_u64_bounds(1) [of delta] by linarith+
  have d: "sint delta = uint delta"
    using assms(2) uint_u64_bounds(2) [of delta] by (auto simp: sint_u64 split: if_splits)
  have sum: "uint (?now + delta) = uint ?now + uint delta"
    using assms(3) d by (simp add: uint_add_u64)
  have "dispatch_time c (time_now_constant clock) delta
      = time_saturate clock (uint ?now + sint delta)"
    using assms by (intro saturating_sum decode_now time_now_constant_not_forever) simp_all
  also have "\<dots> = dispatch_clock_and_value_to_time clock (?now + delta)"
    using assms(3) d pos by (simp add: time_saturate_def)
  finally have "dispatch_timeout c (dispatch_time c (time_now_constant clock) delta) =
      (if ?now \<ge> ?now + delta then 0 else ?now + delta - ?now)"
    using assms(1,3) d sum pos by (subst timeout_encode [symmetric]) simp_all
  then show ?thesis
    using sum by (auto simp: word_le_def word_uint_eq_iff)
qed

text \<open>on the uptime and the monotonic clock a later offset never gives an earlier deadline:
  the remaining time is monotone in the (signed) offset, through saturation at both ends.\<close>

theorem dispatch_time_mono:
  assumes dec: "dispatch_time_to_clock_and_value c inval True = (clock, v)"
    and inval: "inval \<noteq> DISPATCH_TIME_FOREVER" and v: "1 \<le> uint v" "uint v < 2 ^ 62"
    and clock: "clock \<noteq> DISPATCH_CLOCK_WALL" and le: "sint d1 \<le> sint d2"
  shows "dispatch_timeout c (dispatch_time c inval d1) \<le>
         dispatch_timeout c (dispatch_time c inval d2)"
proof -
  have t: "uint (dispatch_timeout c (time_saturate clock n)) =
      (if n \<ge> 2 ^ 62 - 1 then 2 ^ 64 - 1
       else max 0 (max 1 n - uint (dispatch_time_now c clock)))" for n
  proof (cases "n \<ge> 2 ^ 62 - 1")
    case True
    then show ?thesis by (simp add: time_saturate_def dispatch_timeout_def)
  next
    case False
    define w where "w = max 1 n"
    have u: "uint (word_of_int w :: u64) = w"
      using False unfolding w_def by (simp add: uint_word_of_int)
    have "dispatch_timeout c (time_saturate clock n) =
        dispatch_timeout c (dispatch_clock_and_value_to_time clock (word_of_int w))"
      using False clock by (simp add: time_saturate_def w_def max_def)
    also have "\<dots> = (if dispatch_time_now c clock \<ge> word_of_int w then 0
        else word_of_int w - dispatch_time_now c clock)"
      using False clock u unfolding w_def by (intro timeout_encode) simp_all
    finally show ?thesis
      using False u by (simp add: word_le_def w_def [symmetric] uint_sub_u64)
  qed
  have b: "max 0 (max 1 n - uint (dispatch_time_now c clock)) \<le> 2 ^ 64 - 1"
    if "n < 2 ^ 62 - 1" for n
    using that uint_u64_bounds(1) [of "dispatch_time_now c clock"] unfolding max_def
    by (simp del: uint_u64_bounds uint_ge_0, linarith)
  show ?thesis
    using le b by (auto simp: saturating_sum [OF dec inval v] t word_le_def)
qed

theorem dispatch_time_deadline_witness:
  "dispatch_timeout \<lparr>uptime = 5, monotonic_time = 7, nanoseconds = 1000\<rparr>
     (dispatch_time \<lparr>uptime = 5, monotonic_time = 7, nanoseconds = 1000\<rparr>
       DISPATCH_WALLTIME_NOW 250) = 250"
  using dispatch_time_deadline
    [of "\<lparr>uptime = 5, monotonic_time = 7, nanoseconds = 1000\<rparr>" DISPATCH_CLOCK_WALL 250]
  by simp



theorem dispatch_time_mono_witness:
  "dispatch_timeout \<lparr>uptime = 5, monotonic_time = 7, nanoseconds = 1000\<rparr>
     (dispatch_time \<lparr>uptime = 5, monotonic_time = 7, nanoseconds = 1000\<rparr> 100 (- 10)) \<le>
   dispatch_timeout \<lparr>uptime = 5, monotonic_time = 7, nanoseconds = 1000\<rparr>
     (dispatch_time \<lparr>uptime = 5, monotonic_time = 7, nanoseconds = 1000\<rparr> 100 10)"
  by (rule dispatch_time_mono [where clock = DISPATCH_CLOCK_UPTIME and v = 100])
    (simp_all add: dispatch_time_to_clock_and_value_def)

section \<open>Wall times\<close>

text \<open>on the wall clock a sum of exactly 1 encodes as -1, which is FOREVER: a deadline in
  the past turns into one that never comes. The underflow test of \<open>dispatch_time\<close>
  compares with \<open>< 1\<close> where \<open>dispatch_walltime\<close> compares with
  \<open><= 1\<close>.\<close>

theorem dispatch_time_wall_sum_one:
  assumes dec: "dispatch_time_to_clock_and_value c inval True = (DISPATCH_CLOCK_WALL, v)"
    and "inval \<noteq> DISPATCH_TIME_FOREVER" and v: "1 \<le> uint v" "uint v < 2 ^ 62"
    and "uint v + sint delta = 1"
  shows "dispatch_time c inval delta = DISPATCH_TIME_FOREVER"
  using saturating_sum [OF dec assms(2) v, of delta] assms(5)
  by (simp add: time_saturate_def dispatch_clock_and_value_to_time_def)

theorem dispatch_time_wall_sum_one_witness:
  "dispatch_time \<lparr>uptime = 5, monotonic_time = 7, nanoseconds = 1000\<rparr> (- 3) (- 2)
     = DISPATCH_TIME_FOREVER"
  by (rule dispatch_time_wall_sum_one [where v = 3])
    (simp_all add: dispatch_time_to_clock_and_value_def)

lemma decode_negative:
  assumes "t = - w" "2 \<le> uint w" "uint w < 2 ^ 63"
  shows "dispatch_time_to_clock_and_value c t False =
    (if uint w \<le> 2 ^ 62 - 1 then (DISPATCH_CLOCK_WALL, w)
     else if uint w = 2 ^ 62 then (DISPATCH_CLOCK_WALL, DISPATCH_TIME_FOREVER)
     else (DISPATCH_CLOCK_MONOTONIC, 2 ^ 63 - w))"
proof -
  have t: "uint t = 2 ^ 64 - uint w" using assms by (auto simp: uint_neg_u64)
  then have top: "2 ^ 63 \<le> uint t" "sint t < 0" using assms by (simp_all add: sint_u64)
  have m: "t AND DISPATCH_WALLTIME_MASK \<noteq> 0 \<longleftrightarrow> uint w \<le> 2 ^ 62"
    using and_walltime_mask [OF top(1)] t by auto
  have mono: "t AND NOT DISPATCH_UP_OR_MONOTONIC_TIME_MASK = 2 ^ 63 - w"
    using uint_clear_top [OF top(1)] t assms(2,3)
    by (simp add: word_uint_eq_iff uint_sub_u64)
  have diff: "uint (2 ^ 63 - w) = 2 ^ 63 - uint w"
    using assms(3) by (simp add: uint_sub_u64)
  have "uint w = 2 ^ 62 \<longleftrightarrow> w = DISPATCH_WALLTIME_MASK" by (simp add: word_uint_eq_iff)
  then show ?thesis
    using top(2) m mono assms diff
    by (auto simp: dispatch_time_to_clock_and_value_def Let_def word_less_def uint_word_of_int)
qed

text \<open>C2: which clock and value a result of \<open>dispatch_walltime\<close> stands for. Up to 2^62 - 1
  nanoseconds it is that wall time; at 2^62 it is out of range; from there to 2^63 the two's
  complement leaves bit 62 clear and the result is a time of the monotonic clock, since this
  function does not use the range check of \<open>dispatch_clock_and_value_to_time\<close>.\<close>

theorem dispatch_walltime_decodes:
  assumes "2 \<le> uint nsec + sint delta" "uint nsec < 2 ^ 63" "uint nsec + sint delta < 2 ^ 63"
    and "nsec = (case inval of Some ts \<Rightarrow> dispatch_timespec_to_nano ts | None \<Rightarrow> nanoseconds c)"
  shows "dispatch_time_to_clock_and_value c (dispatch_walltime c inval delta) False =
    (if uint nsec + sint delta \<le> 2 ^ 62 - 1
     then (DISPATCH_CLOCK_WALL, nsec + delta)
     else if uint nsec + sint delta = 2 ^ 62 then (DISPATCH_CLOCK_WALL, DISPATCH_TIME_FOREVER)
     else (DISPATCH_CLOCK_MONOTONIC, 2 ^ 63 - (nsec + delta)))"
proof -
  let ?s = "uint nsec + sint delta"
  have u: "uint (nsec + delta) = ?s"
    using assms(1,3) uint_u64_bounds(2) [of delta]
    by (auto simp: uint_add_u64 sint_u64 split: if_splits;
        use uint_u64_bounds(1) [of nsec] uint_u64_bounds(1) [of delta] in linarith)
  then have s: "sint (nsec + delta) = ?s" using assms(3) by (simp add: sint_u64)
  have "dispatch_walltime c inval delta = - (nsec + delta)"
    using assms(1) s unfolding dispatch_walltime_def assms(4) [symmetric] Let_def by simp
  then show ?thesis
    using decode_negative [of "dispatch_walltime c inval delta" "nsec + delta" c] u assms(1,3)
    by simp
qed

theorem dispatch_walltime_decodes_witness:
  "dispatch_time_to_clock_and_value \<lparr>uptime = 5, monotonic_time = 7, nanoseconds = 2 ^ 61\<rparr>
     (dispatch_walltime \<lparr>uptime = 5, monotonic_time = 7, nanoseconds = 2 ^ 61\<rparr> None (2 ^ 62))
     False = (DISPATCH_CLOCK_MONOTONIC, 2 ^ 61)"
  using dispatch_walltime_decodes
    [where nsec = "2 ^ 61" and delta = "2 ^ 62" and inval = None
      and c = "\<lparr>uptime = 5, monotonic_time = 7, nanoseconds = 2 ^ 61\<rparr>"]
  by simp

text \<open>\<open>_dispatch_time_nanoseconds_since_epoch\<close> takes every time with the top bit
  set for a wall time. For a time of the monotonic clock the result is 2^63 minus its value: it
  does not depend on any clock and shrinks as the deadline moves into the future.\<close>

theorem dispatch_time_nanoseconds_since_epoch_monotonic:
  assumes "1 \<le> uint v" "uint v < 2 ^ 62 - 1"
  shows "dispatch_time_nanoseconds_since_epoch c
      (dispatch_clock_and_value_to_time DISPATCH_CLOCK_MONOTONIC v) = 2 ^ 63 - v"
proof -
  let ?t = "dispatch_clock_and_value_to_time DISPATCH_CLOCK_MONOTONIC v"
  have t: "?t = v OR DISPATCH_UP_OR_MONOTONIC_TIME_MASK"
    using assms(2) by (simp add: dispatch_clock_and_value_to_time_def word_le_def)
  have u: "uint ?t = uint v + 2 ^ 63" using assms(2) unfolding t by (intro uint_set_top) simp
  then have "?t = v + 2 ^ 63"
    using assms by (simp add: word_uint_eq_iff uint_add_u64)
  moreover have "- (v + 2 ^ 63) = 2 ^ 63 - v" by simp
  moreover have "?t \<noteq> DISPATCH_TIME_FOREVER"
    using u assms by (auto simp: word_uint_eq_iff)
  moreover have "sint ?t < 0" using u assms by (simp add: sint_u64)
  ultimately show ?thesis
    by (simp add: dispatch_time_nanoseconds_since_epoch_def)
qed

theorem dispatch_time_nanoseconds_since_epoch_monotonic_witness:
  "dispatch_time_nanoseconds_since_epoch
     \<lparr>uptime = 5, monotonic_time = 7, nanoseconds = 1000\<rparr>
     (dispatch_clock_and_value_to_time DISPATCH_CLOCK_MONOTONIC 10) = 2 ^ 63 - 10"
  by (rule dispatch_time_nanoseconds_since_epoch_monotonic) simp_all

end
