(* ===== verification/Dispatch_Data.thy ===== *)
theory Dispatch_Data
  imports Prelude
begin

text \<open>
  The data objects of \<open>src/data.c\<close> and \<open>src/data_internal.h\<close>: reference
  counted ropes of byte buffers. The heap maps the address of an object to its fields; a
  composite object names its leaves by address, so that sharing, retains and releases are
  those of the code.

  A pointer into a byte buffer is modelled by the bytes from it to the end of the buffer's
  allocation: adding \<open>n\<close> to it drops \<open>n\<close> bytes, and reading \<open>n\<close> bytes
  through it is out of bounds when fewer are left. \<open>None\<close> is the null pointer.

  Sizes are natural numbers below 2^64; every addition or subtraction of the code that is not
  guarded is taken modulo 2^64. Effects outside the heap (freeing a buffer, running a
  destructor on a queue, retains of a queue) are the list \<open>events\<close>, latest first.
  \<open>malloc_ok\<close> says for which sizes \<open>malloc\<close> succeeds.
\<close>

section \<open>The heap of data objects\<close>

type_synonym ptr = nat
type_synonym bytes = "u8 list"
type_synonym queue = nat

text \<open>
  \<open>DESTRUCTOR_DEFAULT\<close> is the null destructor; \<open>DESTRUCTOR_BLOCK\<close> is a block of
  the client and \<open>DESTRUCTOR_FUNCTION\<close> the block that calls a function of the client on
  the buffer.
\<close>

datatype destructor =
    DESTRUCTOR_DEFAULT
  | DESTRUCTOR_FREE
  | DESTRUCTOR_NONE
  | DESTRUCTOR_VM_DEALLOCATE
  | DESTRUCTOR_INLINE
  | DESTRUCTOR_BLOCK nat
  | DESTRUCTOR_FUNCTION nat

record range_record =
  data_object :: ptr
  rr_from :: nat
  rr_length :: nat

record dispatch_data_s =
  do_ref_cnt :: nat
  do_targetq :: "queue option"
  buf :: "bytes option"
  data_destructor :: destructor
  data_size :: nat
  records :: "range_record list"

datatype data_event =
    Ev_free "bytes option"
  | Ev_vm_deallocate "bytes option" nat
  | Ev_async_destructor "queue option" destructor
  | Ev_retain_queue queue
  | Ev_release_queue queue

record heap =
  objs :: "ptr \<rightharpoonup> dispatch_data_s"
  fresh :: ptr
  events :: "data_event list"
  malloc_ok :: "nat \<Rightarrow> bool"

abbreviation (input) dispatch_data_empty :: ptr where
  "dispatch_data_empty \<equiv> 0"

abbreviation (input) SIZE_LIMIT :: nat where
  "SIZE_LIMIT \<equiv> 18446744073709551616"

definition sz_add :: "nat \<Rightarrow> nat \<Rightarrow> nat" where
  "sz_add a b = (a + b) mod SIZE_LIMIT"

definition sz_sub :: "nat \<Rightarrow> nat \<Rightarrow> nat" where
  "sz_sub a b = (if b \<le> a then a - b else a + SIZE_LIMIT - b)"

definition data_lookup :: "heap \<Rightarrow> ptr \<Rightarrow> dispatch_data_s result" where
  "data_lookup h p = (case objs h p of None \<Rightarrow> Inl Use_after_free | Some dd \<Rightarrow> Inr dd)"

definition read_bytes :: "bytes option \<Rightarrow> nat \<Rightarrow> bytes result" where
  "read_bytes b n =
     (case b of None \<Rightarrow> Inl Null_deref
      | Some xs \<Rightarrow> if n \<le> length xs then Inr (take n xs) else Inl Out_of_bounds)"

text \<open>A loop over an array that stops at the first fault.\<close>

fun foldR :: "('s \<Rightarrow> 'a \<Rightarrow> 's result) \<Rightarrow> 's \<Rightarrow> 'a list \<Rightarrow> 's result" where
  "foldR f s [] = Inr s"
| "foldR f s (x # xs) = bindR (f s x) (\<lambda>s'. foldR f s' xs)"

section \<open>Leaves and records (data_internal.h)\<close>

definition dispatch_data_leaf :: "dispatch_data_s \<Rightarrow> bool" where
  "dispatch_data_leaf dd \<longleftrightarrow> length (records dd) = 0"

definition dispatch_data_num_records :: "dispatch_data_s \<Rightarrow> nat" where
  "dispatch_data_num_records dd =
     (if length (records dd) \<noteq> 0 then length (records dd) else 1)"

text \<open>The result: the buffer pointer (or null), \<open>*dd_out\<close> and \<open>*from_out\<close>.\<close>

definition dispatch_data_map_direct ::
  "heap \<Rightarrow> ptr \<Rightarrow> nat \<Rightarrow> (bytes option \<times> ptr \<times> nat) result" where
  "dispatch_data_map_direct h p offset =
     bindR (data_lookup h p) (\<lambda>dd.
     if data_size dd = 0 then Inl Assert_failed
     else
       let (q, off) =
         (if \<not> dispatch_data_leaf dd \<and> dispatch_data_num_records dd = 1
          then (data_object (records dd ! 0), sz_add offset (rr_from (records dd ! 0)))
          else (p, offset))
       in bindR (data_lookup h q) (\<lambda>dd'. Inr (map_option (drop off) (buf dd'), q, off)))"

section \<open>Retain, release and disposal\<close>

definition dispatch_data_retain :: "heap \<Rightarrow> ptr \<Rightarrow> heap result" where
  "dispatch_data_retain h p =
     (if p = dispatch_data_empty then Inr h
      else bindR (data_lookup h p) (\<lambda>dd.
        Inr (h\<lparr>objs := (objs h)(p \<mapsto> dd\<lparr>do_ref_cnt := do_ref_cnt dd + 1\<rparr>)\<rparr>)))"

definition dispatch_data_destroy_buffer ::
  "heap \<Rightarrow> bytes option \<Rightarrow> nat \<Rightarrow> queue option \<Rightarrow> destructor \<Rightarrow> heap" where
  "dispatch_data_destroy_buffer h buffer sz q d =
     (if d = DESTRUCTOR_FREE then h\<lparr>events := Ev_free buffer # events h\<rparr>
      else if d = DESTRUCTOR_NONE then h
      else if d = DESTRUCTOR_VM_DEALLOCATE
        then h\<lparr>events := Ev_vm_deallocate buffer sz # events h\<rparr>
      else h\<lparr>events := Ev_async_destructor q d # events h\<rparr>)"

text \<open>
  Dropping a reference; the last one disposes of the object, which releases the leaves of a
  composite one. The recursion goes from a composite object to its leaves and no further, so
  two levels of fuel are enough (lemma \<open>data_release_ok\<close>).
\<close>

definition dispatch_data_dispose ::
  "(heap \<Rightarrow> ptr \<Rightarrow> heap result) \<Rightarrow> heap \<Rightarrow> dispatch_data_s \<Rightarrow> heap result" where
  "dispatch_data_dispose release h dd =
     (if dispatch_data_leaf dd then
        Inr (dispatch_data_destroy_buffer h (buf dd) (data_size dd) (do_targetq dd)
              (data_destructor dd))
      else
        bindR (foldR release h (map data_object (records dd))) (\<lambda>h'.
          Inr (h'\<lparr>events := Ev_free (buf dd) # events h'\<rparr>)))"

fun data_release :: "nat \<Rightarrow> heap \<Rightarrow> ptr \<Rightarrow> heap result" where
  "data_release 0 h p = Inl Out_of_fuel"
| "data_release (Suc n) h p =
     (if p = dispatch_data_empty then Inr h
      else bindR (data_lookup h p) (\<lambda>dd.
        if do_ref_cnt dd > 1
        then Inr (h\<lparr>objs := (objs h)(p \<mapsto> dd\<lparr>do_ref_cnt := do_ref_cnt dd - 1\<rparr>)\<rparr>)
        else bindR (dispatch_data_dispose (\<lambda>h q. data_release n h q)
                      (h\<lparr>objs := (objs h)(p := None)\<rparr>) dd) (\<lambda>h'.
          Inr (case do_targetq dd of None \<Rightarrow> h'
               | Some q \<Rightarrow> h'\<lparr>events := Ev_release_queue q # events h'\<rparr>))))"

definition dispatch_data_release :: "heap \<Rightarrow> ptr \<Rightarrow> heap result" where
  "dispatch_data_release h p = data_release 2 h p"

section \<open>Creation\<close>

text \<open>
  \<open>_dispatch_data_alloc\<close> fails only when the size of the object overflows; the sizes are
  those of the 64-bit layout with the Objective-C header (64 bytes and 24 per record).
\<close>

definition dispatch_data_alloc ::
  "heap \<Rightarrow> nat \<Rightarrow> nat \<Rightarrow> heap \<times> ptr option" where
  "dispatch_data_alloc h n extra =
     (let base_size = 64 + extra in
      if base_size \<ge> SIZE_LIMIT then (h, None)
      else if n * 24 + base_size \<ge> SIZE_LIMIT then (h, None)
      else
        (h\<lparr>objs := (objs h)(fresh h \<mapsto>
             \<lparr>do_ref_cnt = 1, do_targetq = None, buf = None,
              data_destructor = DESTRUCTOR_DEFAULT, data_size = 0,
              records = replicate n \<lparr>data_object = 0, rr_from = 0, rr_length = 0\<rparr>\<rparr>),
           fresh := fresh h + 1\<rparr>, Some (fresh h)))"

definition dispatch_data_init ::
  "heap \<Rightarrow> ptr \<Rightarrow> bytes option \<Rightarrow> nat \<Rightarrow> queue option \<Rightarrow> destructor \<Rightarrow> heap result" where
  "dispatch_data_init h p buffer sz q d =
     bindR (data_lookup h p) (\<lambda>dd.
       let dd' = dd\<lparr>buf := buffer, data_size := sz, data_destructor := d\<rparr> in
       Inr (case q of
         None \<Rightarrow> h\<lparr>objs := (objs h)(p \<mapsto> dd')\<rparr>
       | Some tq \<Rightarrow> h\<lparr>objs := (objs h)(p \<mapsto> dd'\<lparr>do_targetq := Some tq\<rparr>),
                      events := Ev_retain_queue tq # events h\<rparr>))"

definition dispatch_data_init_with_bytes ::
  "heap \<Rightarrow> ptr \<Rightarrow> bytes option \<Rightarrow> nat \<Rightarrow> destructor \<Rightarrow> heap result" where
  "dispatch_data_init_with_bytes h p buffer sz d =
     (if buffer = None \<or> sz = 0 then
        let h' = (if d \<noteq> DESTRUCTOR_DEFAULT
                  then dispatch_data_destroy_buffer h buffer sz None d else h)
        in dispatch_data_init h' p None 0 None DESTRUCTOR_NONE
      else dispatch_data_init h p buffer sz None d)"

definition dispatch_data_create ::
  "heap \<Rightarrow> bytes option \<Rightarrow> nat \<Rightarrow> queue option \<Rightarrow> destructor \<Rightarrow> (heap \<times> ptr option) result"
where
  "dispatch_data_create h buffer sz q d =
     (if buffer = None \<or> sz = 0 then
        Inr (if d \<noteq> DESTRUCTOR_DEFAULT then dispatch_data_destroy_buffer h buffer sz q d
             else h, Some dispatch_data_empty)
      else if d = DESTRUCTOR_DEFAULT then
        (if \<not> malloc_ok h sz then Inr (h, None)
         else bindR (read_bytes buffer sz) (\<lambda>copy.
           case dispatch_data_alloc h 0 0 of
             (h', None) \<Rightarrow> Inl Null_deref
           | (h', Some p) \<Rightarrow>
               bindR (dispatch_data_init h' p (Some copy) sz q DESTRUCTOR_FREE)
                 (\<lambda>h''. Inr (h'', Some p))))
      else if d = DESTRUCTOR_INLINE then
        (case dispatch_data_alloc h 0 sz of
           (h', None) \<Rightarrow> Inl Null_deref
         | (h', Some p) \<Rightarrow>
             bindR (read_bytes buffer sz) (\<lambda>copy.
             bindR (dispatch_data_init h' p (Some copy) sz q DESTRUCTOR_NONE)
               (\<lambda>h''. Inr (h'', Some p))))
      else
        (case dispatch_data_alloc h 0 0 of
           (h', None) \<Rightarrow> Inl Null_deref
         | (h', Some p) \<Rightarrow>
             bindR (dispatch_data_init h' p buffer sz q d) (\<lambda>h''. Inr (h'', Some p))))"

definition dispatch_data_create_f ::
  "heap \<Rightarrow> bytes option \<Rightarrow> nat \<Rightarrow> queue option \<Rightarrow> destructor \<Rightarrow> (heap \<times> ptr option) result"
where
  "dispatch_data_create_f h buffer sz q destructor_function =
     dispatch_data_create h buffer sz q
       (case destructor_function of
          DESTRUCTOR_BLOCK f \<Rightarrow> DESTRUCTOR_FUNCTION f
        | DESTRUCTOR_FUNCTION f \<Rightarrow> DESTRUCTOR_FUNCTION f
        | d \<Rightarrow> d)"

text \<open>The memory of the new object is zeroed by the object allocator.\<close>

definition dispatch_data_create_alloc ::
  "heap \<Rightarrow> nat \<Rightarrow> (heap \<times> ptr \<times> bytes option) result" where
  "dispatch_data_create_alloc h sz =
     (if sz = 0 then Inr (h, dispatch_data_empty, None)
      else case dispatch_data_alloc h 0 sz of
        (h', None) \<Rightarrow> Inl Null_deref
      | (h', Some p) \<Rightarrow>
          let buffer = Some (replicate sz 0) in
          bindR (dispatch_data_init h' p buffer sz None DESTRUCTOR_NONE)
            (\<lambda>h''. Inr (h'', p, buffer)))"

definition dispatch_data_get_size :: "heap \<Rightarrow> ptr \<Rightarrow> nat result" where
  "dispatch_data_get_size h p = bindR (data_lookup h p) (\<lambda>dd. Inr (data_size dd))"

section \<open>Concatenation\<close>

definition operand_records :: "ptr \<Rightarrow> dispatch_data_s \<Rightarrow> range_record list" where
  "operand_records p dd =
     (if dispatch_data_leaf dd
      then [\<lparr>data_object = p, rr_from = 0, rr_length = data_size dd\<rparr>]
      else records dd)"

definition dispatch_data_create_concat ::
  "heap \<Rightarrow> ptr \<Rightarrow> ptr \<Rightarrow> (heap \<times> ptr option) result" where
  "dispatch_data_create_concat h p1 p2 =
     bindR (data_lookup h p1) (\<lambda>dd1.
     if data_size dd1 = 0 then
       bindR (dispatch_data_retain h p2) (\<lambda>h'. Inr (h', Some p2))
     else bindR (data_lookup h p2) (\<lambda>dd2.
     if data_size dd2 = 0 then
       bindR (dispatch_data_retain h p1) (\<lambda>h'. Inr (h', Some p1))
     else
       let n = dispatch_data_num_records dd1 + dispatch_data_num_records dd2 in
       if n \<ge> SIZE_LIMIT then Inr (h, None)
       else case dispatch_data_alloc h n 0 of
         (h', None) \<Rightarrow> Inl Null_deref
       | (h', Some p) \<Rightarrow>
           bindR (data_lookup h' p) (\<lambda>dd.
           let dd' = dd\<lparr>data_size := sz_add (data_size dd1) (data_size dd2),
                        records := operand_records p1 dd1 @ operand_records p2 dd2\<rparr>
           in bindR (foldR dispatch_data_retain (h'\<lparr>objs := (objs h')(p \<mapsto> dd')\<rparr>)
                      (map data_object (records dd'))) (\<lambda>h''.
              Inr (h'', Some p)))))"

section \<open>Subranges\<close>

text \<open>
  The loop that finds the record holding an offset: the index of the record and the offset
  left in it, or the number of records when the offset is past the end.
\<close>

fun subrange_find_record :: "range_record list \<Rightarrow> nat \<Rightarrow> nat \<Rightarrow> nat \<times> nat" where
  "subrange_find_record [] i offset = (i, offset)"
| "subrange_find_record (r # rs) i offset =
     (if offset \<ge> rr_length r
      then subrange_find_record rs (i + 1) (offset - rr_length r)
      else (i, offset))"

text \<open>
  The loop that finds the record holding the end of the range, over the records after the
  first one: the number of records of the result and the length of the last one.
\<close>

fun subrange_find_end :: "range_record list \<Rightarrow> nat \<Rightarrow> nat \<Rightarrow> (nat \<times> nat) result" where
  "subrange_find_end [] cnt last_length = Inr (cnt, last_length)"
| "subrange_find_end (r # rs) cnt last_length =
     (if last_length \<le> rr_length r then Inr (cnt + 1, last_length)
      else if rs = [] then Inl Internal_crash
      else subrange_find_end rs (cnt + 1) (last_length - rr_length r))"

fun data_create_subrange ::
  "nat \<Rightarrow> heap \<Rightarrow> ptr \<Rightarrow> nat \<Rightarrow> nat \<Rightarrow> (heap \<times> ptr option) result" where
  "data_create_subrange 0 h p offset len = Inl Out_of_fuel"
| "data_create_subrange (Suc fuel) h p offset len =
     bindR (data_lookup h p) (\<lambda>dd.
     if offset \<ge> data_size dd \<or> len = 0 then Inr (h, Some dispatch_data_empty)
     else if len \<le> data_size dd - offset \<and> len = data_size dd then
       bindR (dispatch_data_retain h p) (\<lambda>h'. Inr (h', Some p))
     else
       let len = (if len > data_size dd - offset then data_size dd - offset else len) in
       if dispatch_data_leaf dd then
         (case dispatch_data_alloc h 1 0 of
            (h', None) \<Rightarrow> Inl Null_deref
          | (h', Some q) \<Rightarrow>
              bindR (data_lookup h' q) (\<lambda>d.
              bindR (dispatch_data_retain
                (h'\<lparr>objs := (objs h')(q \<mapsto> d\<lparr>data_size := len,
                   records := [\<lparr>data_object = p, rr_from = offset, rr_length = len\<rparr>]\<rparr>)\<rparr>)
                p) (\<lambda>h''. Inr (h'', Some q))))
       else
         let rs = records dd;
             to_the_end = (sz_add offset len = data_size dd);
             (i, offset') = subrange_find_record rs 0 offset
         in
         if i \<ge> length rs then Inl Internal_crash
         else if sz_add offset' len \<le> rr_length (rs ! i) then
           data_create_subrange fuel h (data_object (rs ! i))
             (sz_add (rr_from (rs ! i)) offset') len
         else
           bindR (if to_the_end then Inr (length rs - i, 0)
                  else subrange_find_end (drop (i + 1) rs) 1
                         (sz_sub len (sz_sub (rr_length (rs ! i)) offset')))
             (\<lambda>(cnt, last_length).
           case dispatch_data_alloc h cnt 0 of
             (h', None) \<Rightarrow> Inl Null_deref
           | (h', Some q) \<Rightarrow>
               bindR (data_lookup h' q) (\<lambda>d.
               let rs1 = take cnt (drop i rs);
                   rs2 = (if offset' \<noteq> 0
                          then rs1[0 := (rs1 ! 0)\<lparr>rr_from := sz_add (rr_from (rs1 ! 0)) offset',
                                 rr_length := sz_sub (rr_length (rs1 ! 0)) offset'\<rparr>]
                          else rs1);
                   rs3 = (if \<not> to_the_end
                          then rs2[cnt - 1 := (rs2 ! (cnt - 1))\<lparr>rr_length := last_length\<rparr>]
                          else rs2)
               in bindR (foldR dispatch_data_retain
                      (h'\<lparr>objs := (objs h')(q \<mapsto> d\<lparr>data_size := len, records := rs3\<rparr>)\<rparr>)
                      (map data_object rs3)) (\<lambda>h''.
                  Inr (h'', Some q)))))"

definition dispatch_data_create_subrange ::
  "heap \<Rightarrow> ptr \<Rightarrow> nat \<Rightarrow> nat \<Rightarrow> (heap \<times> ptr option) result" where
  "dispatch_data_create_subrange h p offset len = data_create_subrange 2 h p offset len"

section \<open>Applying a function to the regions\<close>

text \<open>
  The applier is a function of the client: it gets the heap, its own state, the region, the
  offset of the region, the buffer pointer and the size, and answers with the new heap and
  state and whether to go on.
\<close>

type_synonym 's applier =
  "heap \<Rightarrow> 's \<Rightarrow> ptr \<Rightarrow> nat \<Rightarrow> bytes \<Rightarrow> nat \<Rightarrow> (heap \<times> 's \<times> bool) result"

fun apply_records ::
  "(heap \<Rightarrow> 's \<Rightarrow> ptr \<Rightarrow> nat \<Rightarrow> nat \<Rightarrow> nat \<Rightarrow> (heap \<times> 's \<times> bool) result) \<Rightarrow>
   heap \<Rightarrow> 's \<Rightarrow> nat \<Rightarrow> range_record list \<Rightarrow> (heap \<times> 's \<times> bool) result" where
  "apply_records rec h s offset [] = Inr (h, s, True)"
| "apply_records rec h s offset (r # rs) =
     bindR (rec h s (data_object r) offset (rr_from r) (rr_length r)) (\<lambda>(h', s', result).
       if result then apply_records rec h' s' (sz_add offset (rr_length r)) rs
       else Inr (h', s', False))"

fun dispatch_data_apply_i ::
  "nat \<Rightarrow> heap \<Rightarrow> 's \<Rightarrow> ptr \<Rightarrow> nat \<Rightarrow> nat \<Rightarrow> nat \<Rightarrow> 's applier
   \<Rightarrow> (heap \<times> 's \<times> bool) result" where
  "dispatch_data_apply_i 0 h s p offset from sz applier = Inl Out_of_fuel"
| "dispatch_data_apply_i (Suc fuel) h s p offset from sz applier =
     bindR (dispatch_data_map_direct h p 0) (\<lambda>(buffer, _, _).
       case buffer of
         Some b \<Rightarrow> applier h s p offset (drop from b) sz
       | None \<Rightarrow>
           bindR (data_lookup h p) (\<lambda>dd.
             if dispatch_data_leaf dd then Inl Out_of_bounds
             else apply_records
               (\<lambda>h s q off frm len. dispatch_data_apply_i fuel h s q off frm len applier)
               h s offset (records dd)))"

definition dispatch_data_apply ::
  "heap \<Rightarrow> 's \<Rightarrow> ptr \<Rightarrow> 's applier \<Rightarrow> (heap \<times> 's \<times> bool) result" where
  "dispatch_data_apply h s p applier =
     bindR (data_lookup h p) (\<lambda>dd.
       if data_size dd = 0 then Inr (h, s, True)
       else dispatch_data_apply_i 2 h s p 0 0 (data_size dd) applier)"

section \<open>Flattening and mapping\<close>

definition write_bytes :: "bytes \<Rightarrow> nat \<Rightarrow> bytes \<Rightarrow> bytes result" where
  "write_bytes dst off src =
     (if off + length src \<le> length dst
      then Inr (take off dst @ src @ drop (off + length src) dst)
      else Inl Out_of_bounds)"

definition flatten_applier :: "bytes applier" where
  "flatten_applier h buffer region off b len =
     bindR (read_bytes (Some b) len) (\<lambda>src.
     bindR (write_bytes buffer off src) (\<lambda>buffer'. Inr (h, buffer', True)))"

text \<open>A fresh \<open>malloc\<close> buffer has arbitrary contents, here the argument \<open>junk\<close>.\<close>

definition dispatch_data_flatten :: "heap \<Rightarrow> u8 \<Rightarrow> ptr \<Rightarrow> (heap \<times> bytes option) result" where
  "dispatch_data_flatten h junk p =
     bindR (data_lookup h p) (\<lambda>dd.
       if \<not> malloc_ok h (data_size dd) then Inr (h, None)
       else bindR (dispatch_data_apply h (replicate (data_size dd) junk) p flatten_applier)
         (\<lambda>(h', buffer, _). Inr (h', Some buffer)))"

text \<open>The result: the data object (or null), \<open>*buffer_ptr\<close> and \<open>*size_ptr\<close>.\<close>

definition dispatch_data_create_map ::
  "heap \<Rightarrow> u8 \<Rightarrow> ptr \<Rightarrow> (heap \<times> ptr option \<times> bytes option \<times> nat) result" where
  "dispatch_data_create_map h junk p =
     bindR (data_lookup h p) (\<lambda>dd.
     if data_size dd = 0 then Inr (h, Some dispatch_data_empty, None, 0)
     else bindR (dispatch_data_map_direct h p 0) (\<lambda>(buffer, _, _).
     case buffer of
       Some b \<Rightarrow>
         bindR (dispatch_data_retain h p) (\<lambda>h'. Inr (h', Some p, Some b, data_size dd))
     | None \<Rightarrow>
         bindR (dispatch_data_flatten h junk p) (\<lambda>(h', flat).
         case flat of
           Some b \<Rightarrow>
             bindR (dispatch_data_create h' (Some b) (data_size dd) None DESTRUCTOR_FREE)
               (\<lambda>(h'', data). Inr (h'', data, Some b, data_size dd))
         | None \<Rightarrow> Inr (h', None, None, 0))))"

text \<open>
  The flat buffer is published with a compare-and-swap from null; between the load of
  \<open>map_direct\<close> and the swap another thread may have published its own, which is the
  argument \<open>other\<close>.
\<close>

definition dispatch_data_get_flattened_bytes_4libxpc ::
  "heap \<Rightarrow> u8 \<Rightarrow> bytes option \<Rightarrow> ptr \<Rightarrow> (heap \<times> bytes option) result" where
  "dispatch_data_get_flattened_bytes_4libxpc h junk other p =
     bindR (data_lookup h p) (\<lambda>dd.
     if data_size dd = 0 then Inr (h, None)
     else bindR (dispatch_data_map_direct h p 0) (\<lambda>(buffer, q, offset).
     case buffer of
       Some b \<Rightarrow> Inr (h, Some b)
     | None \<Rightarrow>
         bindR (dispatch_data_flatten h junk q) (\<lambda>(h', flat).
         case flat of
           None \<Rightarrow> Inr (h', None)
         | Some flatbuf \<Rightarrow>
             bindR (data_lookup h' q) (\<lambda>d.
             case other of
               Some b \<Rightarrow>
                 Inr (h'\<lparr>objs := (objs h')(q \<mapsto> d\<lparr>buf := Some b\<rparr>),
                        events := Ev_free (Some flatbuf) # events h'\<rparr>, Some (drop offset b))
             | None \<Rightarrow>
                 Inr (h'\<lparr>objs := (objs h')(q \<mapsto> d\<lparr>buf := Some flatbuf\<rparr>)\<rparr>,
                      Some (drop offset flatbuf))))))"

section \<open>Copying a region\<close>

text \<open>
  The loop over the records: which record holds the location, what is left of
  \<open>from\<close> in it, the length of the region in it, and the offset of the region.
\<close>

fun copy_region_find ::
  "range_record list \<Rightarrow> nat \<Rightarrow> nat \<Rightarrow> nat \<Rightarrow> (range_record \<times> nat \<times> nat \<times> nat) result" where
  "copy_region_find [] from offset location = Inl Internal_crash"
| "copy_region_find (r # rs) from offset location =
     (if from \<ge> rr_length r then copy_region_find rs (from - rr_length r) offset location
      else
        let len = rr_length r - from in
        if location \<ge> sz_add offset len
        then copy_region_find rs 0 (sz_add offset len) location
        else Inr (r, sz_add from (rr_from r), len, offset))"

fun dispatch_data_copy_region_i ::
  "nat \<Rightarrow> heap \<Rightarrow> ptr \<Rightarrow> nat \<Rightarrow> nat \<Rightarrow> nat \<Rightarrow> nat \<Rightarrow> (heap \<times> ptr \<times> nat) result" where
  "dispatch_data_copy_region_i 0 h p from sz location offset_out = Inl Out_of_fuel"
| "dispatch_data_copy_region_i (Suc fuel) h p from sz location offset_out =
     bindR (data_lookup h p) (\<lambda>dd.
     let reusable = (from = 0 \<and> sz = data_size dd) in
     bindR (dispatch_data_map_direct h p from) (\<lambda>(buffer, q, from').
     if buffer \<noteq> None then
       (if reusable then
          bindR (dispatch_data_retain h p) (\<lambda>h'. Inr (h', p, offset_out))
        else
          bindR (dispatch_data_retain h q) (\<lambda>h'.
          bindR (data_lookup h' q) (\<lambda>dq.
          if from' = 0 \<and> sz = data_size dq then Inr (h', q, offset_out)
          else case dispatch_data_alloc h' 1 0 of
            (h'', None) \<Rightarrow> Inl Null_deref
          | (h'', Some n) \<Rightarrow>
              bindR (data_lookup h'' n) (\<lambda>d.
              Inr (h''\<lparr>objs := (objs h'')(n \<mapsto> d\<lparr>data_size := sz,
                   records := [\<lparr>data_object = q, rr_from = from', rr_length = sz\<rparr>]\<rparr>)\<rparr>,
                n, offset_out)))))
     else
       bindR (data_lookup h q) (\<lambda>dq.
       if dispatch_data_leaf dq then Inl Out_of_bounds
       else bindR (copy_region_find (records dq) from' 0 location) (\<lambda>(r, frm, len, offset).
         dispatch_data_copy_region_i fuel h (data_object r) frm len
           (sz_sub location offset) (sz_add offset_out offset)))))"

definition dispatch_data_copy_region ::
  "heap \<Rightarrow> ptr \<Rightarrow> nat \<Rightarrow> (heap \<times> ptr \<times> nat) result" where
  "dispatch_data_copy_region h p location =
     bindR (data_lookup h p) (\<lambda>dd.
       if location \<ge> data_size dd then Inr (h, dispatch_data_empty, data_size dd)
       else dispatch_data_copy_region_i 2 h p 0 (data_size dd) location 0)"

end
