(* ===== verification/Transform.thy ===== *)
theory Transform
  imports Dispatch_Data
begin

text \<open>
  The data transforms of \<open>src/transform.c\<close>: base32, base32hex, base64 and the UTF
  conversions, as appliers over the regions of a data object, with the state their blocks
  capture. Data objects and the heap are those of \<open>Dispatch_Data\<close>; a null data object is
  \<open>None\<close>.

  A buffer that the code fills from its start is modelled by the bytes written so far and the
  size it was allocated with; the bytes not yet written are \<open>junk\<close>. C integers of type
  \<open>int\<close> that hold small values that are not negative are natural numbers; counters of
  bytes read, which stay below 2^64, too. The host is little-endian.
\<close>

section \<open>Tables\<close>

definition base32_encode_table :: "nat list" where
  "base32_encode_table = [65..<91] @ [50..<56] @ [0]"

definition base32_decode_table :: "int list" where
  "base32_decode_table =
     replicate 50 (-1) @ [26, 27, 28, 29, 30, 31] @ replicate 5 (-1) @ [-2] @ replicate 3 (-1) @
     map int [0..<26]"

definition base32_decode_table_size :: nat where
  "base32_decode_table_size = length base32_decode_table"

definition base32hex_encode_table :: "nat list" where
  "base32hex_encode_table = [48..<58] @ [65..<87] @ [0]"

definition base32hex_decode_table :: "int list" where
  "base32hex_decode_table =
     replicate 48 (-1) @ map int [0..<10] @ replicate 3 (-1) @ [-2] @ replicate 3 (-1) @
     map int [10..<32]"

text \<open>The size is that of the encode table, as in the code.\<close>

definition base32hex_decode_table_size :: nat where
  "base32hex_decode_table_size = length base32hex_encode_table"

definition base64_encode_table :: "nat list" where
  "base64_encode_table = [65..<91] @ [97..<123] @ [48..<58] @ [43, 47] @ [0]"

definition base64_decode_table :: "int list" where
  "base64_decode_table =
     replicate 43 (-1) @ [62] @ replicate 3 (-1) @ [63] @ map int [52..<62] @ replicate 3 (-1) @
     [-2] @ replicate 3 (-1) @ map int [0..<26] @ replicate 6 (-1) @ map int [26..<52]"

definition base64_decode_table_size :: nat where
  "base64_decode_table_size = length base64_decode_table"

section \<open>Helpers\<close>

definition deref :: "'a option \<Rightarrow> 'a result" where
  "deref x = (case x of None \<Rightarrow> Inl Null_deref | Some y \<Rightarrow> Inr y)"

definition sz_mul :: "nat \<Rightarrow> nat \<Rightarrow> nat" where
  "sz_mul a b = (a * b) mod SIZE_LIMIT"

definition howmany :: "nat \<Rightarrow> nat \<Rightarrow> nat" where
  "howmany x y = sz_add x (y - 1) div y"

text \<open>Writing at the end of what has been written of a buffer of the given size.\<close>

definition put_byte :: "nat \<Rightarrow> nat \<Rightarrow> bytes \<Rightarrow> bytes result" where
  "put_byte cap v out = (if length out < cap then Inr (out @ [of_nat v]) else Inl Out_of_bounds)"

fun put_bytes :: "nat \<Rightarrow> nat list \<Rightarrow> bytes \<Rightarrow> bytes result" where
  "put_bytes cap [] out = Inr out"
| "put_bytes cap (v # vs) out = bindR (put_byte cap v out) (put_bytes cap vs)"

text \<open>Reading an element of a table of the code, and a byte through a pointer.\<close>

definition table_at :: "'a list \<Rightarrow> nat \<Rightarrow> 'a result" where
  "table_at table i = (if i < length table then Inr (table ! i) else Inl Out_of_bounds)"

definition byte_at :: "bytes \<Rightarrow> nat \<Rightarrow> nat result" where
  "byte_at b i = (if i < length b then Inr (unat (b ! i)) else Inl Out_of_bounds)"

definition data_subrange_map ::
  "heap \<Rightarrow> u8 \<Rightarrow> ptr \<Rightarrow> nat \<Rightarrow> nat \<Rightarrow> (heap \<times> ptr option \<times> bytes option) result" where
  "data_subrange_map h junk data offset sz =
     bindR (dispatch_data_create_subrange h data offset sz) (\<lambda>(h1, subrange).
     bindR (deref subrange) (\<lambda>s.
     bindR (dispatch_data_get_size h1 s) (\<lambda>n.
     bindR (if n = sz
            then bindR (dispatch_data_create_map h1 junk s) (\<lambda>(h2, m, p, _). Inr (h2, m, p))
            else Inr (h1, None, None)) (\<lambda>(h2, m, p).
     bindR (dispatch_data_release h2 s) (\<lambda>h3. Inr (h3, m, p))))))"

section \<open>The transform buffer\<close>

text \<open>\<open>tb_start\<close> is the bytes written through \<open>ptr\<close>, or the null pointer.\<close>

record dispatch_transform_buffer_s =
  tb_data :: "ptr option"
  tb_start :: "bytes option"
  tb_size :: nat

definition tb_written :: "dispatch_transform_buffer_s \<Rightarrow> nat" where
  "tb_written b = (case tb_start b of None \<Rightarrow> 0 | Some w \<Rightarrow> length w)"

abbreviation (input) BUFFER_MALLOC_MAX :: nat where "BUFFER_MALLOC_MAX \<equiv> 104857600"

definition dispatch_transform_buffer_new ::
  "heap \<Rightarrow> u8 \<Rightarrow> dispatch_transform_buffer_s \<Rightarrow> nat \<Rightarrow> nat
   \<Rightarrow> (heap \<times> dispatch_transform_buffer_s \<times> bool) result" where
  "dispatch_transform_buffer_new h junk buffer required sz =
     (let remaining = sz_sub (tb_size buffer) (tb_written buffer) in
      if required = 0 \<or> remaining < required then
        bindR (case tb_start buffer of
            None \<Rightarrow> Inr (h, tb_data buffer)
          | Some w \<Rightarrow>
              if length w > 0 then
                bindR (dispatch_data_create h (Some (w @ replicate (tb_size buffer - length w) junk))
                         (length w) None DESTRUCTOR_FREE) (\<lambda>(h1, new).
                bindR (deref new) (\<lambda>new.
                bindR (deref (tb_data buffer)) (\<lambda>data.
                bindR (dispatch_data_create_concat h1 data new) (\<lambda>(h2, concat).
                bindR (dispatch_data_release h2 new) (\<lambda>h3.
                bindR (dispatch_data_release h3 data) (\<lambda>h4. Inr (h4, concat)))))))
              else Inr (h\<lparr>events := Ev_free (Some (replicate (tb_size buffer) junk)) # events h\<rparr>,
                        tb_data buffer)) (\<lambda>(h', data').
        let size' = sz_add required sz;
            buffer' = \<lparr>tb_data = data', tb_start = None, tb_size = size'\<rparr>
        in
        if size' > 0 then
          if size' > BUFFER_MALLOC_MAX then Inr (h', buffer', False)
          else if \<not> malloc_ok h' size' then Inr (h', buffer', False)
          else Inr (h', buffer'\<lparr>tb_start := Some []\<rparr>, True)
        else Inr (h', buffer', True))
      else Inr (h, buffer, True))"

definition tb_put :: "nat list \<Rightarrow> dispatch_transform_buffer_s \<Rightarrow> dispatch_transform_buffer_s result" where
  "tb_put vs b =
     bindR (deref (tb_start b)) (\<lambda>w.
     bindR (put_bytes (tb_size b) vs w) (\<lambda>w'. Inr (b\<lparr>tb_start := Some w'\<rparr>)))"

section \<open>Byte order and UTF-8 sequences\<close>

datatype byte_order = OSLittleEndian | OSBigEndian

definition swap16 :: "nat \<Rightarrow> nat" where
  "swap16 x = (x mod 256) * 256 + x div 256 mod 256"

definition dispatch_transform_swap_to_host :: "nat \<Rightarrow> byte_order \<Rightarrow> nat" where
  "dispatch_transform_swap_to_host x byteOrder = (if byteOrder = OSLittleEndian then x else swap16 x)"

definition dispatch_transform_swap_from_host :: "nat \<Rightarrow> byte_order \<Rightarrow> nat" where
  "dispatch_transform_swap_from_host x byteOrder = (if byteOrder = OSLittleEndian then x else swap16 x)"

text \<open>The two bytes of a 16-bit integer in the memory of the host, and back.\<close>

definition u16_bytes :: "nat \<Rightarrow> nat list" where
  "u16_bytes x = [x mod 256, x div 256 mod 256]"

definition u16_at :: "bytes \<Rightarrow> nat \<Rightarrow> nat result" where
  "u16_at b i = bindR (byte_at b i) (\<lambda>lo. bindR (byte_at b (i + 1)) (\<lambda>hi. Inr (lo + 256 * hi)))"

definition dispatch_transform_utf8_length :: "nat \<Rightarrow> nat" where
  "dispatch_transform_utf8_length byte =
     (if and byte 0x80 = 0 then 1
      else if and byte 0xe0 = 0xc0 then 2
      else if and byte 0xf0 = 0xe0 then 3
      else if and byte 0xf8 = 0xf0 then 4
      else 0)"

fun utf8_continuation :: "bytes \<Rightarrow> nat \<Rightarrow> nat \<Rightarrow> nat \<Rightarrow> nat result" where
  "utf8_continuation b pos 0 wch = Inr wch"
| "utf8_continuation b pos (Suc seq_length) wch =
     bindR (byte_at b pos) (\<lambda>c.
       let wch' = or wch (and c 0x3f) in
       utf8_continuation b (pos + 1) seq_length (if seq_length > 0 then push_bit 6 wch' else wch'))"

text \<open>
  A byte that starts no sequence has length 0, which the decrement of the \<open>uint8_t\<close> turns
  into 255 bytes to follow; the callers test the length before.
\<close>

definition dispatch_transform_read_utf8_sequence :: "bytes \<Rightarrow> nat result" where
  "dispatch_transform_read_utf8_sequence b =
     bindR (byte_at b 0) (\<lambda>c.
     let seq_length = dispatch_transform_utf8_length c;
         wch = (if seq_length = 4 then push_bit 6 (and c 0x7)
                else if seq_length = 3 then push_bit 6 (and c 0xf)
                else if seq_length = 2 then push_bit 6 (and c 0x1f)
                else if seq_length = 1 then and c 0x7f
                else 0)
     in bindR (utf8_continuation b 1 (if seq_length = 0 then 255 else seq_length - 1) wch)
          (\<lambda>w. Inr (w mod 4294967296)))"

definition dispatch_transform_detect_utf ::
  "heap \<Rightarrow> u8 \<Rightarrow> ptr \<Rightarrow> (heap \<times> nat option) result" where
  "dispatch_transform_detect_utf h junk data =
     bindR (data_subrange_map h junk data 0 2) (\<lambda>(h1, subrange, p).
     case subrange of
       None \<Rightarrow> Inr (h1, None)
     | Some s \<Rightarrow>
         bindR (deref p) (\<lambda>b.
         bindR (u16_at b 0) (\<lambda>ch.
         let type = (if ch = 0xfeff then 0x4 else if ch = 0xfffe then 0x8 else 0x2) in
         bindR (dispatch_data_release h1 s) (\<lambda>h2. Inr (h2, Some type)))))"

section \<open>UTF-8 to UTF-16\<close>

text \<open>
  The loop over the bytes of a region. \<open>src\<close> is the pointer to the next byte,
  \<open>i\<close> and \<open>sz\<close> count from where the region was entered. The answer has the captured
  variables \<open>skip\<close> and \<open>buffer\<close>, and is false when the block returns false. Every turn
  takes at least one byte, so one turn more than there are bytes is enough fuel.
\<close>

fun to_utf16_loop ::
  "nat \<Rightarrow> u8 \<Rightarrow> ptr \<Rightarrow> byte_order \<Rightarrow> nat \<Rightarrow> nat \<Rightarrow> heap \<Rightarrow> nat \<Rightarrow> dispatch_transform_buffer_s
   \<Rightarrow> bytes \<Rightarrow> nat \<Rightarrow> (heap \<times> (nat \<times> dispatch_transform_buffer_s) \<times> bool) result" where
  "to_utf16_loop 0 junk data byteOrder offset sz h skip buffer src i = Inl Out_of_fuel"
| "to_utf16_loop (Suc fuel) junk data byteOrder offset sz h skip buffer src i =
     (if \<not> i < sz then Inr (h, (skip, buffer), True)
      else
        bindR (byte_at src 0) (\<lambda>c.
        let byte_size = dispatch_transform_utf8_length c in
        if byte_size = 0 then Inr (h, (skip, buffer), False)
        else
          bindR (if byte_size + i > sz then
                   bindR (data_subrange_map h junk data (sz_add offset i) byte_size) (\<lambda>(h1, subrange, p).
                   case subrange of
                     None \<Rightarrow> Inr (h1, None)
                   | Some s \<Rightarrow>
                       bindR (deref p) (\<lambda>b.
                       bindR (dispatch_transform_read_utf8_sequence b) (\<lambda>wch.
                       bindR (dispatch_data_release h1 s) (\<lambda>h2.
                         Inr (h2, Some (wch, skip + (byte_size - (sz - i)), sz))))))
                 else
                   bindR (dispatch_transform_read_utf8_sequence src) (\<lambda>wch.
                     Inr (h, Some (wch, skip, i + byte_size)))) (\<lambda>(h', r).
          case r of
            None \<Rightarrow> Inr (h', (skip, buffer), False)
          | Some (wch, skip', i') \<Rightarrow>
              let src' = drop byte_size src; next = (sz - i') * 2 in
              if next \<ge> SIZE_LIMIT then Inr (h', (skip', buffer), False)
              else if wch = 0xfeff \<and> sz_add offset i' = 3 then
                to_utf16_loop fuel junk data byteOrder offset sz h' skip' buffer src' i'
              else if wch \<ge> 0xd800 \<and> wch < 0xdfff then Inr (h', (skip', buffer), False)
              else if wch \<ge> 0x10000 then
                bindR (dispatch_transform_buffer_new h' junk buffer 4 next) (\<lambda>(h2, buffer2, ok).
                if \<not> ok then Inr (h2, (skip', buffer2), False)
                else
                  let w = wch - 0x10000 in
                  bindR (tb_put (u16_bytes (dispatch_transform_swap_from_host
                      (and (drop_bit 10 w) 0x3ff + 0xd800) byteOrder)) buffer2) (\<lambda>buffer3.
                  bindR (tb_put (u16_bytes (dispatch_transform_swap_from_host
                      (and w 0x3ff + 0xdc00) byteOrder)) buffer3) (\<lambda>buffer4.
                    to_utf16_loop fuel junk data byteOrder offset sz h2 skip' buffer4 src' i')))
              else
                bindR (dispatch_transform_buffer_new h' junk buffer 2 next) (\<lambda>(h2, buffer2, ok).
                if \<not> ok then Inr (h2, (skip', buffer2), False)
                else
                  bindR (tb_put (u16_bytes (dispatch_transform_swap_from_host
                      (and wch 0xffff) byteOrder)) buffer2) (\<lambda>buffer3.
                    to_utf16_loop fuel junk data byteOrder offset sz h2 skip' buffer3 src' i')))))"

definition to_utf16_applier ::
  "u8 \<Rightarrow> ptr \<Rightarrow> byte_order \<Rightarrow> (nat \<times> dispatch_transform_buffer_s) applier" where
  "to_utf16_applier junk data byteOrder h s region offset src sz =
     (case s of (skip, buffer) \<Rightarrow>
      bindR (if offset = 0 then
               if sz * 2 + 2 \<ge> SIZE_LIMIT then Inr (h, buffer, False)
               else
                 bindR (dispatch_transform_buffer_new h junk buffer (sz * 2 + 2) 0) (\<lambda>(h1, buffer1, ok).
                 if \<not> ok then Inr (h1, buffer1, False)
                 else bindR (tb_put (u16_bytes (dispatch_transform_swap_from_host 0xfeff byteOrder))
                        buffer1) (\<lambda>buffer2. Inr (h1, buffer2, True)))
             else Inr (h, buffer, True)) (\<lambda>(h1, buffer1, ok).
      if \<not> ok then Inr (h1, (skip, buffer1), False)
      else if skip \<ge> sz then Inr (h1, (skip - sz, buffer1), True)
      else
        bindR (to_utf16_loop (Suc sz) junk data byteOrder offset (sz - skip) h1 0 buffer1
                 (drop skip src) 0) (\<lambda>(h2, (skip2, buffer2), ok2).
        if \<not> ok2 then Inr (h2, (skip2, buffer2), False)
        else bindR (dispatch_transform_buffer_new h2 junk buffer2 0 0) (\<lambda>(h3, buffer3, _).
               Inr (h3, (skip2, buffer3), True)))))"

definition dispatch_transform_to_utf16 ::
  "byte_order \<Rightarrow> heap \<Rightarrow> u8 \<Rightarrow> ptr \<Rightarrow> (heap \<times> ptr option) result" where
  "dispatch_transform_to_utf16 byteOrder h junk data =
     bindR (dispatch_data_apply h
              (0, \<lparr>tb_data = Some dispatch_data_empty, tb_start = None, tb_size = 0\<rparr>) data
              (to_utf16_applier junk data byteOrder)) (\<lambda>(h1, (_, buffer), success).
     if \<not> success then
       bindR (dispatch_transform_buffer_new h1 junk buffer 0 0) (\<lambda>(h2, buffer2, _).
       bindR (deref (tb_data buffer2)) (\<lambda>d.
       bindR (dispatch_data_release h2 d) (\<lambda>h3. Inr (h3, None))))
     else Inr (h1, tb_data buffer))"

section \<open>UTF-16 to UTF-8\<close>

definition utf8_encoding :: "nat \<Rightarrow> nat list option" where
  "utf8_encoding wch =
     (if wch < 0x80 then Some [and wch 0xff]
      else if wch < 0x800 then
        Some [or 0xc0 (drop_bit 6 wch), or 0x80 (and wch 0x3f)]
      else if wch < 0x10000 then
        Some [or 0xe0 (drop_bit 12 wch), or 0x80 (and (drop_bit 6 wch) 0x3f), or 0x80 (and wch 0x3f)]
      else if wch < 0x200000 then
        Some [or 0xf0 (drop_bit 18 wch), or 0x80 (and (drop_bit 12 wch) 0x3f),
          or 0x80 (and (drop_bit 6 wch) 0x3f), or 0x80 (and wch 0x3f)]
      else None)"

text \<open>
  Reading the code unit at index \<open>i\<close>: the last byte of a region of odd size is read with
  the first of the next region, through a load of eight bytes. The answer is the code unit, if
  there is one, and the new \<open>skip\<close>.
\<close>

definition read_8_bytes :: "bytes \<Rightarrow> nat result" where
  "read_8_bytes b = bindR (read_bytes (Some b) 8) (\<lambda>_. u16_at b 0)"

definition from_utf16_unit ::
  "u8 \<Rightarrow> ptr \<Rightarrow> byte_order \<Rightarrow> nat \<Rightarrow> nat \<Rightarrow> nat \<Rightarrow> heap \<Rightarrow> nat \<Rightarrow> bytes \<Rightarrow> nat
   \<Rightarrow> (heap \<times> (nat \<times> nat) option) result" where
  "from_utf16_unit junk data byteOrder offset sz mx h skip src i =
     (if i = mx - 1 \<and> mx > sz div 2 then
        bindR (data_subrange_map h junk data (sz_add offset (i * 2)) 2) (\<lambda>(h1, range, p).
        case range of
          None \<Rightarrow> Inr (h1, None)
        | Some s \<Rightarrow>
            bindR (deref p) (\<lambda>b.
            bindR (read_8_bytes b) (\<lambda>x.
            bindR (dispatch_data_release h1 s) (\<lambda>h2.
              Inr (h2, Some (dispatch_transform_swap_to_host x byteOrder, skip + 1))))))
      else bindR (u16_at src (2 * i)) (\<lambda>x.
             Inr (h, Some (dispatch_transform_swap_to_host x byteOrder, skip))))"

text \<open>The second half of a surrogate pair, at index \<open>i\<close>.\<close>

definition from_utf16_low ::
  "u8 \<Rightarrow> ptr \<Rightarrow> byte_order \<Rightarrow> nat \<Rightarrow> nat \<Rightarrow> heap \<Rightarrow> nat \<Rightarrow> bytes \<Rightarrow> nat
   \<Rightarrow> (heap \<times> (nat \<times> nat) option) result" where
  "from_utf16_low junk data byteOrder offset mx h skip src i =
     (if i \<ge> mx then
        bindR (data_subrange_map h junk data (sz_add offset (i * 2)) 2) (\<lambda>(h1, range, p).
        case range of
          None \<Rightarrow> Inr (h1, None)
        | Some s \<Rightarrow>
            bindR (deref p) (\<lambda>b.
            bindR (u16_at b 0) (\<lambda>x.
            bindR (dispatch_data_release h1 s) (\<lambda>h2.
              Inr (h2, Some (dispatch_transform_swap_to_host x byteOrder, skip + 2))))))
      else bindR (u16_at src (2 * i)) (\<lambda>x.
             Inr (h, Some (dispatch_transform_swap_to_host x byteOrder, skip))))"

fun from_utf16_loop ::
  "nat \<Rightarrow> u8 \<Rightarrow> ptr \<Rightarrow> byte_order \<Rightarrow> nat \<Rightarrow> nat \<Rightarrow> nat \<Rightarrow> heap \<Rightarrow> nat \<Rightarrow> dispatch_transform_buffer_s
   \<Rightarrow> bytes \<Rightarrow> nat \<Rightarrow> (heap \<times> (nat \<times> dispatch_transform_buffer_s) \<times> bool) result" where
  "from_utf16_loop 0 junk data byteOrder offset sz mx h skip buffer src i = Inl Out_of_fuel"
| "from_utf16_loop (Suc fuel) junk data byteOrder offset sz mx h skip buffer src i =
     (if \<not> i < mx then Inr (h, (skip, buffer), True)
      else
        bindR (from_utf16_unit junk data byteOrder offset sz mx h skip src i) (\<lambda>(h1, r1).
        case r1 of
          None \<Rightarrow> Inr (h1, (skip, buffer), False)
        | Some (ch, skip1) \<Rightarrow>
            if ch = 0xfffe \<and> offset = 0 \<and> i = 0 then Inr (h1, (skip1, buffer), False)
            else if ch = 0xfeff \<and> offset = 0 \<and> i = 0 then
              from_utf16_loop fuel junk data byteOrder offset sz mx h1 skip1 buffer src (i + 1)
            else
              bindR (if ch \<ge> 0xd800 \<and> ch \<le> 0xdbff then
                       bindR (from_utf16_low junk data byteOrder offset mx h1 skip1 src (i + 1)) (\<lambda>(h2, r2).
                       case r2 of
                         None \<Rightarrow> Inr (h2, skip1, None)
                       | Some (low, skip2) \<Rightarrow>
                           if \<not> (low \<ge> 0xdc00 \<and> low \<le> 0xdfff) then Inr (h2, skip2, None)
                           else Inr (h2, skip2, Some
                             (or (push_bit 10 (ch - 0xd800)) (and low 0x3ff) + 0x10000, i + 1)))
                     else if ch \<ge> 0xdc00 \<and> ch \<le> 0xdfff then Inr (h1, skip1, None)
                     else Inr (h1, skip1, Some (ch, i))) (\<lambda>(h3, skip3, r3).
              case r3 of
                None \<Rightarrow> Inr (h3, (skip3, buffer), False)
              | Some (wch, i3) \<Rightarrow>
                  let next = (mx - i3) * 2 in
                  if next \<ge> SIZE_LIMIT then Inr (h3, (skip3, buffer), False)
                  else (case utf8_encoding wch of
                      None \<Rightarrow> from_utf16_loop fuel junk data byteOrder offset sz mx h3 skip3 buffer src (i3 + 1)
                    | Some vs \<Rightarrow>
                        bindR (dispatch_transform_buffer_new h3 junk buffer (length vs) next) (\<lambda>(h4, buffer4, ok).
                        if \<not> ok then Inr (h4, (skip3, buffer4), False)
                        else
                          bindR (tb_put vs buffer4) (\<lambda>buffer5.
                            from_utf16_loop fuel junk data byteOrder offset sz mx h4 skip3 buffer5 src (i3 + 1)))))))"

definition from_utf16_applier ::
  "u8 \<Rightarrow> ptr \<Rightarrow> byte_order \<Rightarrow> (nat \<times> dispatch_transform_buffer_s) applier" where
  "from_utf16_applier junk data byteOrder h s region offset src sz =
     (case s of (skip, buffer) \<Rightarrow>
      bindR (if offset = 0 then dispatch_transform_buffer_new h junk buffer (sz_mul (howmany sz 3) 2) 0
             else Inr (h, buffer, True)) (\<lambda>(h1, buffer1, ok).
      if \<not> ok then Inr (h1, (skip, buffer1), False)
      else if skip \<ge> sz then Inr (h1, (skip - sz, buffer1), True)
      else
        let sz' = sz - skip; mx = sz' div 2 + (if sz' mod 2 \<noteq> 0 then 1 else 0) in
        bindR (from_utf16_loop (Suc mx) junk data byteOrder offset sz' mx h1 0 buffer1
                 (drop skip src) 0) (\<lambda>(h2, (skip2, buffer2), ok2).
        if \<not> ok2 then Inr (h2, (skip2, buffer2), False)
        else bindR (dispatch_transform_buffer_new h2 junk buffer2 0 0) (\<lambda>(h3, buffer3, _).
               Inr (h3, (skip2, buffer3), True)))))"

definition dispatch_transform_from_utf16 ::
  "byte_order \<Rightarrow> heap \<Rightarrow> u8 \<Rightarrow> ptr \<Rightarrow> (heap \<times> ptr option) result" where
  "dispatch_transform_from_utf16 byteOrder h junk data =
     bindR (dispatch_data_apply h
              (0, \<lparr>tb_data = Some dispatch_data_empty, tb_start = None, tb_size = 0\<rparr>) data
              (from_utf16_applier junk data byteOrder)) (\<lambda>(h1, (_, buffer), success).
     if \<not> success then
       bindR (dispatch_transform_buffer_new h1 junk buffer 0 0) (\<lambda>(h2, buffer2, _).
       bindR (deref (tb_data buffer2)) (\<lambda>d.
       bindR (dispatch_data_release h2 d) (\<lambda>h3. Inr (h3, None))))
     else Inr (h1, tb_data buffer))"

definition dispatch_transform_to_utf8_without_bom ::
  "heap \<Rightarrow> u8 \<Rightarrow> ptr \<Rightarrow> (heap \<times> ptr option) result" where
  "dispatch_transform_to_utf8_without_bom h junk data =
     bindR (data_subrange_map h junk data 0 3) (\<lambda>(h1, subrange, p).
     bindR (case subrange of
              None \<Rightarrow> Inr (h1, False)
            | Some s \<Rightarrow>
                bindR (read_bytes p 3) (\<lambda>b.
                bindR (dispatch_data_release h1 s) (\<lambda>h2. Inr (h2, b = [0xef, 0xbb, 0xbf]))))
       (\<lambda>(h2, has_bom).
     if has_bom then
       bindR (dispatch_data_get_size h2 data) (\<lambda>n.
         dispatch_data_create_subrange h2 data 3 (sz_sub n 3))
     else bindR (dispatch_data_retain h2 data) (\<lambda>h3. Inr (h3, Some data))))"

section \<open>Decoding base32 and base64\<close>

text \<open>
  The loop over the bytes of a region, for groups of \<open>grp\<close> characters of \<open>bits\<close>
  bits each; a full group is written as the bytes of \<open>x\<close> at the given shifts.
  \<open>cap\<close> is the size of \<open>dest\<close>. No value: a character that is not of the alphabet.
\<close>

fun basexx_decode_loop ::
  "nat \<Rightarrow> nat \<Rightarrow> nat list \<Rightarrow> int list \<Rightarrow> nat \<Rightarrow> nat \<Rightarrow> bytes \<Rightarrow> nat \<Rightarrow> nat \<Rightarrow> nat \<Rightarrow> bytes
   \<Rightarrow> (nat \<times> nat \<times> nat \<times> bytes) option result" where
  "basexx_decode_loop bits grp shifts table table_size cap [] x count pad out =
     Inr (Some (x, count, pad, out))"
| "basexx_decode_loop bits grp shifts table table_size cap (c # cs) x count pad out =
     (if c = 10 \<or> c = 9 \<or> c = 32
      then basexx_decode_loop bits grp shifts table table_size cap cs x count pad out
      else
        let index = unat c in
        if index \<ge> table_size then Inr None
        else bindR (table_at table index) (\<lambda>v.
        if v = -1 then Inr None
        else
          let count' = count + 1;
              (value, pad') = (if v = -2 then (0, pad + 1) else (nat v, pad));
              x' = (take_bit 64 (push_bit bits x) + value) mod SIZE_LIMIT
          in bindR (if and count' (grp - 1) = 0
                    then put_bytes cap (map (\<lambda>s. and (drop_bit s x') 0xff) shifts) out
                    else Inr out) (\<lambda>out'.
             basexx_decode_loop bits grp shifts table table_size cap cs x' count' pad' out')))"

text \<open>
  One region: \<open>malloc\<close> of \<open>dest\<close>, the loop, and the bytes decoded appended to
  \<open>rv\<close>. \<open>final\<close> gives, for the number of padding characters seen so far, how many bytes
  to take off.
\<close>

type_synonym decode_state = "nat \<times> nat \<times> nat \<times> ptr option"

definition basexx_decode_applier ::
  "nat \<Rightarrow> nat \<Rightarrow> nat list \<Rightarrow> (nat \<Rightarrow> nat) \<Rightarrow> int list \<Rightarrow> nat \<Rightarrow> u8 \<Rightarrow> decode_state applier" where
  "basexx_decode_applier bits grp shifts final table table_size junk h s region offset buffer sz =
     (case s of (x, count, pad, rv) \<Rightarrow>
      let cap = sz_mul (howmany sz grp) (length shifts) in
      if \<not> malloc_ok h cap then Inr (h, (x, count, pad, rv), False)
      else
        bindR (read_bytes (Some buffer) sz) (\<lambda>bs.
        bindR (basexx_decode_loop bits grp shifts table table_size cap bs x count pad []) (\<lambda>r.
        case r of
          None \<Rightarrow> Inr (h\<lparr>events := Ev_free (Some (replicate cap junk)) # events h\<rparr>, (x, count, pad, rv), False)
        | Some (x', count', pad', out) \<Rightarrow>
            bindR (dispatch_data_create h (Some (out @ replicate (cap - length out) junk))
                     (sz_sub (length out) (final pad')) None DESTRUCTOR_FREE) (\<lambda>(h1, val).
            bindR (deref rv) (\<lambda>old.
            bindR (deref val) (\<lambda>new.
            bindR (dispatch_data_create_concat h1 old new) (\<lambda>(h2, concat).
            bindR (dispatch_data_release h2 new) (\<lambda>h3.
            bindR (dispatch_data_release h3 old) (\<lambda>h4.
              Inr (h4, (x', count', pad', concat), True)))))))) ))"

definition basexx_decode ::
  "(u8 \<Rightarrow> decode_state applier) \<Rightarrow> heap \<Rightarrow> u8 \<Rightarrow> ptr \<Rightarrow> (heap \<times> ptr option) result" where
  "basexx_decode applier h junk data =
     bindR (dispatch_data_apply h (0, 0, 0, Some dispatch_data_empty) data (applier junk))
       (\<lambda>(h1, (_, _, _, rv), success).
     if \<not> success then
       bindR (deref rv) (\<lambda>d. bindR (dispatch_data_release h1 d) (\<lambda>h2. Inr (h2, None)))
     else Inr (h1, rv))"

definition base32_final :: "nat \<Rightarrow> nat" where
  "base32_final pad =
     (if pad = 1 then 1 else if pad = 3 then 2 else if pad = 4 then 3 else if pad = 6 then 4 else 0)"

definition dispatch_transform_from_base32_with_table ::
  "int list \<Rightarrow> nat \<Rightarrow> heap \<Rightarrow> u8 \<Rightarrow> ptr \<Rightarrow> (heap \<times> ptr option) result" where
  "dispatch_transform_from_base32_with_table table table_size =
     basexx_decode (basexx_decode_applier 5 8 [32, 24, 16, 8, 0] base32_final table table_size)"

definition dispatch_transform_from_base32 :: "heap \<Rightarrow> u8 \<Rightarrow> ptr \<Rightarrow> (heap \<times> ptr option) result" where
  "dispatch_transform_from_base32 =
     dispatch_transform_from_base32_with_table base32_decode_table base32_decode_table_size"

definition dispatch_transform_from_base32hex :: "heap \<Rightarrow> u8 \<Rightarrow> ptr \<Rightarrow> (heap \<times> ptr option) result" where
  "dispatch_transform_from_base32hex =
     dispatch_transform_from_base32_with_table base32hex_decode_table base32hex_decode_table_size"

definition base64_final :: "nat \<Rightarrow> nat" where
  "base64_final pad = (if pad > 0 then pad else 0)"

definition dispatch_transform_from_base64 :: "heap \<Rightarrow> u8 \<Rightarrow> ptr \<Rightarrow> (heap \<times> ptr option) result" where
  "dispatch_transform_from_base64 =
     basexx_decode (basexx_decode_applier 6 4 [16, 8, 0] base64_final
       base64_decode_table base64_decode_table_size)"

section \<open>Encoding base32 and base64\<close>

text \<open>The table indices written for one byte, at its place in the group, after the byte \<open>prv\<close>.\<close>

definition base32_step :: "nat \<Rightarrow> nat \<Rightarrow> nat \<Rightarrow> nat list" where
  "base32_step place prv cur =
     (if place = 0 then [and (drop_bit 3 cur) 0x1f]
      else if place = 1 then
        [and (or (push_bit 2 prv) (drop_bit 6 cur)) 0x1f, and (drop_bit 1 cur) 0x1f]
      else if place = 2 then [and (or (push_bit 4 prv) (drop_bit 4 cur)) 0x1f]
      else if place = 3 then
        [and (or (push_bit 1 prv) (drop_bit 7 cur)) 0x1f, and (drop_bit 2 cur) 0x1f]
      else [and (or (push_bit 3 prv) (drop_bit 5 cur)) 0x1f, and cur 0x1f])"

text \<open>The last index, for a group that is not full, and the number of padding characters.\<close>

definition base32_tail :: "nat \<Rightarrow> nat \<Rightarrow> nat list \<times> nat" where
  "base32_tail place prv =
     (if place = 0 then ([], 0)
      else if place = 1 then ([and (push_bit 2 prv) 0x1c], 6)
      else if place = 2 then ([and (push_bit 4 prv) 0x10], 4)
      else if place = 3 then ([and (push_bit 1 prv) 0x1e], 3)
      else ([and (push_bit 3 prv) 0x18], 1))"

definition base64_step :: "nat \<Rightarrow> nat \<Rightarrow> nat \<Rightarrow> nat list" where
  "base64_step place prv cur =
     (if place = 0 then [and (drop_bit 2 cur) 0x3f]
      else if place = 1 then [and (or (push_bit 4 prv) (drop_bit 4 cur)) 0x3f]
      else [and (or (push_bit 2 prv) (drop_bit 6 cur)) 0x3f, and cur 0x3f])"

definition base64_tail :: "nat \<Rightarrow> nat \<Rightarrow> nat list \<times> nat" where
  "base64_tail place prv =
     (if place = 0 then ([], 0)
      else if place = 1 then ([and (push_bit 4 prv) 0x30], 2)
      else ([and (push_bit 2 prv) 0x3c], 1))"

fun table_chars :: "nat list \<Rightarrow> nat list \<Rightarrow> nat list result" where
  "table_chars table [] = Inr []"
| "table_chars table (i # is) =
     bindR (table_at table i) (\<lambda>c. bindR (table_chars table is) (\<lambda>cs. Inr (c # cs)))"

text \<open>
  The loop over a region, from index \<open>i\<close> on. The byte before the first byte of a region is
  read through a subrange of the whole data.
\<close>

definition encode_last ::
  "u8 \<Rightarrow> ptr \<Rightarrow> nat \<Rightarrow> nat \<Rightarrow> bytes \<Rightarrow> heap \<Rightarrow> nat \<Rightarrow> nat \<Rightarrow> (heap \<times> nat option) result" where
  "encode_last junk data grp offset bs h count i =
     (if count mod grp \<noteq> 0 then
        if i = 0 then
          bindR (data_subrange_map h junk data (sz_sub offset 1) 1) (\<lambda>(h1, subrange, p).
          case subrange of
            None \<Rightarrow> Inr (h1, None)
          | Some s \<Rightarrow>
              bindR (deref p) (\<lambda>b.
              bindR (byte_at b 0) (\<lambda>v.
              bindR (dispatch_data_release h1 s) (\<lambda>h2. Inr (h2, Some v)))))
        else bindR (byte_at bs (i - 1)) (\<lambda>v. Inr (h, Some v))
      else Inr (h, Some 0))"

fun basexx_encode_loop ::
  "nat \<Rightarrow> (nat \<Rightarrow> nat \<Rightarrow> nat \<Rightarrow> nat list) \<Rightarrow> nat list \<Rightarrow> nat \<Rightarrow> u8 \<Rightarrow> ptr \<Rightarrow> nat \<Rightarrow> bytes \<Rightarrow> nat
   \<Rightarrow> nat \<Rightarrow> heap \<Rightarrow> nat \<Rightarrow> bytes \<Rightarrow> (heap \<times> (nat \<times> bytes) option) result" where
  "basexx_encode_loop grp step table cap junk data offset bs i 0 h count out =
     Inr (h, Some (count, out))"
| "basexx_encode_loop grp step table cap junk data offset bs i (Suc n) h count out =
     bindR (byte_at bs i) (\<lambda>cur.
     bindR (encode_last junk data grp offset bs h count i) (\<lambda>(h1, r).
     case r of
       None \<Rightarrow> Inr (h1, None)
     | Some prv \<Rightarrow>
         bindR (table_chars table (step (count mod grp) prv cur)) (\<lambda>cs.
         bindR (put_bytes cap cs out) (\<lambda>out'.
           basexx_encode_loop grp step table cap junk data offset bs (i + 1) n h1 (count + 1) out'))))"

definition basexx_encode_applier ::
  "nat \<Rightarrow> (nat \<Rightarrow> nat \<Rightarrow> nat \<Rightarrow> nat list) \<Rightarrow> (nat \<Rightarrow> nat \<Rightarrow> nat list \<times> nat) \<Rightarrow> nat list \<Rightarrow> nat \<Rightarrow> u8 \<Rightarrow> ptr \<Rightarrow> nat
   \<Rightarrow> (nat \<times> bytes) applier" where
  "basexx_encode_applier grp step tail table cap junk data ttl h s region offset buffer sz =
     (case s of (count, out) \<Rightarrow>
      bindR (basexx_encode_loop grp step table cap junk data offset buffer 0 sz h count out) (\<lambda>(h1, r).
      case r of
        None \<Rightarrow> Inr (h1, (count, out), False)
      | Some (count', out') \<Rightarrow>
          if sz_add offset sz = ttl then
            bindR (byte_at buffer (sz - 1)) (\<lambda>prv.
            let (is, pads) = tail (count' mod grp) prv in
            bindR (table_chars table is) (\<lambda>cs.
            bindR (put_bytes cap (cs @ replicate pads 61) out') (\<lambda>out''.
              Inr (h1, (count', out''), True))))
          else Inr (h1, (count', out'), True)))"

definition basexx_encode ::
  "nat \<Rightarrow> nat \<Rightarrow> (nat \<Rightarrow> nat \<Rightarrow> nat \<Rightarrow> nat list) \<Rightarrow> (nat \<Rightarrow> nat \<Rightarrow> nat list \<times> nat) \<Rightarrow> nat list
   \<Rightarrow> heap \<Rightarrow> u8 \<Rightarrow> ptr \<Rightarrow> (heap \<times> ptr option) result" where
  "basexx_encode grp chars step tail table h junk data =
     bindR (dispatch_data_get_size h data) (\<lambda>ttl.
     let groups = howmany ttl grp in
     if groups > (SIZE_LIMIT - 1) div chars then Inr (h, None)
     else
       let dest_size = groups * chars in
       if \<not> malloc_ok h dest_size then Inr (h, None)
       else
         bindR (dispatch_data_apply h (0, []) data
                  (basexx_encode_applier grp step tail table dest_size junk data ttl))
           (\<lambda>(h1, (_, out), success).
         if \<not> success
         then Inr (h1\<lparr>events := Ev_free (Some (replicate dest_size junk)) # events h1\<rparr>, None)
         else dispatch_data_create h1 (Some (out @ replicate (dest_size - length out) junk))
                dest_size None DESTRUCTOR_FREE))"

definition dispatch_transform_to_base32_with_table ::
  "nat list \<Rightarrow> heap \<Rightarrow> u8 \<Rightarrow> ptr \<Rightarrow> (heap \<times> ptr option) result" where
  "dispatch_transform_to_base32_with_table = basexx_encode 5 8 base32_step base32_tail"

definition dispatch_transform_to_base32 :: "heap \<Rightarrow> u8 \<Rightarrow> ptr \<Rightarrow> (heap \<times> ptr option) result" where
  "dispatch_transform_to_base32 = dispatch_transform_to_base32_with_table base32_encode_table"

definition dispatch_transform_to_base32hex :: "heap \<Rightarrow> u8 \<Rightarrow> ptr \<Rightarrow> (heap \<times> ptr option) result" where
  "dispatch_transform_to_base32hex = dispatch_transform_to_base32_with_table base32hex_encode_table"

definition dispatch_transform_to_base64 :: "heap \<Rightarrow> u8 \<Rightarrow> ptr \<Rightarrow> (heap \<times> ptr option) result" where
  "dispatch_transform_to_base64 = basexx_encode 3 4 base64_step base64_tail base64_encode_table"

section \<open>Format types\<close>

type_synonym dispatch_transform_t = "heap \<Rightarrow> u8 \<Rightarrow> ptr \<Rightarrow> (heap \<times> ptr option) result"

record dispatch_data_format_type_s =
  fmt_type :: nat
  input_mask :: nat
  output_mask :: nat
  decode :: "dispatch_transform_t option"
  encode :: "dispatch_transform_t option"

definition format_type_none :: dispatch_data_format_type_s where
  "format_type_none = \<lparr>fmt_type = 0x1, input_mask = 0xffffffff, output_mask = 0xffffffff,
     decode = None, encode = None\<rparr>"

definition format_type_base32 :: dispatch_data_format_type_s where
  "format_type_base32 = \<lparr>fmt_type = 0x20, input_mask = 0xe1, output_mask = 0xe1,
     decode = Some dispatch_transform_from_base32, encode = Some dispatch_transform_to_base32\<rparr>"

definition format_type_base32hex :: dispatch_data_format_type_s where
  "format_type_base32hex = \<lparr>fmt_type = 0x40, input_mask = 0xe1, output_mask = 0xe1,
     decode = Some dispatch_transform_from_base32hex, encode = Some dispatch_transform_to_base32hex\<rparr>"

definition format_type_base64 :: dispatch_data_format_type_s where
  "format_type_base64 = \<lparr>fmt_type = 0x80, input_mask = 0xe1, output_mask = 0xe1,
     decode = Some dispatch_transform_from_base64, encode = Some dispatch_transform_to_base64\<rparr>"

definition format_type_utf16le :: dispatch_data_format_type_s where
  "format_type_utf16le = \<lparr>fmt_type = 0x4, input_mask = 0xe, output_mask = 0xe,
     decode = Some (dispatch_transform_from_utf16 OSLittleEndian),
     encode = Some (dispatch_transform_to_utf16 OSLittleEndian)\<rparr>"

definition format_type_utf16be :: dispatch_data_format_type_s where
  "format_type_utf16be = \<lparr>fmt_type = 0x8, input_mask = 0xe, output_mask = 0xe,
     decode = Some (dispatch_transform_from_utf16 OSBigEndian),
     encode = Some (dispatch_transform_to_utf16 OSBigEndian)\<rparr>"

definition format_type_utf8 :: dispatch_data_format_type_s where
  "format_type_utf8 = \<lparr>fmt_type = 0x2, input_mask = 0xe, output_mask = 0xe,
     decode = None, encode = Some dispatch_transform_to_utf8_without_bom\<rparr>"

definition format_type_utf_any :: dispatch_data_format_type_s where
  "format_type_utf_any = \<lparr>fmt_type = 0x10, input_mask = 0, output_mask = 0,
     decode = None, encode = None\<rparr>"

definition detected_format :: "nat \<Rightarrow> dispatch_data_format_type_s" where
  "detected_format t =
     (if t = 0x4 then format_type_utf16le else if t = 0x8 then format_type_utf16be
      else format_type_utf8)"

text \<open>\<open>DISPATCH_BAD_INPUT\<close> is the null pointer.\<close>

definition dispatch_data_create_with_transform ::
  "heap \<Rightarrow> u8 \<Rightarrow> ptr \<Rightarrow> dispatch_data_format_type_s \<Rightarrow> dispatch_data_format_type_s
   \<Rightarrow> (heap \<times> ptr option) result" where
  "dispatch_data_create_with_transform h junk data input output =
     bindR (if fmt_type input = 0x10 then
              bindR (dispatch_transform_detect_utf h junk data) (\<lambda>(h1, t).
                Inr (h1, map_option detected_format t))
            else Inr (h, Some input)) (\<lambda>(h1, inp).
     case inp of
       None \<Rightarrow> Inr (h1, None)
     | Some input \<Rightarrow>
         if and (fmt_type input) (mask 64 - output_mask output) \<noteq> 0 then Inr (h1, None)
         else if and (fmt_type output) (mask 64 - input_mask input) \<noteq> 0 then Inr (h1, None)
         else
           bindR (dispatch_data_get_size h1 data) (\<lambda>n.
           if n = 0 then Inr (h1, Some data)
           else
             bindR (case decode input of
                      Some f \<Rightarrow> f h1 junk data
                    | None \<Rightarrow> bindR (dispatch_data_retain h1 data) (\<lambda>h2. Inr (h2, Some data)))
               (\<lambda>(h2, temp1).
             case temp1 of
               None \<Rightarrow> Inr (h2, None)
             | Some t1 \<Rightarrow>
                 bindR (case encode output of
                          Some f \<Rightarrow> f h2 junk t1
                        | None \<Rightarrow> bindR (dispatch_data_retain h2 t1) (\<lambda>h3. Inr (h3, Some t1)))
                   (\<lambda>(h3, temp2).
                 bindR (dispatch_data_release h3 t1) (\<lambda>h4. Inr (h4, temp2))))))"

end
