(* ===== verification/Data_Invariant.thy ===== *)
theory Data_Invariant
  imports Dispatch_Data
begin

text \<open>
  What a heap of data objects means and what every operation keeps: the bytes an object
  stands for, the well-formedness rules of the comment at the head of
  \<open>src/data.c\<close>, and the exact reference count of every object.
\<close>

section \<open>Abstraction: the bytes of an object\<close>

definition leaf_bytes :: "dispatch_data_s \<Rightarrow> bytes" where
  "leaf_bytes dd = (case buf dd of None \<Rightarrow> [] | Some b \<Rightarrow> take (data_size dd) b)"

definition record_bytes :: "heap \<Rightarrow> range_record \<Rightarrow> bytes" where
  "record_bytes h r =
     (case objs h (data_object r) of None \<Rightarrow> []
      | Some l \<Rightarrow> take (rr_length r) (drop (rr_from r) (leaf_bytes l)))"

definition obj_bytes :: "heap \<Rightarrow> dispatch_data_s \<Rightarrow> bytes" where
  "obj_bytes h dd =
     (if dispatch_data_leaf dd then leaf_bytes dd
      else concat (map (record_bytes h) (records dd)))"

definition data_bytes :: "heap \<Rightarrow> ptr \<Rightarrow> bytes" where
  "data_bytes h p = (case objs h p of None \<Rightarrow> [] | Some dd \<Rightarrow> obj_bytes h dd)"

section \<open>Well-formed heaps\<close>

definition leaf_ok :: "dispatch_data_s \<Rightarrow> bool" where
  "leaf_ok dd \<longleftrightarrow> data_size dd < SIZE_LIMIT \<and>
     (data_size dd \<noteq> 0 \<longrightarrow> (\<exists>b. buf dd = Some b \<and> data_size dd \<le> length b))"

definition record_ok :: "heap \<Rightarrow> range_record \<Rightarrow> bool" where
  "record_ok h r \<longleftrightarrow> 0 < rr_length r \<and>
     (\<exists>l. objs h (data_object r) = Some l \<and> dispatch_data_leaf l \<and>
        rr_from r + rr_length r \<le> data_size l)"

definition obj_ok :: "heap \<Rightarrow> dispatch_data_s \<Rightarrow> bool" where
  "obj_ok h dd \<longleftrightarrow>
     (if dispatch_data_leaf dd then leaf_ok dd
      else (\<forall>r \<in> set (records dd). record_ok h r) \<and>
           data_size dd = sum_list (map rr_length (records dd)) \<and>
           data_size dd < SIZE_LIMIT \<and>
           length (records dd) * 24 + 64 < SIZE_LIMIT \<and>
           (buf dd \<noteq> None \<longrightarrow> 2 \<le> length (records dd) \<and> buf dd = Some (obj_bytes h dd)))"

definition empty_obj_ok :: "heap \<Rightarrow> bool" where
  "empty_obj_ok h \<longleftrightarrow>
     (\<exists>dd. objs h dispatch_data_empty = Some dd \<and> dispatch_data_leaf dd \<and> data_size dd = 0)"

definition heap_ok :: "heap \<Rightarrow> bool" where
  "heap_ok h \<longleftrightarrow> empty_obj_ok h \<and>
     (\<forall>p dd. objs h p = Some dd \<longrightarrow> p < fresh h \<and> obj_ok h dd)"

text \<open>Every live object of the first heap is in the second, unchanged but for its count.\<close>

definition heap_le :: "heap \<Rightarrow> heap \<Rightarrow> bool" where
  "heap_le h h' \<longleftrightarrow>
     (\<forall>p dd. objs h p = Some dd \<longrightarrow>
        (\<exists>dd'. objs h' p = Some dd' \<and> dd'\<lparr>do_ref_cnt := 0\<rparr> = dd\<lparr>do_ref_cnt := 0\<rparr>))"

section \<open>Basic facts\<close>

lemma cnt_eqD:
  assumes "dd'\<lparr>do_ref_cnt := 0\<rparr> = dd\<lparr>do_ref_cnt := 0\<rparr>"
  shows "records dd' = records dd" "buf dd' = buf dd" "data_size dd' = data_size dd"
    "data_destructor dd' = data_destructor dd" "do_targetq dd' = do_targetq dd"
    "dispatch_data_leaf dd' = dispatch_data_leaf dd" "leaf_bytes dd' = leaf_bytes dd"
    "leaf_ok dd' = leaf_ok dd"
proof -
  show f: "records dd' = records dd" "buf dd' = buf dd" "data_size dd' = data_size dd"
    "data_destructor dd' = data_destructor dd" "do_targetq dd' = do_targetq dd"
    using assms by (cases dd; cases dd'; simp)+
  show "dispatch_data_leaf dd' = dispatch_data_leaf dd" "leaf_bytes dd' = leaf_bytes dd"
    "leaf_ok dd' = leaf_ok dd"
    using f by (simp_all add: dispatch_data_leaf_def leaf_bytes_def leaf_ok_def
        split: option.split)
qed

lemma heap_leE:
  assumes "heap_le h h'" "objs h p = Some dd"
  obtains dd' where "objs h' p = Some dd'" "records dd' = records dd" "buf dd' = buf dd"
    "data_size dd' = data_size dd" "data_destructor dd' = data_destructor dd"
    "do_targetq dd' = do_targetq dd"
    "dispatch_data_leaf dd' = dispatch_data_leaf dd" "leaf_bytes dd' = leaf_bytes dd"
    "leaf_ok dd' = leaf_ok dd"
proof -
  obtain dd' where dd': "objs h' p = Some dd'" "dd'\<lparr>do_ref_cnt := 0\<rparr> = dd\<lparr>do_ref_cnt := 0\<rparr>"
    using assms unfolding heap_le_def by blast
  show ?thesis by (rule that [OF dd'(1) cnt_eqD [OF dd'(2)]])
qed

lemma heap_le_refl [simp]: "heap_le h h"
  by (simp add: heap_le_def)

lemma heap_le_trans: "heap_le h h' \<Longrightarrow> heap_le h' h'' \<Longrightarrow> heap_le h h''"
  unfolding heap_le_def by metis

lemma length_leaf_bytes: "leaf_ok dd \<Longrightarrow> length (leaf_bytes dd) = data_size dd"
  by (auto simp: leaf_ok_def leaf_bytes_def split: option.splits)

lemma record_okE:
  assumes "record_ok h r"
  obtains l where "objs h (data_object r) = Some l" "dispatch_data_leaf l" "0 < rr_length r"
    "rr_from r + rr_length r \<le> data_size l"
  using assms by (auto simp: record_ok_def)

lemma record_ok_le: "record_ok h r \<Longrightarrow> heap_le h h' \<Longrightarrow> record_ok h' r"
  by (elim record_okE) (auto simp: record_ok_def elim!: heap_leE)

lemma record_bytes_le:
  assumes "record_ok h r" "heap_le h h'"
  shows "record_bytes h' r = record_bytes h r"
proof -
  obtain l where l: "objs h (data_object r) = Some l" using assms(1) by (rule record_okE)
  then obtain l' where "objs h' (data_object r) = Some l'" "leaf_bytes l' = leaf_bytes l"
    using heap_leE [OF assms(2)] by metis
  with l show ?thesis by (simp add: record_bytes_def)
qed

lemma obj_bytes_le:
  assumes "obj_ok h dd" "heap_le h h'"
  shows "obj_bytes h' dd = obj_bytes h dd"
  using assms
  by (auto simp: obj_bytes_def obj_ok_def record_bytes_le intro!: arg_cong [where f = concat])

lemma obj_bytes_cong:
  "records dd' = records dd \<Longrightarrow> buf dd' = buf dd \<Longrightarrow> data_size dd' = data_size dd \<Longrightarrow>
   obj_bytes h dd' = obj_bytes h dd"
  by (simp add: obj_bytes_def dispatch_data_leaf_def leaf_bytes_def split: option.split)

lemma obj_ok_cong:
  "records dd' = records dd \<Longrightarrow> buf dd' = buf dd \<Longrightarrow> data_size dd' = data_size dd \<Longrightarrow>
   obj_ok h dd' = obj_ok h dd"
  by (simp add: obj_ok_def obj_bytes_cong [of dd' dd] dispatch_data_leaf_def leaf_ok_def)

lemma obj_ok_le:
  assumes "obj_ok h dd" "heap_le h h'"
  shows "obj_ok h' dd"
proof -
  have "\<forall>r \<in> set (records dd). record_ok h r \<longrightarrow> record_ok h' r"
    using assms(2) by (blast intro: record_ok_le)
  with assms(1) obj_bytes_le [OF assms] show ?thesis by (auto simp: obj_ok_def)
qed

lemma heap_okD:
  "heap_ok h \<Longrightarrow> objs h p = Some dd \<Longrightarrow> obj_ok h dd"
  "heap_ok h \<Longrightarrow> objs h p = Some dd \<Longrightarrow> p < fresh h"
  by (auto simp: heap_ok_def)

lemma data_bytes_le:
  assumes "heap_ok h" "heap_le h h'" "objs h p = Some dd"
  shows "data_bytes h' p = data_bytes h p"
proof -
  obtain dd' where dd': "objs h' p = Some dd'" "records dd' = records dd" "buf dd' = buf dd"
    "data_size dd' = data_size dd"
    using heap_leE [OF assms(2,3)] by metis
  have "obj_bytes h' dd' = obj_bytes h' dd" using dd'(2-4) by (rule obj_bytes_cong)
  also have "\<dots> = obj_bytes h dd"
    using heap_okD(1) [OF assms(1,3)] assms(2) by (rule obj_bytes_le)
  finally show ?thesis using dd'(1) assms(3) by (simp add: data_bytes_def)
qed

lemma length_record_bytes:
  assumes "heap_ok h" "record_ok h r"
  shows "length (record_bytes h r) = rr_length r"
proof -
  obtain l where l: "objs h (data_object r) = Some l" "dispatch_data_leaf l"
    "rr_from r + rr_length r \<le> data_size l"
    using assms(2) by (rule record_okE)
  have "length (leaf_bytes l) = data_size l"
    using heap_okD(1) [OF assms(1) l(1)] l(2) by (simp add: obj_ok_def length_leaf_bytes)
  with l show ?thesis by (simp add: record_bytes_def)
qed

lemma length_record_list:
  assumes "heap_ok h" "\<forall>r \<in> set rs. record_ok h r"
  shows "length (concat (map (record_bytes h) rs)) = sum_list (map rr_length rs)"
  using assms(2) by (induction rs) (simp_all add: length_record_bytes [OF assms(1)])

lemma length_obj_bytes:
  assumes "heap_ok h" "obj_ok h dd"
  shows "length (obj_bytes h dd) = data_size dd"
  using assms
  by (auto simp: obj_ok_def obj_bytes_def length_leaf_bytes length_record_list simp del: length_concat)

lemma length_data_bytes:
  assumes "heap_ok h" "objs h p = Some dd"
  shows "length (data_bytes h p) = data_size dd"
  using assms length_obj_bytes [OF assms(1) heap_okD(1) [OF assms]] by (simp add: data_bytes_def)

section \<open>Reference counts\<close>

definition objrefs :: "dispatch_data_s option \<Rightarrow> ptr \<Rightarrow> nat" where
  "objrefs d p = (case d of None \<Rightarrow> 0 | Some dd \<Rightarrow> count_list (map data_object (records dd)) p)"

definition in_refs :: "heap \<Rightarrow> ptr \<Rightarrow> nat" where
  "in_refs h p = (\<Sum>q<fresh h. objrefs (objs h q) p)"

text \<open>
  \<open>owners\<close> counts the references held from outside the heap: client variables and
  the local variables of the running operation. It is an integer because an operation may
  write a record before it retains the leaf the record names.
\<close>

type_synonym owners = "ptr \<Rightarrow> int"

definition counts_ok :: "heap \<Rightarrow> owners \<Rightarrow> bool" where
  "counts_ok h ext \<longleftrightarrow>
     (\<forall>p dd. p \<noteq> dispatch_data_empty \<longrightarrow> objs h p = Some dd \<longrightarrow>
        int (do_ref_cnt dd) = int (in_refs h p) + ext p \<and> 0 < do_ref_cnt dd) \<and>
     (\<forall>p. p \<noteq> dispatch_data_empty \<longrightarrow> objs h p = None \<longrightarrow> ext p = 0)"

definition data_inv :: "heap \<Rightarrow> owners \<Rightarrow> bool" where
  "data_inv h ext \<longleftrightarrow> heap_ok h \<and> counts_ok h ext"

definition own :: "owners \<Rightarrow> ptr \<Rightarrow> int \<Rightarrow> owners" where
  "own ext p n = (if p = dispatch_data_empty then ext else ext(p := ext p + n))"

lemma own_apply: "own ext p n q = (if q = p \<and> p \<noteq> 0 then ext q + n else ext q)"
  by (simp add: own_def)

lemma in_refs_update:
  assumes "q < fresh h" "fresh h' = fresh h" "objs h' = (objs h)(q := d)"
  shows "in_refs h' p + objrefs (objs h q) p = in_refs h p + objrefs d p"
proof -
  let ?f = "\<lambda>h x. objrefs (objs h x) p"
  have split: "in_refs h p = objrefs (objs h q) p + (\<Sum>x\<in>{..<fresh h} - {q}. ?f h x)" 
      "in_refs h' p = objrefs d p + (\<Sum>x\<in>{..<fresh h} - {q}. ?f h' x)"
    using assms by (simp_all add: in_refs_def sum.remove [where x = q])
  have "(\<Sum>x\<in>{..<fresh h} - {q}. ?f h' x) = (\<Sum>x\<in>{..<fresh h} - {q}. ?f h x)"
    using assms(3) by (intro sum.cong) simp_all
  with split show ?thesis by simp
qed

lemma in_refs_alloc:
  assumes "fresh h' = fresh h + 1" "objs h' = (objs h)(fresh h \<mapsto> d)"
  shows "in_refs h' p = in_refs h p + objrefs (Some d) p"
  using assms by (simp add: in_refs_def)

lemma in_refs_dead:
  assumes "heap_ok h" "objs h p = None"
  shows "in_refs h p = 0"
proof -
  have "objrefs (objs h q) p = 0" for q
  proof (cases "objs h q")
    case (Some dd)
    then have "obj_ok h dd" using assms(1) by (simp add: heap_okD)
    then have "\<forall>r \<in> set (records dd). data_object r \<noteq> p"
      using assms(2) by (force simp: obj_ok_def record_ok_def dispatch_data_leaf_def split: if_splits)
    then show ?thesis using Some by (auto simp: objrefs_def count_list_0_iff)
  qed (simp add: objrefs_def)
  then show ?thesis by (simp add: in_refs_def)
qed

section \<open>Retains\<close>

definition same_env :: "heap \<Rightarrow> heap \<Rightarrow> bool" where
  "same_env h h' \<longleftrightarrow> fresh h' = fresh h \<and> events h' = events h \<and> malloc_ok h' = malloc_ok h"

lemma heap_ok_equiv:
  assumes "heap_ok h" "heap_le h h'" "heap_le h' h" "fresh h' = fresh h"
  shows "heap_ok h'"
  unfolding heap_ok_def
proof (intro conjI allI impI)
  show "empty_obj_ok h'"
    using assms(1,2) unfolding heap_ok_def empty_obj_ok_def by (metis heap_leE)
  fix p dd' assume "objs h' p = Some dd'"
  then obtain dd where dd: "objs h p = Some dd" "records dd = records dd'" "buf dd = buf dd'"
    "data_size dd = data_size dd'"
    using heap_leE [OF assms(3)] by metis
  have "obj_ok h' dd" using heap_okD(1) [OF assms(1) dd(1)] assms(2) by (rule obj_ok_le)
  then show "obj_ok h' dd'" using dd(2-4) obj_ok_cong [of dd dd'] by simp
  show "p < fresh h'" using heap_okD(2) [OF assms(1) dd(1)] assms(4) by simp
qed

lemma data_invD:
  assumes "data_inv h ext"
  shows "heap_ok h" "counts_ok h ext"
  using assms by (simp_all add: data_inv_def)

lemma counts_okD:
  assumes "counts_ok h ext" "p \<noteq> 0"
  shows "objs h p = Some dd \<Longrightarrow> int (do_ref_cnt dd) = int (in_refs h p) + ext p"
    "objs h p = Some dd \<Longrightarrow> 0 < do_ref_cnt dd" "objs h p = None \<Longrightarrow> ext p = 0"
  using assms unfolding counts_ok_def by blast+

lemma counts_okI:
  assumes "\<And>p dd. p \<noteq> 0 \<Longrightarrow> objs h p = Some dd \<Longrightarrow>
      int (do_ref_cnt dd) = int (in_refs h p) + ext p \<and> 0 < do_ref_cnt dd"
    and "\<And>p. p \<noteq> 0 \<Longrightarrow> objs h p = None \<Longrightarrow> ext p = 0"
  shows "counts_ok h ext"
  using assms unfolding counts_ok_def by blast

lemma retain_cnt:
  assumes "data_inv h ext" "objs h p = Some dd"
  shows "\<exists>h'. dispatch_data_retain h p = Inr h' \<and> data_inv h' (own ext p 1) \<and>
    heap_le h h' \<and> heap_le h' h \<and> same_env h h'"
proof (cases "p = 0")
  case True
  with assms show ?thesis
    by (auto simp: dispatch_data_retain_def own_def same_env_def)
next
  case False
  define h' where "h' = h\<lparr>objs := (objs h)(p \<mapsto> dd\<lparr>do_ref_cnt := do_ref_cnt dd + 1\<rparr>)\<rparr>"
  have le: "heap_le h h'" "heap_le h' h" using assms(2) by (auto simp: heap_le_def h'_def)
  note inv = data_invD [OF assms(1)]
  have ok: "heap_ok h'" using inv(1) le by (rule heap_ok_equiv) (simp add: h'_def)
  have refs: "in_refs h' q = in_refs h q" for q
    using in_refs_update [of p h h' "Some (dd\<lparr>do_ref_cnt := do_ref_cnt dd + 1\<rparr>)" q]
      heap_okD(2) [OF inv(1) assms(2)] assms(2)
    by (simp add: h'_def objrefs_def)
  have "counts_ok h' (own ext p 1)"
  proof (rule counts_okI)
    fix q d assume q: "q \<noteq> 0" "objs h' q = Some d"
    show "int (do_ref_cnt d) = int (in_refs h' q) + own ext p 1 q \<and> 0 < do_ref_cnt d"
    proof (cases "q = p")
      case True
      then have "d = dd\<lparr>do_ref_cnt := do_ref_cnt dd + 1\<rparr>" using q(2) by (simp add: h'_def)
      then show ?thesis
        using True False counts_okD(1) [OF inv(2) q(1)] assms(2) by (simp add: refs own_apply)
    next
      case ne: False
      then have "objs h q = Some d" using q(2) by (simp add: h'_def)
      then show ?thesis
        using ne counts_okD(1,2) [OF inv(2) q(1)] by (simp add: refs own_apply)
    qed
  next
    fix q assume q: "q \<noteq> 0" "objs h' q = None"
    then have "q \<noteq> p" "objs h q = None" by (auto simp: h'_def split: if_splits)
    then show "own ext p 1 q = 0"
      using counts_okD(3) [OF inv(2) q(1)] by (simp add: own_apply)
  qed
  then show ?thesis
    using False assms(2) ok le
    by (auto simp: dispatch_data_retain_def data_lookup_def data_inv_def same_env_def h'_def)
qed

fun own_list :: "owners \<Rightarrow> ptr list \<Rightarrow> owners" where
  "own_list ext [] = ext"
| "own_list ext (p # ps) = own_list (own ext p 1) ps"

lemma own_list_apply:
  "own_list ext ps q = (if q = 0 then ext q else ext q + int (count_list ps q))"
  by (induction ps arbitrary: ext) (auto simp: own_apply)

lemma same_env_trans: "same_env h h' \<Longrightarrow> same_env h' h'' \<Longrightarrow> same_env h h''"
  by (simp add: same_env_def)

lemma retain_list:
  assumes "data_inv h ext" "\<forall>p \<in> set ps. objs h p \<noteq> None"
  shows "\<exists>h'. foldR dispatch_data_retain h ps = Inr h' \<and> data_inv h' (own_list ext ps) \<and>
    heap_le h h' \<and> heap_le h' h \<and> same_env h h'"
  using assms
proof (induction ps arbitrary: h ext)
  case Nil
  then show ?case by (simp add: same_env_def)
next
  case (Cons p ps)
  obtain dd where "objs h p = Some dd" using Cons.prems(2) by auto
  then obtain h1 where h1: "dispatch_data_retain h p = Inr h1" "data_inv h1 (own ext p 1)"
    "heap_le h h1" "heap_le h1 h" "same_env h h1"
    using retain_cnt [OF Cons.prems(1)] by blast
  have "\<forall>q \<in> set ps. objs h1 q \<noteq> None"
    using Cons.prems(2) h1(3) unfolding heap_le_def by (metis list.set_intros(2) not_Some_eq)
  then obtain h2 where "foldR dispatch_data_retain h1 ps = Inr h2"
    "data_inv h2 (own_list (own ext p 1) ps)" "heap_le h1 h2" "heap_le h2 h1" "same_env h1 h2"
    using Cons.IH [OF h1(2)] by blast
  with h1 show ?case by (auto intro: heap_le_trans same_env_trans)
qed

section \<open>New objects\<close>

definition new_heap :: "heap \<Rightarrow> dispatch_data_s \<Rightarrow> heap" where
  "new_heap h d = h\<lparr>objs := (objs h)(fresh h \<mapsto> d), fresh := fresh h + 1\<rparr>"

definition blank_obj :: "nat \<Rightarrow> dispatch_data_s" where
  "blank_obj n = \<lparr>do_ref_cnt = 1, do_targetq = None, buf = None,
     data_destructor = DESTRUCTOR_DEFAULT, data_size = 0,
     records = replicate n \<lparr>data_object = 0, rr_from = 0, rr_length = 0\<rparr>\<rparr>"

lemma alloc_new:
  assumes "n * 24 + (64 + extra) < SIZE_LIMIT"
  shows "dispatch_data_alloc h n extra = (new_heap h (blank_obj n), Some (fresh h))"
  using assms by (simp add: dispatch_data_alloc_def new_heap_def blank_obj_def)

lemma new_heap_simps [simp]:
  "objs (new_heap h d) (fresh h) = Some d"
  "data_lookup (new_heap h d) (fresh h) = Inr d"
  "(new_heap h d)\<lparr>objs := (objs (new_heap h d))(fresh h \<mapsto> d')\<rparr> = new_heap h d'"
  "fresh (new_heap h d) = fresh h + 1"
  "events (new_heap h d) = events h"
  "malloc_ok (new_heap h d) = malloc_ok h"
  by (simp_all add: new_heap_def data_lookup_def)

lemma objs_new_heap: "p \<noteq> fresh h \<Longrightarrow> objs (new_heap h d) p = objs h p"
  by (simp add: new_heap_def)

lemma heap_le_new: "heap_ok h \<Longrightarrow> heap_le h (new_heap h d)"
  by (auto simp: heap_le_def new_heap_def heap_ok_def)

definition disown :: "owners \<Rightarrow> dispatch_data_s \<Rightarrow> owners" where
  "disown ext d q =
     (if q = 0 then ext q else ext q - int (count_list (map data_object (records d)) q))"

lemma new_inv:
  assumes inv: "data_inv h ext" and ok: "obj_ok h d" and cnt: "do_ref_cnt d = 1"
  shows "data_inv (new_heap h d) (disown (own ext (fresh h) 1) d)"
proof -
  let ?h = "new_heap h d" and ?p = "fresh h"
  note hok = data_invD(1) [OF inv] and cok = data_invD(2) [OF inv]
  have p0: "?p \<noteq> 0" using hok by (auto simp: heap_ok_def empty_obj_ok_def)
  have pn: "objs h ?p = None" using heap_okD(2) [OF hok, of ?p] by (cases "objs h ?p") auto
  have le: "heap_le h ?h" using hok by (rule heap_le_new)
  have hok': "heap_ok ?h"
    unfolding heap_ok_def
  proof (intro conjI allI impI)
    show "empty_obj_ok ?h" using hok p0 by (auto simp: heap_ok_def empty_obj_ok_def objs_new_heap)
    fix q dd assume q: "objs ?h q = Some dd"
    show "obj_ok ?h dd"
      using q ok hok le by (cases "q = ?p") (auto simp: objs_new_heap heap_ok_def intro: obj_ok_le)
    show "q < fresh ?h"
      using q heap_okD(2) [OF hok, of q dd] by (cases "q = ?p") (simp_all add: objs_new_heap)
  qed
  have refs: "in_refs ?h q = in_refs h q + count_list (map data_object (records d)) q" for q
    using in_refs_alloc [of ?h h d q] by (simp add: new_heap_def objrefs_def)
  have self: "count_list (map data_object (records d)) ?p = 0"
    using ok pn
    by (force simp: obj_ok_def record_ok_def dispatch_data_leaf_def count_list_0_iff split: if_splits)
  have "counts_ok ?h (disown (own ext ?p 1) d)"
  proof (rule counts_okI)
    fix q dd assume q: "q \<noteq> 0" "objs ?h q = Some dd"
    show "int (do_ref_cnt dd) = int (in_refs ?h q) + disown (own ext ?p 1) d q \<and>
      0 < do_ref_cnt dd"
    proof (cases "q = ?p")
      case True
      then have "dd = d" using q(2) by simp
      then show ?thesis
        using True p0 self cnt in_refs_dead [OF hok pn] counts_okD(3) [OF cok p0 pn]
        by (simp add: refs disown_def own_apply)
    next
      case False
      then show ?thesis
        using q counts_okD(1,2) [OF cok q(1)] by (simp add: objs_new_heap refs disown_def own_apply)
    qed
  next
    fix q assume q: "q \<noteq> 0" "objs ?h q = None"
    then have ne: "q \<noteq> ?p" by auto
    then have "objs h q = None" using q(2) by (simp add: objs_new_heap)
    moreover from this have "count_list (map data_object (records d)) q = 0"
      using ok
      by (force simp: obj_ok_def record_ok_def dispatch_data_leaf_def count_list_0_iff
          split: if_splits)
    ultimately show "disown (own ext ?p 1) d q = 0"
      using ne q(1) counts_okD(3) [OF cok q(1)] by (simp add: disown_def own_apply)
  qed
  with hok' show ?thesis by (simp add: data_inv_def)
qed

lemma own_list_disown:
  "own_list (disown ext d) (map data_object (records d)) = ext"
  by (rule ext) (simp add: own_list_apply disown_def)

section \<open>Releases\<close>

lemma no_ref:
  assumes "heap_ok h" "in_refs h p = 0" "objs h q = Some dd"
  shows "p \<notin> data_object ` set (records dd)"
proof -
  have "q < fresh h" using heap_okD(2) assms(1,3) .
  then have "objrefs (objs h q) p = 0"
    using assms(2) by (simp add: in_refs_def)
  with assms(3) show ?thesis by (auto simp: objrefs_def count_list_0_iff)
qed

lemma record_ok_remove:
  assumes "record_ok h r" "data_object r \<noteq> p" "\<And>q. q \<noteq> p \<Longrightarrow> objs h' q = objs h q"
  shows "record_ok h' r" "record_bytes h' r = record_bytes h r"
  using assms by (simp_all add: record_ok_def record_bytes_def)

lemma obj_ok_remove:
  assumes "obj_ok h dd" "p \<notin> data_object ` set (records dd)"
    "\<And>q. q \<noteq> p \<Longrightarrow> objs h' q = objs h q"
  shows "obj_ok h' dd"
proof (cases "dispatch_data_leaf dd")
  case True
  with assms(1) show ?thesis by (simp add: obj_ok_def)
next
  case False
  have r: "record_ok h r" "data_object r \<noteq> p" if "r \<in> set (records dd)" for r
    using that assms(1,2) False by (auto simp: obj_ok_def)
  have ro: "record_ok h' r" "record_bytes h' r = record_bytes h r" if "r \<in> set (records dd)" for r
    using record_ok_remove [OF r [OF that] assms(3)] by simp_all
  then have "map (record_bytes h') (records dd) = map (record_bytes h) (records dd)"
    by simp
  then have "obj_bytes h' dd = obj_bytes h dd" using False by (simp only: obj_bytes_def if_False)
  with assms(1) False ro(1) show ?thesis by (auto simp: obj_ok_def)
qed

definition gain :: "owners \<Rightarrow> dispatch_data_s \<Rightarrow> owners" where
  "gain ext d q =
     (if q = 0 then ext q else ext q + int (count_list (map data_object (records d)) q))"

lemma remove_inv:
  assumes inv: "data_inv h ext" and p: "p \<noteq> 0" "objs h p = Some dd" "ext p \<ge> 1"
    and last: "do_ref_cnt dd = 1"
    and h': "objs h' = (objs h)(p := None)" "fresh h' = fresh h"
  shows "data_inv h' (gain (own ext p (- 1)) dd)" "heap_le h' h" "ext p = 1"
proof -
  note hok = data_invD(1) [OF inv] and cok = data_invD(2) [OF inv]
  have e: "int (in_refs h p) + ext p = 1" using counts_okD(1) [OF cok p(1,2)] last by simp
  then show e1: "ext p = 1" using p(3) by linarith
  have z: "in_refs h p = 0" using e e1 by simp
  show le: "heap_le h' h" using h'(1) by (auto simp: heap_le_def split: if_splits)
  have other: "objs h' q = objs h q" if "q \<noteq> p" for q using that h'(1) by simp
  have hok': "heap_ok h'"
    unfolding heap_ok_def
  proof (intro conjI allI impI)
    show "empty_obj_ok h'"
      using hok p(1) h'(1) by (auto simp: heap_ok_def empty_obj_ok_def)
    fix q d assume q: "objs h' q = Some d"
    then have ne: "q \<noteq> p" and d: "objs h q = Some d" using h'(1) by (auto split: if_splits)
    show "q < fresh h'" using heap_okD(2) [OF hok d] h'(2) by simp
    show "obj_ok h' d"
      using heap_okD(1) [OF hok d] no_ref [OF hok z d] other by (rule obj_ok_remove)
  qed
  have refs: "in_refs h' q + count_list (map data_object (records dd)) q = in_refs h q" for q
    using in_refs_update [of p h h' None q] heap_okD(2) [OF hok p(2)] h' p(2)
    by (simp add: objrefs_def)
  have "counts_ok h' (gain (own ext p (- 1)) dd)"
  proof (rule counts_okI)
    fix q d assume q: "q \<noteq> 0" "objs h' q = Some d"
    then have "q \<noteq> p" "objs h q = Some d" using h'(1) by (auto split: if_splits)
    then show "int (do_ref_cnt d) = int (in_refs h' q) + gain (own ext p (- 1)) dd q \<and>
        0 < do_ref_cnt d"
      using q(1) counts_okD(1,2) [OF cok q(1)] refs [of q] by (simp add: gain_def own_apply)
  next
    fix q assume q: "q \<noteq> 0" "objs h' q = None"
    have "count_list (map data_object (records dd)) q = 0"
      using refs [of q] in_refs_dead [of h q] hok z q other by (cases "q = p") auto
    then show "gain (own ext p (- 1)) dd q = 0"
      using q other e1 counts_okD(3) [OF cok q(1)]
      by (cases "q = p") (auto simp: gain_def own_apply)
  qed
  with hok' show "data_inv h' (gain (own ext p (- 1)) dd)" by (simp add: data_inv_def)
qed

lemma decrement_inv:
  assumes inv: "data_inv h ext" and p: "p \<noteq> 0" "objs h p = Some dd"
    and more: "1 < do_ref_cnt dd"
    and h': "objs h' = (objs h)(p \<mapsto> dd\<lparr>do_ref_cnt := do_ref_cnt dd - 1\<rparr>)" "fresh h' = fresh h"
  shows "data_inv h' (own ext p (- 1))" "heap_le h' h" "heap_le h h'"
proof -
  note hok = data_invD(1) [OF inv] and cok = data_invD(2) [OF inv]
  show le: "heap_le h' h" "heap_le h h'" using p(2) h'(1) by (auto simp: heap_le_def)
  have hok': "heap_ok h'" using hok le(2,1) h'(2) by (rule heap_ok_equiv)
  have refs: "in_refs h' q = in_refs h q" for q
    using in_refs_update [of p h h' _ q, OF heap_okD(2) [OF hok p(2)] h'(2,1)] p(2)
    by (simp add: objrefs_def)
  have "counts_ok h' (own ext p (- 1))"
  proof (rule counts_okI)
    fix q d assume q: "q \<noteq> 0" "objs h' q = Some d"
    show "int (do_ref_cnt d) = int (in_refs h' q) + own ext p (- 1) q \<and> 0 < do_ref_cnt d"
    proof (cases "q = p")
      case True
      then have "d = dd\<lparr>do_ref_cnt := do_ref_cnt dd - 1\<rparr>" using q(2) h'(1) by simp
      then show ?thesis
        using True p counts_okD(1) [OF cok p] more by (simp add: refs own_apply of_nat_diff)
    next
      case False
      then have "objs h q = Some d" using q(2) h'(1) by simp
      then show ?thesis
        using False counts_okD(1,2) [OF cok q(1)] by (simp add: refs own_apply)
    qed
  next
    fix q assume q: "q \<noteq> 0" "objs h' q = None"
    then have "q \<noteq> p" "objs h q = None" using h'(1) by (auto split: if_splits)
    then show "own ext p (- 1) q = 0"
      using counts_okD(3) [OF cok q(1)] by (simp add: own_apply)
  qed
  with hok' show "data_inv h' (own ext p (- 1))" by (simp add: data_inv_def)
qed

lemma data_inv_objs:
  assumes "objs h' = objs h" "fresh h' = fresh h"
  shows "data_inv h' ext = data_inv h ext" "heap_le h' g = heap_le h g" "heap_le g h' = heap_le g h"
proof -
  have b: "record_bytes h' = record_bytes h" "record_ok h' = record_ok h"
    by (rule HOL.ext, simp add: record_bytes_def record_ok_def assms)+
  have "obj_ok h' = obj_ok h"
    by (rule HOL.ext) (simp add: obj_ok_def obj_bytes_def b)
  then have "heap_ok h' = heap_ok h" by (simp add: heap_ok_def empty_obj_ok_def assms)
  moreover have "in_refs h' = in_refs h" by (rule HOL.ext) (simp add: in_refs_def assms)
  ultimately show "data_inv h' ext = data_inv h ext"
    by (simp add: data_inv_def counts_ok_def assms)
  show "heap_le h' g = heap_le h g" "heap_le g h' = heap_le g h"
    by (simp_all add: heap_le_def assms)
qed

text \<open>What a release leaves: a sub-heap with the same addresses and allocator.\<close>

definition released :: "heap \<Rightarrow> heap \<Rightarrow> bool" where
  "released h h' \<longleftrightarrow> heap_le h' h \<and> fresh h' = fresh h \<and> malloc_ok h' = malloc_ok h"

lemma released_trans: "released h h' \<Longrightarrow> released h' h'' \<Longrightarrow> released h h''"
  by (auto simp: released_def intro: heap_le_trans)

lemma owned_live:
  assumes "data_inv h ext" "p \<noteq> 0" "1 \<le> ext p"
  obtains dd where "objs h p = Some dd"
  using counts_okD(3) [OF data_invD(2) [OF assms(1)] assms(2)] assms(3)
  by (cases "objs h p") auto

lemma destroy_buffer_same [simp]:
  "objs (dispatch_data_destroy_buffer h b n q d) = objs h"
  "fresh (dispatch_data_destroy_buffer h b n q d) = fresh h"
  "malloc_ok (dispatch_data_destroy_buffer h b n q d) = malloc_ok h"
  by (simp_all add: dispatch_data_destroy_buffer_def)

definition leaf_at :: "heap \<Rightarrow> ptr \<Rightarrow> bool" where
  "leaf_at h p \<longleftrightarrow> (\<forall>dd. objs h p = Some dd \<longrightarrow> dispatch_data_leaf dd)"

lemma leaf_at_le: "leaf_at h p \<Longrightarrow> heap_le h' h \<Longrightarrow> leaf_at h' p"
  unfolding leaf_at_def by (metis heap_leE)

lemma release_leaf:
  assumes inv: "data_inv h ext" and own: "p \<noteq> 0 \<Longrightarrow> 1 \<le> ext p" and leaf: "leaf_at h p"
  shows "\<exists>h'. data_release (Suc n) h p = Inr h' \<and> data_inv h' (own ext p (- 1)) \<and> released h h'"
proof (cases "p = 0")
  case True
  with inv show ?thesis by (simp add: own_def released_def)
next
  case False
  then obtain dd where dd: "objs h p = Some dd" using owned_live inv own by blast
  show ?thesis
  proof (cases "1 < do_ref_cnt dd")
    case True
    define h1 where "h1 = h\<lparr>objs := (objs h)(p \<mapsto> dd\<lparr>do_ref_cnt := do_ref_cnt dd - 1\<rparr>)\<rparr>"
    have "data_release (Suc n) h p = Inr h1"
      using False dd True by (simp add: data_lookup_def h1_def)
    moreover have "data_inv h1 (own ext p (- 1))" "heap_le h1 h"
      using decrement_inv [OF inv False dd True, of h1] by (simp_all add: h1_def)
    ultimately show ?thesis by (auto simp: released_def h1_def)
  next
    case last: False
    have one: "do_ref_cnt dd = 1"
      using last counts_okD(2) [OF data_invD(2) [OF inv] False dd] by simp
    define h1 where "h1 = h\<lparr>objs := (objs h)(p := None)\<rparr>"
    define h2 where "h2 = dispatch_data_destroy_buffer h1 (buf dd) (data_size dd)
      (do_targetq dd) (data_destructor dd)"
    define h3 where "h3 = (case do_targetq dd of None \<Rightarrow> h2
      | Some q \<Rightarrow> h2\<lparr>events := Ev_release_queue q # events h2\<rparr>)"
    have lf: "dispatch_data_leaf dd" using leaf dd by (simp add: leaf_at_def)
    then have g: "gain e dd = e" for e
      by (auto simp: gain_def dispatch_data_leaf_def)
    have same: "objs h3 = (objs h)(p := None)" "fresh h3 = fresh h" "malloc_ok h3 = malloc_ok h"
      by (simp_all add: h3_def h2_def h1_def split: option.split)
    have "data_release (Suc n) h p = Inr h3"
      using False dd last lf
      by (cases "do_targetq dd")
        (simp_all add: data_lookup_def dispatch_data_dispose_def h1_def h2_def h3_def)
    moreover have "data_inv h3 (own ext p (- 1))" "heap_le h3 h"
      using remove_inv [OF inv False dd own [OF False] one same(1,2)] g by simp_all
    ultimately show ?thesis using same by (auto simp: released_def)
  qed
qed

definition own_sub :: "owners \<Rightarrow> ptr list \<Rightarrow> owners" where
  "own_sub ext ps q = (if q = 0 then ext q else ext q - int (count_list ps q))"

lemma release_leaves:
  assumes "data_inv h ext" "\<forall>p \<in> set ps. leaf_at h p"
    and "\<forall>p \<in> set ps. p \<noteq> 0 \<longrightarrow> int (count_list ps p) \<le> ext p"
  shows "\<exists>h'. foldR (data_release (Suc n)) h ps = Inr h' \<and>
    data_inv h' (own_sub ext ps) \<and> released h h'"
  using assms
proof (induction ps arbitrary: h ext)
  case Nil
  have "own_sub ext [] = ext" by (rule HOL.ext) (simp add: own_sub_def)
  with Nil.prems(1) show ?case by (simp add: released_def)
next
  case (Cons p ps)
  have "p \<noteq> 0 \<Longrightarrow> 1 \<le> ext p" using Cons.prems(3) by auto
  then obtain h1 where h1: "data_release (Suc n) h p = Inr h1"
    "data_inv h1 (own ext p (- 1))" "released h h1"
    using release_leaf Cons.prems(1,2) by (meson list.set_intros(1))
  have "\<forall>q \<in> set ps. leaf_at h1 q"
    using Cons.prems(2) h1(3) by (auto simp: released_def intro: leaf_at_le)
  moreover have "\<forall>q \<in> set ps. q \<noteq> 0 \<longrightarrow> int (count_list ps q) \<le> own ext p (- 1) q"
  proof (intro ballI impI)
    fix q assume "q \<in> set ps" "q \<noteq> 0"
    then show "int (count_list ps q) \<le> own ext p (- 1) q"
      using Cons.prems(3) by (auto simp: own_apply dest!: bspec [where x = q] split: if_splits)
  qed
  ultimately obtain h2 where h2: "foldR (data_release (Suc n)) h1 ps = Inr h2"
    "data_inv h2 (own_sub (own ext p (- 1)) ps)" "released h1 h2"
    using Cons.IH [OF h1(2)] by blast
  have "own_sub (own ext p (- 1)) ps = own_sub ext (p # ps)"
    by (rule HOL.ext) (auto simp: own_sub_def own_apply)
  with h1 h2 show ?case
    by (auto simp del: data_release.simps intro: released_trans)
qed

lemma data_release_ok:
  assumes inv: "data_inv h ext" and own: "p \<noteq> 0 \<Longrightarrow> 1 \<le> ext p" and pos: "\<forall>q. 0 \<le> ext q"
  shows "\<exists>h'. dispatch_data_release h p = Inr h' \<and> data_inv h' (own ext p (- 1)) \<and> released h h'"
proof (cases "leaf_at h p")
  case True
  then show ?thesis
    using release_leaf [OF inv own, where n = 1] by (simp add: dispatch_data_release_def numeral_2_eq_2)
next
  case False
  then obtain dd where dd: "objs h p = Some dd" and comp: "\<not> dispatch_data_leaf dd"
    by (auto simp: leaf_at_def)
  have p0: "p \<noteq> 0"
  proof
    assume "p = 0"
    then show False
      using data_invD(1) [OF inv] dd comp by (auto simp: heap_ok_def empty_obj_ok_def)
  qed
  show ?thesis
  proof (cases "1 < do_ref_cnt dd")
    case True
    define h1 where "h1 = h\<lparr>objs := (objs h)(p \<mapsto> dd\<lparr>do_ref_cnt := do_ref_cnt dd - 1\<rparr>)\<rparr>"
    have "dispatch_data_release h p = Inr h1"
      using p0 dd True
      by (simp add: dispatch_data_release_def numeral_2_eq_2 data_lookup_def h1_def)
    moreover have "data_inv h1 (own ext p (- 1))" "heap_le h1 h"
      using decrement_inv [OF inv p0 dd True, of h1] by (simp_all add: h1_def)
    ultimately show ?thesis by (auto simp: released_def h1_def)
  next
    case last: False
    have one: "do_ref_cnt dd = 1"
      using last counts_okD(2) [OF data_invD(2) [OF inv] p0 dd] by simp
    define h1 where "h1 = h\<lparr>objs := (objs h)(p := None)\<rparr>"
    let ?ps = "map data_object (records dd)" and ?e = "gain (own ext p (- 1)) dd"
    have h1: "objs h1 = (objs h)(p := None)" "fresh h1 = fresh h" "malloc_ok h1 = malloc_ok h"
      by (simp_all add: h1_def)
    have inv1: "data_inv h1 ?e" "heap_le h1 h" "ext p = 1"
      using remove_inv [OF inv p0 dd own [OF p0] one h1(1,2)] by simp_all
    have "\<forall>q \<in> set ?ps. leaf_at h1 q"
      using heap_okD(1) [OF data_invD(1) [OF inv] dd] comp
      by (auto simp: obj_ok_def record_ok_def leaf_at_def h1(1) split: if_splits)
    moreover have "\<forall>q \<in> set ?ps. q \<noteq> 0 \<longrightarrow> int (count_list ?ps q) \<le> ?e q"
      using pos inv1(3) by (auto simp: gain_def own_apply)
    ultimately obtain h2 where h2: "foldR (data_release (Suc 0)) h1 ?ps = Inr h2"
      "data_inv h2 (own_sub ?e ?ps)" "released h1 h2"
      using release_leaves [OF inv1(1)] by blast
    have e: "own_sub ?e ?ps = own ext p (- 1)"
      by (rule HOL.ext) (auto simp: own_sub_def gain_def own_apply)
    define h3 where "h3 = h2\<lparr>events := Ev_free (buf dd) # events h2\<rparr>"
    define h4 where "h4 = (case do_targetq dd of None \<Rightarrow> h3
      | Some q \<Rightarrow> h3\<lparr>events := Ev_release_queue q # events h3\<rparr>)"
    have same: "objs h4 = objs h2" "fresh h4 = fresh h2" "malloc_ok h4 = malloc_ok h2"
      by (simp_all add: h4_def h3_def split: option.split)
    have "dispatch_data_release h p = Inr h4"
      using p0 dd last comp h2(1)
      by (cases "do_targetq dd")
        (simp_all add: dispatch_data_release_def numeral_2_eq_2 data_lookup_def
          dispatch_data_dispose_def h1_def h3_def h4_def)
    moreover have "data_inv h4 (own ext p (- 1))"
      using h2(2) data_inv_objs(1) [OF same(1,2)] by (simp add: e)
    moreover have "released h h4"
      using h2(3) inv1(2) same h1 data_inv_objs(2) [OF same(1,2)]
      by (auto simp: released_def intro: heap_le_trans)
    ultimately show ?thesis by blast
  qed
qed

end
