(* ===== verification/Data_Ops.thy ===== *)
theory Data_Ops
  imports Data_Invariant
begin

text \<open>
  The constructors of data objects: each keeps the invariant of the heap, gives its caller
  exactly one reference to the result, leaves every other object unchanged, and returns an
  object that stands for the bytes the public documentation promises.
\<close>

definition fresh_result :: "heap \<Rightarrow> owners \<Rightarrow> heap \<Rightarrow> ptr \<Rightarrow> bytes \<Rightarrow> bool" where
  "fresh_result h ext h' p bs \<longleftrightarrow>
     data_inv h' (own ext p 1) \<and> heap_le h h' \<and> objs h' p \<noteq> None \<and> data_bytes h' p = bs \<and>
     malloc_ok h' = malloc_ok h"

lemma data_lookup_Some [simp]: "objs h p = Some dd \<Longrightarrow> data_lookup h p = Inr dd"
  by (simp add: data_lookup_def)

lemma data_bytes_zero:
  assumes "heap_ok h" "objs h p = Some dd" "data_size dd = 0"
  shows "data_bytes h p = []"
  using length_data_bytes [OF assms(1,2)] assms(3) by simp

lemma retain_result:
  assumes inv: "data_inv h ext" and p: "objs h p = Some dd"
  shows "\<exists>h'. dispatch_data_retain h p = Inr h' \<and> fresh_result h ext h' p (data_bytes h p) \<and>
    events h' = events h"
proof -
  obtain h' where h': "dispatch_data_retain h p = Inr h'" "data_inv h' (own ext p 1)"
    "heap_le h h'" "same_env h h'"
    using retain_cnt [OF assms] by blast
  have "objs h' p \<noteq> None" using h'(3) p by (auto elim!: heap_leE)
  moreover have "data_bytes h' p = data_bytes h p"
    using data_invD(1) [OF inv] h'(3) p by (rule data_bytes_le)
  ultimately show ?thesis using h' by (auto simp: fresh_result_def same_env_def)
qed

text \<open>A new object with its records written and their leaves retained.\<close>

lemma new_result:
  assumes inv: "data_inv h ext" and ok: "obj_ok h d" and cnt: "do_ref_cnt d = 1"
  shows "\<exists>h'. foldR dispatch_data_retain (new_heap h d) (map data_object (records d)) = Inr h' \<and>
    fresh_result h ext h' (fresh h) (obj_bytes h d) \<and> events h' = events h"
proof -
  let ?h = "new_heap h d" and ?ps = "map data_object (records d)"
  have inv1: "data_inv ?h (disown (own ext (fresh h) 1) d)" using assms by (rule new_inv)
  have le: "heap_le h ?h" using data_invD(1) [OF inv] by (rule heap_le_new)
  have "\<forall>p \<in> set ?ps. objs ?h p \<noteq> None"
  proof
    fix p assume "p \<in> set ?ps"
    then obtain r where r: "r \<in> set (records d)" "p = data_object r" by auto
    then have "record_ok h r"
      using ok by (cases "records d = []") (simp_all add: obj_ok_def dispatch_data_leaf_def)
    then have "record_ok ?h r" using le by (rule record_ok_le)
    then show "objs ?h p \<noteq> None" using r(2) by (auto simp: record_ok_def)
  qed
  then obtain h' where h': "foldR dispatch_data_retain ?h ?ps = Inr h'"
    "data_inv h' (own_list (disown (own ext (fresh h) 1) d) ?ps)" "heap_le ?h h'" "same_env ?h h'"
    using retain_list [OF inv1] by blast
  have "objs ?h (fresh h) = Some d" by simp
  then obtain d' where d': "objs h' (fresh h) = Some d'" "records d' = records d" "buf d' = buf d"
    "data_size d' = data_size d"
    using heap_leE [OF h'(3)] by metis
  have le': "heap_le h h'" using le h'(3) by (rule heap_le_trans)
  have "data_bytes h' (fresh h) = obj_bytes h' d"
    using d' obj_bytes_cong [of d' d h'] by (simp add: data_bytes_def)
  also have "\<dots> = obj_bytes h d" using ok le' by (rule obj_bytes_le)
  finally have b: "data_bytes h' (fresh h) = obj_bytes h d" .
  show ?thesis
    using h' le' d'(1) b by (auto simp: fresh_result_def own_list_disown same_env_def)
qed

section \<open>Concatenation\<close>

lemma operand_records_ok:
  assumes "heap_ok h" "objs h p = Some dd" "data_size dd \<noteq> 0"
  shows "\<forall>r \<in> set (operand_records p dd). record_ok h r"
    "sum_list (map rr_length (operand_records p dd)) = data_size dd"
    "concat (map (record_bytes h) (operand_records p dd)) = data_bytes h p"
    "length (operand_records p dd) = dispatch_data_num_records dd"
proof -
  have ok: "obj_ok h dd" using assms(1,2) by (rule heap_okD)
  show "\<forall>r \<in> set (operand_records p dd). record_ok h r"
    "sum_list (map rr_length (operand_records p dd)) = data_size dd"
    using ok assms(2,3) by (auto simp: operand_records_def obj_ok_def record_ok_def)
  show "length (operand_records p dd) = dispatch_data_num_records dd"
    by (simp add: operand_records_def dispatch_data_leaf_def dispatch_data_num_records_def)
  show "concat (map (record_bytes h) (operand_records p dd)) = data_bytes h p"
  proof (cases "dispatch_data_leaf dd")
    case True
    then have "length (leaf_bytes dd) = data_size dd"
      using ok by (simp add: obj_ok_def length_leaf_bytes)
    with True assms(2) show ?thesis
      by (simp add: operand_records_def record_bytes_def data_bytes_def obj_bytes_def)
  next
    case False
    with assms(2) show ?thesis by (simp add: operand_records_def data_bytes_def obj_bytes_def)
  qed
qed

lemma create_concat_ok:
  assumes inv: "data_inv h ext" and p1: "objs h p1 = Some dd1" and p2: "objs h p2 = Some dd2"
    and size: "data_size dd1 + data_size dd2 < SIZE_LIMIT"
    and fits: "(dispatch_data_num_records dd1 + dispatch_data_num_records dd2) * 24 + 64 < SIZE_LIMIT"
  shows "\<exists>h' p. dispatch_data_create_concat h p1 p2 = Inr (h', Some p) \<and>
    fresh_result h ext h' p (data_bytes h p1 @ data_bytes h p2) \<and> events h' = events h"
proof -
  note hok = data_invD(1) [OF inv]
  consider "data_size dd1 = 0" | "data_size dd1 \<noteq> 0" "data_size dd2 = 0"
    | "data_size dd1 \<noteq> 0" "data_size dd2 \<noteq> 0" by blast
  then show ?thesis
  proof cases
    case 1
    then show ?thesis
      using retain_result [OF inv p2] data_bytes_zero [OF hok p1] p1
      by (auto simp: dispatch_data_create_concat_def)
  next
    case 2
    then show ?thesis
      using retain_result [OF inv p1] data_bytes_zero [OF hok p2] p1 p2
      by (auto simp: dispatch_data_create_concat_def)
  next
    case 3
    let ?n = "dispatch_data_num_records dd1 + dispatch_data_num_records dd2"
    let ?rs = "operand_records p1 dd1 @ operand_records p2 dd2"
    define d where "d = (blank_obj ?n)\<lparr>data_size := data_size dd1 + data_size dd2, records := ?rs\<rparr>"
    note o1 = operand_records_ok [OF hok p1 3(1)] and o2 = operand_records_ok [OF hok p2 3(2)]
    have ne: "\<not> dispatch_data_leaf d"
      using o1(4) by (auto simp: d_def dispatch_data_leaf_def dispatch_data_num_records_def
          split: if_splits)
    have ok: "obj_ok h d"
      using o1 o2 size fits ne by (auto simp: obj_ok_def d_def blank_obj_def)
    have bytes: "obj_bytes h d = data_bytes h p1 @ data_bytes h p2"
      using o1(3) o2(3) ne by (simp add: obj_bytes_def d_def)
    have "dispatch_data_create_concat h p1 p2 =
        bindR (foldR dispatch_data_retain (new_heap h d) (map data_object (records d)))
          (\<lambda>h''. Inr (h'', Some (fresh h)))"
      using 3 p1 p2 fits size
      by (simp add: dispatch_data_create_concat_def alloc_new Let_def sz_add_def d_def)
    moreover obtain h' where
      "foldR dispatch_data_retain (new_heap h d) (map data_object (records d)) = Inr h'"
      "fresh_result h ext h' (fresh h) (obj_bytes h d)" "events h' = events h"
      using new_result [OF inv ok] by (auto simp: d_def blank_obj_def)
    ultimately show ?thesis using bytes by simp
  qed
qed

section \<open>Subranges\<close>

lemma sum_list_take_Suc:
  "k < length xs \<Longrightarrow> sum_list (map f (take (Suc k) xs)) = sum_list (map f (take k xs)) + (f (xs ! k) :: nat)"
  by (simp add: take_Suc_conv_app_nth)

lemma find_record_spec:
  assumes "subrange_find_record rs i offset = (j, offset')"
    and "offset < sum_list (map rr_length rs)"
  shows "\<exists>k. j = i + k \<and> k < length rs \<and> offset' < rr_length (rs ! k) \<and>
    offset = sum_list (map rr_length (take k rs)) + offset'"
  using assms
proof (induction rs i offset rule: subrange_find_record.induct)
  case (1 i offset)
  then show ?case by simp
next
  case (2 r rs i offset)
  show ?case
  proof (cases "rr_length r \<le> offset")
    case True
    then have lt: "offset - rr_length r < sum_list (map rr_length rs)" using 2(3) by simp
    have "subrange_find_record rs (i + 1) (offset - rr_length r) = (j, offset')"
      using 2(2) True by simp
    from 2(1) [OF True this lt] obtain k where "j = i + 1 + k" "k < length rs" "offset' < rr_length (rs ! k)"
      "offset - rr_length r = sum_list (map rr_length (take k rs)) + offset'"
      by auto
    with True show ?thesis by (intro exI [of _ "Suc k"]) simp
  next
    case False
    with 2(2) show ?thesis by (intro exI [of _ 0]) simp
  qed
qed

lemma find_end_spec:
  assumes "0 < ll" "ll \<le> sum_list (map rr_length rs)"
  shows "\<exists>k ll'. subrange_find_end rs cnt ll = Inr (cnt + k + 1, ll') \<and> k < length rs \<and>
    0 < ll' \<and> ll' \<le> rr_length (rs ! k) \<and> ll = sum_list (map rr_length (take k rs)) + ll'"
  using assms
proof (induction rs cnt ll rule: subrange_find_end.induct)
  case (1 cnt ll)
  then show ?case by simp
next
  case (2 r rs cnt ll)
  show ?case
  proof (cases "ll \<le> rr_length r")
    case True
    with 2 show ?thesis by (intro exI [of _ 0] exI [of _ ll]) simp
  next
    case False
    then have ne: "rs \<noteq> []" using 2(3) by auto
    have "0 < ll - rr_length r" "ll - rr_length r \<le> sum_list (map rr_length rs)"
      using False 2(3) by simp_all
    from 2(1) [OF False ne this] obtain k ll'
      where "subrange_find_end rs (cnt + 1) (ll - rr_length r) = Inr (cnt + 1 + k + 1, ll')"
      "k < length rs" "0 < ll'" "ll' \<le> rr_length (rs ! k)"
      "ll - rr_length r = sum_list (map rr_length (take k rs)) + ll'"
      by blast
    with False ne show ?thesis by (intro exI [of _ "Suc k"] exI [of _ ll']) auto
  qed
qed

text \<open>The records of the result: the first one cut at its start, the last one at its last byte.\<close>

lemma trim_records:
  assumes hok: "heap_ok h" and ok: "\<forall>r \<in> set (a # ms @ [z]). record_ok h r"
    and off: "off < rr_length a" and ll: "0 < ll" "ll \<le> rr_length z"
  defines "rs \<equiv> a\<lparr>rr_from := rr_from a + off, rr_length := rr_length a - off\<rparr> # ms @
      [z\<lparr>rr_length := ll\<rparr>]"
  shows "\<forall>r \<in> set rs. record_ok h r"
    "concat (map (record_bytes h) rs) =
      take (sum_list (map rr_length rs)) (drop off (concat (map (record_bytes h) (a # ms @ [z]))))"
proof -
  show okr: "\<forall>r \<in> set rs. record_ok h r"
    using ok off ll by (fastforce simp: rs_def record_ok_def)
  have la: "length (record_bytes h a) = rr_length a"
    and lz: "length (record_bytes h z) = rr_length z"
    using ok by (simp_all add: length_record_bytes [OF hok])
  have a': "record_bytes h (a\<lparr>rr_from := rr_from a + off, rr_length := rr_length a - off\<rparr>) =
      drop off (record_bytes h a)"
    by (simp add: record_bytes_def drop_take add.commute split: option.split)
  have z': "record_bytes h (z\<lparr>rr_length := ll\<rparr>) = take ll (record_bytes h z)"
    using ll by (simp add: record_bytes_def min_def split: option.split)
  have lm: "length (concat (map (record_bytes h) ms)) = sum_list (map rr_length ms)"
    using ok by (intro length_record_list [OF hok]) simp
  show "concat (map (record_bytes h) rs) =
      take (sum_list (map rr_length rs)) (drop off (concat (map (record_bytes h) (a # ms @ [z]))))"
    using off la lm by (simp add: rs_def a' z' del: length_concat)
qed

lemma drop_records:
  assumes hok: "heap_ok h" and ok: "\<forall>r \<in> set rs. record_ok h r" and k: "k < length rs"
  shows "drop (sum_list (map rr_length (take k rs)) + off) (concat (map (record_bytes h) rs)) =
    drop off (concat (map (record_bytes h) (drop k rs)))"
proof -
  have "length (concat (map (record_bytes h) (take k rs))) = sum_list (map rr_length (take k rs))"
    using ok by (intro length_record_list [OF hok]) (meson in_set_takeD)
  moreover have "concat (map (record_bytes h) rs) =
      concat (map (record_bytes h) (take k rs)) @ concat (map (record_bytes h) (drop k rs))"
    by (metis append_take_drop_id concat_append map_append)
  ultimately show ?thesis by (simp del: length_concat)
qed

lemma empty_result:
  assumes "data_inv h ext"
  shows "fresh_result h ext h 0 []"
proof -
  obtain dd where dd: "objs h 0 = Some dd" "data_size dd = 0"
    using data_invD(1) [OF assms] by (auto simp: heap_ok_def empty_obj_ok_def)
  then show ?thesis
    using assms data_bytes_zero [OF data_invD(1) [OF assms] dd]
    by (simp add: fresh_result_def own_def)
qed

lemma subrange_leaf:
  assumes inv: "data_inv h ext" and p: "objs h p = Some dd" and leaf: "dispatch_data_leaf dd"
  shows "\<exists>h' q. data_create_subrange (Suc n) h p offset len = Inr (h', Some q) \<and>
    fresh_result h ext h' q (take len (drop offset (data_bytes h p))) \<and> events h' = events h"
proof -
  note hok = data_invD(1) [OF inv]
  have lb: "length (data_bytes h p) = data_size dd" using length_data_bytes [OF hok p] .
  consider "data_size dd \<le> offset \<or> len = 0"
    | "offset = 0" "len = data_size dd" "len \<noteq> 0"
    | "offset < data_size dd" "len \<noteq> 0" "\<not> (offset = 0 \<and> len = data_size dd)" by linarith
  then show ?thesis
  proof cases
    case 1
    then show ?thesis using p lb empty_result [OF inv] by auto
  next
    case 2
    then show ?thesis using p lb retain_result [OF inv p] by auto
  next
    case 3
    let ?len = "min len (data_size dd - offset)"
    define d where "d = (blank_obj 1)\<lparr>data_size := ?len,
      records := [\<lparr>data_object = p, rr_from = offset, rr_length = ?len\<rparr>]\<rparr>"
    have ok: "obj_ok h d"
      using heap_okD(1) [OF hok p] leaf 3 p
      by (auto simp: obj_ok_def d_def blank_obj_def dispatch_data_leaf_def record_ok_def leaf_ok_def)
    have b: "obj_bytes h d = take len (drop offset (data_bytes h p))"
      using p leaf lb
      by (simp add: obj_bytes_def d_def dispatch_data_leaf_def record_bytes_def data_bytes_def
          min_def)
    have "data_create_subrange (Suc n) h p offset len =
        bindR (foldR dispatch_data_retain (new_heap h d) (map data_object (records d)))
          (\<lambda>h''. Inr (h'', Some (fresh h)))"
      using 3 p leaf by (auto simp: alloc_new Let_def d_def bindR_assoc min_def)
    with new_result [OF inv ok] b show ?thesis by (auto simp: d_def blank_obj_def)
  qed
qed

lemma last_update: "(xs @ [z])[length xs := w] = xs @ [w]"
  by simp

lemma take_drop_split:
  assumes "k + Suc n < length rs"
  shows "take (n + 2) (drop k rs) = rs ! k # take n (drop (Suc k) rs) @ [rs ! (k + Suc n)]"
proof -
  have "take (n + 2) (drop k rs) = rs ! k # take (Suc n) (drop (Suc k) rs)"
    using assms Cons_nth_drop_Suc [of k rs, symmetric] by simp
  also have "take (Suc n) (drop (Suc k) rs) = take n (drop (Suc k) rs) @ [rs ! (k + Suc n)]"
    using assms take_Suc_conv_app_nth [of n "drop (Suc k) rs"] by simp
  finally show ?thesis by simp
qed

lemma subrange_step:
  assumes "objs h p = Some dd" "\<not> dispatch_data_leaf dd" "offset < data_size dd" "len \<noteq> 0"
    and "\<not> (len \<le> data_size dd - offset \<and> len = data_size dd)"
    and "subrange_find_record (records dd) 0 offset = (i, off)" "i < length (records dd)"
  defines "n \<equiv> min len (data_size dd - offset)" and "a \<equiv> records dd ! i"
    and "to_the_end \<equiv> sz_add offset (min len (data_size dd - offset)) = data_size dd"
  shows "sz_add off n \<le> rr_length a \<Longrightarrow> data_create_subrange (Suc fuel) h p offset len =
      data_create_subrange fuel h (data_object a) (sz_add (rr_from a) off) n"
    "\<not> sz_add off n \<le> rr_length a \<Longrightarrow>
      (if to_the_end then Inr (length (records dd) - i, 0)
       else subrange_find_end (drop (i + 1) (records dd)) 1 (sz_sub n (sz_sub (rr_length a) off)))
      = Inr (cnt, ll) \<Longrightarrow> cnt * 24 + 64 < SIZE_LIMIT \<Longrightarrow>
      rs1 = take cnt (drop i (records dd)) \<Longrightarrow>
      rs2 = (if off \<noteq> 0 then rs1[0 := (rs1 ! 0)\<lparr>rr_from := sz_add (rr_from (rs1 ! 0)) off,
          rr_length := sz_sub (rr_length (rs1 ! 0)) off\<rparr>] else rs1) \<Longrightarrow>
      rs3 = (if \<not> to_the_end then rs2[cnt - 1 := (rs2 ! (cnt - 1))\<lparr>rr_length := ll\<rparr>]
          else rs2) \<Longrightarrow>
      data_create_subrange (Suc fuel) h p offset len =
        bindR (foldR dispatch_data_retain
            (new_heap h ((blank_obj cnt)\<lparr>data_size := n, records := rs3\<rparr>))
            (map data_object rs3)) (\<lambda>h''. Inr (h'', Some (fresh h)))"
proof -
  have m: "(if len > data_size dd - offset then data_size dd - offset else len) = n"
    by (simp add: n_def min_def)
  have c: "\<not> (data_size dd \<le> offset \<or> len = 0)" using assms(3,4) by simp
  have e: "data_create_subrange (Suc fuel) h p offset len =
    (if sz_add off n \<le> rr_length a then
           data_create_subrange fuel h (data_object a) (sz_add (rr_from a) off) n
         else
           bindR (if to_the_end then Inr (length (records dd) - i, 0)
                  else subrange_find_end (drop (i + 1) (records dd)) 1
                         (sz_sub n (sz_sub (rr_length a) off)))
             (\<lambda>(cnt, last_length).
           case dispatch_data_alloc h cnt 0 of
             (h', None) \<Rightarrow> Inl Null_deref
           | (h', Some q) \<Rightarrow>
               bindR (data_lookup h' q) (\<lambda>d.
               let rs1 = take cnt (drop i (records dd));
                   rs2 = (if off \<noteq> 0
                          then rs1[0 := (rs1 ! 0)\<lparr>rr_from := sz_add (rr_from (rs1 ! 0)) off,
                                 rr_length := sz_sub (rr_length (rs1 ! 0)) off\<rparr>]
                          else rs1);
                   rs3 = (if \<not> to_the_end
                          then rs2[cnt - 1 := (rs2 ! (cnt - 1))\<lparr>rr_length := last_length\<rparr>]
                          else rs2)
               in bindR (foldR dispatch_data_retain
                      (h'\<lparr>objs := (objs h')(q \<mapsto> d\<lparr>data_size := n, records := rs3\<rparr>)\<rparr>)
                      (map data_object rs3)) (\<lambda>h''.
                  Inr (h'', Some q)))))"
    unfolding data_create_subrange.simps data_lookup_Some [OF assms(1)] bindR.simps
      Let_def [of "if len > data_size dd - offset then data_size dd - offset else len"] m
      if_not_P [OF c] if_not_P [OF assms(5)] if_not_P [OF assms(2)]
    using assms(6,7) unfolding to_the_end_def n_def [symmetric] a_def
    by (simp only: Let_def split: prod.split) simp
  show "sz_add off n \<le> rr_length a \<Longrightarrow> data_create_subrange (Suc fuel) h p offset len =
      data_create_subrange fuel h (data_object a) (sz_add (rr_from a) off) n"
    by (simp only: e if_True)
  assume *: "\<not> sz_add off n \<le> rr_length a"
      "(if to_the_end then Inr (length (records dd) - i, 0)
       else subrange_find_end (drop (i + 1) (records dd)) 1 (sz_sub n (sz_sub (rr_length a) off)))
      = Inr (cnt, ll)" "cnt * 24 + 64 < SIZE_LIMIT"
      "rs1 = take cnt (drop i (records dd))"
      "rs2 = (if off \<noteq> 0 then rs1[0 := (rs1 ! 0)\<lparr>rr_from := sz_add (rr_from (rs1 ! 0)) off,
          rr_length := sz_sub (rr_length (rs1 ! 0)) off\<rparr>] else rs1)"
      "rs3 = (if \<not> to_the_end then rs2[cnt - 1 := (rs2 ! (cnt - 1))\<lparr>rr_length := ll\<rparr>]
          else rs2)"
  show "data_create_subrange (Suc fuel) h p offset len =
        bindR (foldR dispatch_data_retain
            (new_heap h ((blank_obj cnt)\<lparr>data_size := n, records := rs3\<rparr>))
            (map data_object rs3)) (\<lambda>h''. Inr (h'', Some (fresh h)))"
    unfolding e *(2) if_not_P [OF *(1)] bindR.simps prod.case
    using *(3) by (simp add: alloc_new Let_def *(4-6) cong: if_cong)
qed

lemma subrange_ok:
  assumes inv: "data_inv h ext" and p: "objs h p = Some dd"
  shows "\<exists>h' q. dispatch_data_create_subrange h p offset len = Inr (h', Some q) \<and>
    fresh_result h ext h' q (take len (drop offset (data_bytes h p))) \<and> events h' = events h"
proof -
  note hok = data_invD(1) [OF inv] and sub = dispatch_data_create_subrange_def [of h p offset len]
  have lb: "length (data_bytes h p) = data_size dd" using length_data_bytes [OF hok p] .
  consider "dispatch_data_leaf dd" | "\<not> dispatch_data_leaf dd" "data_size dd \<le> offset \<or> len = 0"
    | "\<not> dispatch_data_leaf dd" "offset = 0" "len = data_size dd" "len \<noteq> 0"
    | "\<not> dispatch_data_leaf dd" "offset < data_size dd" "len \<noteq> 0"
      "\<not> (len \<le> data_size dd - offset \<and> len = data_size dd)" by linarith
  then show ?thesis
  proof cases
    case 1
    then show ?thesis using subrange_leaf [OF inv p 1, of 1] by (simp add: sub numeral_2_eq_2)
  next
    case 2
    then show ?thesis using p lb empty_result [OF inv] by (auto simp: sub numeral_2_eq_2)
  next
    case 3
    then show ?thesis
      using p lb retain_result [OF inv p]
      by (auto simp: dispatch_data_create_subrange_def numeral_2_eq_2)
  next
    case 4
    let ?rs = "records dd" and ?len = "min len (data_size dd - offset)"
    have obj: "\<forall>r \<in> set ?rs. record_ok h r" "data_size dd = sum_list (map rr_length ?rs)"
      "data_size dd < SIZE_LIMIT" "length ?rs * 24 + 64 < SIZE_LIMIT"
      using heap_okD(1) [OF hok p] 4(1) by (simp_all add: obj_ok_def)
    obtain i off where find: "subrange_find_record ?rs 0 offset = (i, off)" by fastforce
    then have i: "i < length ?rs" "off < rr_length (?rs ! i)"
      "offset = sum_list (map rr_length (take i ?rs)) + off"
      using find_record_spec [OF find] 4(2) obj(2) by auto
    let ?a = "?rs ! i"
    have drop_i: "drop i ?rs = ?a # drop (Suc i) ?rs" using i(1) by (simp add: Cons_nth_drop_Suc)
    have a: "record_ok h ?a" using obj(1) i(1) by simp
    then obtain l where l: "objs h (data_object ?a) = Some l" "dispatch_data_leaf l"
      "rr_from ?a + rr_length ?a \<le> data_size l" "data_size l < SIZE_LIMIT"
      using heap_okD(1) [OF hok] by (elim record_okE) (fastforce simp: obj_ok_def leaf_ok_def)
    have bytes: "drop offset (data_bytes h p) =
        drop off (concat (map (record_bytes h) (drop i ?rs)))"
      using drop_records [OF hok obj(1) i(1)] p 4(1) i(3)
      by (simp add: data_bytes_def obj_bytes_def)
    have len: "0 < ?len" "offset + ?len \<le> data_size dd" "offset + ?len < SIZE_LIMIT"
      using 4 obj(3) by linarith+
    have tl: "take len (drop offset (data_bytes h p)) = take ?len (drop offset (data_bytes h p))"
      using lb by (simp add: min_def)
    have adds: "sz_add offset ?len = offset + ?len" "sz_add off ?len = off + ?len"
      "sz_add (rr_from ?a) off = rr_from ?a + off"
      using len i l(3,4) by (simp_all add: sz_add_def)
    show ?thesis
    proof (cases "off + ?len \<le> rr_length ?a")
      case True
      have "data_bytes h (data_object ?a) = leaf_bytes l"
        using l by (simp add: data_bytes_def obj_bytes_def)
      moreover have "take ?len (drop off (concat (map (record_bytes h) (drop i ?rs)))) =
          take ?len (drop (rr_from ?a + off) (leaf_bytes l))"
      proof -
        let ?n = ?len
        have "take ?n (drop off (concat (map (record_bytes h) (drop i ?rs)))) =
            take ?n (drop off (record_bytes h ?a))"
          using True length_record_bytes [OF hok a] by (simp add: drop_i)
        also have "record_bytes h ?a = take (rr_length ?a) (drop (rr_from ?a) (leaf_bytes l))"
          using l by (simp add: record_bytes_def)
        also have "take ?n (drop off (take (rr_length ?a) (drop (rr_from ?a) (leaf_bytes l)))) =
            take (min ?n (rr_length ?a - off)) (drop (rr_from ?a + off) (leaf_bytes l))"
          by (simp only: drop_take take_take drop_drop add.commute)
        also have "min ?n (rr_length ?a - off) = ?n" using True by linarith
        finally show ?thesis .
      qed
      ultimately have "take ?len (drop (rr_from ?a + off) (data_bytes h (data_object ?a))) =
          take len (drop offset (data_bytes h p))"
        using bytes tl by simp
      moreover have "dispatch_data_create_subrange h p offset len =
          data_create_subrange (Suc 0) h (data_object ?a) (rr_from ?a + off) ?len"
        using subrange_step(1) [OF p 4 find i(1), of "Suc 0"] True adds
        by (simp only: sub numeral_2_eq_2)
      ultimately show ?thesis
        using subrange_leaf [OF inv l(1,2), of 0 "rr_from ?a + off" ?len] by simp
    next
      case False
      let ?rest = "drop (Suc i) ?rs" and ?stop = "offset + ?len = data_size dd"
      have total: "data_size dd = sum_list (map rr_length (take i ?rs)) + rr_length ?a +
          sum_list (map rr_length ?rest)"
        using obj(2) drop_i
        by (metis append_take_drop_id group_cancel.add1 list.simps(9) map_append sum_list.Cons
            sum_list_append)
      have sub_a: "sz_sub ?len (sz_sub (rr_length ?a) off) = ?len - (rr_length ?a - off)"
      proof -
        have "rr_length ?a - off \<le> ?len" using False by linarith
        moreover have "sz_sub (rr_length ?a) off = rr_length ?a - off"
          using i(2) by (simp add: sz_sub_def)
        ultimately show ?thesis by (simp only: sz_sub_def if_True)
      qed
      have rest: "?len - (rr_length ?a - off) \<le> sum_list (map rr_length ?rest)"
        "0 < ?len - (rr_length ?a - off)"
        "?stop \<Longrightarrow> ?len - (rr_length ?a - off) = sum_list (map rr_length ?rest)"
        using total i(2,3) len(2) False by linarith+
      have lr: "length ?rest = length ?rs - Suc i" by simp
      obtain n ll where n: "i + Suc n < length ?rs"
        "(if ?stop then Inr (length ?rs - i, 0)
          else subrange_find_end ?rest 1 (?len - (rr_length ?a - off))) =
         (Inr (n + 2, if ?stop then 0 else ll) :: (nat \<times> nat) result)"
        "0 < ll" "ll \<le> rr_length (?rs ! (i + Suc n))" "?stop \<longrightarrow> ll = rr_length (?rs ! (i + Suc n))"
        "?len = rr_length ?a - off + sum_list (map rr_length (take n ?rest)) + ll"
      proof (cases ?stop)
        case True
        have ne: "?rest \<noteq> []" using rest(1,2) by auto
        then have "Suc i < length ?rs" by simp
        then obtain m where m: "length ?rs = i + m + 2"
          by (metis add_2_eq_Suc' add_Suc_right less_natE add.commute)
        then have n1: "i + Suc m < length ?rs" "m < length ?rest" "Suc m = length ?rest"
          "length ?rs - i = m + 2" by auto
        have z: "?rest ! m = ?rs ! (i + Suc m)" using n1(1) by simp
        have "record_ok h (?rs ! (i + Suc m))" using obj(1) n1(1) by simp
        then have pos: "0 < rr_length (?rs ! (i + Suc m))" by (simp add: record_ok_def)
        have "sum_list (map rr_length ?rest) =
            sum_list (map rr_length (take m ?rest)) + rr_length (?rs ! (i + Suc m))"
          using sum_list_take_Suc [OF n1(2), of rr_length] z n1(3) by simp
        then have "?len = rr_length ?a - off + sum_list (map rr_length (take m ?rest)) +
            rr_length (?rs ! (i + Suc m))"
          using rest(3) [OF True] rest(2) by linarith
        then show ?thesis
          using True n1(1,4) pos by (intro that [of m "rr_length (?rs ! (i + Suc m))"]) simp_all
      next
        case not_end: False
        obtain k ll' where k: "subrange_find_end ?rest 1 (?len - (rr_length ?a - off)) =
            Inr (1 + k + 1, ll')" "k < length ?rest" "0 < ll'" "ll' \<le> rr_length (?rest ! k)"
          "?len - (rr_length ?a - off) = sum_list (map rr_length (take k ?rest)) + ll'"
          using find_end_spec [OF rest(2,1), of 1] by blast
        show ?thesis
        proof (rule that [of k ll'])
          show "i + Suc k < length ?rs" using k(2) by simp
          show "(if ?stop then Inr (length ?rs - i, 0)
              else subrange_find_end ?rest 1 (?len - (rr_length ?a - off))) =
            (Inr (k + 2, if ?stop then 0 else ll') :: (nat \<times> nat) result)"
            using not_end k(1) by simp
          show "ll' \<le> rr_length (?rs ! (i + Suc k))" using k(2,4) by simp
          show "?len = rr_length ?a - off + sum_list (map rr_length (take k ?rest)) + ll'"
            using k(5) rest(2) by linarith
        qed (use k(3) not_end in auto)
      qed
      let ?z = "?rs ! (i + Suc n)" and ?ms = "take n ?rest"
      let ?cut = "?a\<lparr>rr_from := rr_from ?a + off, rr_length := rr_length ?a - off\<rparr> # ?ms @
          [?z\<lparr>rr_length := ll\<rparr>]"
      have split: "take (n + 2) (drop i ?rs) = ?a # ?ms @ [?z]" using n(1) by (rule take_drop_split)
      define d where "d = (blank_obj (n + 2))\<lparr>data_size := ?len, records := ?cut\<rparr>"
      have oka: "\<forall>r \<in> set (?a # ?ms @ [?z]). record_ok h r"
        using obj(1) split by (metis in_set_dropD in_set_takeD)
      have sum: "sum_list (map rr_length ?cut) = ?len" using n(6) by simp
      have nl: "\<not> dispatch_data_leaf d" by (simp add: d_def dispatch_data_leaf_def)
      have ok: "obj_ok h d"
        using trim_records(1) [OF hok oka i(2) n(3,4)] nl sum len obj(4) n(1)
        by (simp add: obj_ok_def d_def blank_obj_def)
      have "take ?len (drop off (concat (map (record_bytes h) (drop i ?rs)))) =
          take ?len (drop off (concat (map (record_bytes h) (?a # ?ms @ [?z]))))"
      proof -
        have "concat (map (record_bytes h) (drop i ?rs)) =
            concat (map (record_bytes h) (take (n + 2) (drop i ?rs))) @
            concat (map (record_bytes h) (drop (n + 2) (drop i ?rs)))"
          by (metis append_take_drop_id concat_append map_append)
        moreover have "off + ?len \<le> length (concat (map (record_bytes h) (?a # ?ms @ [?z])))"
          unfolding length_record_list [OF hok oka] using n(4,6) i(2) by simp
        ultimately show ?thesis unfolding split by simp
      qed
      then have "take len (drop offset (data_bytes h p)) = concat (map (record_bytes h) ?cut)"
        unfolding trim_records(2) [OF hok oka i(2) n(3,4)] sum tl unfolding bytes .
      moreover have "records d = ?cut" by (simp add: d_def)
      ultimately have b: "obj_bytes h d = take len (drop offset (data_bytes h p))"
        using nl by (simp only: obj_bytes_def if_False)
      have "dispatch_data_create_subrange h p offset len =
          bindR (foldR dispatch_data_retain (new_heap h d) (map data_object (records d)))
            (\<lambda>h''. Inr (h'', Some (fresh h)))"
      proof -
        let ?rs2 = "?a\<lparr>rr_from := rr_from ?a + off, rr_length := rr_length ?a - off\<rparr> # ?ms @ [?z]"
        have r2: "?rs2 = (if off \<noteq> 0 then (?a # ?ms @ [?z])[0 := ((?a # ?ms @ [?z]) ! 0)
            \<lparr>rr_from := sz_add (rr_from ((?a # ?ms @ [?z]) ! 0)) off,
             rr_length := sz_sub (rr_length ((?a # ?ms @ [?z]) ! 0)) off\<rparr>] else ?a # ?ms @ [?z])"
          using i(2) adds(3) by (simp add: sz_sub_def)
        have r3: "?cut = (if \<not> sz_add offset ?len = data_size dd
            then ?rs2[n + 2 - 1 := (?rs2 ! (n + 2 - 1))\<lparr>rr_length := if ?stop then 0 else ll\<rparr>]
            else ?rs2)"
        proof -
          have "length ?ms = n" using n(1) by simp
          then show ?thesis using n(5) by (simp add: nth_append list_update_append adds(1))
        qed
        have fe: "(if sz_add offset ?len = data_size dd then Inr (length ?rs - i, 0)
            else subrange_find_end (drop (i + 1) ?rs) 1 (sz_sub ?len (sz_sub (rr_length ?a) off))) =
           (Inr (n + 2, if ?stop then 0 else ll) :: (nat \<times> nat) result)"
          using n(2) by (simp only: adds(1) sub_a Suc_eq_plus1)
        have nf: "\<not> sz_add off ?len \<le> rr_length ?a" using False unfolding adds(2) .
        have fit: "(n + 2) * 24 + 64 < SIZE_LIMIT" using n(1) obj(4) by simp
        show ?thesis
          using subrange_step(2) [where fuel = "Suc 0" and ?rs3.0 = ?cut,
              OF p 4 find i(1) nf fe fit split [symmetric] r2 r3]
          unfolding sub numeral_2_eq_2 d_def by simp
      qed
      moreover obtain h' where
        "foldR dispatch_data_retain (new_heap h d) (map data_object (records d)) = Inr h'"
        "fresh_result h ext h' (fresh h) (obj_bytes h d)" "events h' = events h"
        using new_result [OF inv ok] by (auto simp: d_def blank_obj_def)
      ultimately show ?thesis using b by simp
    qed
  qed
qed

section \<open>Creation from a buffer\<close>

lemma fresh_result_events:
  "fresh_result h ext (h'\<lparr>events := e\<rparr>) p bs = fresh_result h ext h' p bs"
proof -
  have "record_bytes (h'\<lparr>events := e\<rparr>) = record_bytes h'"
    by (rule HOL.ext) (simp add: record_bytes_def)
  then have "obj_bytes (h'\<lparr>events := e\<rparr>) = obj_bytes h'"
    by (intro HOL.ext) (simp add: obj_bytes_def)
  then have "data_bytes (h'\<lparr>events := e\<rparr>) = data_bytes h'"
    by (intro HOL.ext) (simp add: data_bytes_def split: option.split)
  then show ?thesis
    using data_inv_objs [of "h'\<lparr>events := e\<rparr>" h'] by (simp add: fresh_result_def)
qed

definition buffer_obj :: "bytes \<Rightarrow> nat \<Rightarrow> queue option \<Rightarrow> destructor \<Rightarrow> dispatch_data_s" where
  "buffer_obj b sz q d =
     (blank_obj 0)\<lparr>buf := Some b, data_size := sz, data_destructor := d, do_targetq := q\<rparr>"

definition queue_events :: "queue option \<Rightarrow> data_event list" where
  "queue_events q = (case q of None \<Rightarrow> [] | Some tq \<Rightarrow> [Ev_retain_queue tq])"

lemma init_new:
  "dispatch_data_init (new_heap h (blank_obj 0)) (fresh h) (Some b) sz q d =
    Inr ((new_heap h (buffer_obj b sz q d))\<lparr>events := queue_events q @ events h\<rparr>)"
  by (cases q) (simp_all add: dispatch_data_init_def buffer_obj_def queue_events_def new_heap_def
      data_lookup_def Let_def blank_obj_def)

lemma buffer_result:
  assumes inv: "data_inv h ext" and b: "sz \<le> length b" "sz < SIZE_LIMIT"
  shows "fresh_result h ext ((new_heap h (buffer_obj b sz q d))\<lparr>events := e\<rparr>) (fresh h) (take sz b)"
proof -
  let ?d = "buffer_obj b sz q d"
  have d: "records ?d = []" "dispatch_data_leaf ?d" "leaf_bytes ?d = take sz b" "do_ref_cnt ?d = 1"
    by (simp_all add: buffer_obj_def blank_obj_def dispatch_data_leaf_def leaf_bytes_def)
  have ok: "obj_ok h ?d"
    using b d(2) by (simp add: obj_ok_def leaf_ok_def) (simp add: buffer_obj_def blank_obj_def)
  show ?thesis
    using new_result [OF inv ok d(4)] d(1-3) by (simp add: obj_bytes_def fresh_result_events)
qed

text \<open>
  The new object stands for the first \<open>sz\<close> bytes of the buffer, whatever the
  destructor; the destructor \<open>DEFAULT\<close> copies them into memory that is freed later.
\<close>

lemma create_ok:
  assumes inv: "data_inv h ext" and b: "0 < sz" "sz \<le> length b" "sz + 64 < SIZE_LIMIT"
    and m: "d = DESTRUCTOR_DEFAULT \<Longrightarrow> malloc_ok h sz"
  shows "\<exists>h' p. dispatch_data_create h (Some b) sz q d = Inr (h', Some p) \<and>
    fresh_result h ext h' p (take sz b) \<and> events h' = queue_events q @ events h"
proof -
  have r: "read_bytes (Some b) sz = Inr (take sz b)" using b(2) by (simp add: read_bytes_def)
  have copy: "fresh_result h ext ((new_heap h (buffer_obj (take sz b) sz q d'))\<lparr>events := e\<rparr>)
      (fresh h) (take sz b)" for d' e
    using buffer_result [OF inv, of sz "take sz b"] b by simp
  have orig: "fresh_result h ext ((new_heap h (buffer_obj b sz q d'))\<lparr>events := e\<rparr>)
      (fresh h) (take sz b)" for d' e
    using buffer_result [OF inv, of sz b] b by simp
  show ?thesis
    using b(1,3) m r copy orig
    by (simp add: dispatch_data_create_def alloc_new init_new)
qed

lemma create_alloc_ok:
  assumes inv: "data_inv h ext" and b: "sz + 64 < SIZE_LIMIT"
  shows "\<exists>h' p b. dispatch_data_create_alloc h sz = Inr (h', p, b) \<and>
    fresh_result h ext h' p (replicate sz 0) \<and> events h' = events h"
proof (cases "sz = 0")
  case True
  then show ?thesis
    using empty_result [OF inv] by (simp add: dispatch_data_create_alloc_def)
next
  case False
  then show ?thesis
    using buffer_result [where b = "replicate sz 0" and q = None, OF inv, of sz] b
    by (simp add: dispatch_data_create_alloc_def alloc_new init_new queue_events_def)
qed

section \<open>Regions\<close>

text \<open>A region: the object it belongs to, its offset, the pointer to its bytes, its size.\<close>

type_synonym region = "ptr \<times> nat \<times> bytes \<times> nat"

fun region_bytes :: "region \<Rightarrow> bytes" where
  "region_bytes (q, off, b, n) = take n b"

definition direct_buffer :: "heap \<Rightarrow> dispatch_data_s \<Rightarrow> bytes option" where
  "direct_buffer h dd =
     (if \<not> dispatch_data_leaf dd \<and> length (records dd) = 1
      then case objs h (data_object (records dd ! 0)) of
             None \<Rightarrow> None
           | Some l \<Rightarrow> map_option (drop (rr_from (records dd ! 0))) (buf l)
      else buf dd)"

fun record_regions :: "heap \<Rightarrow> nat \<Rightarrow> range_record list \<Rightarrow> region list" where
  "record_regions h off [] = []"
| "record_regions h off (r # rs) =
     (data_object r, off,
      (case objs h (data_object r) of
         None \<Rightarrow> []
       | Some l \<Rightarrow> (case buf l of None \<Rightarrow> [] | Some b \<Rightarrow> drop (rr_from r) b)),
      rr_length r) # record_regions h (off + rr_length r) rs"

definition data_regions :: "heap \<Rightarrow> ptr \<Rightarrow> region list" where
  "data_regions h p =
     (case objs h p of
        None \<Rightarrow> []
      | Some dd \<Rightarrow>
          if data_size dd = 0 then []
          else case direct_buffer h dd of
            Some b \<Rightarrow> [(p, 0, b, data_size dd)]
          | None \<Rightarrow> record_regions h 0 (records dd))"

fun run_applier :: "'s applier \<Rightarrow> heap \<Rightarrow> 's \<Rightarrow> region list \<Rightarrow> (heap \<times> 's \<times> bool) result" where
  "run_applier applier h s [] = Inr (h, s, True)"
| "run_applier applier h s ((q, off, b, n) # rs) =
     bindR (applier h s q off b n) (\<lambda>(h', s', result).
       if result then run_applier applier h' s' rs else Inr (h', s', False))"

text \<open>The regions follow each other from the given offset and hold as many bytes as they say.\<close>

fun regions_at :: "nat \<Rightarrow> region list \<Rightarrow> bool" where
  "regions_at off [] \<longleftrightarrow> True"
| "regions_at off ((q, o', b, n) # rs) \<longleftrightarrow> o' = off \<and> 0 < n \<and> n \<le> length b \<and> regions_at (off + n) rs"

lemma leaf_buf:
  assumes "heap_ok h" "objs h p = Some l" "dispatch_data_leaf l" "data_size l \<noteq> 0"
  obtains b where "buf l = Some b" "data_size l \<le> length b" "leaf_bytes l = take (data_size l) b"
    "data_bytes h p = take (data_size l) b"
  using heap_okD(1) [OF assms(1,2)] assms(2-4)
  by (auto simp: obj_ok_def leaf_ok_def leaf_bytes_def data_bytes_def obj_bytes_def)

lemma record_buf:
  assumes "heap_ok h" "record_ok h r"
  obtains l b where "objs h (data_object r) = Some l" "dispatch_data_leaf l" "data_size l \<noteq> 0"
    "buf l = Some b" "rr_from r + rr_length r \<le> data_size l" "data_size l \<le> length b"
    "0 < rr_length r" "rr_length r \<le> length (drop (rr_from r) b)"
    "record_bytes h r = take (rr_length r) (drop (rr_from r) b)"
proof -
  obtain l where l: "objs h (data_object r) = Some l" "dispatch_data_leaf l" "0 < rr_length r"
    "rr_from r + rr_length r \<le> data_size l"
    using assms(2) by (rule record_okE)
  then have nz: "data_size l \<noteq> 0" by linarith
  obtain b where b: "buf l = Some b" "data_size l \<le> length b" "leaf_bytes l = take (data_size l) b"
    using leaf_buf [OF assms(1) l(1,2) nz] by blast
  have "record_bytes h r = take (rr_length r) (drop (rr_from r) b)"
    using l b(3) by (simp add: record_bytes_def drop_take min_def)
  then show ?thesis using that l b nz by simp
qed

lemma record_regions_ok:
  assumes "heap_ok h" "\<forall>r \<in> set rs. record_ok h r"
  shows "regions_at off (record_regions h off rs)"
    "concat (map region_bytes (record_regions h off rs)) = concat (map (record_bytes h) rs)"
  using assms(2)
proof (induction rs arbitrary: off)
  case (Cons r rs)
  {
    case 1
    obtain l b where "objs h (data_object r) = Some l" "buf l = Some b" "0 < rr_length r"
      "rr_length r \<le> length (drop (rr_from r) b)"
      by (rule record_buf [OF assms(1), of r]) (use 1 in auto)
    with Cons.IH(1) 1 show ?case by simp
  next
    case 2
    obtain l b where "objs h (data_object r) = Some l" "buf l = Some b"
      "record_bytes h r = take (rr_length r) (drop (rr_from r) b)"
      by (rule record_buf [OF assms(1), of r]) (use 2 in auto)
    with Cons.IH(2) 2 show ?case by simp
  }
qed simp_all

lemma direct_ok:
  assumes hok: "heap_ok h" and p: "objs h p = Some dd" and nz: "data_size dd \<noteq> 0"
  shows "direct_buffer h dd = Some b \<Longrightarrow> data_size dd \<le> length b \<and> take (data_size dd) b = data_bytes h p"
    "direct_buffer h dd = None \<Longrightarrow> \<not> dispatch_data_leaf dd \<and> buf dd = None \<and>
      2 \<le> length (records dd) \<and> (\<forall>r \<in> set (records dd). record_ok h r) \<and>
      data_size dd = sum_list (map rr_length (records dd))"
proof -
  have ok: "obj_ok h dd" using hok p by (rule heap_okD)
  have l1: "length (records dd) = 1 \<longleftrightarrow> (\<exists>r. records dd = [r])"
    by (cases "records dd") auto
  have one: "direct_buffer h dd \<noteq> None \<and>
      (direct_buffer h dd = Some b \<longrightarrow> data_size dd \<le> length b \<and> take (data_size dd) b = data_bytes h p)"
    if single: "records dd = [r]" for r b
  proof -
    have nl: "\<not> dispatch_data_leaf dd" using single by (simp add: dispatch_data_leaf_def)
    then have "record_ok h r" "data_size dd = rr_length r" using ok single by (simp_all add: obj_ok_def)
    obtain l c where l: "objs h (data_object r) = Some l" "buf l = Some c"
      "rr_length r \<le> length (drop (rr_from r) c)"
      "record_bytes h r = take (rr_length r) (drop (rr_from r) c)"
      by (rule record_buf [OF hok \<open>record_ok h r\<close>])
    have db: "direct_buffer h dd = Some (drop (rr_from r) c)"
      using single nl l by (simp add: direct_buffer_def)
    moreover have "data_bytes h p = record_bytes h r"
      using single nl p by (simp add: data_bytes_def obj_bytes_def)
    ultimately show ?thesis
      using \<open>data_size dd = rr_length r\<close> l(3,4) by auto
  qed
  show "direct_buffer h dd = Some b \<Longrightarrow> data_size dd \<le> length b \<and> take (data_size dd) b = data_bytes h p"
  proof (cases "length (records dd) = 1")
    case True
    then obtain r where "records dd = [r]" using l1 by blast
    from one [OF this]
    show "direct_buffer h dd = Some b \<Longrightarrow> data_size dd \<le> length b \<and> take (data_size dd) b = data_bytes h p"
      by blast
  next
    case False
    assume b: "direct_buffer h dd = Some b"
    then have bb: "buf dd = Some b" using False by (simp add: direct_buffer_def)
    show "data_size dd \<le> length b \<and> take (data_size dd) b = data_bytes h p"
    proof (cases "dispatch_data_leaf dd")
      case True
      obtain c where "buf dd = Some c" "data_size dd \<le> length c"
        "data_bytes h p = take (data_size dd) c"
        by (rule leaf_buf [OF hok p True nz])
      then show ?thesis using bb by simp
    next
      case False
      then have "b = obj_bytes h dd" using ok bb by (simp add: obj_ok_def)
      then show ?thesis using length_data_bytes [OF hok p] p by (simp add: data_bytes_def)
    qed
  qed
  assume none: "direct_buffer h dd = None"
  then have n1: "length (records dd) \<noteq> 1" using one unfolding l1 by blast
  then have bn: "buf dd = None" using none by (simp add: direct_buffer_def split: if_splits)
  have nl: "\<not> dispatch_data_leaf dd"
  proof
    assume lf: "dispatch_data_leaf dd"
    obtain c where "buf dd = Some c" by (rule leaf_buf [OF hok p lf nz])
    with bn show False by simp
  qed
  have "length (records dd) \<noteq> 0" using nl by (simp add: dispatch_data_leaf_def)
  then have "2 \<le> length (records dd)" using n1 by linarith
  with nl bn ok show "\<not> dispatch_data_leaf dd \<and> buf dd = None \<and>
      2 \<le> length (records dd) \<and> (\<forall>r \<in> set (records dd). record_ok h r) \<and>
      data_size dd = sum_list (map rr_length (records dd))"
    by (simp add: obj_ok_def)
qed

lemma data_regions_ok:
  assumes hok: "heap_ok h" and p: "objs h p = Some dd"
  shows "regions_at 0 (data_regions h p) \<and>
    concat (map region_bytes (data_regions h p)) = data_bytes h p"
proof (cases "data_size dd = 0")
  case True
  then show ?thesis using p data_bytes_zero [OF hok p] by (simp add: data_regions_def)
next
  case nz: False
  show ?thesis
  proof (cases "direct_buffer h dd")
    case None
    note d = direct_ok(2) [OF hok p nz None]
    then have "data_bytes h p = concat (map (record_bytes h) (records dd))"
      using p by (simp add: data_bytes_def obj_bytes_def)
    moreover have "data_regions h p = record_regions h 0 (records dd)"
      using p nz None by (simp add: data_regions_def)
    ultimately show ?thesis
      using d record_regions_ok [OF hok, of "records dd" 0] by simp
  next
    case (Some b)
    then show ?thesis using p nz direct_ok(1) [OF hok p nz Some] by (simp add: data_regions_def)
  qed
qed

lemma map_direct_ok:
  assumes hok: "heap_ok h" and p: "objs h p = Some dd" and nz: "data_size dd \<noteq> 0"
  shows "\<exists>q off. dispatch_data_map_direct h p 0 = Inr (direct_buffer h dd, q, off) \<and>
    (direct_buffer h dd = None \<longrightarrow> q = p \<and> off = 0)"
proof (cases "\<not> dispatch_data_leaf dd \<and> length (records dd) = 1")
  case True
  then obtain r where r: "records dd = [r]" by (cases "records dd") auto
  have ok: "record_ok h r" using heap_okD(1) [OF hok p] True r by (simp add: obj_ok_def)
  obtain l b where l: "objs h (data_object r) = Some l" "buf l = Some b" "data_size l \<noteq> 0"
    "rr_from r + rr_length r \<le> data_size l" "dispatch_data_leaf l"
    by (rule record_buf [OF hok ok])
  have "data_size l < SIZE_LIMIT"
    using heap_okD(1) [OF hok l(1)] l(5) by (simp add: obj_ok_def leaf_ok_def)
  then have "sz_add 0 (rr_from r) = rr_from r" using l(4) by (simp add: sz_add_def)
  with True r l p nz show ?thesis
    by (simp add: dispatch_data_map_direct_def dispatch_data_num_records_def direct_buffer_def)
next
  case False
  then have "\<not> (\<not> dispatch_data_leaf dd \<and> dispatch_data_num_records dd = 1)"
    by (auto simp: dispatch_data_num_records_def dispatch_data_leaf_def split: if_splits)
  with False p nz show ?thesis
    by (auto simp: dispatch_data_map_direct_def direct_buffer_def option.map_ident)
qed

lemma direct_leaf: "dispatch_data_leaf dd \<Longrightarrow> direct_buffer h dd = buf dd"
  by (simp add: direct_buffer_def)

lemma apply_leaf:
  assumes hok: "heap_ok h" and r: "record_ok h r"
  shows "dispatch_data_apply_i (Suc n) h s (data_object r) off (rr_from r) (rr_length r) applier =
    applier h s (data_object r) off
      (case objs h (data_object r) of None \<Rightarrow> []
       | Some l \<Rightarrow> (case buf l of None \<Rightarrow> [] | Some b \<Rightarrow> drop (rr_from r) b)) (rr_length r)"
proof -
  obtain l b where l: "objs h (data_object r) = Some l" "dispatch_data_leaf l" "data_size l \<noteq> 0"
    "buf l = Some b" by (rule record_buf [OF hok r])
  obtain q o' where "dispatch_data_map_direct h (data_object r) 0 = Inr (Some b, q, o')"
    using map_direct_ok [OF hok l(1,3)] l(2,4) by (auto simp: direct_leaf)
  with l show ?thesis by simp
qed

lemma record_regions_le:
  assumes "heap_ok h" "\<forall>r \<in> set rs. record_ok h r" "heap_le h h'"
  shows "record_regions h' off rs = record_regions h off rs"
  using assms(2)
proof (induction rs arbitrary: off)
  case (Cons r rs)
  obtain l where l: "objs h (data_object r) = Some l"
    using Cons.prems by (auto elim: record_okE)
  obtain l' where "objs h' (data_object r) = Some l'" "buf l' = buf l"
    by (rule heap_leE [OF assms(3) l])
  with l Cons show ?case by simp
qed simp

text \<open>
  An applier that keeps the heap well formed: it may create and retain objects.
\<close>

definition applier_ok :: "'s applier \<Rightarrow> bool" where
  "applier_ok applier \<longleftrightarrow>
     (\<forall>h s q off b n h' s' r. applier h s q off b n = Inr (h', s', r) \<longrightarrow> heap_ok h \<longrightarrow>
        heap_le h h' \<and> heap_ok h')"

lemma apply_records_run:
  assumes a: "applier_ok applier"
    and hok: "heap_ok h" and rs: "\<forall>r \<in> set rs. record_ok h r"
    and fits: "off + sum_list (map rr_length rs) < SIZE_LIMIT"
  shows "apply_records (\<lambda>h s q off frm len. dispatch_data_apply_i (Suc n) h s q off frm len applier)
      h s off rs = run_applier applier h s (record_regions h off rs)"
  using hok rs fits
proof (induction rs arbitrary: h s off)
  case (Cons r rs)
  let ?b = "case objs h (data_object r) of None \<Rightarrow> []
    | Some l \<Rightarrow> (case buf l of None \<Rightarrow> [] | Some b \<Rightarrow> drop (rr_from r) b)"
  have step: "dispatch_data_apply_i (Suc n) h s (data_object r) off (rr_from r) (rr_length r) applier =
      applier h s (data_object r) off ?b (rr_length r)"
    using apply_leaf Cons.prems(1,2) by (metis list.set_intros(1))
  have add: "sz_add off (rr_length r) = off + rr_length r" using Cons.prems(3) by (simp add: sz_add_def)
  show ?case
  proof (cases "applier h s (data_object r) off ?b (rr_length r)")
    case (Inl e)
    then show ?thesis using step by (simp del: dispatch_data_apply_i.simps)
  next
    case (Inr t)
    obtain h' s' b where t: "t = (h', s', b)" by (cases t)
    have h': "heap_le h h'" "heap_ok h'"
      using a Inr t Cons.prems(1) unfolding applier_ok_def by blast+
    have "\<forall>r \<in> set rs. record_ok h' r" using Cons.prems(2) h'(1) by (auto intro: record_ok_le)
    moreover have "record_regions h' (off + rr_length r) rs = record_regions h (off + rr_length r) rs"
      using Cons.prems(1,2) h'(1) by (intro record_regions_le) simp_all
    ultimately have ih: "apply_records
        (\<lambda>h s q off frm len. dispatch_data_apply_i (Suc n) h s q off frm len applier)
        h' s' (off + rr_length r) rs = run_applier applier h' s' (record_regions h (off + rr_length r) rs)"
      using Cons.IH [OF h'(2), of "off + rr_length r" s'] Cons.prems(3) by (simp add: add.assoc)
    show ?thesis
      unfolding apply_records.simps record_regions.simps run_applier.simps step add Inr t bindR.simps
        prod.case ih ..
  qed
qed simp

lemma apply_run:
  assumes a: "applier_ok applier" and hok: "heap_ok h" and p: "objs h p = Some dd"
  shows "dispatch_data_apply h s p applier = run_applier applier h s (data_regions h p)"
proof (cases "data_size dd = 0")
  case True
  then show ?thesis using p by (simp add: dispatch_data_apply_def data_regions_def)
next
  case nz: False
  have e: "dispatch_data_apply h s p applier =
      dispatch_data_apply_i (Suc (Suc 0)) h s p 0 0 (data_size dd) applier"
    using p nz by (simp add: dispatch_data_apply_def numeral_2_eq_2 del: dispatch_data_apply_i.simps)
  obtain q o' where m: "dispatch_data_map_direct h p 0 = Inr (direct_buffer h dd, q, o')"
    using map_direct_ok [OF hok p nz] by blast
  show ?thesis
  proof (cases "direct_buffer h dd")
    case (Some b)
    have "run_applier applier h s [(p, 0, b, data_size dd)] = applier h s p 0 b (data_size dd)"
      by (cases "applier h s p 0 b (data_size dd)") (auto split: prod.split)
    then show ?thesis
      unfolding e dispatch_data_apply_i.simps(2) [of "Suc 0"] using m Some p nz
      by (simp add: data_regions_def del: run_applier.simps)
  next
    case None
    note d = direct_ok(2) [OF hok p nz None]
    have "data_size dd < SIZE_LIMIT" using heap_okD(1) [OF hok p] d by (simp add: obj_ok_def)
    then have "apply_records
        (\<lambda>h s q off frm len. dispatch_data_apply_i (Suc 0) h s q off frm len applier) h s 0 (records dd) =
        run_applier applier h s (record_regions h 0 (records dd))"
      using apply_records_run [OF a hok, of "records dd" 0 0 s] d by simp
    moreover have "data_regions h p = record_regions h 0 (records dd)"
      using p nz None by (simp add: data_regions_def)
    ultimately show ?thesis
      unfolding e dispatch_data_apply_i.simps(2) [of "Suc 0"] using m None p d
      by (simp del: dispatch_data_apply_i.simps)
  qed
qed

section \<open>Flattening\<close>

lemma flatten_regions:
  assumes "regions_at (length done_bytes) rs"
    and "length rest = length (concat (map region_bytes rs))"
  shows "run_applier flatten_applier h (done_bytes @ rest) rs =
    Inr (h, done_bytes @ concat (map region_bytes rs), True)"
  using assms
proof (induction rs arbitrary: done_bytes rest)
  case (Cons x rs)
  obtain q off b n where x: "x = (q, off, b, n)" by (cases x)
  have x': "off = length done_bytes" "n \<le> length b" "regions_at (length done_bytes + n) rs"
    using Cons.prems(1) by (simp_all add: x)
  have l: "length rest = n + length (concat (map region_bytes rs))"
    using Cons.prems(2) x'(2) by (simp add: x)
  have "flatten_applier h (done_bytes @ rest) q off b n =
      Inr (h, (done_bytes @ take n b) @ drop n rest, True)"
    using x' l by (simp add: flatten_applier_def read_bytes_def write_bytes_def)
  moreover have "run_applier flatten_applier h ((done_bytes @ take n b) @ drop n rest) rs =
      Inr (h, (done_bytes @ take n b) @ concat (map region_bytes rs), True)"
    using Cons.IH [of "done_bytes @ take n b" "drop n rest"] x' l by simp
  ultimately show ?case by (simp add: x)
qed simp

lemma flatten_ok:
  assumes hok: "heap_ok h" and p: "objs h p = Some dd"
  shows "dispatch_data_flatten h junk p =
    Inr (h, if malloc_ok h (data_size dd) then Some (data_bytes h p) else None)"
proof -
  have a: "applier_ok flatten_applier"
    by (auto simp: applier_ok_def flatten_applier_def bindR_Inr_iff)
  have "run_applier flatten_applier h (replicate (data_size dd) junk) (data_regions h p) =
      Inr (h, data_bytes h p, True)"
    using flatten_regions [of "[]" "data_regions h p" "replicate (data_size dd) junk" h]
      data_regions_ok [OF hok p] length_data_bytes [OF hok p] by simp
  then show ?thesis
    using p by (simp add: dispatch_data_flatten_def apply_run [OF a hok p])
qed

section \<open>Mapping\<close>

lemma obj_size_fits:
  assumes "heap_ok h" "objs h p = Some dd"
  shows "data_size dd < SIZE_LIMIT"
  using heap_okD(1) [OF assms] by (auto simp: obj_ok_def leaf_ok_def split: if_splits)

lemma create_map_ok:
  assumes inv: "data_inv h ext" and p: "objs h p = Some dd"
    and m: "malloc_ok h (data_size dd)" and s: "data_size dd + 64 < SIZE_LIMIT"
  shows "\<exists>h' q b. dispatch_data_create_map h junk p =
      Inr (h', Some q, if data_size dd = 0 then None else Some b, data_size dd) \<and>
    fresh_result h ext h' q (data_bytes h p) \<and>
    (data_size dd \<noteq> 0 \<longrightarrow> data_size dd \<le> length b \<and> take (data_size dd) b = data_bytes h p)"
proof (cases "data_size dd = 0")
  case True
  then show ?thesis
    using p empty_result [OF inv] data_bytes_zero [OF data_invD(1) [OF inv] p]
    by (simp add: dispatch_data_create_map_def)
next
  case nz: False
  note hok = data_invD(1) [OF inv]
  obtain q o' where md: "dispatch_data_map_direct h p 0 = Inr (direct_buffer h dd, q, o')"
    using map_direct_ok [OF hok p nz] by blast
  show ?thesis
  proof (cases "direct_buffer h dd")
    case (Some b)
    obtain h' where "dispatch_data_retain h p = Inr h'" "fresh_result h ext h' p (data_bytes h p)"
      using retain_result [OF inv p] by blast
    then show ?thesis
      using Some md p nz direct_ok(1) [OF hok p nz Some]
      by (auto simp: dispatch_data_create_map_def)
  next
    case None
    let ?b = "data_bytes h p"
    have len: "length ?b = data_size dd" using length_data_bytes [OF hok p] .
    obtain h' q' where "dispatch_data_create h (Some ?b) (data_size dd) None DESTRUCTOR_FREE =
        Inr (h', Some q')" "fresh_result h ext h' q' (take (data_size dd) ?b)"
      using create_ok [OF inv, of "data_size dd" ?b DESTRUCTOR_FREE None] nz len s by auto
    then show ?thesis
      using None md p nz flatten_ok [OF hok p, of junk] m len
      by (auto simp: dispatch_data_create_map_def)
  qed
qed

lemma create_map_nomem:
  assumes hok: "heap_ok h" and p: "objs h p = Some dd" and nz: "data_size dd \<noteq> 0"
    and d: "direct_buffer h dd = None" and m: "\<not> malloc_ok h (data_size dd)"
  shows "dispatch_data_create_map h junk p = Inr (h, None, None, 0)"
proof -
  obtain q o' where md: "dispatch_data_map_direct h p 0 = Inr (None, q, o')"
    using map_direct_ok [OF hok p nz] d by auto
  show ?thesis
    using md p nz flatten_ok [OF hok p, of junk] m by (simp add: dispatch_data_create_map_def)
qed

section \<open>The flattened bytes of an object\<close>

text \<open>Caching the flat copy in the object changes nothing else.\<close>

lemma set_buf_inv:
  assumes inv: "data_inv h ext" and p: "objs h p = Some dd" and nl: "\<not> dispatch_data_leaf dd"
    and n: "2 \<le> length (records dd)"
    and h': "objs h' = (objs h)(p \<mapsto> dd\<lparr>buf := Some (data_bytes h p)\<rparr>)" "fresh h' = fresh h"
  shows "data_inv h' ext" "data_bytes h' q = data_bytes h q"
proof -
  note hok = data_invD(1) [OF inv] and cok = data_invD(2) [OF inv]
  let ?d = "dd\<lparr>buf := Some (data_bytes h p)\<rparr>"
  have leaf: "objs h' x = Some l \<longleftrightarrow> objs h x = Some l" if "dispatch_data_leaf l" for x l
    using that nl p by (auto simp: h'(1) dispatch_data_leaf_def)
  have rok: "record_ok h' r" "record_bytes h' r = record_bytes h r" if r: "record_ok h r" for r
  proof -
    obtain l where l: "objs h (data_object r) = Some l" "dispatch_data_leaf l" "0 < rr_length r"
      "rr_from r + rr_length r \<le> data_size l" using r by (rule record_okE)
    then show "record_ok h' r" "record_bytes h' r = record_bytes h r"
      using leaf [OF l(2), of "data_object r"] by (auto simp: record_ok_def record_bytes_def)
  qed
  have bytes: "obj_bytes h' d = obj_bytes h d" if "obj_ok h d" for d
    using that rok(2) by (auto simp: obj_bytes_def obj_ok_def intro!: arg_cong [where f = concat])
  have okd: "obj_ok h dd" using hok p by (rule heap_okD)
  have d': "obj_bytes h' ?d = obj_bytes h dd" "data_bytes h p = obj_bytes h dd"
    using bytes [OF okd] nl p by (simp_all add: obj_bytes_def data_bytes_def dispatch_data_leaf_def)
  have ok': "obj_ok h' d" if "obj_ok h d" for d
    using that bytes [OF that] rok(1) by (auto simp: obj_ok_def)
  have okd': "obj_ok h' ?d"
    using ok' [OF okd] d' nl n by (simp add: obj_ok_def dispatch_data_leaf_def)
  have hok': "heap_ok h'"
    unfolding heap_ok_def
  proof (intro conjI allI impI)
    show "empty_obj_ok h'" using hok leaf by (auto simp: heap_ok_def empty_obj_ok_def)
    fix x d assume x: "objs h' x = Some d"
    show "obj_ok h' d" using x okd' ok' heap_okD(1) [OF hok] by (cases "x = p") (auto simp: h'(1))
    show "x < fresh h'"
      using x heap_okD(2) [OF hok] p by (cases "x = p") (auto simp: h')
  qed
  have refs: "in_refs h' x = in_refs h x" for x
    using in_refs_update [OF heap_okD(2) [OF hok p] h'(2,1), of x] p by (simp add: objrefs_def)
  have "counts_ok h' ext"
  proof (rule counts_okI)
    fix x d assume x: "x \<noteq> 0" "objs h' x = Some d"
    obtain d0 where "objs h x = Some d0" "do_ref_cnt d0 = do_ref_cnt d"
      using x p by (cases "x = p") (auto simp: h'(1))
    then show "int (do_ref_cnt d) = int (in_refs h' x) + ext x \<and> 0 < do_ref_cnt d"
      using counts_okD(1,2) [OF cok x(1)] refs by metis
  next
    fix x assume x: "x \<noteq> 0" "objs h' x = None"
    then show "ext x = 0" using counts_okD(3) [OF cok x(1)] by (simp add: h'(1) split: if_splits)
  qed
  with hok' show "data_inv h' ext" by (simp add: data_inv_def)
  show "data_bytes h' q = data_bytes h q"
  proof (cases "q = p")
    case True
    then show ?thesis using d' by (simp add: data_bytes_def h'(1))
  next
    case False
    then show ?thesis
      using bytes heap_okD(1) [OF hok]
      by (auto simp: data_bytes_def h'(1) split: option.split)
  qed
qed

lemma flattened_ok:
  assumes inv: "data_inv h ext" and p: "objs h p = Some dd" and nz: "data_size dd \<noteq> 0"
    and m: "malloc_ok h (data_size dd)" and other: "other = None \<or> other = Some (data_bytes h p)"
  shows "\<exists>h' b. dispatch_data_get_flattened_bytes_4libxpc h junk other p = Inr (h', Some b) \<and>
    take (data_size dd) b = data_bytes h p \<and> data_inv h' ext \<and>
    (\<forall>q. data_bytes h' q = data_bytes h q)"
proof -
  note hok = data_invD(1) [OF inv]
  obtain q o' where md: "dispatch_data_map_direct h p 0 = Inr (direct_buffer h dd, q, o')"
    "direct_buffer h dd = None \<longrightarrow> q = p \<and> o' = 0"
    using map_direct_ok [OF hok p nz] by (elim exE conjE) (rule that)
  show ?thesis
  proof (cases "direct_buffer h dd")
    case (Some b)
    then show ?thesis
      using md p nz inv direct_ok(1) [OF hok p nz Some]
      by (simp add: dispatch_data_get_flattened_bytes_4libxpc_def)
  next
    case None
    define ev where "ev = (case other of None \<Rightarrow> events h
      | Some b \<Rightarrow> Ev_free (Some (data_bytes h p)) # events h)"
    define h' where "h' = h\<lparr>objs := (objs h)(p \<mapsto> dd\<lparr>buf := Some (data_bytes h p)\<rparr>),
      events := ev\<rparr>"
    have "dispatch_data_get_flattened_bytes_4libxpc h junk other p = Inr (h', Some (data_bytes h p))"
      using md None p nz m other flatten_ok [OF hok p, of junk]
      by (auto simp: dispatch_data_get_flattened_bytes_4libxpc_def h'_def ev_def)
    moreover have "data_inv h' ext" "\<forall>q. data_bytes h' q = data_bytes h q"
      using set_buf_inv [OF inv p, of h'] direct_ok(2) [OF hok p nz None] by (simp_all add: h'_def)
    moreover have "take (data_size dd) (data_bytes h p) = data_bytes h p"
      using length_data_bytes [OF hok p] by simp
    ultimately show ?thesis by blast
  qed
qed

section \<open>Copying a region\<close>

lemma copy_region_find_spec:
  assumes "location < off + sum_list (map rr_length rs)"
    and "off \<le> location" "\<forall>r \<in> set rs. 0 < rr_length r"
    and "off + sum_list (map rr_length rs) < SIZE_LIMIT"
    and "\<forall>r \<in> set rs. rr_from r + rr_length r < SIZE_LIMIT"
  shows "\<exists>k. k < length rs \<and>
    copy_region_find rs 0 off location =
      Inr (rs ! k, rr_from (rs ! k), rr_length (rs ! k), off + sum_list (map rr_length (take k rs))) \<and>
    off + sum_list (map rr_length (take k rs)) \<le> location \<and>
    location < off + sum_list (map rr_length (take k rs)) + rr_length (rs ! k)"
  using assms
proof (induction rs arbitrary: off)
  case (Cons r rs)
  have add: "sz_add off (rr_length r) = off + rr_length r" "sz_add 0 (rr_from r) = rr_from r"
    using Cons.prems(4,5) by (auto simp: sz_add_def)
  show ?case
  proof (cases "off + rr_length r \<le> location")
    case True
    then obtain k where k: "k < length rs"
      "copy_region_find rs 0 (off + rr_length r) location =
        Inr (rs ! k, rr_from (rs ! k), rr_length (rs ! k),
          off + rr_length r + sum_list (map rr_length (take k rs)))"
      "off + rr_length r + sum_list (map rr_length (take k rs)) \<le> location"
      "location < off + rr_length r + sum_list (map rr_length (take k rs)) + rr_length (rs ! k)"
      using Cons.IH [of "off + rr_length r"] Cons.prems by auto
    then show ?thesis
      using True add Cons.prems(3) by (intro exI [of _ "Suc k"]) (simp add: add.assoc)
  next
    case False
    then show ?thesis using add Cons.prems by (intro exI [of _ 0]) simp
  qed
qed simp

text \<open>The region of a leaf: the leaf itself, or a composite with one record.\<close>

lemma copy_region_leaf:
  assumes inv: "data_inv h ext" and r: "record_ok h r"
  shows "\<exists>h' q. dispatch_data_copy_region_i (Suc n) h (data_object r) (rr_from r) (rr_length r)
      location out = Inr (h', q, out) \<and> fresh_result h ext h' q (record_bytes h r)"
proof -
  note hok = data_invD(1) [OF inv]
  let ?p = "data_object r"
  obtain l b where l: "objs h ?p = Some l" "dispatch_data_leaf l" "data_size l \<noteq> 0"
    "buf l = Some b" "rr_from r + rr_length r \<le> data_size l" "0 < rr_length r"
    by (rule record_buf [OF hok r])
  have md: "dispatch_data_map_direct h ?p (rr_from r) = Inr (Some (drop (rr_from r) b), ?p, rr_from r)"
    using l by (simp add: dispatch_data_map_direct_def)
  obtain h1 where h1: "dispatch_data_retain h ?p = Inr h1" "data_inv h1 (own ext ?p 1)"
    "heap_le h h1" "same_env h h1" using retain_cnt [OF inv l(1)] by blast
  obtain l1 where l1: "objs h1 ?p = Some l1" "data_size l1 = data_size l"
    "dispatch_data_leaf l1 = dispatch_data_leaf l" by (rule heap_leE [OF h1(3) l(1)])
  have rb: "record_bytes h r = take (rr_length r) (drop (rr_from r) (data_bytes h ?p))"
    using l by (simp add: record_bytes_def data_bytes_def obj_bytes_def)
  have len: "length (data_bytes h ?p) = data_size l" using length_data_bytes [OF hok l(1)] .
  show ?thesis
  proof (cases "rr_from r = 0 \<and> rr_length r = data_size l")
    case True
    then have "record_bytes h r = data_bytes h ?p" using rb len by simp
    then show ?thesis
      using True l md retain_result [OF inv l(1)] by (auto simp: Let_def)
  next
    case False
    define d where "d = (blank_obj 1)\<lparr>data_size := rr_length r,
      records := [\<lparr>data_object = ?p, rr_from = rr_from r, rr_length = rr_length r\<rparr>]\<rparr>"
    have nl: "\<not> dispatch_data_leaf d" by (simp add: d_def dispatch_data_leaf_def)
    have ok: "obj_ok h1 d"
      using nl l l1 obj_size_fits [OF hok l(1)]
      by (simp add: obj_ok_def d_def blank_obj_def record_ok_def)
    let ?h2 = "new_heap h1 d"
    have own: "disown (own (own ext ?p 1) (fresh h1) 1) d = own ext (fresh h1) 1"
      by (rule HOL.ext) (auto simp: disown_def own_apply d_def)
    have inv2: "data_inv ?h2 (own ext (fresh h1) 1)"
      using new_inv [OF h1(2) ok] own by (simp add: d_def blank_obj_def)
    have le: "heap_le h ?h2"
      using h1(3) heap_le_new [OF data_invD(1) [OF h1(2)]] by (rule heap_le_trans)
    have "data_bytes ?h2 (fresh h1) = obj_bytes ?h2 d" by (simp add: data_bytes_def)
    also have "\<dots> = record_bytes ?h2 r" using nl by (simp add: obj_bytes_def) (simp add: d_def record_bytes_def cong: option.case_cong)
    also have "\<dots> = record_bytes h r" using r le by (rule record_bytes_le)
    finally have b: "data_bytes ?h2 (fresh h1) = record_bytes h r" .
    have "dispatch_data_copy_region_i (Suc n) h ?p (rr_from r) (rr_length r) location out =
        Inr (?h2, fresh h1, out)"
      unfolding dispatch_data_copy_region_i.simps(2) Let_def data_lookup_Some [OF l(1)] bindR.simps
        md prod.case h1(1) data_lookup_Some [OF l1(1)] l1(2) if_not_P [OF False]
      by (simp add: alloc_new d_def)
    then show ?thesis
      using inv2 le b h1(4) new_heap_simps(1) [of h1 d]
      by (auto simp: fresh_result_def same_env_def simp del: dispatch_data_copy_region_i.simps)
  qed
qed

lemma copy_region_ok:
  assumes inv: "data_inv h ext" and p: "objs h p = Some dd" and loc: "location < data_size dd"
  shows "\<exists>h' q off n. dispatch_data_copy_region h p location = Inr (h', q, off) \<and>
    fresh_result h ext h' q (take n (drop off (data_bytes h p))) \<and>
    off \<le> location \<and> location < off + n \<and> off + n \<le> data_size dd"
proof -
  note hok = data_invD(1) [OF inv]
  have nz: "data_size dd \<noteq> 0" using loc by simp
  have len: "length (data_bytes h p) = data_size dd" using length_data_bytes [OF hok p] .
  have e: "dispatch_data_copy_region h p location =
      dispatch_data_copy_region_i (Suc (Suc 0)) h p 0 (data_size dd) location 0"
    using p loc by (simp add: dispatch_data_copy_region_def numeral_2_eq_2
        del: dispatch_data_copy_region_i.simps)
  obtain q o' where md: "dispatch_data_map_direct h p 0 = Inr (direct_buffer h dd, q, o')"
    "direct_buffer h dd = None \<longrightarrow> q = p \<and> o' = 0"
    using map_direct_ok [OF hok p nz] by (elim exE conjE) (rule that)
  show ?thesis
  proof (cases "direct_buffer h dd")
    case (Some b)
    obtain h' where "dispatch_data_retain h p = Inr h'" "fresh_result h ext h' p (data_bytes h p)"
      using retain_result [OF inv p] by blast
    then show ?thesis
      using Some md p loc len
      by (intro exI [of _ h'] exI [of _ p] exI [of _ 0] exI [of _ "data_size dd"])
        (simp add: e Let_def)
  next
    case None
    note d = direct_ok(2) [OF hok p nz None]
    let ?rs = "records dd"
    have from_fits: "\<forall>r \<in> set ?rs. rr_from r + rr_length r < SIZE_LIMIT"
    proof
      fix r assume "r \<in> set ?rs"
      then have "record_ok h r" using d by blast
      then obtain l where l: "objs h (data_object r) = Some l"
        "rr_from r + rr_length r \<le> data_size l" by (rule record_okE)
      then show "rr_from r + rr_length r < SIZE_LIMIT" using obj_size_fits [OF hok l(1)] by simp
    qed
    have pos: "\<forall>r \<in> set ?rs. 0 < rr_length r" using d by (auto simp: record_ok_def)
    have "location < 0 + sum_list (map rr_length ?rs)" "0 \<le> location"
      "0 + sum_list (map rr_length ?rs) < SIZE_LIMIT"
      using loc d obj_size_fits [OF hok p] by simp_all
    from copy_region_find_spec [OF this(1,2) pos this(3) from_fits]
    obtain k where k: "k < length ?rs"
      "copy_region_find ?rs 0 0 location = Inr (?rs ! k, rr_from (?rs ! k), rr_length (?rs ! k),
        sum_list (map rr_length (take k ?rs)))"
      "sum_list (map rr_length (take k ?rs)) \<le> location"
      "location < sum_list (map rr_length (take k ?rs)) + rr_length (?rs ! k)"
      by auto
    let ?off = "sum_list (map rr_length (take k ?rs))" and ?n = "rr_length (?rs ! k)"
    have rk: "record_ok h (?rs ! k)" using d k(1) by simp
    have total: "?off + ?n \<le> data_size dd"
    proof -
      have "sum_list (map rr_length ?rs) = ?off + sum_list (map rr_length (drop k ?rs))"
        by (metis append_take_drop_id map_append sum_list_append)
      then show ?thesis using d k(1) by (simp add: Cons_nth_drop_Suc [symmetric])
    qed
    have "drop ?off (data_bytes h p) = concat (map (record_bytes h) (drop k ?rs))"
      using drop_records [OF hok _ k(1), of 0] d p by (simp add: data_bytes_def obj_bytes_def)
    then have bytes: "take ?n (drop ?off (data_bytes h p)) = record_bytes h (?rs ! k)"
      using k(1) length_record_bytes [OF hok rk] by (simp add: Cons_nth_drop_Suc [symmetric])
    have add: "sz_add 0 ?off = ?off"
      using total obj_size_fits [OF hok p] by (simp add: sz_add_def)
    have "dispatch_data_copy_region h p location =
        dispatch_data_copy_region_i (Suc 0) h (data_object (?rs ! k)) (rr_from (?rs ! k)) ?n
          (sz_sub location ?off) ?off"
      unfolding e dispatch_data_copy_region_i.simps(2) [of "Suc 0"]
      using md None p d k(2) add
      by (simp add: Let_def del: dispatch_data_copy_region_i.simps)
    then show ?thesis
      using copy_region_leaf [OF inv rk, of 0 "sz_sub location ?off" ?off] bytes k(3,4) total
      by (metis add.commute)
  qed
qed

end
