(* ===== verification/Data_Apply.thy ===== *)
theory Data_Apply
  imports Data_Ops
begin

text \<open>
  Appliers that create and release data objects while they run: a rule for
  \<open>dispatch_data_apply\<close> with an invariant over the regions done so far, and what
  survives when temporary objects are released.
\<close>

section \<open>What an operation on other objects leaves alone\<close>

definition erase :: "dispatch_data_s \<Rightarrow> dispatch_data_s" where
  "erase dd = dd\<lparr>do_ref_cnt := 0\<rparr>"

text \<open>The object and the leaves of its records are there, unchanged but for their counts.\<close>

definition same_view :: "heap \<Rightarrow> heap \<Rightarrow> ptr \<Rightarrow> bool" where
  "same_view h h' p \<longleftrightarrow> (\<exists>dd dd'. objs h p = Some dd \<and> objs h' p = Some dd' \<and> erase dd' = erase dd \<and>
     (\<forall>r \<in> set (records dd). map_option erase (objs h' (data_object r)) =
        map_option erase (objs h (data_object r))))"

lemma eraseD: "erase dd' = erase dd \<Longrightarrow> dd'\<lparr>do_ref_cnt := 0\<rparr> = dd\<lparr>do_ref_cnt := 0\<rparr>"
  by (simp add: erase_def)

lemma heap_le_erase: "heap_le h h' \<Longrightarrow> objs h p = Some dd \<Longrightarrow>
    map_option erase (objs h' p) = map_option erase (objs h p)"
  unfolding heap_le_def erase_def by fastforce

lemma live_record:
  assumes "heap_ok h" "objs h p = Some dd" "r \<in> set (records dd)"
  obtains l where "objs h (data_object r) = Some l" "dispatch_data_leaf l" "record_ok h r"
proof -
  have "obj_ok h dd" "\<not> dispatch_data_leaf dd"
    using heap_okD(1) [OF assms(1,2)] assms(3) by (auto simp: dispatch_data_leaf_def)
  then have r: "record_ok h r" using assms(3) by (simp add: obj_ok_def)
  from record_okE [OF r] show ?thesis using that r by metis
qed

lemma same_view_le:
  assumes "heap_le h h'" "heap_ok h" "objs h p = Some dd"
  shows "same_view h h' p"
proof -
  obtain dd' where dd': "objs h' p = Some dd'" "erase dd' = erase dd"
    using heap_le_erase [OF assms(1,3)] assms(3) by (cases "objs h' p") auto
  have "map_option erase (objs h' (data_object r)) = map_option erase (objs h (data_object r))"
    if r: "r \<in> set (records dd)" for r
  proof -
    obtain l where "objs h (data_object r) = Some l" by (rule live_record [OF assms(2,3) r])
    then show ?thesis by (rule heap_le_erase [OF assms(1)])
  qed
  then show ?thesis using dd' assms(3) unfolding same_view_def by blast
qed

lemma same_view_trans:
  assumes "same_view h h1 p" "same_view h1 h2 p"
  shows "same_view h h2 p"
proof -
  obtain dd d1 where 1: "objs h p = Some dd" "objs h1 p = Some d1" "erase d1 = erase dd"
    "\<forall>r \<in> set (records dd). map_option erase (objs h1 (data_object r)) = map_option erase (objs h (data_object r))"
    using assms(1) unfolding same_view_def by blast
  obtain d2 where 2: "objs h2 p = Some d2" "erase d2 = erase d1"
    "\<forall>r \<in> set (records d1). map_option erase (objs h2 (data_object r)) = map_option erase (objs h1 (data_object r))"
    using assms(2) 1(2) unfolding same_view_def by auto
  have "records d1 = records dd" using cnt_eqD(1) [OF eraseD [OF 1(3)]] .
  then show ?thesis using 1 2 unfolding same_view_def by auto
qed

lemma same_view_regions:
  assumes "same_view h h' p"
  shows "data_regions h' p = data_regions h p"
proof -
  obtain dd dd' where d: "objs h p = Some dd" "objs h' p = Some dd'" "erase dd' = erase dd"
    "\<forall>r \<in> set (records dd). map_option erase (objs h' (data_object r)) = map_option erase (objs h (data_object r))"
    using assms unfolding same_view_def by blast
  note f = cnt_eqD [OF eraseD [OF d(3)]]
  have b: "(case objs h' (data_object r) of None \<Rightarrow> x | Some l \<Rightarrow> g (buf l)) =
      (case objs h (data_object r) of None \<Rightarrow> x | Some l \<Rightarrow> g (buf l))"
    if "r \<in> set (records dd)" for r and x :: 'x and g
  proof -
    have "map_option erase (objs h' (data_object r)) = map_option erase (objs h (data_object r))"
      using d(4) that by blast
    then show ?thesis
      by (cases "objs h' (data_object r)"; cases "objs h (data_object r)") (auto dest: cnt_eqD(2) [OF eraseD])
  qed
  have reg: "record_regions h' off rs = record_regions h off rs" if "set rs \<subseteq> set (records dd)" for off rs
    using that by (induction rs arbitrary: off) (auto simp: b)
  have "direct_buffer h' dd' = direct_buffer h dd"
  proof (cases "\<not> dispatch_data_leaf dd \<and> length (records dd) = 1")
    case True
    then have "records dd ! 0 \<in> set (records dd)" by (cases "records dd") auto
    from b [OF this] show ?thesis using True f(6) unfolding direct_buffer_def f(1) by simp
  next
    case False
    then show ?thesis using f by (auto simp: direct_buffer_def)
  qed
  then show ?thesis using d(1,2) f reg by (simp add: data_regions_def split: option.split)
qed

lemma same_view_bytes:
  assumes "same_view h h' p" "heap_ok h" "heap_ok h'"
  shows "data_bytes h' p = data_bytes h p"
proof -
  obtain dd dd' where "objs h p = Some dd" "objs h' p = Some dd'"
    using assms(1) unfolding same_view_def by blast
  then show ?thesis
    using data_regions_ok [OF assms(2), of p dd] data_regions_ok [OF assms(3), of p dd']
      same_view_regions [OF assms(1)] by simp
qed

section \<open>Apply with an invariant\<close>

lemma apply_records_inv:
  assumes p: "objs h0 p = Some dd" "heap_ok h0" and rs: "records dd = before @ rs"
    and off: "off = sum_list (map rr_length before)" "off + sum_list (map rr_length rs) < SIZE_LIMIT"
    and inv0: "I (record_regions h0 0 before) h s"
    and view: "\<And>ds h' s'. I ds h' s' \<Longrightarrow> heap_ok h' \<and> same_view h0 h' p"
    and step: "\<And>ds q o' b n rest h1 s1. record_regions h0 0 (records dd) = ds @ (q, o', b, n) # rest \<Longrightarrow>
      I ds h1 s1 \<Longrightarrow> \<exists>h2 s2 r. applier h1 s1 q o' b n = Inr (h2, s2, r) \<and>
        (if r then I (ds @ [(q, o', b, n)]) h2 s2 else Q h2 s2)"
  shows "\<exists>h' s' r. apply_records (\<lambda>h s q o' frm len. dispatch_data_apply_i (Suc fuel) h s q o' frm len applier)
      h s off rs = Inr (h', s', r) \<and> (if r then I (record_regions h0 0 (records dd)) h' s' else Q h' s')"
  using rs off inv0
proof (induction rs arbitrary: before off h s)
  case Nil
  then show ?case by (intro exI [of _ h] exI [of _ s] exI [of _ True]) simp
next
  case (Cons r rs)
  have split: "record_regions h' o' (xs @ ys) = record_regions h' o' xs @
      record_regions h' (o' + sum_list (map rr_length xs)) ys" for h' o' xs ys
    by (induction xs arbitrary: o') (simp_all add: add.assoc)
  note v = view [OF Cons.prems(4)]
  obtain d1 where d1: "objs h p = Some d1" "erase d1 = erase dd"
    using v p(1) unfolding same_view_def by auto
  have rec: "records d1 = records dd" by (rule cnt_eqD(1) [OF eraseD [OF d1(2)]])
  then have "r \<in> set (records d1)" using Cons.prems(1) by simp
  then have rok: "record_ok h r" using live_record [OF conjunct1 [OF v] d1(1)] by blast
  define b where "b = (case objs h (data_object r) of None \<Rightarrow> []
    | Some l \<Rightarrow> (case buf l of None \<Rightarrow> [] | Some b \<Rightarrow> drop (rr_from r) b))"
  have "map_option erase (objs h (data_object r)) = map_option erase (objs h0 (data_object r))"
    using v p(1) Cons.prems(1) unfolding same_view_def by auto
  then have b0: "b = (case objs h0 (data_object r) of None \<Rightarrow> []
    | Some l \<Rightarrow> (case buf l of None \<Rightarrow> [] | Some b \<Rightarrow> drop (rr_from r) b))"
    unfolding b_def
    by (cases "objs h (data_object r)"; cases "objs h0 (data_object r)") (auto dest: cnt_eqD(2) [OF eraseD])
  have here: "record_regions h0 0 (records dd) = record_regions h0 0 before @
      (data_object r, off, b, rr_length r) # record_regions h0 (off + rr_length r) rs"
    using Cons.prems(1,2) b0 by (simp add: split)
  obtain h2 s2 res where st: "applier h s (data_object r) off b (rr_length r) = Inr (h2, s2, res)"
    "if res then I (record_regions h0 0 before @ [(data_object r, off, b, rr_length r)]) h2 s2 else Q h2 s2"
    using step [OF here Cons.prems(4)] by blast
  have run: "dispatch_data_apply_i (Suc fuel) h s (data_object r) off (rr_from r) (rr_length r) applier =
      Inr (h2, s2, res)"
    using apply_leaf [OF conjunct1 [OF v] rok] st(1) unfolding b_def by metis
  show ?case
  proof (cases res)
    case False
    then show ?thesis using run st(2)
      by (intro exI [of _ h2] exI [of _ s2] exI [of _ False]) (simp del: dispatch_data_apply_i.simps)
  next
    case True
    have add: "sz_add off (rr_length r) = off + rr_length r" using Cons.prems(3) by (simp add: sz_add_def)
    have "I (record_regions h0 0 (before @ [r])) h2 s2"
      using True st(2) Cons.prems(2) b0 by (simp add: split)
    then have "\<exists>h' s' r'. apply_records (\<lambda>h s q o' frm len. dispatch_data_apply_i (Suc fuel) h s q o' frm len applier)
        h2 s2 (off + rr_length r) rs = Inr (h', s', r') \<and>
        (if r' then I (record_regions h0 0 (records dd)) h' s' else Q h' s')"
      using Cons.IH [of "before @ [r]" "off + rr_length r" h2 s2] Cons.prems(1-3) by simp
    then show ?thesis using run True add by (simp del: dispatch_data_apply_i.simps)
  qed
qed

lemma apply_inv:
  assumes hok: "heap_ok h" and p: "objs h p = Some dd" and inv0: "I [] h s"
    and view: "\<And>ds h' s'. I ds h' s' \<Longrightarrow> heap_ok h' \<and> same_view h h' p"
    and step: "\<And>ds q o' b n rest h1 s1. data_regions h p = ds @ (q, o', b, n) # rest \<Longrightarrow>
      I ds h1 s1 \<Longrightarrow> \<exists>h2 s2 r. applier h1 s1 q o' b n = Inr (h2, s2, r) \<and>
        (if r then I (ds @ [(q, o', b, n)]) h2 s2 else Q h2 s2)"
  shows "\<exists>h' s' r. dispatch_data_apply h s p applier = Inr (h', s', r) \<and>
    (if r then I (data_regions h p) h' s' else Q h' s')"
proof (cases "data_size dd = 0")
  case True
  then show ?thesis using p inv0
    by (intro exI [of _ h] exI [of _ s] exI [of _ True]) (simp add: dispatch_data_apply_def data_regions_def)
next
  case nz: False
  have e: "dispatch_data_apply h s p applier =
      dispatch_data_apply_i (Suc (Suc 0)) h s p 0 0 (data_size dd) applier"
    using p nz by (simp add: dispatch_data_apply_def numeral_2_eq_2 del: dispatch_data_apply_i.simps)
  obtain q o' where m: "dispatch_data_map_direct h p 0 = Inr (direct_buffer h dd, q, o')"
    using map_direct_ok [OF hok p nz] by blast
  show ?thesis
  proof (cases "direct_buffer h dd")
    case (Some b)
    then have reg: "data_regions h p = [(p, 0, b, data_size dd)]"
      using p nz by (simp add: data_regions_def)
    obtain h2 s2 r where "applier h s p 0 b (data_size dd) = Inr (h2, s2, r)"
      "if r then I ([] @ [(p, 0, b, data_size dd)]) h2 s2 else Q h2 s2"
      using step [of "[]" p 0 b "data_size dd" "[]" h s] reg inv0 by auto
    then show ?thesis unfolding e dispatch_data_apply_i.simps(2) [of "Suc 0"] using m Some reg
      by (intro exI [of _ h2] exI [of _ s2] exI [of _ r]) (simp split: if_splits)
  next
    case None
    note d = direct_ok(2) [OF hok p nz None]
    have lim: "data_size dd < SIZE_LIMIT" using heap_okD(1) [OF hok p] d by (simp add: obj_ok_def)
    have reg: "data_regions h p = record_regions h 0 (records dd)"
      using p nz None by (simp add: data_regions_def)
    have "\<exists>h' s' r. apply_records
        (\<lambda>h s q o' frm len. dispatch_data_apply_i (Suc 0) h s q o' frm len applier) h s 0 (records dd) =
        Inr (h', s', r) \<and> (if r then I (record_regions h 0 (records dd)) h' s' else Q h' s')"
    proof (rule apply_records_inv [where ?h0.0 = h and p = p and before = "[]" and Q = Q])
      show "0 + sum_list (map rr_length (records dd)) < SIZE_LIMIT" using d lim by simp
      show "I (record_regions h 0 []) h s" using inv0 by simp
      show "heap_ok h' \<and> same_view h h' p" if "I ds h' s'" for ds h' s' using view that .
      show "\<exists>h2 s2 r. applier h1 s1 q o' b n = Inr (h2, s2, r) \<and>
          (if r then I (ds @ [(q, o', b, n)]) h2 s2 else Q h2 s2)"
        if "record_regions h 0 (records dd) = ds @ (q, o', b, n) # rest" "I ds h1 s1"
        for ds q o' b n rest h1 s1 using step [OF _ that(2)] that(1) reg by simp
    qed (use p hok in simp_all)
    then obtain h' s' r where "apply_records
        (\<lambda>h s q o' frm len. dispatch_data_apply_i (Suc 0) h s q o' frm len applier) h s 0 (records dd) =
        Inr (h', s', r)" "if r then I (record_regions h 0 (records dd)) h' s' else Q h' s'" by blast
    then show ?thesis
      unfolding e dispatch_data_apply_i.simps(2) [of "Suc 0"] using m None p d reg
      by (intro exI [of _ h'] exI [of _ s'] exI [of _ r]) (simp del: dispatch_data_apply_i.simps split: if_splits)
  qed
qed

section \<open>What survives the release of temporary objects\<close>

text \<open>
  If everybody who held references before still does, an operation that only added objects and
  released some again has left every object of the first heap.
\<close>

lemma composite_owned:
  assumes inv: "data_inv h ext" and p: "objs h p = Some dd" "\<not> dispatch_data_leaf dd" "p \<noteq> 0"
  shows "0 < ext p"
proof -
  have "objrefs (objs h q) p = 0" for q
  proof (cases "objs h q")
    case (Some dq)
    have "data_object r \<noteq> p" if r: "r \<in> set (records dq)" for r
    proof
      assume "data_object r = p"
      moreover obtain l where "objs h (data_object r) = Some l" "dispatch_data_leaf l"
        using live_record [OF data_invD(1) [OF inv] Some r] by blast
      ultimately show False using p by simp
    qed
    then show ?thesis using Some by (auto simp: objrefs_def count_list_0_iff)
  qed (simp add: objrefs_def)
  then have "in_refs h p = 0" by (simp add: in_refs_def)
  then show ?thesis
    using counts_okD(1,2) [OF data_invD(2) [OF inv] p(3,1)] by simp
qed

lemma survive:
  assumes inv: "data_inv h ext" and inv': "data_inv h' ext'"
    and keep: "\<And>q. 0 < ext q \<Longrightarrow> 0 < ext' q"
    and le: "heap_le h hm" "heap_le h' hm" and nonneg: "\<And>q. 0 \<le> ext q"
  shows "heap_le h h'"
proof -
  have unchanged: "\<exists>dd'. objs h' p = Some dd' \<and> erase dd' = erase dd"
    if p: "objs h p = Some dd" and live: "objs h' p \<noteq> None" for p dd
  proof -
    obtain dm where dm: "objs hm p = Some dm" "erase dm = erase dd"
      using heap_le_erase [OF le(1) p] p by (cases "objs hm p") auto
    obtain dd' where dd': "objs h' p = Some dd'" using live by auto
    then have "erase dd' = erase dm" using heap_le_erase [OF le(2) dd'] dm(1) by simp
    then show ?thesis using dd' dm(2) by simp
  qed
  have owned: "objs h' p \<noteq> None" if "0 < ext p" "p \<noteq> 0" for p
    using counts_okD(3) [OF data_invD(2) [OF inv'] that(2)] keep [OF that(1)] by (cases "objs h' p") simp_all
  have alive: "objs h' p \<noteq> None" if p: "objs h p = Some dd" for p dd
  proof (cases "p = 0 \<or> 0 < ext p")
    case True
    then show ?thesis using owned data_invD(1) [OF inv'] by (auto simp: heap_ok_def empty_obj_ok_def)
  next
    case False
    then have "ext p = 0" using nonneg [of p] by simp
    then have "0 < in_refs h p"
      using counts_okD(1,2) [OF data_invD(2) [OF inv] _ p] False by simp
    then have "\<not> (\<forall>q. objrefs (objs h q) p = 0)" unfolding in_refs_def by (intro notI) simp
    then obtain q where q0: "objrefs (objs h q) p \<noteq> 0" by blast
    then obtain dq where dq: "objs h q = Some dq" by (cases "objs h q") (simp_all add: objrefs_def)
    then have "p \<in> set (map data_object (records dq))"
      using q0 by (simp only: objrefs_def option.case count_list_0_iff not_not)
    then obtain r where q: "objs h q = Some dq" "r \<in> set (records dq)" "data_object r = p"
      using dq by auto
    then have nl: "\<not> dispatch_data_leaf dq" by (auto simp: dispatch_data_leaf_def)
    have "q \<noteq> 0"
    proof
      assume "q = 0"
      then show False using data_invD(1) [OF inv] q(1) nl by (auto simp: heap_ok_def empty_obj_ok_def)
    qed
    then obtain dq' where dq': "objs h' q = Some dq'" "erase dq' = erase dq"
      using unchanged [OF q(1)] owned composite_owned [OF inv q(1) nl] by blast
    have "r \<in> set (records dq')" using cnt_eqD(1) [OF eraseD [OF dq'(2)]] q(2) by simp
    then obtain l where "objs h' (data_object r) = Some l"
      by (rule live_record [OF data_invD(1) [OF inv'] dq'(1)])
    then show ?thesis using q(3) by simp
  qed
  show ?thesis
    unfolding heap_le_def
  proof (intro allI impI)
    fix p dd assume p: "objs h p = Some dd"
    from unchanged [OF p alive [OF p]] show "\<exists>dd'. objs h' p = Some dd' \<and>
        dd'\<lparr>do_ref_cnt := 0\<rparr> = dd\<lparr>do_ref_cnt := 0\<rparr>" by (simp only: erase_def)
  qed
qed

section \<open>Temporary objects\<close>

definition nonneg :: "owners \<Rightarrow> bool" where
  "nonneg ext \<longleftrightarrow> (\<forall>q. 0 \<le> ext q)"

lemma nonneg_own: "nonneg ext \<Longrightarrow> nonneg (own ext p 1)"
  by (simp add: nonneg_def own_apply)

lemma own_own: "own (own ext p 1) p (- 1) = ext"
  by (rule ext) (simp add: own_apply)

lemma own_swap: "own (own ext p m) q n = own (own ext q n) p m"
  by (rule ext) (auto simp: own_apply)

text \<open>
  \<open>fresh_result\<close> with the caller holding \<open>ext\<close>, in a heap that may have shed objects
  created since.
\<close>

lemma release_temp:
  assumes inv: "data_inv h ext" and pos: "nonneg ext" and ext': "nonneg ext'"
    and more: "\<And>q. 0 < ext q \<Longrightarrow> 0 < ext' q"
    and h1: "data_inv h1 (own ext' t 1)" "heap_le h h1" "malloc_ok h1 = malloc_ok h"
  shows "\<exists>h2. dispatch_data_release h1 t = Inr h2 \<and> data_inv h2 ext' \<and> heap_le h h2 \<and>
    malloc_ok h2 = malloc_ok h \<and> heap_le h2 h1 \<and>
    (\<forall>q. 0 < ext' q \<longrightarrow> q \<noteq> 0 \<longrightarrow> objs h2 q \<noteq> None \<and> data_bytes h2 q = data_bytes h1 q)"
proof -
  have own: "t \<noteq> 0 \<Longrightarrow> 1 \<le> own ext' t 1 t" using ext' by (simp add: own_apply nonneg_def)
  have "\<forall>q. 0 \<le> own ext' t 1 q" using nonneg_own [OF ext'] by (simp add: nonneg_def)
  from data_release_ok [OF h1(1) own this]
  obtain h2 where h2: "dispatch_data_release h1 t = Inr h2" "data_inv h2 ext'" "released h1 h2"
    by (auto simp: own_own)
  have le: "heap_le h2 h1" "malloc_ok h2 = malloc_ok h" using h2(3) h1(3) by (simp_all add: released_def)
  have "heap_le h h2"
    using survive [OF inv h2(2) more h1(2) le(1)] pos by (simp add: nonneg_def)
  moreover have "objs h2 q \<noteq> None \<and> data_bytes h2 q = data_bytes h1 q" if q: "0 < ext' q" "q \<noteq> 0" for q
  proof -
    obtain dd where dd: "objs h2 q = Some dd"
      using owned_live [OF h2(2) q(2)] q(1) by (metis int_one_le_iff_zero_less)
    then show ?thesis using data_bytes_le [OF data_invD(1) [OF h2(2)] le(1) dd] by simp
  qed
  ultimately show ?thesis using h2(1,2) le by blast
qed

lemma fresh_live:
  assumes "fresh_result h ext h' p bs"
  obtains dd where "objs h' p = Some dd" "data_size dd = length bs"
proof -
  obtain dd where dd: "objs h' p = Some dd" using assms by (auto simp: fresh_result_def)
  moreover have "data_size dd = length bs"
    using length_data_bytes [OF data_invD(1) dd] assms unfolding fresh_result_def by metis
  ultimately show ?thesis by (rule that)
qed

text \<open>Appending to a data object one owns, as the transforms do: the concatenation replaces it.\<close>

lemma append_result:
  assumes inv: "data_inv h ext" and pos: "nonneg ext"
    and r: "fresh_result h ext h1 r xs" and v: "fresh_result h1 (own ext r 1) h2 v ys"
    and fits: "(length xs + length ys + 2) * 24 + 64 < SIZE_LIMIT"
  shows "\<exists>h3 c h4 h5. dispatch_data_create_concat h2 r v = Inr (h3, Some c) \<and>
    dispatch_data_release h3 v = Inr h4 \<and> dispatch_data_release h4 r = Inr h5 \<and>
    fresh_result h ext h5 c (xs @ ys)"
proof -
  have i2: "data_inv h2 (own (own ext r 1) v 1)" "heap_le h1 h2" and i1: "data_inv h1 (own ext r 1)" "heap_le h h1"
    using r v by (simp_all add: fresh_result_def)
  have hok2: "heap_ok h2" by (rule data_invD(1) [OF i2(1)])
  obtain d1 where d1: "objs h1 r = Some d1" by (rule fresh_live [OF r])
  obtain dr where dr: "objs h2 r = Some dr" using heap_leE [OF i2(2) d1] by metis
  have br: "data_bytes h2 r = xs"
    using data_bytes_le [OF data_invD(1) [OF i1(1)] i2(2) d1] r by (simp add: fresh_result_def)
  obtain dv where dv: "objs h2 v = Some dv" "data_size dv = length ys" by (rule fresh_live [OF v])
  have bv: "data_bytes h2 v = ys" using v by (simp add: fresh_result_def)
  have sr: "data_size dr = length xs" using length_data_bytes [OF hok2 dr] br by simp
  have num: "dispatch_data_num_records dd \<le> data_size dd + 1" if "objs h2 p = Some dd" for p dd
  proof (cases "dispatch_data_leaf dd")
    case False
    then have ok: "\<forall>r \<in> set (records dd). record_ok h2 r" "data_size dd = sum_list (map rr_length (records dd))"
      using heap_okD(1) [OF hok2 that] by (simp_all add: obj_ok_def)
    have "length rs \<le> sum_list (map rr_length rs)" if "\<forall>r \<in> set rs. record_ok h2 r" for rs
      using that by (induction rs) (auto simp: record_ok_def)
    from this [OF ok(1)] show ?thesis using ok(2) by (simp add: dispatch_data_num_records_def)
  qed (simp add: dispatch_data_num_records_def dispatch_data_leaf_def)
  have "data_size dr + data_size dv < SIZE_LIMIT" using fits sr dv(2) by simp
  moreover have "(dispatch_data_num_records dr + dispatch_data_num_records dv) * 24 + 64 < SIZE_LIMIT"
    using num [OF dr] num [OF dv(1)] fits sr dv(2) by simp
  ultimately obtain h3 c where h3: "dispatch_data_create_concat h2 r v = Inr (h3, Some c)"
    "fresh_result h2 (own (own ext r 1) v 1) h3 c (xs @ ys)"
    using create_concat_ok [OF i2(1) dr dv(1)] br bv by blast
  have le3: "heap_le h h3" using i1(2) i2(2) h3(2) unfolding fresh_result_def by (metis heap_le_trans)
  have m3: "malloc_ok h3 = malloc_ok h" using r v h3(2) by (simp add: fresh_result_def)
  have o3: "data_inv h3 (own (own (own ext c 1) r 1) v 1)"
    using h3(2) by (simp add: fresh_result_def own_swap [of _ c])
  have pc: "nonneg (own ext c 1)" "nonneg (own (own ext c 1) r 1)" by (simp_all add: nonneg_own pos)
  have grow: "0 < ext q \<Longrightarrow> 0 < own ext c 1 q" "0 < own ext c 1 q \<Longrightarrow> 0 < own (own ext c 1) r 1 q" for q
    using pos pc by (simp_all add: own_apply nonneg_def)
  obtain h4 where h4: "dispatch_data_release h3 v = Inr h4" "data_inv h4 (own (own ext c 1) r 1)"
    "heap_le h h4" "malloc_ok h4 = malloc_ok h"
    "\<forall>q. 0 < own (own ext c 1) r 1 q \<longrightarrow> q \<noteq> 0 \<longrightarrow> objs h4 q \<noteq> None \<and> data_bytes h4 q = data_bytes h3 q"
    using release_temp [OF inv pos pc(2) grow(2) [OF grow(1)] o3 le3 m3] by blast
  obtain h5 where h5: "dispatch_data_release h4 r = Inr h5" "data_inv h5 (own ext c 1)"
    "heap_le h h5" "malloc_ok h5 = malloc_ok h"
    "\<forall>q. 0 < own ext c 1 q \<longrightarrow> q \<noteq> 0 \<longrightarrow> objs h5 q \<noteq> None \<and> data_bytes h5 q = data_bytes h4 q"
    using release_temp [OF inv pos pc(1) grow(1) h4(2,3,4)] by blast
  have "objs h5 c \<noteq> None \<and> data_bytes h5 c = xs @ ys"
  proof (cases "c = 0")
    case True
    have zero: "objs g 0 \<noteq> None \<and> data_bytes g 0 = []" if "heap_ok g" for g
      using that data_bytes_zero [OF that, of 0] by (auto simp: heap_ok_def empty_obj_ok_def)
    have "data_bytes h3 0 = []" using zero [OF data_invD(1) [OF o3]] by simp
    then show ?thesis using True h3(2) zero [OF data_invD(1) [OF h5(2)]] by (simp add: fresh_result_def)
  next
    case False
    have c: "0 < own ext c 1 c" using pos False by (simp add: own_apply nonneg_def add_nonneg_pos)
    then show ?thesis using h4(5) h5(5) grow(2) h3(2) False by (simp add: fresh_result_def)
  qed
  then have "fresh_result h ext h5 c (xs @ ys)" using h5(2-4) by (simp add: fresh_result_def)
  then show ?thesis using h3(1) h4(1) h5(1) by blast
qed

end
