(* ===== verification/Base_Codec.thy ===== *)
theory Base_Codec
  imports Transform Data_Apply
begin

text \<open>
  Base32 and base64 against a reference: the bytes of a group read as one number, written with
  the digits of the alphabet. The interface \<open>base_codec\<close> is what the two codecs of the code
  provide: steps of the encoder, tables, padding.
\<close>

section \<open>Numbers as digits\<close>

definition num_of :: "nat \<Rightarrow> nat list \<Rightarrow> nat" where
  "num_of b vs = foldl (\<lambda>x v. x * b + v) 0 vs"

fun digits :: "nat \<Rightarrow> nat \<Rightarrow> nat \<Rightarrow> nat list" where
  "digits b 0 x = []"
| "digits b (Suc n) x = digits b n (x div b) @ [x mod b]"

lemma num_of_simps [simp]:
  "num_of b [] = 0" "num_of b (vs @ [v]) = num_of b vs * b + v"
  by (simp_all add: num_of_def)

lemma length_digits [simp]: "length (digits b n x) = n"
  by (induction n arbitrary: x) simp_all

lemma digits_less: "0 < b \<Longrightarrow> v \<in> set (digits b n x) \<Longrightarrow> v < b"
  by (induction n arbitrary: x) auto

lemma digits_num_of: "\<forall>v \<in> set vs. v < b \<Longrightarrow> digits b (length vs) (num_of b vs) = vs"
proof (induction vs rule: rev_induct)
  case (snoc v vs)
  then show ?case by simp
qed simp

lemma num_of_less: "\<forall>v \<in> set vs. v < b \<Longrightarrow> num_of b vs < b ^ length vs"
proof (induction vs rule: rev_induct)
  case (snoc v vs)
  then have "num_of b vs + 1 \<le> b ^ length vs" "v < b" by simp_all
  then have "(num_of b vs + 1) * b \<le> b ^ length vs * b" by (intro mult_right_mono) simp_all
  with \<open>v < b\<close> show ?case by (simp add: algebra_simps)
qed simp

lemma digits_mod: "digits b n (x mod b ^ n) = digits b n x"
proof (induction n arbitrary: x)
  case (Suc n)
  have "x mod b ^ Suc n div b = (x div b) mod b ^ n"
    by (cases "b = 0") (simp_all add: mod_mult2_eq div_add1_eq)
  moreover have "x mod b ^ Suc n mod b = x mod b" by (simp add: mod_mod_cancel)
  ultimately show ?case using Suc.IH [of "x div b"] by simp
qed simp

lemma num_of_digits: "num_of b (digits b n x) = x mod b ^ n"
proof (induction n arbitrary: x)
  case (Suc n)
  then show ?case by (simp add: mod_mult2_eq mult.commute)
qed simp

section \<open>The reference\<close>

text \<open>
  The text of a byte sequence: whole groups of \<open>bpg\<close> bytes give \<open>grp\<close> characters, a last
  group that is not whole is filled with zero bytes and cut after the characters that hold a bit
  of it, and filled with \<open>=\<close>.
\<close>

definition group_digits :: "nat \<Rightarrow> nat \<Rightarrow> nat \<Rightarrow> nat list \<Rightarrow> nat list" where
  "group_digits bits grp bpg bs = digits (2 ^ bits) grp (num_of 256 (bs @ replicate (bpg - length bs) 0))"

function base_text :: "nat \<Rightarrow> nat \<Rightarrow> nat \<Rightarrow> nat list \<Rightarrow> nat list \<Rightarrow> nat list" where
  "base_text bits grp bpg alphabet bs =
     (if bs = [] \<or> bpg = 0 then []
      else if length bs < bpg then
        let m = (8 * length bs + bits - 1) div bits in
        map ((!) alphabet) (take m (group_digits bits grp bpg bs)) @ replicate (grp - m) 61
      else map ((!) alphabet) (group_digits bits grp bpg (take bpg bs)) @
           base_text bits grp bpg alphabet (drop bpg bs))"
  by pat_completeness auto
termination by (relation "measure (\<lambda>(_, _, _, _, bs). length bs)") auto

declare base_text.simps [simp del]

text \<open>The bytes of a sequence of digits: those of the full groups.\<close>

function dec_bytes :: "nat \<Rightarrow> nat \<Rightarrow> nat \<Rightarrow> nat list \<Rightarrow> nat list" where
  "dec_bytes bits grp bpg vs =
     (if grp = 0 \<or> length vs < grp then []
      else digits 256 bpg (num_of (2 ^ bits) (take grp vs)) @ dec_bytes bits grp bpg (drop grp vs))"
  by pat_completeness auto
termination by (relation "measure (\<lambda>(_, _, _, vs). length vs)") auto

declare dec_bytes.simps [simp del]

lemma dec_bytes_snoc:
  "0 < grp \<Longrightarrow> dec_bytes bits grp bpg (vs @ [v]) = dec_bytes bits grp bpg vs @
    (if Suc (length vs) mod grp = 0
     then digits 256 bpg (num_of (2 ^ bits) (drop (Suc (length vs) - grp) (vs @ [v]))) else [])"
proof (induction bits grp bpg vs rule: dec_bytes.induct)
  case (1 bits grp bpg vs)
  consider "grp = 0" | "0 < grp" "Suc (length vs) < grp" | "0 < grp" "Suc (length vs) = grp" | "0 < grp" "grp \<le> length vs"
    by linarith
  then show ?case
  proof cases
    case 2
    then show ?thesis by (simp add: dec_bytes.simps)
  next
    case 3
    then show ?thesis by (simp add: dec_bytes.simps [of bits grp bpg "vs @ [v]"] dec_bytes.simps [of bits grp bpg vs]
          dec_bytes.simps [of bits grp bpg "[]"])
  next
    case 4
    have m: "Suc (length (drop grp vs)) mod grp = Suc (length vs) mod grp"
      using 4(2) by (simp add: Suc_diff_le le_mod_geq)
    have d: "drop (Suc (length (drop grp vs)) - grp) (drop grp vs @ [v]) = drop (Suc (length vs) - grp) (vs @ [v])"
      if "Suc (length vs) mod grp = 0"
    proof -
      have "grp \<le> Suc (length (drop grp vs))"
        using that m by (metis dvd_imp_le mod_0_imp_dvd zero_less_Suc)
      then show ?thesis using 4(2) by (simp add: add.commute Suc_diff_le)
    qed
    show ?thesis
      using 1 4 m d by (simp add: dec_bytes.simps [of bits grp bpg "vs @ [v]"] dec_bytes.simps [of bits grp bpg vs])
  qed (simp add: dec_bytes.simps)
qed

section \<open>The interface of a codec\<close>

text \<open>The indices the encoder writes for a group of bytes, with its padding left out.\<close>

definition group_steps :: "(nat \<Rightarrow> nat \<Rightarrow> nat \<Rightarrow> nat list) \<Rightarrow> nat list \<Rightarrow> nat list" where
  "group_steps step bs = concat (map (\<lambda>i. step i (if i = 0 then 0 else bs ! (i - 1)) (bs ! i)) [0..<length bs])"

definition space_char :: "u8 \<Rightarrow> bool" where
  "space_char c \<longleftrightarrow> c = 10 \<or> c = 9 \<or> c = 32"

locale base_codec =
  fixes bits grp bpg :: nat
    and step :: "nat \<Rightarrow> nat \<Rightarrow> nat \<Rightarrow> nat list" and tail :: "nat \<Rightarrow> nat \<Rightarrow> nat list \<times> nat"
    and enc :: "nat list" and dec :: "int list" and dsize :: nat
    and shifts :: "nat list" and final :: "nat \<Rightarrow> nat"
  assumes sizes: "bits * grp = 8 * bpg" "0 < bits" "bits \<le> 8" "0 < bpg" "bpg \<le> 8" "0 < grp"
    and grp_mask: "and n (grp - 1) = n mod grp"
    and shifts_digits: "map (\<lambda>s. and (drop_bit s x) 0xff) shifts = digits 256 bpg x"
    and whole_group: "length bs = bpg \<Longrightarrow> \<forall>b \<in> set bs. b < 256 \<Longrightarrow>
      group_steps step bs = digits (2 ^ bits) grp (num_of 256 bs)"
    and part_group: "0 < length bs \<Longrightarrow> length bs < bpg \<Longrightarrow> \<forall>b \<in> set bs. b < 256 \<Longrightarrow>
      group_steps step bs @ fst (tail (length bs) (last bs)) @ replicate (snd (tail (length bs) (last bs))) 0 =
        group_digits bits grp bpg bs \<and>
      length (group_steps step bs @ fst (tail (length bs) (last bs))) = (8 * length bs + bits - 1) div bits \<and>
      final (snd (tail (length bs) (last bs))) = bpg - length bs"
    and no_tail: "tail 0 b = ([], 0)" "final 0 = 0"
    and tables: "v < 2 ^ bits \<Longrightarrow> v < length enc \<and> enc ! v < dsize \<and> dec ! (enc ! v) = int v \<and>
      enc ! v \<noteq> 10 \<and> enc ! v \<noteq> 9 \<and> enc ! v \<noteq> 32 \<and> enc ! v \<noteq> 61"
    and table_size: "dsize \<le> length dec" "dsize \<le> 256" "61 < dsize" "dec ! 61 = -2"
begin

abbreviation text_of :: "nat list \<Rightarrow> nat list" where
  "text_of \<equiv> base_text bits grp bpg enc"

abbreviation bytes_of :: "nat list \<Rightarrow> nat list" where
  "bytes_of \<equiv> dec_bytes bits grp bpg"

abbreviation run :: "nat \<Rightarrow> bytes \<Rightarrow> nat \<Rightarrow> nat \<Rightarrow> nat \<Rightarrow> bytes \<Rightarrow> (nat \<times> nat \<times> nat \<times> bytes) option result" where
  "run \<equiv> basexx_decode_loop bits grp shifts dec dsize"

text \<open>A character with its value and what it adds to the padding count.\<close>

definition stands_for :: "u8 \<Rightarrow> nat \<times> nat \<Rightarrow> bool" where
  "stands_for c vp \<longleftrightarrow> (unat c = 61 \<and> vp = (0, 1)) \<or>
     (fst vp < 2 ^ bits \<and> unat c = enc ! fst vp \<and> snd vp = 0)"

text \<open>The state of the decoder after the digits \<open>vs\<close>.\<close>

definition holds :: "nat list \<Rightarrow> nat \<Rightarrow> nat \<Rightarrow> bool" where
  "holds vs x count \<longleftrightarrow> count = length vs \<and> (\<forall>v \<in> set vs. v < 2 ^ bits) \<and>
     x mod 2 ^ (bits * (count mod grp)) = num_of (2 ^ bits) (drop (count - count mod grp) vs)"

lemma run_spaces: "run cap cs x count pad out = run cap (filter (\<lambda>c. \<not> space_char c) cs) x count pad out"
proof (induction cs arbitrary: x count pad out)
  case (Cons c cs)
  show ?case
  proof (cases "space_char c")
    case True
    then have "c = 10 \<or> c = 9 \<or> c = 32" by (simp add: space_char_def)
    then show ?thesis using Cons True by simp
  next
    case False
    have "run cap cs = (\<lambda>x count pad out. run cap (filter (\<lambda>c. \<not> space_char c) cs) x count pad out)"
      using Cons by (intro ext)
    then show ?thesis using False by (simp add: Let_def cong: if_cong)
  qed
qed simp

lemma run_char:
  assumes "stands_for c vp"
  shows "run cap (c # cs) x count pad out =
    (let x' = (take_bit 64 (push_bit bits x) + fst vp) mod SIZE_LIMIT in
     bindR (if Suc count mod grp = 0 then put_bytes cap (digits 256 bpg x') out else Inr out)
       (run cap cs x' (Suc count) (pad + snd vp)))"
proof -
  have n: "c = 10 \<longleftrightarrow> unat c = 10" "c = 9 \<longleftrightarrow> unat c = 9" "c = 32 \<longleftrightarrow> unat c = 32"
    by (simp_all add: word_unat_eq_iff)
  show ?thesis
  proof (cases "unat c = 61 \<and> vp = (0, 1)")
    case True
    then show ?thesis using n table_size grp_mask shifts_digits
      by (simp add: table_at_def Let_def)
  next
    case False
    then have c: "fst vp < 2 ^ bits" "unat c = enc ! fst vp" "snd vp = 0"
      using assms by (auto simp: stands_for_def)
    have t: "unat c < dsize" "dec ! unat c = int (fst vp)" "unat c \<noteq> 10" "unat c \<noteq> 9" "unat c \<noteq> 32"
      using tables [OF c(1)] c(2) by simp_all
    then show ?thesis using n c(3) table_size grp_mask shifts_digits
      by (simp add: table_at_def Let_def)
  qed
qed

lemma put_bytes_ok:
  assumes "length out + length vs \<le> cap"
  shows "put_bytes cap vs out = Inr (out @ map of_nat vs)"
  using assms by (induction vs arbitrary: out) (simp_all add: put_byte_def)

lemma holds_snoc:
  assumes h: "holds vs x count" and v: "v < 2 ^ bits"
  shows "holds (vs @ [v]) ((take_bit 64 (push_bit bits x) + v) mod SIZE_LIMIT) (Suc count)"
    "Suc count mod grp = 0 \<Longrightarrow> digits 256 bpg ((take_bit 64 (push_bit bits x) + v) mod SIZE_LIMIT) =
      digits 256 bpg (num_of (2 ^ bits) (drop (Suc count - grp) (vs @ [v])))"
proof -
  let ?x = "(take_bit 64 (push_bit bits x) + v) mod SIZE_LIMIT" and ?k = "count mod grp"
  have c: "count = length vs" "x mod 2 ^ (bits * ?k) = num_of (2 ^ bits) (drop (count - ?k) vs)"
    using h unfolding holds_def by blast+
  have k: "?k < grp" using sizes(6) by simp
  have e: "?x = (x * 2 ^ bits + v) mod 2 ^ 64"
    by (simp add: take_bit_eq_mod push_bit_eq_mult mod_add_left_eq)
  have le: "bits * (?k + 1) \<le> 64"
  proof -
    have "bits * (?k + 1) \<le> bits * grp" using k by (intro mult_left_mono) simp_all
    then show ?thesis using sizes(1,5) by simp
  qed
  have m: "?x mod 2 ^ (bits * (?k + 1)) = num_of (2 ^ bits) (drop (count - ?k) (vs @ [v]))"
  proof -
    have "(2 :: nat) ^ (bits * (?k + 1)) dvd 2 ^ 64" using le by (intro le_imp_power_dvd)
    then have "?x mod 2 ^ (bits * (?k + 1)) = (x * 2 ^ bits + v) mod (2 ^ bits * 2 ^ (bits * ?k))"
      unfolding e by (simp add: mod_mod_cancel power_add)
    also have "\<dots> = 2 ^ bits * ((x * 2 ^ bits + v) div 2 ^ bits mod 2 ^ (bits * ?k)) + (x * 2 ^ bits + v) mod 2 ^ bits"
      by (rule mod_mult2_eq)
    also have "\<dots> = 2 ^ bits * (x mod 2 ^ (bits * ?k)) + v" using v by simp
    finally show ?thesis using c by (simp add: mult.commute)
  qed
  show "holds (vs @ [v]) ?x (Suc count)"
  proof (cases "Suc ?k = grp")
    case True
    then have "Suc count mod grp = 0" by (simp add: mod_Suc)
    then show ?thesis using h v by (auto simp: holds_def)
  next
    case False
    then have "Suc count mod grp = Suc ?k" by (simp add: mod_Suc)
    then show ?thesis using h v m by (auto simp: holds_def)
  qed
  show "digits 256 bpg ?x = digits 256 bpg (num_of (2 ^ bits) (drop (Suc count - grp) (vs @ [v])))"
    if "Suc count mod grp = 0"
  proof -
    have k1: "Suc ?k = grp" using that k by (auto simp: mod_Suc split: if_splits)
    have "(256 :: nat) ^ bpg = 2 ^ (8 * bpg)" by (simp add: power_mult)
    then have "(256 :: nat) ^ bpg = 2 ^ (bits * (?k + 1))" using k1 sizes(1) by (simp add: mult.commute)
    then have "digits 256 bpg ?x = digits 256 bpg (?x mod 2 ^ (bits * (?k + 1)))"
      using digits_mod [of 256 bpg ?x] by simp
    moreover have "count - ?k = Suc count - grp" using k1 by simp
    ultimately show ?thesis using m by simp
  qed
qed

lemma bytes_of_prefix: "\<exists>w. bytes_of (us @ ws) = bytes_of us @ w"
proof (induction ws rule: rev_induct)
  case (snoc v ws)
  then obtain w where "bytes_of (us @ ws) = bytes_of us @ w" by blast
  moreover obtain w' where "bytes_of ((us @ ws) @ [v]) = bytes_of (us @ ws) @ w'"
    using dec_bytes_snoc [OF sizes(6)] by metis
  ultimately show ?case by (metis append_assoc)
qed simp

text \<open>The loop over a region that continues the digits \<open>vs0\<close>.\<close>

lemma run_ok:
  assumes "list_all2 stands_for cs vps" "holds vs0 x count"
    and "length out + (count mod grp + length cs) div grp * bpg \<le> cap"
  shows "\<exists>x'. run cap cs x count pad out = Inr (Some (x', count + length cs, pad + sum_list (map snd vps),
      out @ map of_nat (drop (length (bytes_of vs0)) (bytes_of (vs0 @ map fst vps))))) \<and>
    holds (vs0 @ map fst vps) x' (count + length cs)"
  using assms
proof (induction cs vps arbitrary: vs0 x count pad out rule: list_all2_induct)
  case (Cons c cs vp vps)
  let ?x = "(take_bit 64 (push_bit bits x) + fst vp) mod SIZE_LIMIT"
  have v: "fst vp < 2 ^ bits" using Cons.hyps(1) by (auto simp: stands_for_def)
  note hs = holds_snoc [OF Cons.prems(1) v]
  have len: "length vs0 = count" using Cons.prems(1) by (simp add: holds_def)
  note snoc = dec_bytes_snoc [OF sizes(6), of bits bpg vs0 "fst vp"]
  define new where "new = (if Suc count mod grp = 0 then digits 256 bpg ?x else [])"
  have next_bytes: "bytes_of (vs0 @ [fst vp]) = bytes_of vs0 @ new"
    using snoc hs(2) len by (simp add: new_def)
  have lnew: "length new = (if Suc count mod grp = 0 then bpg else 0)" by (simp add: new_def)
  have turns: "(count mod grp + length (c # cs)) div grp =
      (if Suc count mod grp = 0 then 1 else 0) + (Suc count mod grp + length cs) div grp"
  proof (cases "Suc (count mod grp) = grp")
    case True
    then have "Suc count mod grp = 0" by (simp add: mod_Suc)
    moreover have e: "count mod grp + length (c # cs) = length cs + grp" using True by simp
    have "(count mod grp + length (c # cs)) div grp = Suc (length cs div grp)"
      unfolding e using div_add_self2 [of grp "length cs"] sizes(6) by simp
    ultimately show ?thesis by simp
  next
    case False
    then have "Suc count mod grp = Suc (count mod grp)" by (simp add: mod_Suc)
    then show ?thesis by simp
  qed
  have put: "(if Suc count mod grp = 0 then put_bytes cap (digits 256 bpg ?x) out else Inr out) =
      Inr (out @ map of_nat new)"
    using Cons.prems(2) turns put_bytes_ok [of out "digits 256 bpg ?x" cap]
    by (auto simp: new_def)
  have room: "length (out @ map of_nat new :: bytes) + (Suc count mod grp + length cs) div grp * bpg \<le> cap"
    using Cons.prems(2) turns lnew by (auto simp: algebra_simps)
  obtain x' where x': "run cap cs ?x (Suc count) (pad + snd vp) (out @ map of_nat new) =
      Inr (Some (x', Suc count + length cs, pad + snd vp + sum_list (map snd vps), (out @ map of_nat new) @
        map of_nat (drop (length (bytes_of (vs0 @ [fst vp]))) (bytes_of ((vs0 @ [fst vp]) @ map fst vps)))))"
    "holds ((vs0 @ [fst vp]) @ map fst vps) x' (Suc count + length cs)"
    using Cons.IH [OF hs(1) room] by blast
  from bytes_of_prefix obtain w where w: "bytes_of ((vs0 @ [fst vp]) @ map fst vps) = bytes_of (vs0 @ [fst vp]) @ w" by blast
  have "new @ drop (length (bytes_of (vs0 @ [fst vp]))) (bytes_of ((vs0 @ [fst vp]) @ map fst vps)) =
      drop (length (bytes_of vs0)) (bytes_of (vs0 @ fst vp # map fst vps))"
    using w next_bytes by simp
  then have "map of_nat new @ map of_nat (drop (length (bytes_of (vs0 @ [fst vp])))
        (bytes_of ((vs0 @ [fst vp]) @ map fst vps))) =
      (map of_nat (drop (length (bytes_of vs0)) (bytes_of (vs0 @ fst vp # map fst vps))) :: bytes)"
    by (metis map_append)
  then show ?case
    using x' put run_char [OF Cons.hyps(1), of cap cs x count pad out]
    by (simp add: Let_def add.assoc)
qed simp

text \<open>The reference text is a sequence of digits for the bytes, with zero bytes for the padding.\<close>

lemma stands_for_digits:
  assumes "\<forall>v \<in> set vs. v < 2 ^ bits"
  shows "list_all2 stands_for (map of_nat (map ((!) enc) vs)) (map (\<lambda>v. (v, 0)) vs)"
proof -
  have "stands_for (of_nat (enc ! v)) (v, 0)" if "v \<in> set vs" for v
  proof -
    have v: "v < 2 ^ bits" using assms that by blast
    then have "enc ! v < 256" using tables [OF v] table_size(2) by linarith
    then show ?thesis using v by (simp add: stands_for_def unat_of_nat)
  qed
  then show ?thesis by (simp add: list_all2_map1 list_all2_map2 list_all2_same)
qed

lemma pow_sizes: "(2 ^ bits) ^ grp = (256 :: nat) ^ bpg"
proof -
  have "(2 ^ bits) ^ grp = (2 :: nat) ^ (8 * bpg)" using sizes(1) by (simp flip: power_mult)
  then show ?thesis by (simp add: power_mult)
qed

lemma bytes_of_group:
  assumes "length vs = grp"
  shows "bytes_of (vs @ ws) = digits 256 bpg (num_of (2 ^ bits) vs) @ bytes_of ws"
  using assms sizes(6) by (simp add: dec_bytes.simps [of bits grp bpg "vs @ ws"])

lemma bytes_of_digits:
  assumes "length bs = bpg" "\<forall>b \<in> set bs. b < 256"
  shows "bytes_of (digits (2 ^ bits) grp (num_of 256 bs) @ ws) = bs @ bytes_of ws"
proof -
  have "num_of (2 ^ bits) (digits (2 ^ bits) grp (num_of 256 bs)) = num_of 256 bs"
    using num_of_less [OF assms(2)] assms(1) pow_sizes by (simp add: num_of_digits)
  then show ?thesis
    using digits_num_of [OF assms(2)] assms(1) by (simp add: bytes_of_group)
qed

lemma bytes_of_Nil: "bytes_of [] = []"
  using sizes(6) by (simp add: dec_bytes.simps [of bits grp bpg "[]"])

lemma part_digits:
  assumes "0 < length bs" "length bs < bpg" "\<forall>b \<in> set bs. b < 256"
  defines "m \<equiv> (8 * length bs + bits - 1) div bits"
  shows "group_digits bits grp bpg bs = take m (group_digits bits grp bpg bs) @ replicate (grp - m) 0"
    "m \<le> grp" "final (grp - m) = bpg - length bs"
    "snd (tail (length bs) (last bs)) = grp - m"
    "group_steps step bs @ fst (tail (length bs) (last bs)) = take m (group_digits bits grp bpg bs)"
proof -
  let ?us = "group_steps step bs @ fst (tail (length bs) (last bs))" and ?k = "snd (tail (length bs) (last bs))"
  have u: "?us @ replicate ?k 0 = group_digits bits grp bpg bs" "length ?us = m" "final ?k = bpg - length bs"
    using part_group [OF assms(1-3)] by (simp_all add: m_def)
  have "length ?us + ?k = grp" using arg_cong [OF u(1), of length] by (simp add: group_digits_def)
  then have k: "?k = grp - m" "m \<le> grp" using u(2) by simp_all
  then show "m \<le> grp" "final (grp - m) = bpg - length bs" "?k = grp - m" using u(3) by simp_all
  show t: "?us = take m (group_digits bits grp bpg bs)" using u(1,2) by (metis append_eq_conv_conj)
  show "group_digits bits grp bpg bs = take m (group_digits bits grp bpg bs) @ replicate (grp - m) 0"
    using u(1) unfolding t k(1) by simp
qed

lemma text_digits:
  assumes "\<forall>b \<in> set bs. b < 256"
  shows "\<exists>vps. list_all2 stands_for (map of_nat (text_of bs)) vps \<and> length vps mod grp = 0 \<and>
    bytes_of (map fst vps) = bs @ replicate (final (sum_list (map snd vps))) 0 \<and>
    final (sum_list (map snd vps)) < bpg"
  using assms
proof (induction "length bs" arbitrary: bs rule: less_induct)
  case less
  consider "bs = []" | "0 < length bs" "length bs < bpg" | "bpg \<le> length bs"
    by (metis length_greater_0_conv not_le)
  then show ?case
  proof cases
    case 1
    then show ?thesis using no_tail sizes(4) bytes_of_Nil
      by (intro exI [of _ "[]"]) (simp add: base_text.simps [of _ _ _ _ "[]"])
  next
    case 2
    define m where "m = (8 * length bs + bits - 1) div bits"
    let ?g = "group_digits bits grp bpg bs" and ?pad = "bs @ replicate (bpg - length bs) 0"
    note g = part_digits [OF 2 less.prems, folded m_def]
    let ?vps = "map (\<lambda>v. (v, 0)) (take m ?g) @ replicate (grp - m) (0 :: nat, 1 :: nat)"
    have t: "text_of bs = map ((!) enc) (take m ?g) @ replicate (grp - m) 61"
      using 2 by (simp add: base_text.simps [of _ _ _ _ bs] m_def Let_def)
    have small: "\<forall>v \<in> set (take m ?g). v < 2 ^ bits"
      using digits_less [of "2 ^ bits"] by (auto simp: group_digits_def dest: in_set_takeD)
    have p: "list_all2 stands_for (map of_nat (replicate (grp - m) 61)) (replicate (grp - m) (0, 1))"
      by (simp add: list_all2_conv_all_nth stands_for_def)
    have l: "list_all2 stands_for (map of_nat (text_of bs)) ?vps"
      unfolding t map_append by (rule list_all2_appendI [OF stands_for_digits [OF small] p])
    have f: "map fst ?vps = ?g" using g(1) by (simp add: comp_def)
    have s: "sum_list (map snd ?vps) = grp - m" by (simp add: comp_def sum_list_replicate)
    have pad256: "\<forall>b \<in> set ?pad. b < 256" using less.prems by auto
    have "bytes_of ?g = ?pad"
      using bytes_of_digits [of ?pad "[]"] pad256 2 bytes_of_Nil by (simp add: group_digits_def)
    moreover have "length ?vps = grp" using arg_cong [OF f, of length] by (simp add: group_digits_def)
    then have "length ?vps mod grp = 0" by (simp only: mod_self)
    moreover have "bpg - length bs < bpg" using 2 sizes(4) by simp
    ultimately show ?thesis using l g(3) by (intro exI [of _ ?vps] conjI) (simp_all only: f s)
  next
    case 3
    let ?c = "take bpg bs"
    have c: "length ?c = bpg" "\<forall>b \<in> set ?c. b < 256" using 3 less.prems by (auto dest: in_set_takeD)
    have g: "group_digits bits grp bpg ?c = digits (2 ^ bits) grp (num_of 256 ?c)"
      using c(1) by (simp add: group_digits_def)
    have "bs \<noteq> []" using 3 sizes(4) by auto
    then have t: "text_of bs = map ((!) enc) (digits (2 ^ bits) grp (num_of 256 ?c)) @ text_of (drop bpg bs)"
      using 3 sizes(4) g by (simp add: base_text.simps [of _ _ _ _ bs])
    have "length (drop bpg bs) < length bs" using 3 sizes(4) by simp
    moreover have "\<forall>b \<in> set (drop bpg bs). b < 256" using less.prems by (auto dest: in_set_dropD)
    ultimately have "\<exists>vps. list_all2 stands_for (map of_nat (text_of (drop bpg bs))) vps \<and>
        length vps mod grp = 0 \<and>
        bytes_of (map fst vps) = drop bpg bs @ replicate (final (sum_list (map snd vps))) 0 \<and>
        final (sum_list (map snd vps)) < bpg"
      by (rule less.hyps)
    then obtain vps where vps: "list_all2 stands_for (map of_nat (text_of (drop bpg bs))) vps"
      "length vps mod grp = 0"
      "bytes_of (map fst vps) = drop bpg bs @ replicate (final (sum_list (map snd vps))) 0"
      "final (sum_list (map snd vps)) < bpg" by (elim exE conjE) (rule that; assumption)
    let ?vps = "map (\<lambda>v. (v, 0)) (digits (2 ^ bits) grp (num_of 256 ?c)) @ vps"
    have small: "\<forall>v \<in> set (digits (2 ^ bits) grp (num_of 256 ?c)). v < 2 ^ bits"
      using digits_less [of "2 ^ bits"] by auto
    have l: "list_all2 stands_for (map of_nat (text_of bs)) ?vps"
      unfolding t map_append by (rule list_all2_appendI [OF stands_for_digits [OF small] vps(1)])
    have "map fst ?vps = digits (2 ^ bits) grp (num_of 256 ?c) @ map fst vps" "map snd ?vps = replicate grp 0 @ map snd vps"
      by (simp_all add: comp_def map_replicate_const)
    then show ?thesis using l vps(2-4) bytes_of_digits [OF c]
      by (intro exI [of _ ?vps]) (simp add: sum_list_replicate)
  qed
qed

section \<open>The encoder\<close>

text \<open>The indices written for a prefix, before any padding.\<close>

definition prefix_steps :: "nat list \<Rightarrow> nat list" where
  "prefix_steps bs = concat (map (\<lambda>i. step (i mod bpg) (if i mod bpg = 0 then 0 else bs ! (i - 1)) (bs ! i))
     [0..<length bs])"

definition tail_steps :: "nat list \<Rightarrow> nat list \<times> nat" where
  "tail_steps bs = tail (length bs mod bpg) (last bs)"

lemma prefix_steps_snoc:
  "prefix_steps (bs @ [b]) = prefix_steps bs @
     step (length bs mod bpg) (if length bs mod bpg = 0 then 0 else last bs) b"
proof -
  let ?f = "\<lambda>xs i. step (i mod bpg) (if i mod bpg = 0 then 0 else xs ! (i - 1)) (xs ! i)"
  have "map (?f (bs @ [b])) [0..<length bs] = map (?f bs) [0..<length bs]"
    by (rule map_cong) (auto simp: nth_append)
  moreover have "?f (bs @ [b]) (length bs) = step (length bs mod bpg) (if length bs mod bpg = 0 then 0 else last bs) b"
    by (cases bs rule: rev_cases) (auto simp: nth_append)
  ultimately show ?thesis unfolding prefix_steps_def by (simp del: map_eq_conv)
qed

lemma prefix_steps_group: "length bs \<le> bpg \<Longrightarrow> prefix_steps bs = group_steps step bs"
  unfolding prefix_steps_def group_steps_def
  by (intro arg_cong [where f = concat] map_cong) auto

lemma prefix_steps_append:
  assumes "length as = bpg"
  shows "prefix_steps (as @ bs) = prefix_steps as @ prefix_steps bs"
proof (induction bs rule: rev_induct)
  case (snoc b bs)
  have "length (as @ bs) mod bpg = length bs mod bpg" using assms by simp
  moreover have "last (as @ bs) = last bs" if "length bs mod bpg \<noteq> 0" using that by (cases bs) auto
  moreover have "prefix_steps (as @ bs @ [b]) = prefix_steps ((as @ bs) @ [b])" by simp
  ultimately show ?case unfolding prefix_steps_snoc [of "as @ bs" b] prefix_steps_snoc [of bs b] snoc by simp
qed (simp add: prefix_steps_def)

lemma steps_text:
  assumes "\<forall>b \<in> set bs. b < 256"
  shows "map ((!) enc) (prefix_steps bs @ fst (tail_steps bs)) @ replicate (snd (tail_steps bs)) 61 = text_of bs \<and>
    (\<forall>v \<in> set (prefix_steps bs @ fst (tail_steps bs)). v < 2 ^ bits)"
  using assms
proof (induction "length bs" arbitrary: bs rule: less_induct)
  case less
  consider "bs = []" | "0 < length bs" "length bs < bpg" | "bpg \<le> length bs"
    by (metis length_greater_0_conv not_le)
  then show ?case
  proof cases
    case 1
    then show ?thesis using no_tail by (simp add: base_text.simps [of _ _ _ _ "[]"] prefix_steps_def tail_steps_def)
  next
    case 2
    note g = part_digits [OF 2 less.prems]
    have "prefix_steps bs = group_steps step bs" "tail_steps bs = tail (length bs) (last bs)"
      using 2 by (simp_all add: prefix_steps_group tail_steps_def)
    moreover have "\<forall>v \<in> set (group_digits bits grp bpg bs). v < 2 ^ bits"
      using digits_less [of "2 ^ bits"] by (auto simp: group_digits_def)
    ultimately show ?thesis
      using g(4,5) 2 by (auto simp: base_text.simps [of _ _ _ _ bs] Let_def dest: in_set_takeD)
  next
    case 3
    let ?c = "take bpg bs" and ?d = "drop bpg bs"
    have c: "length ?c = bpg" "\<forall>b \<in> set ?c. b < 256" using 3 less.prems by (auto dest: in_set_takeD)
    have g: "group_digits bits grp bpg ?c = digits (2 ^ bits) grp (num_of 256 ?c)"
      using c(1) by (simp add: group_digits_def)
    have "bs \<noteq> []" using 3 sizes(4) by auto
    then have t: "text_of bs = map ((!) enc) (digits (2 ^ bits) grp (num_of 256 ?c)) @ text_of ?d"
      using 3 sizes(4) g by (simp add: base_text.simps [of _ _ _ _ bs])
    have p: "prefix_steps bs = digits (2 ^ bits) grp (num_of 256 ?c) @ prefix_steps ?d"
      using prefix_steps_append [OF c(1), of ?d] prefix_steps_group [of ?c] whole_group [OF c] c(1) by simp
    have "tail_steps bs = tail_steps ?d"
    proof (cases "?d = []")
      case True
      then have "length bs = bpg" using 3 by simp
      then show ?thesis using no_tail by (simp add: tail_steps_def)
    next
      case False
      have "length bs mod bpg = length ?d mod bpg" using 3 by (simp add: le_mod_geq)
      moreover have "last bs = last ?d" using False by (simp add: last_drop)
      ultimately show ?thesis by (simp add: tail_steps_def)
    qed
    moreover have "length ?d < length bs" using 3 sizes(4) by simp
    moreover have "\<forall>b \<in> set ?d. b < 256" using less.prems by (auto dest: in_set_dropD)
    ultimately show ?thesis
      using less.hyps [of ?d] t p digits_less [of "2 ^ bits"] by auto
  qed
qed

lemma table_chars_ok:
  "\<forall>v \<in> set vs. v < 2 ^ bits \<Longrightarrow> table_chars enc vs = Inr (map ((!) enc) vs)"
  by (induction vs) (auto simp: table_at_def dest: tables)

lemma length_text: "length (text_of bs) = (length bs + (bpg - 1)) div bpg * grp"
proof (induction "length bs" arbitrary: bs rule: less_induct)
  case less
  consider "bs = []" | "0 < length bs" "length bs < bpg" | "bpg \<le> length bs"
    by (metis length_greater_0_conv not_le)
  then show ?case
  proof cases
    case 1
    then show ?thesis using sizes(4) by (simp add: base_text.simps [of _ _ _ _ "[]"])
  next
    case 2
    have "bpg * 1 \<le> length bs + (bpg - 1)" using 2 unfolding mult_1_right by linarith
    moreover have "length bs + (bpg - 1) < bpg * Suc 1" using 2 by simp
    ultimately have "(length bs + (bpg - 1)) div bpg = 1" by (rule div_nat_eqI)
    moreover have "(8 * length bs + bits - 1) div bits \<le> grp"
    proof -
      have "8 * length bs + bits - 1 < (grp + 1) * bits" using 2 sizes(1,2) by (simp add: algebra_simps)
      then show ?thesis using sizes(2) by (simp add: less_mult_imp_div_less flip: less_Suc_eq_le)
    qed
    ultimately show ?thesis
      using 2 by (simp add: base_text.simps [of _ _ _ _ bs] Let_def group_digits_def)
  next
    case 3
    have "bs \<noteq> []" using 3 sizes(4) by auto
    then have "length (text_of bs) = grp + length (text_of (drop bpg bs))"
      using 3 sizes(4) by (simp add: base_text.simps [of _ _ _ _ bs] group_digits_def)
    moreover have "length (text_of (drop bpg bs)) = (length bs - bpg + (bpg - 1)) div bpg * grp"
      using less [of "drop bpg bs"] 3 sizes(4) by simp
    moreover have e: "length bs + (bpg - 1) = (length bs - bpg + (bpg - 1)) + bpg" using 3 by simp
    have "(length bs + (bpg - 1)) div bpg = Suc ((length bs - bpg + (bpg - 1)) div bpg)"
      unfolding e using div_add_self2 [of bpg "length bs - bpg + (bpg - 1)"] sizes(4) by (simp del: add_diff_assoc2)
    ultimately show ?thesis by simp
  qed
qed

end

end
