(* ===== verification/Base_Data.thy ===== *)
theory Base_Data
  imports Base_Codec
begin

text \<open>
  The base codecs on data objects: what a codec that satisfies the interface
  \<open>base_codec\<close> does to an object of any number of regions, and the two codecs of the code.
\<close>

section \<open>Data objects made on the way\<close>

lemma create_free_ok:
  assumes inv: "data_inv h ext" and b: "sz \<le> length b" "sz + 64 < SIZE_LIMIT"
  shows "\<exists>h' p. dispatch_data_create h (Some b) sz None DESTRUCTOR_FREE = Inr (h', Some p) \<and>
    fresh_result h ext h' p (take sz b)"
proof (cases "sz = 0")
  case True
  have "dispatch_data_create h (Some b) sz None DESTRUCTOR_FREE =
      Inr (h\<lparr>events := Ev_free (Some b) # events h\<rparr>, Some 0)"
    using True by (simp add: dispatch_data_create_def dispatch_data_destroy_buffer_def)
  then show ?thesis using empty_result [OF inv] True by (simp add: fresh_result_events)
next
  case False
  then show ?thesis using create_ok [OF inv _ b, of DESTRUCTOR_FREE None] by auto
qed

lemma regions_split:
  "regions_at off (ds @ (q, o', b, n) # rest) \<Longrightarrow>
    o' = off + length (concat (map region_bytes ds)) \<and> 0 < n \<and> n \<le> length b"
proof (induction ds arbitrary: off)
  case (Cons r ds)
  obtain q1 o1 b1 n1 where r: "r = (q1, o1, b1, n1)" by (cases r)
  then have "n1 \<le> length b1" "regions_at (off + n1) (ds @ (q, o', b, n) # rest)"
    using Cons.prems by simp_all
  then show ?case using Cons.IH [of "off + n1"] r by (simp add: min_absorb2)
qed simp

text \<open>Such an object is a leaf: it has at most one region.\<close>

lemma create_free_leaf:
  assumes "dispatch_data_create h (Some b) sz None DESTRUCTOR_FREE = Inr (h', Some p)" "heap_ok h"
  shows "\<exists>d. objs h' p = Some d \<and> dispatch_data_leaf d"
proof (cases "sz = 0")
  case True
  then have "h' = h\<lparr>events := Ev_free (Some b) # events h\<rparr>" "p = 0"
    using assms(1) by (simp_all add: dispatch_data_create_def dispatch_data_destroy_buffer_def)
  then show ?thesis using assms(2) by (auto simp: heap_ok_def empty_obj_ok_def)
next
  case False
  then show ?thesis using assms(1)
    by (auto simp: dispatch_data_create_def dispatch_data_alloc_def dispatch_data_init_def data_lookup_def
        dispatch_data_leaf_def Let_def split: if_splits)
qed

lemma leaf_one_region:
  assumes "heap_ok h" "objs h p = Some d" "dispatch_data_leaf d"
  shows "length (data_regions h p) \<le> 1"
proof (cases "data_size d = 0")
  case False
  obtain b where "buf d = Some b" by (rule leaf_buf [OF assms False])
  then show ?thesis using assms(2) False direct_leaf [OF assms(3)] by (simp add: data_regions_def)
qed (use assms(2) in \<open>simp add: data_regions_def\<close>)

text \<open>A mapped subrange within the data: its bytes, and the heap once it has been released.\<close>

lemma subrange_map_ok:
  assumes inv: "data_inv h ext" and pos: "nonneg ext" and p: "objs h p = Some dd"
    and m: "\<And>n. malloc_ok h n" and n: "0 < n" and small: "data_size dd + 64 < SIZE_LIMIT"
  shows "\<exists>h' m' b. data_subrange_map h junk p offset n = Inr (h', m', b) \<and>
    (if offset + n \<le> data_size dd
     then \<exists>q bs. m' = Some q \<and> b = Some bs \<and> n \<le> length bs \<and> take n bs = take n (drop offset (data_bytes h p)) \<and>
       fresh_result h ext h' q (take n (drop offset (data_bytes h p)))
     else m' = None \<and> data_inv h' ext \<and> heap_le h h' \<and> malloc_ok h' = malloc_ok h)"
proof -
  let ?bs = "take n (drop offset (data_bytes h p))"
  have len: "length (data_bytes h p) = data_size dd" by (rule length_data_bytes [OF data_invD(1) [OF inv] p])
  obtain h1 s where h1: "dispatch_data_create_subrange h p offset n = Inr (h1, Some s)" "fresh_result h ext h1 s ?bs"
    using subrange_ok [OF inv p] by blast
  have i1: "data_inv h1 (own ext s 1)" "heap_le h h1" "malloc_ok h1 = malloc_ok h"
    using h1(2) by (simp_all add: fresh_result_def)
  obtain ds where ds: "objs h1 s = Some ds" "data_size ds = length ?bs" by (rule fresh_live [OF h1(2)])
  have sz: "dispatch_data_get_size h1 s = Inr (length ?bs)" using ds by (simp add: dispatch_data_get_size_def)
  show ?thesis
  proof (cases "offset + n \<le> data_size dd")
    case False
    then have ne: "length ?bs \<noteq> n" using len n by auto
    obtain h2 where "dispatch_data_release h1 s = Inr h2" "data_inv h2 ext" "heap_le h h2" "malloc_ok h2 = malloc_ok h"
      using release_temp [OF inv pos pos _ i1] by blast
    with h1(1) sz ne False show ?thesis by (simp add: data_subrange_map_def deref_def del: length_take)
  next
    case True
    then have l: "length ?bs = n" using len by simp
    have "data_size ds + 64 < SIZE_LIMIT" "malloc_ok h1 (data_size ds)" using ds(2) l True small m i1(3) by simp_all
    then obtain h2 q b where h2: "dispatch_data_create_map h1 junk s = Inr (h2, Some q, Some b, n)"
      "fresh_result h1 (own ext s 1) h2 q ?bs" "n \<le> length b" "take n b = ?bs"
      using create_map_ok [OF i1(1) ds(1), of junk] ds(2) l n h1(2) by (auto simp: fresh_result_def)
    have i2: "data_inv h2 (own (own ext q 1) s 1)" "heap_le h h2" "malloc_ok h2 = malloc_ok h"
      using h2(2) i1 heap_le_trans [OF i1(2)] by (simp_all add: fresh_result_def own_swap [of _ q])
    have grow: "0 < ext x \<Longrightarrow> 0 < own ext q 1 x" for x by (auto simp: own_apply)
    obtain h3 where h3: "dispatch_data_release h2 s = Inr h3" "data_inv h3 (own ext q 1)" "heap_le h h3"
      "malloc_ok h3 = malloc_ok h"
      "\<forall>x. 0 < own ext q 1 x \<longrightarrow> x \<noteq> 0 \<longrightarrow> objs h3 x \<noteq> None \<and> data_bytes h3 x = data_bytes h2 x"
      using release_temp [OF inv pos nonneg_own [OF pos] grow i2] by blast
    have "q \<noteq> 0"
    proof
      assume "q = 0"
      then have "data_bytes h2 q = []"
        using h2(2) data_bytes_zero [of h2 0] by (auto simp: fresh_result_def data_inv_def heap_ok_def empty_obj_ok_def)
      then show False using h2(2) l n by (auto simp: fresh_result_def)
    qed
    then have "0 < own ext q 1 q" using pos by (simp add: own_apply nonneg_def add_nonneg_pos)
    then have "fresh_result h ext h3 q ?bs"
      using h3 h2(2) \<open>q \<noteq> 0\<close> by (simp add: fresh_result_def)
    then show ?thesis using h1(1) sz l h2 h3(1) True by (simp add: data_subrange_map_def deref_def)
  qed
qed

section \<open>Decoding\<close>

text \<open>Only the last region may hold a padding character.\<close>

definition pads_last :: "region list \<Rightarrow> bool" where
  "pads_last rs \<longleftrightarrow> (\<forall>ds q off b n rest. rs = ds @ (q, off, b, n) # rest \<longrightarrow> rest \<noteq> [] \<longrightarrow> 61 \<notin> set (take n b))"

lemma unat_u8_less: "unat (x :: u8) < 256"
  using unsigned_less [of x] by simp

context base_codec
begin

lemma length_bytes_of: "length (bytes_of vs) = length vs div grp * bpg"
proof (induction vs rule: rev_induct)
  case (snoc v vs)
  have "length (bytes_of (vs @ [v])) = length (bytes_of vs) + (if Suc (length vs) mod grp = 0 then bpg else 0)"
    by (simp add: dec_bytes_snoc [OF sizes(6)])
  then show ?case using snoc by (simp add: div_Suc)
qed (simp add: bytes_of_Nil)

lemma decode_step:
  assumes inv: "data_inv h ext" "nonneg ext" and r: "fresh_result h ext h1 rv xs"
    and cs: "filter (\<lambda>c. \<not> space_char c) (take n b) = cs" "n \<le> length b"
    and small: "n < 2 ^ 48" "length xs < 2 ^ 52" "count + length cs < 2 ^ 48"
    and vps: "list_all2 stands_for cs vps" "holds vs0 x count" and m: "\<And>n. malloc_ok h n"
    and new: "new = drop (length (bytes_of vs0)) (bytes_of (vs0 @ map fst vps))"
    and fin: "final (pad + sum_list (map snd vps)) \<le> length new"
  shows "\<exists>h2 c x'. basexx_decode_applier bits grp shifts final dec dsize junk h1 (x, count, pad, Some rv) q off b n =
      Inr (h2, (x', count + length cs, pad + sum_list (map snd vps), Some c), True) \<and>
    fresh_result h ext h2 c (xs @ map of_nat (take (length new - final (pad + sum_list (map snd vps))) new)) \<and>
    holds (vs0 @ map fst vps) x' (count + length cs)"
proof -
  have lsh: "length shifts = bpg" using arg_cong [OF shifts_digits, of length] by simp
  define cap where "cap = sz_mul (howmany n grp) bpg"
  have g8: "grp \<le> 64" 
  proof -
    have "1 * grp \<le> bits * grp" using sizes(2) by (intro mult_right_mono) simp_all
    then show ?thesis using sizes(1,5) by simp
  qed
  have how: "howmany n grp = (n + (grp - 1)) div grp"
    using small(1) g8 by (simp add: howmany_def sz_add_def)
  have "(n + (grp - 1)) div grp \<le> n + 64" using g8 by (meson div_le_dividend le_trans add_mono diff_le_self order_refl)
  then have "(n + (grp - 1)) div grp * bpg \<le> (n + 64) * 8" using sizes(5) by (intro mult_mono) simp_all
  then have cap: "cap = (n + (grp - 1)) div grp * bpg"
    using small(1) unfolding cap_def how by (simp add: sz_mul_def)
  have lcs: "length cs \<le> n" using cs by (metis length_filter_le length_take min.absorb2)
  have "(count mod grp + length cs) div grp \<le> (n + (grp - 1)) div grp"
  proof (rule div_le_mono)
    have "count mod grp < grp" using sizes(6) by simp
    then show "count mod grp + length cs \<le> n + (grp - 1)" using lcs by linarith
  qed
  then have "length ([] :: bytes) + (count mod grp + length cs) div grp * bpg \<le> cap"
    unfolding cap by (simp add: mult_right_mono)
  from run_ok [OF vps this, of pad]
  obtain x' where run: "run cap cs x count pad [] = Inr (Some (x', count + length cs, pad + sum_list (map snd vps),
      map of_nat new))" "holds (vs0 @ map fst vps) x' (count + length cs)"
    by (auto simp: new)
  have run': "run cap (take n b) x count pad [] = Inr (Some (x', count + length cs, pad + sum_list (map snd vps),
      map of_nat new))" using run(1) run_spaces [of cap "take n b"] cs(1) by simp
  let ?k = "length new - final (pad + sum_list (map snd vps))"
  have lvs: "length (vs0 @ map fst vps) = count + length cs"
    using vps by (simp add: holds_def list_all2_lengthD)
  have lnew: "length new \<le> 2 ^ 48 * 8"
  proof -
    have "length new \<le> length (vs0 @ map fst vps) div grp * bpg"
      using length_bytes_of [of "vs0 @ map fst vps"] unfolding new by simp
    also have "\<dots> \<le> 2 ^ 48 * 8"
      using lvs small(3) sizes(5) by (intro mult_mono) (auto intro: le_trans [OF div_le_dividend])
    finally show ?thesis .
  qed
  let ?out = "map of_nat new :: bytes"
  have i1: "data_inv h1 (own ext rv 1)" using r by (simp add: fresh_result_def)
  have ksz: "?k + 64 < SIZE_LIMIT" using lnew by simp
  have kle: "?k \<le> length (?out @ replicate (cap - length ?out) junk)" by simp
  obtain h2 v where h2: "dispatch_data_create h1 (Some (?out @ replicate (cap - length ?out) junk)) ?k None DESTRUCTOR_FREE =
      Inr (h2, Some v)" "fresh_result h1 (own ext rv 1) h2 v (take ?k (?out @ replicate (cap - length ?out) junk))"
    using create_free_ok [OF i1 kle ksz] by blast
  have tk: "take ?k (?out @ replicate (cap - length ?out) junk) = map of_nat (take ?k new)"
    by (simp add: take_map)
  have "(length xs + length (map of_nat (take ?k new) :: bytes) + 2) * 24 + 64 < SIZE_LIMIT"
    using small(2) lnew by simp
  then obtain h3 c h4 h5 where h3: "dispatch_data_create_concat h2 rv v = Inr (h3, Some c)"
    "dispatch_data_release h3 v = Inr h4" "dispatch_data_release h4 rv = Inr h5"
    "fresh_result h ext h5 c (xs @ map of_nat (take ?k new))"
    using append_result [OF inv r] h2(2) tk by metis
  have m1: "malloc_ok h1 cap" using m r by (simp add: fresh_result_def)
  have sub: "sz_sub (length ?out) (final (pad + sum_list (map snd vps))) = ?k"
    using fin by (simp add: sz_sub_def)
  have rd: "read_bytes (Some b) n = Inr (take n b)" using cs(2) by (simp add: read_bytes_def)
  have "basexx_decode_applier bits grp shifts final dec dsize junk h1 (x, count, pad, Some rv) q off b n =
      Inr (h5, (x', count + length cs, pad + sum_list (map snd vps), Some c), True)"
    unfolding basexx_decode_applier_def prod.case Let_def lsh cap_def [symmetric]
    using m1 rd run' h2(1) h3 sub by (simp add: deref_def)
  then show ?thesis using h3(4) run(2) by blast
qed

lemma no_pads:
  assumes "list_all2 stands_for cs vps" "61 \<notin> set cs"
  shows "sum_list (map snd vps) = 0"
  using assms
proof (induction cs vps rule: list_all2_induct)
  case (Cons c cs vp vps)
  have "unat c \<noteq> 61" using Cons.prems by (auto simp: word_unat_eq_iff)
  then show ?case using Cons by (auto simp: stands_for_def)
qed simp

lemma decode_ok:
  assumes inv: "data_inv h ext" "nonneg ext" and p: "objs h p = Some dd" and m: "\<And>n. malloc_ok h n"
    and small: "data_size dd < 2 ^ 48" and bs: "\<forall>b \<in> set bs. b < 256"
    and tx: "filter (\<lambda>c. \<not> space_char c) (data_bytes h p) = map of_nat (text_of bs)"
    and pads: "pads_last (data_regions h p)"
  shows "\<exists>h' r. basexx_decode (basexx_decode_applier bits grp shifts final dec dsize) h junk p = Inr (h', Some r) \<and>
    fresh_result h ext h' r (map of_nat bs)"
proof -
  let ?regs = "data_regions h p" and ?nosp = "filter (\<lambda>c. \<not> space_char c)"
  have hok: "heap_ok h" by (rule data_invD(1) [OF inv(1)])
  have regs: "regions_at 0 ?regs" "concat (map region_bytes ?regs) = data_bytes h p"
    using data_regions_ok [OF hok p] by simp_all
  have len: "length (data_bytes h p) = data_size dd" by (rule length_data_bytes [OF hok p])
  obtain V where V: "list_all2 stands_for (map of_nat (text_of bs)) V" "length V mod grp = 0"
    "bytes_of (map fst V) = bs @ replicate (final (sum_list (map snd V))) 0" "final (sum_list (map snd V)) < bpg"
    using text_digits [OF bs] by (elim exE conjE) (rule that; assumption)
  define D where "D ds = ?nosp (concat (map region_bytes ds))" for ds :: "region list"
  have D_all: "D ?regs = map of_nat (text_of bs)" using regs(2) tx by (simp add: D_def)
  have D_app: "D (ds @ es) = D ds @ D es" for ds es by (simp add: D_def)
  define W where "W ds = take (length (D ds)) V" for ds
  define B where "B ds = bytes_of (map fst (W ds))" for ds
  define P where "P ds = sum_list (map snd (W ds))" for ds
  have lenD: "length (D ds) \<le> data_size dd" if "ds @ es = ?regs" for ds es
  proof -
    have "length (D ds) \<le> length (D ?regs)" using D_app [of ds es] that by simp
    also have "\<dots> \<le> length (data_bytes h p)" unfolding D_def regs(2) by (rule length_filter_le)
    finally show ?thesis using len by simp
  qed
  define I where "I ds h1 s \<longleftrightarrow> (\<exists>x rv. s = (x, length (D ds), P ds, Some rv) \<and> holds (map fst (W ds)) x (length (D ds)) \<and>
      fresh_result h ext h1 rv (map of_nat (take (length (B ds) - final (P ds)) (B ds))) \<and> (ds \<noteq> ?regs \<longrightarrow> P ds = 0))"
    for ds :: "region list" and h1 and s :: decode_state
  have step: "\<exists>h2 s2 r. basexx_decode_applier bits grp shifts final dec dsize junk h1 s1 q o' b n = Inr (h2, s2, r) \<and>
      (if r then I (ds @ [(q, o', b, n)]) h2 s2 else False)"
    if split: "?regs = ds @ (q, o', b, n) # rest" and i: "I ds h1 s1" for ds q o' b n rest h1 s1
  proof -
    have ne: "ds \<noteq> ?regs" using split by simp
    obtain x rv where x: "s1 = (x, length (D ds), 0, Some rv)" "holds (map fst (W ds)) x (length (D ds))" "P ds = 0"
      "fresh_result h ext h1 rv (map of_nat (B ds))"
      using i ne no_tail(2) unfolding I_def by auto
    let ?cs = "?nosp (take n b)" and ?ds' = "ds @ [(q, o', b, n)]"
    have Dn: "D ?ds' = D ds @ ?cs" by (simp add: D_def)
    have Dr: "D ?regs = D ds @ ?cs @ D rest" using split by (simp add: D_def)
    have reg: "n \<le> length b" using regs(1) unfolding split by (blast dest: regions_split)
    define vps where "vps = take (length ?cs) (drop (length (D ds)) V)"
    have lV: "length V = length (D ?regs)" using list_all2_lengthD [OF V(1)] D_all by simp
    have vps: "list_all2 stands_for ?cs vps" "W ?ds' = W ds @ vps"
    proof -
      have "list_all2 stands_for (D ds @ ?cs @ D rest) V" using V(1) D_all Dr by simp
      then have "list_all2 stands_for (take (length ?cs) (drop (length (D ds)) (D ds @ ?cs @ D rest))) vps"
        unfolding vps_def by (intro list_all2_takeI list_all2_dropI)
      then show "list_all2 stands_for ?cs vps" by simp
      show "W ?ds' = W ds @ vps" unfolding W_def Dn vps_def by (simp add: take_add)
    qed
    let ?new = "drop (length (B ds)) (B ?ds')"
    have Bn: "B ?ds' = B ds @ ?new"
      using bytes_of_prefix [of "map fst (W ds)" "map fst vps"] vps(2) by (auto simp: B_def)
    have Pn: "P ?ds' = sum_list (map snd vps)" using x(3) vps(2) by (simp add: P_def)
    have last: "P ?ds' = 0 \<or> rest = []"
    proof (cases "rest = []")
      case False
      then have "61 \<notin> set ?cs" using pads split unfolding pads_last_def by auto
      then show ?thesis using no_pads [OF vps(1)] Pn by simp
    qed simp
    have lW: "length (W us) = length (D us)" if "us @ es = ?regs" for us es
      using D_app [of us es] that lV by (simp add: W_def)
    have fin: "final (P ?ds') \<le> length ?new"
    proof (cases "P ?ds' = 0")
      case True
      then show ?thesis using no_tail(2) by simp
    next
      case False
      then have "rest = []" using last by simp
      then have all: "?ds' = ?regs" using split by simp
      then have WV: "W ?ds' = V" using lV by (simp add: W_def)
      have "vps \<noteq> []" using False Pn by auto
      then have lt: "length (W ds) < length V" using vps(2) WV by (metis length_append less_add_same_cancel1 length_greater_0_conv)
      obtain k where k: "length V = grp * k" using V(2) by (metis mod_0_imp_dvd dvdE)
      then have "length (W ds) div grp < k" using lt sizes(6) by (simp add: less_mult_imp_div_less mult.commute)
      then have "(length (W ds) div grp + 1) * bpg \<le> k * bpg" by (intro mult_right_mono) simp_all
      moreover have "length (B ?ds') = k * bpg" "length (B ds) = length (W ds) div grp * bpg"
        using WV k sizes(6) by (simp_all add: B_def length_bytes_of)
      ultimately have "bpg \<le> length ?new" by simp
      moreover have "final (P ?ds') < bpg" using V(4) WV by (simp add: P_def)
      ultimately show ?thesis by simp
    qed
    have c48: "length (D ds) + length ?cs < 2 ^ 48"
      using lenD [of ?ds' rest] split small Dn by simp
    have n48: "n < 2 ^ 48"
    proof -
      have "length (take n b) \<le> length (concat (map region_bytes ?regs))" unfolding split by simp
      then show ?thesis using regs(2) len small reg by simp
    qed
    have "length (B ds) \<le> length (W ds) * 8"
      using sizes(5) by (auto simp: B_def length_bytes_of intro!: mult_le_mono)
    moreover have "length (W ds) = length (D ds)" using lW [of ds "(q, o', b, n) # rest"] split by simp
    ultimately have x52: "length (map of_nat (B ds) :: bytes) < 2 ^ 52" using c48 by simp
    have new: "?new = drop (length (bytes_of (map fst (W ds)))) (bytes_of (map fst (W ds) @ map fst vps))"
      by (simp add: B_def vps(2))
    have fin': "final (0 + sum_list (map snd vps)) \<le> length ?new" using fin Pn by simp
    obtain h2 c x' where h2: "basexx_decode_applier bits grp shifts final dec dsize junk h1
        (x, length (D ds), 0, Some rv) q o' b n =
        Inr (h2, (x', length (D ds) + length ?cs, 0 + sum_list (map snd vps), Some c), True)"
      "fresh_result h ext h2 c (map of_nat (B ds) @ map of_nat (take (length ?new - final (0 + sum_list (map snd vps))) ?new))"
      "holds (map fst (W ds) @ map fst vps) x' (length (D ds) + length ?cs)"
      using decode_step [OF inv x(4) refl reg n48 x52 c48 vps(1) x(2) m new fin'] by blast
    have "take (length (B ?ds') - final (P ?ds')) (B ?ds') = B ds @ take (length ?new - final (P ?ds')) ?new"
    proof -
      obtain nw where nw: "nw = ?new" "B ?ds' = B ds @ nw" using Bn by blast
      then have "final (P ?ds') \<le> length nw" using fin by simp
      then have "length (B ds @ nw) - final (P ?ds') = length (B ds) + (length nw - final (P ?ds'))" by simp
      then show ?thesis unfolding nw(1) [symmetric] nw(2) by simp
    qed
    then have "fresh_result h ext h2 c (map of_nat (take (length (B ?ds') - final (P ?ds')) (B ?ds')))"
      using h2(2) Pn by simp
    moreover have "?ds' \<noteq> ?regs \<longrightarrow> P ?ds' = 0" using last split by auto
    moreover have "holds (map fst (W ?ds')) x' (length (D ?ds'))" using h2(3) vps(2) Dn by simp
    ultimately have "I ?ds' h2 (x', length (D ds) + length ?cs, 0 + sum_list (map snd vps), Some c)"
      unfolding I_def using Dn Pn by auto
    then show ?thesis using h2(1) x(1) by (intro exI [of _ h2] exI [of _ "(x', length (D ds) + length ?cs,
        0 + sum_list (map snd vps), Some c)"] exI [of _ True]) simp
  qed
  have W0: "W [] = []" by (simp add: W_def D_def)
  have I0: "I [] h (0, 0, 0, Some dispatch_data_empty)"
    using empty_result [OF inv(1)] bytes_of_Nil unfolding I_def
    by (intro exI [of _ 0] exI [of _ 0]) (simp add: W0 P_def B_def D_def holds_def no_tail(2))
  have view: "heap_ok h' \<and> same_view h h' p" if "I ds h' s'" for ds h' s'
    using that same_view_le [OF _ hok p] unfolding I_def by (auto simp: fresh_result_def data_invD)
  have "\<exists>h' s' r. dispatch_data_apply h (0, 0, 0, Some dispatch_data_empty) p
      (basexx_decode_applier bits grp shifts final dec dsize junk) = Inr (h', s', r) \<and>
      (if r then I ?regs h' s' else False)"
    by (rule apply_inv [where I = I and Q = "\<lambda>_ _. False", OF hok p I0 view step])
  then obtain h' s' where run: "dispatch_data_apply h (0, 0, 0, Some dispatch_data_empty) p
      (basexx_decode_applier bits grp shifts final dec dsize junk) = Inr (h', s', True)" "I ?regs h' s'"
    by (auto split: if_splits)
  then obtain x rv where x: "s' = (x, length (D ?regs), P ?regs, Some rv)"
    "fresh_result h ext h' rv (map of_nat (take (length (B ?regs) - final (P ?regs)) (B ?regs)))"
    unfolding I_def by blast
  have "W ?regs = V" using list_all2_lengthD [OF V(1)] D_all by (simp add: W_def)
  then have "take (length (B ?regs) - final (P ?regs)) (B ?regs) = bs"
    using V(3) by (simp add: B_def P_def)
  then show ?thesis using run(1) x by (simp add: basexx_decode_def)
qed

section \<open>Encoding\<close>

lemma prefix_steps_prefix: "\<exists>w. prefix_steps (us @ ws) = prefix_steps us @ w"
proof (induction ws rule: rev_induct)
  case (snoc v ws)
  then obtain w where "prefix_steps (us @ ws) = prefix_steps us @ w" by blast
  then show ?case using prefix_steps_snoc [of "us @ ws" v] by simp
qed simp

lemma prefix_fits:
  assumes "\<forall>b \<in> set (us @ ws). b < 256"
  shows "length (prefix_steps us) \<le> length (text_of (us @ ws))"
proof -
  obtain w where "prefix_steps (us @ ws) = prefix_steps us @ w" using prefix_steps_prefix by blast
  moreover have "length (prefix_steps (us @ ws)) \<le> length (text_of (us @ ws))"
    using arg_cong [OF conjunct1 [OF steps_text [OF assms]], of length] by simp
  ultimately show ?thesis by simp
qed

lemma step_small:
  assumes "\<forall>b \<in> set (bs @ [b]). b < 256"
  shows "\<forall>v \<in> set (step (length bs mod bpg) (if length bs mod bpg = 0 then 0 else last bs) b). v < 2 ^ bits"
  using conjunct2 [OF steps_text [OF assms]] unfolding prefix_steps_snoc by simp

lemma encode_loop_ok:
  assumes inv: "data_inv h ext" "nonneg ext" and p: "objs h p = Some dd" and m: "\<And>n. malloc_ok h n"
    and small: "data_size dd + 64 < SIZE_LIMIT"
    and reg: "data_bytes h p = pre @ take n b @ post" "n \<le> length b"
    and cap: "length (text_of (map unat (data_bytes h p))) \<le> cap"
    and h1: "data_inv h1 ext" "heap_le h h1" "malloc_ok h1 = malloc_ok h"
    and i: "i + k = n"
    and out: "out = map of_nat (map ((!) enc) (prefix_steps (map unat (pre @ take i b))))"
  shows "\<exists>h2. basexx_encode_loop bpg step enc cap junk p (length pre) b i k h1 (length pre + i) out =
      Inr (h2, Some (length pre + n, map of_nat (map ((!) enc) (prefix_steps (map unat (pre @ take n b)))))) \<and>
    data_inv h2 ext \<and> heap_le h h2 \<and> malloc_ok h2 = malloc_ok h"
  using h1 i out
proof (induction k arbitrary: i h1 out)
  case 0
  then show ?case by simp
next
  case (Suc k)
  note h1 = Suc.prems(1-3)
  have i: "i < n" "Suc i + k = n" "i < length b" using Suc.prems(4) reg(2) by simp_all
  let ?done = "pre @ take i b" and ?cur = "unat (b ! i)"
  have ld: "length ?done = length pre + i" using i by simp
  obtain d1 where d1: "objs h1 p = Some d1" "data_size d1 = data_size dd" using heap_leE [OF h1(2) p] by metis
  have bytes1: "data_bytes h1 p = data_bytes h p" by (rule data_bytes_le [OF data_invD(1) [OF inv(1)] h1(2) p])
  have len: "length (data_bytes h p) = data_size dd" by (rule length_data_bytes [OF data_invD(1) [OF inv(1)] p])
  define lst where "lst = (if (length pre + i) mod bpg = 0 then 0 else unat (last ?done))"
  have "\<exists>h2. encode_last junk p bpg (length pre) b h1 (length pre + i) i = Inr (h2, Some lst) \<and>
      data_inv h2 ext \<and> heap_le h h2 \<and> malloc_ok h2 = malloc_ok h"
  proof (cases "(length pre + i) mod bpg = 0")
    case True
    then show ?thesis using h1 by (simp add: encode_last_def lst_def)
  next
    case ne: False
    show ?thesis
    proof (cases "i = 0")
      case False
      then obtain j where j: "i = Suc j" using not0_implies_Suc by blast
      then have "last ?done = b ! (i - 1)" using i(3) by (simp add: take_Suc_conv_app_nth)
      then show ?thesis using ne False h1 i by (simp add: encode_last_def lst_def byte_at_def)
    next
      case True
      then have pos: "0 < length pre" using ne by (cases pre) auto
      have le: "length pre - 1 + 1 \<le> data_size d1" using pos reg(1) len d1(2) by simp
      have m1: "\<And>n. malloc_ok h1 n" using m h1(3) by simp
      have s1: "data_size d1 + 64 < SIZE_LIMIT" using small d1(2) by simp
      obtain h2 q bs where h2: "data_subrange_map h1 junk p (length pre - 1) 1 = Inr (h2, Some q, Some bs)"
        "1 \<le> length bs" "take 1 bs = take 1 (drop (length pre - 1) (data_bytes h1 p))"
        "fresh_result h1 ext h2 q (take 1 (drop (length pre - 1) (data_bytes h1 p)))"
        using subrange_map_ok [OF h1(1) inv(2) d1(1) m1 _ s1, of 1 junk "length pre - 1"] le by auto
      have "take 1 (drop (length pre - 1) (data_bytes h1 p)) = [last pre]"
        using pos unfolding bytes1 reg(1)
        by (cases pre rule: rev_cases) auto
      then have b0: "bs ! 0 = last pre" "bs \<noteq> []" using h2(2,3) by (cases bs; auto)+
      have ldone: "last ?done = last pre" using True by simp
      have i2: "data_inv h2 (own ext q 1)" "heap_le h h2" "malloc_ok h2 = malloc_ok h"
        using h2(4) h1 heap_le_trans [OF h1(2)] by (simp_all add: fresh_result_def)
      obtain h3 where h3: "dispatch_data_release h2 q = Inr h3" "data_inv h3 ext" "heap_le h h3" "malloc_ok h3 = malloc_ok h"
        using release_temp [OF inv inv(2) _ i2] by blast
      have "sz_sub (length pre) 1 = length pre - 1" using pos by (cases "length pre"; simp add: sz_sub_def)
      then show ?thesis using ne True h2(1,2) b0 ldone h3
        by (simp add: encode_last_def lst_def deref_def byte_at_def)
    qed
  qed
  then obtain h2 where h2: "encode_last junk p bpg (length pre) b h1 (length pre + i) i = Inr (h2, Some lst)"
    "data_inv h2 ext" "heap_le h h2" "malloc_ok h2 = malloc_ok h" by blast
  have dn: "pre @ take (Suc i) b = ?done @ [b ! i]" using i(3) by (simp add: take_Suc_conv_app_nth)
  let ?nd = "map unat ?done"
  have lastn: "(if length ?nd mod bpg = 0 then 0 else last ?nd) = lst"
  proof (cases "length ?nd mod bpg = 0")
    case False
    then have "length ?done \<noteq> 0" by (metis mod_0 length_map)
    then have "?done \<noteq> []" by (simp only: length_0_conv not_False_eq_True)
    then have "last ?nd = unat (last ?done)" by (rule last_map)
    moreover have "length ?nd = length pre + i" using ld by simp
    ultimately show ?thesis using False unfolding lst_def by metis
  next
    case True
    then show ?thesis using ld unfolding lst_def by simp
  qed
  define vs where "vs = step ((length pre + i) mod bpg) lst ?cur"
  have steps: "prefix_steps (map unat (pre @ take (Suc i) b)) = prefix_steps ?nd @ vs"
    using prefix_steps_snoc [of ?nd ?cur] lastn ld unfolding dn vs_def by simp
  have all256: "\<forall>x \<in> set (map unat (xs :: bytes)). x < 256" for xs using unat_u8_less by auto
  have "\<forall>v \<in> set vs. v < 2 ^ bits"
    using step_small [of ?nd ?cur] all256 [of "?done @ [b ! i]"] lastn ld unfolding vs_def by simp
  then have chars: "table_chars enc vs = Inr (map ((!) enc) vs)" by (rule table_chars_ok)
  have tk: "take n b = take (Suc i) b @ drop (Suc i) (take n b)"
    using i by (metis append_take_drop_id min.absorb1 Suc_leI take_take)
  have whole: "map unat (data_bytes h p) = map unat (pre @ take (Suc i) b) @ map unat (drop (Suc i) (take n b) @ post)"
    by (subst reg(1), subst tk) simp
  have "length (prefix_steps (map unat (pre @ take (Suc i) b))) \<le> cap"
    using prefix_fits [of "map unat (pre @ take (Suc i) b)" "map unat (drop (Suc i) (take n b) @ post)"]
      all256 [of "data_bytes h p"] cap unfolding whole by simp
  then have "length out + length (map ((!) enc) vs) \<le> cap" using steps Suc.prems(5) by simp
  then have put: "put_bytes cap (map ((!) enc) vs) out =
      Inr (map of_nat (map ((!) enc) (prefix_steps (map unat (pre @ take (Suc i) b)))))"
    using put_bytes_ok steps Suc.prems(5) by simp
  have sp: "step ((length pre + i) mod bpg) lst ?cur = vs" by (simp add: vs_def)
  have cur: "byte_at b i = Inr ?cur" using i(3) by (simp add: byte_at_def)
  show ?case
    using Suc.IH [OF h2(2-4) i(2) refl] cur h2(1) sp chars put by simp
qed

lemma encode_ok:
  assumes inv: "data_inv h ext" "nonneg ext" and p: "objs h p = Some dd" and m: "\<And>n. malloc_ok h n"
    and small: "data_size dd < 2 ^ 48" and g64: "grp \<le> 64"
  shows "\<exists>h' q. basexx_encode bpg grp step tail enc h junk p = Inr (h', Some q) \<and>
    fresh_result h ext h' q (map of_nat (text_of (map unat (data_bytes h p)))) \<and>
    (\<exists>d. objs h' q = Some d \<and> dispatch_data_leaf d)"
proof -
  let ?regs = "data_regions h p" and ?N = "map unat (data_bytes h p)"
  have hok: "heap_ok h" by (rule data_invD(1) [OF inv(1)])
  have regs: "regions_at 0 ?regs" "concat (map region_bytes ?regs) = data_bytes h p"
    using data_regions_ok [OF hok p] by simp_all
  have len: "length (data_bytes h p) = data_size dd" by (rule length_data_bytes [OF hok p])
  have all256: "\<forall>x \<in> set (map unat (xs :: bytes)). x < 256" for xs using unat_u8_less by auto
  have how: "howmany (data_size dd) bpg = (data_size dd + (bpg - 1)) div bpg"
    using small sizes(5) by (simp add: howmany_def sz_add_def)
  define cap where "cap = (data_size dd + (bpg - 1)) div bpg * grp"
  have cap: "length (text_of ?N) = cap" using len by (simp add: length_text cap_def)
  have groups: "(data_size dd + (bpg - 1)) div bpg \<le> 2 ^ 49"
    using small sizes(5) by (intro le_trans [OF div_le_dividend]) simp
  then have capb: "cap \<le> 2 ^ 49 * 64" unfolding cap_def using g64 by (intro mult_mono) simp_all
  have fits: "\<not> (SIZE_LIMIT - 1) div grp < (data_size dd + (bpg - 1)) div bpg"
  proof -
    have "(SIZE_LIMIT - 1) div 64 \<le> (SIZE_LIMIT - 1) div grp" using g64 sizes(6) by (intro div_le_mono2) simp_all
    then show ?thesis using groups by simp
  qed
  define R where "R ds = concat (map region_bytes ds)" for ds :: "region list"
  define O' where "O' ds = (map of_nat (if ds = ?regs then text_of ?N
      else map ((!) enc) (prefix_steps (map unat (R ds)))) :: bytes)" for ds
  define I where "I ds h1 s \<longleftrightarrow> s = (length (R ds), O' ds) \<and> data_inv h1 ext \<and> heap_le h h1 \<and> malloc_ok h1 = malloc_ok h"
    for ds :: "region list" and h1 and s :: "nat \<times> bytes"
  have step: "\<exists>h2 s2 r. basexx_encode_applier bpg step tail enc cap junk p (data_size dd) h1 s1 q o' b n = Inr (h2, s2, r) \<and>
      (if r then I (ds @ [(q, o', b, n)]) h2 s2 else False)"
    if split: "?regs = ds @ (q, o', b, n) # rest" and i: "I ds h1 s1" for ds q o' b n rest h1 s1
  proof -
    let ?ds' = "ds @ [(q, o', b, n)]"
    have reg: "o' = length (R ds)" "0 < n" "n \<le> length b"
      using regs(1) regions_split unfolding split R_def by (metis add_0)+
    have whole: "data_bytes h p = R ds @ take n b @ R rest"
      unfolding regs(2) [symmetric] split R_def by simp
    have ne: "ds \<noteq> ?regs" using split by simp
    have s1: "s1 = (length (R ds), map of_nat (map ((!) enc) (prefix_steps (map unat (R ds)))))"
      "data_inv h1 ext" "heap_le h h1" "malloc_ok h1 = malloc_ok h"
      using i ne by (simp_all add: I_def O'_def)
    have s64: "data_size dd + 64 < SIZE_LIMIT" using small by simp
    have c: "length (text_of ?N) \<le> cap" using cap by simp
    obtain h2 where h2: "basexx_encode_loop bpg step enc cap junk p (length (R ds)) b 0 n h1 (length (R ds))
          (map of_nat (map ((!) enc) (prefix_steps (map unat (R ds))))) =
        Inr (h2, Some (length (R ds) + n, map of_nat (map ((!) enc) (prefix_steps (map unat (R ds @ take n b))))))"
      "data_inv h2 ext" "heap_le h h2" "malloc_ok h2 = malloc_ok h"
      using encode_loop_ok [OF inv p m s64 whole reg(3) c s1(2-4), of 0 n _ junk] by auto
    have R': "R ?ds' = R ds @ take n b" by (simp add: R_def)
    have lR: "length (R ?ds') = length (R ds) + n" using R' reg(3) by simp
    have ldd: "data_size dd = length (R ds) + n + length (R rest)" using whole len reg(3) by simp
    then have add: "sz_add o' n = length (R ds) + n" using small reg(1) by (simp add: sz_add_def)
    have rest0: "length (R rest) = 0 \<longleftrightarrow> rest = []"
    proof (cases rest)
      case (Cons x xs)
      obtain q2 o2 b2 n2 where x: "x = (q2, o2, b2, n2)" by (cases x)
      have "0 < n2 \<and> n2 \<le> length b2"
        using regions_split [of 0 "ds @ [(q, o', b, n)]" q2 o2 b2 n2 xs] regs(1) split Cons x by simp
      then show ?thesis using Cons x by (simp add: R_def)
    qed (simp add: R_def)
    show ?thesis
    proof (cases "rest = []")
      case False
      then have "sz_add o' n \<noteq> data_size dd" using add ldd rest0 by simp
      moreover have "?ds' \<noteq> ?regs" using split False by simp
      ultimately show ?thesis using h2 s1(1) reg(1) lR R'
        by (intro exI [of _ h2] exI [of _ "(length (R ds) + n, map of_nat (map ((!) enc) (prefix_steps (map unat (R ds @ take n b)))))"]
            exI [of _ True]) (simp add: basexx_encode_applier_def I_def O'_def)
    next
      case True
      then have all: "?ds' = ?regs" using split by simp
      have RN: "map unat (R ds @ take n b) = ?N" using whole True by (simp add: R_def)
      have tot: "sz_add o' n = data_size dd" using add ldd True by (simp add: R_def)
      have lst: "byte_at b (n - 1) = Inr (unat (b ! (n - 1)))" using reg by (simp add: byte_at_def)
      have "take n b \<noteq> []" using reg(2,3) by auto
      then have "last ?N = unat (last (take n b))" using RN [symmetric] by (simp add: last_map last_append)
      also have "last (take n b) = b ! (n - 1)"
        using reg(2,3) \<open>take n b \<noteq> []\<close> by (simp add: last_conv_nth min_absorb2)
      finally have last: "last ?N = unat (b ! (n - 1))" .
      define tl where "tl = tail_steps ?N"
      have tl: "tail ((length (R ds) + n) mod bpg) (unat (b ! (n - 1))) = tl"
        using last arg_cong [OF RN, of length] lR R' by (simp add: tl_def tail_steps_def)
      note st = steps_text [OF all256 [of "data_bytes h p"]]
      have chars: "table_chars enc (fst tl) = Inr (map ((!) enc) (fst tl))"
        using conjunct2 [OF st] by (intro table_chars_ok) (auto simp: tl_def)
      have tx: "map ((!) enc) (prefix_steps ?N) @ map ((!) enc) (fst tl) @ replicate (snd tl) 61 = text_of ?N"
        using conjunct1 [OF st] by (simp add: tl_def)
      have put: "put_bytes cap (map ((!) enc) (fst tl) @ replicate (snd tl) 61)
          (map of_nat (map ((!) enc) (prefix_steps ?N))) = Inr (map of_nat (text_of ?N))"
        using put_bytes_ok [of "map of_nat (map ((!) enc) (prefix_steps ?N))" "map ((!) enc) (fst tl) @ replicate (snd tl) 61" cap]
          arg_cong [OF tx, of length] cap arg_cong [OF tx, of "map (of_nat :: nat \<Rightarrow> u8)"] by simp
      obtain t1 t2 where t: "tl = (t1, t2)" by (cases tl)
      have run: "basexx_encode_applier bpg step tail enc cap junk p (data_size dd) h1 s1 q o' b n =
          Inr (h2, (length (R ds) + n, map of_nat (text_of ?N)), True)"
        using h2(1) s1(1) reg(1) tot lst tl chars put RN t
        by (simp add: basexx_encode_applier_def)
      have "I ?ds' h2 (length (R ds) + n, map of_nat (text_of ?N))"
        using h2(2-4) lR all by (simp add: I_def O'_def)
      with run show ?thesis by auto
    qed
  qed
  have I0: "I [] h (0, [])"
  proof -
    have "text_of ?N = []" if "?regs = []" using that regs(2) by (simp add: base_text.simps [of _ _ _ _ "[]"])
    then show ?thesis using inv(1) by (auto simp: I_def O'_def R_def prefix_steps_def)
  qed
  have view: "heap_ok h' \<and> same_view h h' p" if "I ds h' s'" for ds h' s'
    using that same_view_le [OF _ hok p] unfolding I_def by (auto simp: data_invD)
  have "\<exists>h' s' r. dispatch_data_apply h (0, []) p
      (basexx_encode_applier bpg step tail enc cap junk p (data_size dd)) = Inr (h', s', r) \<and>
      (if r then I ?regs h' s' else False)"
    by (rule apply_inv [where I = I and Q = "\<lambda>_ _. False", OF hok p I0 view step])
  then obtain h' where run: "dispatch_data_apply h (0, []) p
      (basexx_encode_applier bpg step tail enc cap junk p (data_size dd)) =
      Inr (h', (length (R ?regs), map of_nat (text_of ?N)), True)" "data_inv h' ext" "heap_le h h'" "malloc_ok h' = malloc_ok h"
    by (auto simp: I_def O'_def split: if_splits)
  have lo: "length (map of_nat (text_of ?N) :: bytes) = cap" using cap by simp
  have "cap + 64 < SIZE_LIMIT" using capb by simp
  from create_free_ok [OF run(2) _ this, of "map of_nat (text_of ?N)"] lo
  obtain h2 q where h2: "dispatch_data_create h' (Some (map of_nat (text_of ?N))) cap None DESTRUCTOR_FREE = Inr (h2, Some q)"
    "fresh_result h' ext h2 q (map of_nat (text_of ?N))" by auto
  have "fresh_result h ext h2 q (map of_nat (text_of ?N))"
    using h2(2) run(3,4) heap_le_trans [OF run(3)] by (simp add: fresh_result_def)
  moreover have capS: "(data_size dd + (bpg - Suc 0)) div bpg * grp = cap" by (simp add: cap_def)
  have "basexx_encode bpg grp step tail enc h junk p = Inr (h2, Some q)"
    unfolding basexx_encode_def
    using p fits m run(1) h2(1) lo capS
    by (simp add: dispatch_data_get_size_def how Let_def)
  moreover have "\<exists>d. objs h2 q = Some d \<and> dispatch_data_leaf d"
    by (rule create_free_leaf [OF h2(1) data_invD(1) [OF run(2)]])
  ultimately show ?thesis by blast
qed

lemma pads_last_leaf: "length rs \<le> 1 \<Longrightarrow> pads_last rs"
  by (auto simp: pads_last_def)

lemma no_spaces: "\<forall>b \<in> set bs. b < 256 \<Longrightarrow>
    filter (\<lambda>c. \<not> space_char c) (map of_nat (text_of bs)) = map of_nat (text_of bs)"
proof -
  assume b: "\<forall>b \<in> set bs. b < 256"
  obtain vps where v: "list_all2 stands_for (map of_nat (text_of bs)) vps"
    using text_digits [OF b] by (elim exE conjE) (rule that; assumption)
  have "\<forall>c \<in> set cs. \<not> space_char c" if "list_all2 stands_for cs vs" for cs vs
    using that
  proof (induction cs vs rule: list_all2_induct)
    case (Cons c cs vp vs)
    have "unat c \<noteq> 10 \<and> unat c \<noteq> 9 \<and> unat c \<noteq> 32"
      using Cons.hyps(1) tables by (auto simp: stands_for_def)
    then show ?case using Cons.IH by (auto simp: space_char_def)
  qed simp
  from this [OF v] show ?thesis by (simp add: filter_id_conv)
qed

text \<open>Encoding and decoding again.\<close>

lemma roundtrip_ok:
  assumes inv: "data_inv h ext" "nonneg ext" and p: "objs h p = Some dd" and m: "\<And>n. malloc_ok h n"
    and small: "data_size dd < 2 ^ 44" and g: "grp \<le> 8"
  shows "\<exists>h1 q h2 r. basexx_encode bpg grp step tail enc h junk p = Inr (h1, Some q) \<and>
    fresh_result h ext h1 q (map of_nat (text_of (map unat (data_bytes h p)))) \<and>
    basexx_decode (basexx_decode_applier bits grp shifts final dec dsize) h1 junk q = Inr (h2, Some r) \<and>
    fresh_result h1 (own ext q 1) h2 r (data_bytes h p)"
proof -
  let ?N = "map unat (data_bytes h p)"
  have len: "length (data_bytes h p) = data_size dd" by (rule length_data_bytes [OF data_invD(1) [OF inv(1)] p])
  have N: "\<forall>b \<in> set ?N. b < 256" using unat_u8_less by auto
  obtain h1 q d where e: "basexx_encode bpg grp step tail enc h junk p = Inr (h1, Some q)"
    "fresh_result h ext h1 q (map of_nat (text_of ?N))" "objs h1 q = Some d" "dispatch_data_leaf d"
    using encode_ok [OF inv p m, of junk] small g by auto
  have i1: "data_inv h1 (own ext q 1)" "malloc_ok h1 = malloc_ok h" "data_bytes h1 q = map of_nat (text_of ?N)"
    using e(2) by (simp_all add: fresh_result_def)
  have "length (text_of ?N) \<le> (data_size dd + 7) * 8"
  proof -
    have "(data_size dd + (bpg - 1)) div bpg \<le> data_size dd + 7"
      using sizes(5) by (intro le_trans [OF div_le_dividend]) simp
    then have "(data_size dd + (bpg - 1)) div bpg * grp \<le> (data_size dd + 7) * 8" using g by (rule mult_le_mono)
    then show ?thesis using len by (simp add: length_text)
  qed
  then have "data_size d < 2 ^ 48"
    using length_data_bytes [OF data_invD(1) [OF i1(1)] e(3)] i1(3) small by simp
  moreover have "pads_last (data_regions h1 q)"
    by (rule pads_last_leaf [OF leaf_one_region [OF data_invD(1) [OF i1(1)] e(3,4)]])
  moreover have "filter (\<lambda>c. \<not> space_char c) (data_bytes h1 q) = map of_nat (text_of ?N)"
    unfolding i1(3) by (rule no_spaces [OF N])
  ultimately obtain h2 r where "basexx_decode (basexx_decode_applier bits grp shifts final dec dsize) h1 junk q = Inr (h2, Some r)"
    "fresh_result h1 (own ext q 1) h2 r (map of_nat ?N)"
    using decode_ok [OF i1(1) nonneg_own [OF inv(2)] e(3) _ _ N, of junk] m i1(2) by auto
  moreover have "map of_nat ?N = data_bytes h p" by (simp add: comp_def)
  ultimately show ?thesis using e(1,2) by auto
qed

end

end
