(* ===== verification/Base_Instances.thy ===== *)
theory Base_Instances
  imports Base_Data
begin

text \<open>
  The steps, tails and tables of the base64, base32 and base32hex encoders of
  \<open>transform.c\<close> satisfy the interface \<open>base_codec\<close>.
\<close>

section \<open>The codecs of the code\<close>

lemma shift_mod:
  assumes "r < k"
  shows "(l * k + r) mod (k * m) = (l mod m) * k + (r :: nat)"
  using assms by (simp add: mod_mult2_eq)

lemma base64_steps:
  assumes "l < 256" "c < (256 :: nat)"
  shows "base64_step 0 l c = [c div 4]"
    "base64_step 1 l c = [(l mod 4) * 16 + c div 16]"
    "base64_step 2 l c = [(l mod 16) * 4 + c div 64, c mod 64]"
proof -
  have o: "or (push_bit 4 l) (drop_bit 4 c) = l * 16 + c div 16"
    "or (push_bit 2 l) (drop_bit 6 c) = l * 4 + c div 64"
    using or_shift [of "c div 16" 4 l] or_shift [of "c div 64" 2 l] assms
    by (simp_all add: drop_bit_eq_div)
  have m: "(l * 16 + c div 16) mod 64 = (l mod 4) * 16 + c div 16"
    "(l * 4 + c div 64) mod 64 = (l mod 16) * 4 + c div 64" "c div 4 mod 64 = c div 4"
    using shift_mod [of "c div 16" 16 l 4] shift_mod [of "c div 64" 4 l 16] assms
    by (simp_all add: less_mult_imp_div_less)
  show "base64_step 0 l c = [c div 4]"
    using m(3) by (simp add: base64_step_def and_mask_mod drop_bit_eq_div)
  show "base64_step 1 l c = [(l mod 4) * 16 + c div 16]"
    unfolding base64_step_def o m(1) [symmetric] by (simp add: and_mask_mod)
  show "base64_step 2 l c = [(l mod 16) * 4 + c div 64, c mod 64]"
    unfolding base64_step_def o m(2) [symmetric] by (simp add: and_mask_mod)
qed

lemma base64_tails:
  "base64_tail 1 l = ([(l mod 4) * 16], 2)" "base64_tail 2 l = ([(l mod 16) * 4], 1)"
proof -
  have "and (push_bit 4 l) 0x30 = (l mod 4) * 16" "and (push_bit 2 l) 0x3c = (l mod 16) * 4"
    using push_bit_and [of 4 l 3] push_bit_and [of 2 l 15] by (simp_all add: and_mask_mod push_bit_eq_mult)
  then show "base64_tail 1 l = ([(l mod 4) * 16], 2)" "base64_tail 2 l = ([(l mod 16) * 4], 1)"
    by (simp_all add: base64_tail_def)
qed

lemma base32_steps:
  assumes "l < 256" "c < (256 :: nat)"
  shows "base32_step 0 l c = [c div 8]"
    "base32_step 1 l c = [(l mod 8) * 4 + c div 64, c div 2 mod 32]"
    "base32_step 2 l c = [(l mod 2) * 16 + c div 16]"
    "base32_step 3 l c = [(l mod 16) * 2 + c div 128, c div 4 mod 32]"
    "base32_step 4 l c = [(l mod 4) * 8 + c div 32, c mod 32]"
proof -
  have o: "or (push_bit 2 l) (drop_bit 6 c) = l * 4 + c div 64"
    "or (push_bit 4 l) (drop_bit 4 c) = l * 16 + c div 16"
    "or (push_bit 1 l) (drop_bit 7 c) = l * 2 + c div 128"
    "or (push_bit 3 l) (drop_bit 5 c) = l * 8 + c div 32"
    using or_shift [of "c div 64" 2 l] or_shift [of "c div 16" 4 l] or_shift [of "c div 128" 1 l]
      or_shift [of "c div 32" 3 l] assms by (simp_all add: drop_bit_eq_div)
  have m: "(l * 4 + c div 64) mod 32 = (l mod 8) * 4 + c div 64"
    "(l * 16 + c div 16) mod 32 = (l mod 2) * 16 + c div 16"
    "(l * 2 + c div 128) mod 32 = (l mod 16) * 2 + c div 128"
    "(l * 8 + c div 32) mod 32 = (l mod 4) * 8 + c div 32" "c div 8 mod 32 = c div 8"
    using shift_mod [of "c div 64" 4 l 8] shift_mod [of "c div 16" 16 l 2] shift_mod [of "c div 128" 2 l 16]
      shift_mod [of "c div 32" 8 l 4] assms
    by (simp_all add: less_mult_imp_div_less)
  show "base32_step 0 l c = [c div 8]"
    using m(5) by (simp add: base32_step_def and_mask_mod drop_bit_eq_div)
  show "base32_step 1 l c = [(l mod 8) * 4 + c div 64, c div 2 mod 32]"
    unfolding base32_step_def o m(1) [symmetric] by (simp add: and_mask_mod drop_bit_eq_div)
  show "base32_step 2 l c = [(l mod 2) * 16 + c div 16]"
    unfolding base32_step_def o m(2) [symmetric] by (simp add: and_mask_mod)
  show "base32_step 3 l c = [(l mod 16) * 2 + c div 128, c div 4 mod 32]"
    unfolding base32_step_def o m(3) [symmetric] by (simp add: and_mask_mod drop_bit_eq_div)
  show "base32_step 4 l c = [(l mod 4) * 8 + c div 32, c mod 32]"
    unfolding base32_step_def o m(4) [symmetric] by (simp add: and_mask_mod)
qed

lemma base32_tails:
  "base32_tail 1 l = ([(l mod 8) * 4], 6)" "base32_tail 2 l = ([(l mod 2) * 16], 4)"
  "base32_tail 3 l = ([(l mod 16) * 2], 3)" "base32_tail 4 l = ([(l mod 4) * 8], 1)"
proof -
  have "and (push_bit 2 l) 0x1c = (l mod 8) * 4" "and (push_bit 4 l) 0x10 = (l mod 2) * 16"
    "and (push_bit 1 l) 0x1e = (l mod 16) * 2" "and (push_bit 3 l) 0x18 = (l mod 4) * 8"
    using push_bit_and [of 2 l 7] push_bit_and [of 4 l 1] push_bit_and [of 1 l 15] push_bit_and [of 3 l 3]
    by (simp_all add: and_mask_mod push_bit_eq_mult del: and_one_eq One_nat_def)
  then show "base32_tail 1 l = ([(l mod 8) * 4], 6)" "base32_tail 2 l = ([(l mod 2) * 16], 4)"
    "base32_tail 3 l = ([(l mod 16) * 2], 3)" "base32_tail 4 l = ([(l mod 4) * 8], 1)"
    by (simp_all add: base32_tail_def)
qed

lemma base64_tables:
  "list_all (\<lambda>v. v < length base64_encode_table \<and> base64_encode_table ! v < base64_decode_table_size \<and>
     base64_decode_table ! (base64_encode_table ! v) = int v \<and> base64_encode_table ! v \<notin> {10, 9, 32, 61}) [0..<64]"
  by code_simp

lemma base32_tables:
  "list_all (\<lambda>v. v < length base32_encode_table \<and> base32_encode_table ! v < base32_decode_table_size \<and>
     base32_decode_table ! (base32_encode_table ! v) = int v \<and> base32_encode_table ! v \<notin> {10, 9, 32, 61}) [0..<32]"
  by code_simp

lemma digitsI:
  assumes "\<forall>v \<in> set vs. v < b" "length vs = n" "num_of b vs = x"
  shows "vs = digits b n x"
  using digits_num_of [OF assms(1)] assms(2,3) by simp

lemma num_of_list:
  "num_of b [x] = x" "num_of b [x, y] = x * b + y" "num_of b [x, y, z] = (x * b + y) * b + z"
  "num_of b [x, y, z, u] = ((x * b + y) * b + z) * b + u"
  "num_of b [x, y, z, u, v] = (((x * b + y) * b + z) * b + u) * b + v"
  "num_of b [x, y, z, u, v, w, r, s] =
    ((((((x * b + y) * b + z) * b + u) * b + v) * b + w) * b + r) * b + s"
  by (simp_all add: num_of_def)

lemma group_steps_list:
  "group_steps step [a] = step 0 0 a"
  "group_steps step [a, b] = step 0 0 a @ step 1 a b"
  "group_steps step [a, b, c] = step 0 0 a @ step 1 a b @ step 2 b c"
  "group_steps step [a, b, c, d] = step 0 0 a @ step 1 a b @ step 2 b c @ step 3 c d"
  "group_steps step [a, b, c, d, e] = step 0 0 a @ step 1 a b @ step 2 b c @ step 3 c d @ step 4 d e"
  by (simp_all add: group_steps_def upt_rec numeral_2_eq_2 numeral_3_eq_3 eval_nat_numeral)

lemma length_cases:
  "length bs = 3 \<Longrightarrow> \<exists>a b c. bs = [a, b, c]" "length bs = 5 \<Longrightarrow> \<exists>a b c d e. bs = [a, b, c, d, e]"
  "length bs = 1 \<Longrightarrow> \<exists>a. bs = [a]" "length bs = 2 \<Longrightarrow> \<exists>a b. bs = [a, b]"
  "length bs = 4 \<Longrightarrow> \<exists>a b c d. bs = [a, b, c, d]"
  by (auto simp: eval_nat_numeral length_Suc_conv)

lemma pair_less:
  assumes "x < k" "y < m"
  shows "x * m + y < k * (m :: nat)"
proof -
  have "(x + 1) * m \<le> k * m" using assms(1) by (intro mult_right_mono) simp_all
  then show ?thesis using assms(2) by simp
qed

lemma base64_linear:
  "((p0 * 64 + (q0 * 16 + p1)) * 64 + (q1 * 4 + p2)) * 64 + q2 =
    ((p0 * 4 + q0) * 256 + (p1 * 16 + q1)) * 256 + (p2 * 64 + (q2 :: nat))"
  by (simp add: algebra_simps)

lemma base32_linear:
  "((((((a0 * 32 + (a1 * 4 + b0)) * 32 + b1) * 32 + (b2 * 16 + c0)) * 32 + (c1 * 2 + d0)) * 32 + d1) * 32 +
      (d2 * 8 + e0)) * 32 + e1 =
    ((((a0 * 8 + a1) * 256 + ((b0 * 32 + b1) * 2 + b2)) * 256 + (c0 * 16 + c1)) * 256 +
      ((d0 * 32 + d1) * 4 + d2)) * 256 + (e0 * 32 + (e1 :: nat))"
  by (simp add: algebra_simps)

lemma base64_group:
  fixes a b c :: nat
  assumes "a < 256" "b < 256" "c < 256"
  shows "digits 64 4 (num_of 256 [a, b, c]) =
    [a div 4, (a mod 4) * 16 + b div 16, (b mod 16) * 4 + c div 64, c mod 64]"
proof (rule digitsI [symmetric])
  have s: "a div 4 < 64" "b div 16 < 16" "c div 64 < 4" "a mod 4 < 4" "b mod 16 < 16" "c mod 64 < 64"
    using assms by (simp_all add: less_mult_imp_div_less)
  show "\<forall>v \<in> set [a div 4, (a mod 4) * 16 + b div 16, (b mod 16) * 4 + c div 64, c mod 64]. v < 64"
    using s(1,6) pair_less [OF s(4,2)] pair_less [OF s(5,3)] by simp
  show "num_of 64 [a div 4, (a mod 4) * 16 + b div 16, (b mod 16) * 4 + c div 64, c mod 64] =
      num_of 256 [a, b, c]"
    using base64_linear [of "a div 4" "a mod 4" "b div 16" "b mod 16" "c div 64" "c mod 64"]
    unfolding num_of_list div_mult_mod_eq .
qed simp

lemma base32_group:
  fixes a b c d e :: nat
  assumes "a < 256" "b < 256" "c < 256" "d < 256" "e < 256"
  shows "digits 32 8 (num_of 256 [a, b, c, d, e]) =
    [a div 8, (a mod 8) * 4 + b div 64, b div 2 mod 32, (b mod 2) * 16 + c div 16,
     (c mod 16) * 2 + d div 128, d div 4 mod 32, (d mod 4) * 8 + e div 32, e mod 32]" (is "_ = ?vs")
proof (rule digitsI [symmetric])
  have s: "a div 8 < 32" "b div 64 < 4" "c div 16 < 16" "d div 128 < 2" "e div 32 < 8"
    "a mod 8 < 8" "b div 2 mod 32 < 32" "b mod 2 < 2" "c mod 16 < 16" "d div 4 mod 32 < 32" "d mod 4 < 4" "e mod 32 < 32"
    using assms by (simp_all add: less_mult_imp_div_less)
  show "\<forall>v \<in> set ?vs. v < 32"
    unfolding list.set ball_simps
    using s(1,7,10,12) pair_less [OF s(6,2)] pair_less [OF s(8,3)] pair_less [OF s(9,4)] pair_less [OF s(11,5)]
    by (intro conjI TrueI; linarith)
  have ee: "b div 64 = b div 2 div 32" "d div 128 = d div 4 div 32" by (simp_all add: div_mult2_eq [symmetric])
  show "num_of 32 ?vs = num_of 256 [a, b, c, d, e]"
    using base32_linear [of "a div 8" "a mod 8" "b div 2 div 32" "b div 2 mod 32" "b mod 2" "c div 16" "c mod 16"
        "d div 4 div 32" "d div 4 mod 32" "d mod 4" "e div 32" "e mod 32"]
    unfolding num_of_list ee div_mult_mod_eq .
qed simp

lemma zeros: "replicate 2 0 = [0, 0 :: nat]" "replicate 3 0 = [0, 0, 0 :: nat]" "replicate 4 0 = [0, 0, 0, 0 :: nat]"
  "replicate 6 0 = [0, 0, 0, 0, 0, 0 :: nat]"
  by (simp_all add: eval_nat_numeral)

lemma base64_digits:
  "group_digits 6 4 3 [a] = digits 64 4 (num_of 256 [a, 0, 0])"
  "group_digits 6 4 3 [a, b] = digits 64 4 (num_of 256 [a, b, 0])"
  by (simp_all add: group_digits_def zeros)

lemma base32_digits:
  "group_digits 5 8 5 [a] = digits 32 8 (num_of 256 [a, 0, 0, 0, 0])"
  "group_digits 5 8 5 [a, b] = digits 32 8 (num_of 256 [a, b, 0, 0, 0])"
  "group_digits 5 8 5 [a, b, c] = digits 32 8 (num_of 256 [a, b, c, 0, 0])"
  "group_digits 5 8 5 [a, b, c, d] = digits 32 8 (num_of 256 [a, b, c, d, 0])"
  by (simp_all add: group_digits_def zeros)

lemma base64_part:
  assumes "0 < length bs" "length bs < 3" "\<forall>b \<in> set bs. b < 256"
  shows "group_steps base64_step bs @ fst (base64_tail (length bs) (last bs)) @
      replicate (snd (base64_tail (length bs) (last bs))) 0 = group_digits 6 4 3 bs \<and>
    length (group_steps base64_step bs @ fst (base64_tail (length bs) (last bs))) = (8 * length bs + 6 - 1) div 6 \<and>
    base64_final (snd (base64_tail (length bs) (last bs))) = 3 - length bs"
proof -
  have "length bs = 1 \<or> length bs = 2" using assms by linarith
  then show ?thesis
  proof
    assume "length bs = 1"
    then obtain a where a: "bs = [a]" using length_cases(3) by metis
    then have "a < 256" using assms(3) by simp
    then have "group_steps base64_step [a] = [a div 4]" "base64_tail (length [a]) (last [a]) = ([(a mod 4) * 16], 2)"
      "group_digits 6 4 3 [a] = [a div 4, (a mod 4) * 16, 0, 0]"
      using base64_steps(1) [of 0 a] base64_tails(1) [of a] base64_group [of a 0 0]
      by (simp_all add: group_steps_list base64_digits)
    then show ?thesis unfolding a by (simp add: base64_final_def zeros)
  next
    assume "length bs = 2"
    then obtain a b where a: "bs = [a, b]" using length_cases(4) by metis
    then have "a < 256" "b < 256" using assms(3) by simp_all
    then have "group_steps base64_step [a, b] = [a div 4, (a mod 4) * 16 + b div 16]"
      "base64_tail (length [a, b]) (last [a, b]) = ([(b mod 16) * 4], 1)"
      "group_digits 6 4 3 [a, b] = [a div 4, (a mod 4) * 16 + b div 16, (b mod 16) * 4, 0]"
      using base64_steps(1) [of 0 a] base64_steps(2) [of a b] base64_tails(2) [of b] base64_group [of a b 0]
      by (simp_all add: group_steps_list base64_digits numeral_2_eq_2)
    then show ?thesis unfolding a by (simp add: base64_final_def)
  qed
qed

interpretation base64: base_codec 6 4 3 base64_step base64_tail base64_encode_table base64_decode_table
    base64_decode_table_size "[16, 8, 0]" base64_final
proof
  show "map (\<lambda>s. and (drop_bit s x) 0xff) [16, 8, 0] = digits 256 3 x" for x :: nat
    by (simp add: numeral_3_eq_3 and_mask_mod drop_bit_eq_div div_mult2_eq [symmetric])
  show "and n (4 - 1) = n mod 4" for n :: nat by (simp add: and_mask_mod)
  show "group_steps base64_step bs = digits (2 ^ 6) 4 (num_of 256 bs)"
    if len: "length bs = 3" and b: "\<forall>b \<in> set bs. b < 256" for bs
  proof -
    obtain x y z where "bs = [x, y, z]" using length_cases(1) [OF len] by blast
    then show ?thesis
      using b base64_steps(1) [of 0 x] base64_steps(2) [of x y] base64_steps(3) [of y z] base64_group [of x y z]
      by (simp add: group_steps_list)
  qed
  show "v < length base64_encode_table \<and> base64_encode_table ! v < base64_decode_table_size \<and>
      base64_decode_table ! (base64_encode_table ! v) = int v \<and> base64_encode_table ! v \<noteq> 10 \<and>
      base64_encode_table ! v \<noteq> 9 \<and> base64_encode_table ! v \<noteq> 32 \<and> base64_encode_table ! v \<noteq> 61"
    if "v < 2 ^ 6" for v using base64_tables that by (simp add: list_all_iff)
  show "base64_decode_table ! 61 = - 2" "61 < base64_decode_table_size" "base64_decode_table_size \<le> 256"
    "base64_decode_table_size \<le> length base64_decode_table"
    by code_simp+
qed (use base64_part in \<open>simp_all add: base64_tail_def base64_final_def\<close>)

lemma base32_part:
  assumes "0 < length bs" "length bs < 5" "\<forall>b \<in> set bs. b < 256"
  shows "group_steps base32_step bs @ fst (base32_tail (length bs) (last bs)) @
      replicate (snd (base32_tail (length bs) (last bs))) 0 = group_digits 5 8 5 bs \<and>
    length (group_steps base32_step bs @ fst (base32_tail (length bs) (last bs))) = (8 * length bs + 5 - 1) div 5 \<and>
    base32_final (snd (base32_tail (length bs) (last bs))) = 5 - length bs"
proof -
  consider "length bs = 1" | "length bs = 2" | "length bs = 3" | "length bs = 4" using assms by linarith
  then show ?thesis
  proof cases
    case 1
    then obtain a where a: "bs = [a]" using length_cases(3) by metis
    then have "a < 256" using assms(3) by simp
    then have "group_steps base32_step [a] = [a div 8]"
      "base32_tail (length [a]) (last [a]) = ([(a mod 8) * 4], 6)"
      "group_digits 5 8 5 [a] = [a div 8, (a mod 8) * 4, 0, 0, 0, 0, 0, 0]"
      using base32_steps(1) [of 0 a] base32_tails(1) [of a] base32_group [of a 0 0 0 0]
      by (simp_all add: group_steps_list base32_digits)
    then show ?thesis unfolding a by (simp add: base32_final_def zeros)
  next
    case 2
    then obtain a b where a: "bs = [a, b]" using length_cases(4) by metis
    then have "a < 256" "b < 256" using assms(3) by simp_all
    then have "group_steps base32_step [a, b] = [a div 8, (a mod 8) * 4 + b div 64, b div 2 mod 32]"
      "base32_tail (length [a, b]) (last [a, b]) = ([(b mod 2) * 16], 4)"
      "group_digits 5 8 5 [a, b] = [a div 8, (a mod 8) * 4 + b div 64, b div 2 mod 32, (b mod 2) * 16, 0, 0, 0, 0]"
      using base32_steps(1) [of 0 a] base32_steps(2) [of a b] base32_tails(2) [of b] base32_group [of a b 0 0 0]
      by (simp_all add: group_steps_list base32_digits numeral_2_eq_2)
    then show ?thesis unfolding a by (simp add: base32_final_def zeros)
  next
    case 3
    then obtain a b c where a: "bs = [a, b, c]" using length_cases(1) by metis
    then have "a < 256" "b < 256" "c < 256" using assms(3) by simp_all
    then have "group_steps base32_step [a, b, c] =
        [a div 8, (a mod 8) * 4 + b div 64, b div 2 mod 32, (b mod 2) * 16 + c div 16]"
      "base32_tail (length [a, b, c]) (last [a, b, c]) = ([(c mod 16) * 2], 3)"
      "group_digits 5 8 5 [a, b, c] =
        [a div 8, (a mod 8) * 4 + b div 64, b div 2 mod 32, (b mod 2) * 16 + c div 16, (c mod 16) * 2, 0, 0, 0]"
      using base32_steps(1) [of 0 a] base32_steps(2) [of a b] base32_steps(3) [of b c] base32_tails(3) [of c]
        base32_group [of a b c 0 0]
      by (simp_all add: group_steps_list base32_digits numeral_3_eq_3)
    then show ?thesis unfolding a by (simp add: base32_final_def zeros)
  next
    case 4
    then obtain a b c d where a: "bs = [a, b, c, d]" using length_cases(5) by metis
    then have abcd: "a < 256" "b < 256" "c < 256" "d < 256" using assms(3) by simp_all
    have len4: "length [a, b, c, d] = 4" by simp
    from abcd have "group_steps base32_step [a, b, c, d] =
        [a div 8, (a mod 8) * 4 + b div 64, b div 2 mod 32, (b mod 2) * 16 + c div 16,
         (c mod 16) * 2 + d div 128, d div 4 mod 32]"
      "base32_tail (length [a, b, c, d]) (last [a, b, c, d]) = ([(d mod 4) * 8], 1)"
      "group_digits 5 8 5 [a, b, c, d] =
        [a div 8, (a mod 8) * 4 + b div 64, b div 2 mod 32, (b mod 2) * 16 + c div 16,
         (c mod 16) * 2 + d div 128, d div 4 mod 32, (d mod 4) * 8, 0]"
      using base32_steps(1) [of 0 a] base32_steps(2) [of a b] base32_steps(3) [of b c] base32_steps(4) [of c d]
        base32_tails(4) [of d] base32_group [of a b c d 0] len4
      by (simp_all add: group_steps_list base32_digits del: list.size)
    then show ?thesis unfolding a by (simp add: base32_final_def)
  qed
qed

interpretation base32: base_codec 5 8 5 base32_step base32_tail base32_encode_table base32_decode_table
    base32_decode_table_size "[32, 24, 16, 8, 0]" base32_final
proof
  show "map (\<lambda>s. and (drop_bit s x) 0xff) [32, 24, 16, 8, 0] = digits 256 5 x" for x :: nat
  proof -
    have five: "(5 :: nat) = Suc (Suc (Suc (Suc (Suc 0))))" by simp
    show ?thesis unfolding five by (simp add: and_mask_mod drop_bit_eq_div div_mult2_eq [symmetric])
  qed
  show "and n (8 - 1) = n mod 8" for n :: nat by (simp add: and_mask_mod)
  show "group_steps base32_step bs = digits (2 ^ 5) 8 (num_of 256 bs)"
    if len: "length bs = 5" and b: "\<forall>b \<in> set bs. b < 256" for bs
  proof -
    obtain x y z u v where bs: "bs = [x, y, z, u, v]" using length_cases(2) [OF len] by blast
    then have "x < 256" "y < 256" "z < 256" "u < 256" "v < 256" using b by simp_all
    then show ?thesis
      using base32_steps(1) [of 0 x] base32_steps(2) [of x y] base32_steps(3) [of y z] base32_steps(4) [of z u]
        base32_steps(5) [of u v] base32_group [of x y z u v]
      by (simp add: bs group_steps_list)
  qed
  show "v < length base32_encode_table \<and> base32_encode_table ! v < base32_decode_table_size \<and>
      base32_decode_table ! (base32_encode_table ! v) = int v \<and> base32_encode_table ! v \<noteq> 10 \<and>
      base32_encode_table ! v \<noteq> 9 \<and> base32_encode_table ! v \<noteq> 32 \<and> base32_encode_table ! v \<noteq> 61"
    if "v < 2 ^ 5" for v using base32_tables that by (simp add: list_all_iff)
  show "base32_decode_table ! 61 = - 2" "61 < base32_decode_table_size" "base32_decode_table_size \<le> 256"
    "base32_decode_table_size \<le> length base32_decode_table"
    by code_simp+
qed (use base32_part in \<open>simp_all add: base32_tail_def base32_final_def\<close>)

text \<open>
  The base32hex tables would do as well, with the size of the decode table in place of the one
  the code gives; the encoder does not depend on it.
\<close>

lemma base32hex_tables:
  "list_all (\<lambda>v. v < length base32hex_encode_table \<and> base32hex_encode_table ! v < length base32hex_decode_table \<and>
     base32hex_decode_table ! (base32hex_encode_table ! v) = int v \<and> base32hex_encode_table ! v \<notin> {10, 9, 32, 61}) [0..<32]"
  by code_simp

interpretation base32hex: base_codec 5 8 5 base32_step base32_tail base32hex_encode_table base32hex_decode_table
    "length base32hex_decode_table" "[32, 24, 16, 8, 0]" base32_final
proof
  show "v < length base32hex_encode_table \<and> base32hex_encode_table ! v < length base32hex_decode_table \<and>
      base32hex_decode_table ! (base32hex_encode_table ! v) = int v \<and> base32hex_encode_table ! v \<noteq> 10 \<and>
      base32hex_encode_table ! v \<noteq> 9 \<and> base32hex_encode_table ! v \<noteq> 32 \<and> base32hex_encode_table ! v \<noteq> 61"
    if "v < 2 ^ 5" for v using base32hex_tables that by (simp add: list_all_iff)
  show "base32hex_decode_table ! 61 = - 2" "61 < length base32hex_decode_table" "length base32hex_decode_table \<le> 256"
    by code_simp+
qed (use base32.grp_mask base32.shifts_digits base32.whole_group base32.part_group base32.no_tail in simp_all)

end
