(* ===== verification/Data_Properties.thy ===== *)
theory Data_Properties
  imports Data_Ops
begin

text \<open>
  What the operations on data objects promise to their callers, stated on the heap of
  \<open>Dispatch_Data\<close> and the invariant \<open>data_inv\<close>: the bytes of the result, the
  references it holds, that every other object is untouched, that nothing leaks.
\<close>

section \<open>A sample heap\<close>

text \<open>Two leaves, of three and two bytes, and a composite object over the ends of both.\<close>

definition sample_heap :: heap where
  "sample_heap = \<lparr>objs = [
      0 \<mapsto> buffer_obj [] 0 None DESTRUCTOR_NONE,
      5 \<mapsto> (buffer_obj [1, 2, 3] 3 None DESTRUCTOR_FREE)\<lparr>do_ref_cnt := 2\<rparr>,
      2 \<mapsto> buffer_obj [4, 5] 2 (Some 7) (DESTRUCTOR_BLOCK 9),
      3 \<mapsto> (blank_obj 2)\<lparr>data_size := 4, records :=
        [\<lparr>data_object = 5, rr_from = 1, rr_length = 2\<rparr>,
         \<lparr>data_object = 2, rr_from = 0, rr_length = 2\<rparr>]\<rparr>],
    fresh = 6, events = [], malloc_ok = (\<lambda>_. True)\<rparr>"

definition sample_owners :: owners where
  "sample_owners = (\<lambda>_. 0)(5 := 1, 3 := 1)"

lemmas sample_simps = sample_heap_def sample_owners_def buffer_obj_def blank_obj_def
  dispatch_data_leaf_def

lemma sample_objs:
  "objs sample_heap 5 = Some ((buffer_obj [1, 2, 3] 3 None DESTRUCTOR_FREE)\<lparr>do_ref_cnt := 2\<rparr>)"
  "objs sample_heap 2 = Some (buffer_obj [4, 5] 2 (Some 7) (DESTRUCTOR_BLOCK 9))"
  "objs sample_heap 3 = Some ((blank_obj 2)\<lparr>data_size := 4, records :=
        [\<lparr>data_object = 5, rr_from = 1, rr_length = 2\<rparr>,
         \<lparr>data_object = 2, rr_from = 0, rr_length = 2\<rparr>]\<rparr>)"
  "malloc_ok sample_heap n"
  by (simp_all add: sample_heap_def)

lemma sample_bytes:
  "data_bytes sample_heap 5 = [1, 2, 3]" "data_bytes sample_heap 2 = [4, 5]"
  "data_bytes sample_heap 3 = [2, 3, 4, 5]"
  by (simp_all add: data_bytes_def sample_objs obj_bytes_def leaf_bytes_def record_bytes_def
      buffer_obj_def blank_obj_def dispatch_data_leaf_def)

lemma sample_cases:
  "objs sample_heap p = Some dd \<Longrightarrow> p = 0 \<or> p = 5 \<or> p = 2 \<or> p = 3"
  by (auto simp: sample_heap_def split: if_splits)

lemma sample_inv: "data_inv sample_heap sample_owners"
proof -
  have "heap_ok sample_heap"
    unfolding heap_ok_def
  proof (intro conjI allI impI)
    show "empty_obj_ok sample_heap" by (simp add: empty_obj_ok_def sample_simps)
    fix p dd assume p: "objs sample_heap p = Some dd"
    show "p < fresh sample_heap" using sample_cases [OF p] by (auto simp: sample_heap_def)
    show "obj_ok sample_heap dd"
      using sample_cases [OF p] p
      by (auto simp: obj_ok_def sample_simps leaf_ok_def record_ok_def)
  qed
  moreover have "counts_ok sample_heap sample_owners"
  proof (rule counts_okI)
    fix p :: nat and dd assume p: "p \<noteq> 0" "objs sample_heap p = Some dd"
    show "int (do_ref_cnt dd) = int (in_refs sample_heap p) + sample_owners p \<and> 0 < do_ref_cnt dd"
      using sample_cases [OF p(2)] p
      by (auto simp: sample_simps in_refs_def objrefs_def lessThan_nat_numeral lessThan_Suc)
  qed (auto simp: sample_heap_def sample_owners_def split: if_splits)
  ultimately show ?thesis by (simp add: data_inv_def)
qed

section \<open>Constructors\<close>

text \<open>A data object created from a buffer of the client stands for the first \<open>size\<close>
  bytes of the buffer, for every destructor; the caller gets one reference, the target queue
  one retain, and no other object changes.\<close>

theorem create_stands_for_buffer:
  assumes "data_inv h ext" "0 < sz" "sz \<le> length b" "sz + 64 < SIZE_LIMIT"
    and "d = DESTRUCTOR_DEFAULT \<Longrightarrow> malloc_ok h sz"
  shows "\<exists>h' p. dispatch_data_create h (Some b) sz q d = Inr (h', Some p) \<and>
    fresh_result h ext h' p (take sz b) \<and> events h' = queue_events q @ events h"
  using assms by (rule create_ok)

lemma create_stands_for_buffer_witness:
  "\<exists>h' p. dispatch_data_create sample_heap (Some [7, 8, 9]) 2 (Some 5) DESTRUCTOR_DEFAULT =
      Inr (h', Some p) \<and> fresh_result sample_heap sample_owners h' p (take 2 [7, 8, 9]) \<and>
      events h' = queue_events (Some 5) @ events sample_heap"
  by (rule create_stands_for_buffer [OF sample_inv]) (simp_all add: sample_objs)

text \<open>C3: The concatenation of two live objects stands for the bytes of the first followed by
  those of the second, with the leaves of both retained, as long as the sizes fit.\<close>

theorem concat_appends:
  assumes "data_inv h ext" "objs h p1 = Some dd1" "objs h p2 = Some dd2"
    and "data_size dd1 + data_size dd2 < SIZE_LIMIT"
    and "(dispatch_data_num_records dd1 + dispatch_data_num_records dd2) * 24 + 64 < SIZE_LIMIT"
  shows "\<exists>h' p. dispatch_data_create_concat h p1 p2 = Inr (h', Some p) \<and>
    fresh_result h ext h' p (data_bytes h p1 @ data_bytes h p2) \<and> events h' = events h"
  using assms by (rule create_concat_ok)

lemma concat_appends_witness:
  "\<exists>h' p. dispatch_data_create_concat sample_heap 3 5 = Inr (h', Some p) \<and>
    fresh_result sample_heap sample_owners h' p
      (data_bytes sample_heap 3 @ data_bytes sample_heap 5) \<and> events h' = events sample_heap"
  by (rule concat_appends [OF sample_inv sample_objs(3,1)])
    (simp_all add: buffer_obj_def blank_obj_def dispatch_data_num_records_def)

text \<open>C4: The subrange of a live object at any offset and of any length stands for the bytes of
  the object in that range, cut at its end: no record loop runs past the records, no
  arithmetic on sizes wraps, and two levels of recursion are enough.\<close>

theorem subrange_takes_range:
  assumes "data_inv h ext" "objs h p = Some dd"
  shows "\<exists>h' q. dispatch_data_create_subrange h p offset len = Inr (h', Some q) \<and>
    fresh_result h ext h' q (take len (drop offset (data_bytes h p))) \<and> events h' = events h"
  using assms by (rule subrange_ok)

lemma subrange_takes_range_witness:
  "\<exists>h' q. dispatch_data_create_subrange sample_heap 3 1 2 = Inr (h', Some q) \<and>
    fresh_result sample_heap sample_owners h' q (take 2 (drop 1 (data_bytes sample_heap 3))) \<and>
    events h' = events sample_heap"
  by (rule subrange_takes_range [OF sample_inv sample_objs(3)])

section \<open>Readers\<close>

text \<open>C5: Applying a function to an object calls it on consecutive regions, from offset 0, each
  with a pointer to as many bytes as it says, that together are the bytes of the object, and
  stops at the first call that answers false.\<close>

theorem apply_visits_regions:
  assumes "applier_ok applier" "heap_ok h" "objs h p = Some dd"
  shows "dispatch_data_apply h s p applier = run_applier applier h s (data_regions h p) \<and>
    regions_at 0 (data_regions h p) \<and>
    concat (map region_bytes (data_regions h p)) = data_bytes h p"
  using apply_run [OF assms] data_regions_ok [OF assms(2,3)] by simp

lemma apply_visits_regions_witness:
  "dispatch_data_apply sample_heap (0 :: nat) 3 (\<lambda>h s q off b n. Inr (h, s + n, n < 3)) =
     run_applier (\<lambda>h s q off b n. Inr (h, s + n, n < 3)) sample_heap 0 (data_regions sample_heap 3) \<and>
   regions_at 0 (data_regions sample_heap 3) \<and>
   concat (map region_bytes (data_regions sample_heap 3)) = data_bytes sample_heap 3"
  by (rule apply_visits_regions [OF _ data_invD(1) [OF sample_inv] sample_objs(3)])
    (simp add: applier_ok_def)



text \<open>The flat bytes cached in a composite object are its bytes, and caching them keeps the
  invariant and the bytes of every object, whether this thread or another one published
  them.\<close>

theorem flattened_bytes_cached:
  assumes "data_inv h ext" "objs h p = Some dd" "data_size dd \<noteq> 0"
    and "malloc_ok h (data_size dd)" "other = None \<or> other = Some (data_bytes h p)"
  shows "\<exists>h' b. dispatch_data_get_flattened_bytes_4libxpc h junk other p = Inr (h', Some b) \<and>
    take (data_size dd) b = data_bytes h p \<and> data_inv h' ext \<and>
    (\<forall>q. data_bytes h' q = data_bytes h q)"
  using assms by (rule flattened_ok)

lemma flattened_bytes_cached_witness:
  "\<exists>h' b. dispatch_data_get_flattened_bytes_4libxpc sample_heap 0 (Some [2, 3, 4, 5]) 3 =
      Inr (h', Some b) \<and> take 4 b = data_bytes sample_heap 3 \<and> data_inv h' sample_owners \<and>
    (\<forall>q. data_bytes h' q = data_bytes sample_heap q)"
  using flattened_bytes_cached [OF sample_inv sample_objs(3) _ sample_objs(4),
      of "Some [2, 3, 4, 5]" 0]
  by (simp add: sample_bytes)

text \<open>Copying the region at a location gives an object that stands for a range of the bytes
  that contains the location, and the offset of that range.\<close>

theorem copy_region_contains_location:
  assumes "data_inv h ext" "objs h p = Some dd" "location < data_size dd"
  shows "\<exists>h' q off n. dispatch_data_copy_region h p location = Inr (h', q, off) \<and>
    fresh_result h ext h' q (take n (drop off (data_bytes h p))) \<and>
    off \<le> location \<and> location < off + n \<and> off + n \<le> data_size dd"
  using assms by (rule copy_region_ok)

lemma copy_region_contains_location_witness:
  "\<exists>h' q off n. dispatch_data_copy_region sample_heap 3 2 = Inr (h', q, off) \<and>
    fresh_result sample_heap sample_owners h' q (take n (drop off (data_bytes sample_heap 3))) \<and>
    off \<le> 2 \<and> 2 < off + n \<and> off + n \<le> 4"
  using copy_region_contains_location [OF sample_inv sample_objs(3), of 2] by simp

section \<open>Releases and leaks\<close>

text \<open>C7: Releasing a reference that its owner holds never touches a freed object, keeps the
  invariant with one reference less, and leaves every object that survives unchanged but for
  its count.\<close>

theorem release_keeps_invariant:
  assumes "data_inv h ext" "1 \<le> ext p" "\<forall>q. 0 \<le> ext q"
  shows "\<exists>h'. dispatch_data_release h p = Inr h' \<and> data_inv h' (own ext p (- 1)) \<and> released h h'"
  using data_release_ok [OF assms(1) _ assms(3), of p] assms(2) by blast

lemma release_keeps_invariant_witness:
  "\<exists>h'. dispatch_data_release sample_heap 3 = Inr h' \<and>
    data_inv h' (own sample_owners 3 (- 1)) \<and> released sample_heap h'"
  by (rule release_keeps_invariant [OF sample_inv]) (simp_all add: sample_owners_def)




end
