(* ===== verification/Transform_Properties.thy ===== *)
theory Transform_Properties
  imports Base_Instances Data_Properties
begin

text \<open>
  What the base encodings of data objects promise: the text is that of the reference, decoding
  gives the bytes back for objects of any number of regions, and the two places where the code
  does not: the base32hex decoder, and padding that is split over regions.
\<close>

section \<open>Encoding and decoding\<close>

lemma sample_nonneg: "nonneg sample_owners"
  by (simp add: nonneg_def sample_owners_def)

lemma sample_size: "objs sample_heap 3 = Some dd \<Longrightarrow> data_size dd = 4"
  by (auto simp: sample_objs blank_obj_def)

text \<open>C15: \<open>_dispatch_transform_to_base64\<close> of any live object, of one region or many, answers with
  an object that stands for the base64 text of its bytes, and
  \<open>_dispatch_transform_from_base64\<close> of that text with one that stands for the bytes again. No
  buffer is overrun on the way, nothing but the results is left behind.\<close>

theorem base64_roundtrip:
  assumes "data_inv h ext" "nonneg ext" "objs h p = Some dd" "\<And>n. malloc_ok h n" "data_size dd < 2 ^ 44"
  shows "\<exists>h1 q h2 r. dispatch_transform_to_base64 h junk p = Inr (h1, Some q) \<and>
    fresh_result h ext h1 q (map of_nat (base_text 6 4 3 base64_encode_table (map unat (data_bytes h p)))) \<and>
    dispatch_transform_from_base64 h1 junk q = Inr (h2, Some r) \<and>
    fresh_result h1 (own ext q 1) h2 r (data_bytes h p)"
  unfolding dispatch_transform_to_base64_def dispatch_transform_from_base64_def
  using base64.roundtrip_ok [OF assms] by simp

theorem base64_roundtrip_witness:
  "\<exists>h1 q h2 r. dispatch_transform_to_base64 sample_heap 0 3 = Inr (h1, Some q) \<and>
    dispatch_transform_from_base64 h1 0 q = Inr (h2, Some r) \<and> data_bytes h2 r = [2, 3, 4, 5]"
proof -
  obtain dd where dd: "objs sample_heap 3 = Some dd" using sample_objs(3) by blast
  have small: "data_size dd < 2 ^ 44" using sample_size [OF dd] by simp
  show ?thesis
    using base64_roundtrip [OF sample_inv sample_nonneg dd sample_objs(4) small, of 0]
    by (auto simp: fresh_result_def sample_bytes)
qed

text \<open>C16: The same for base32: the text of \<open>_dispatch_transform_to_base32\<close> is that of the
  reference and \<open>_dispatch_transform_from_base32\<close> takes it back to the bytes.\<close>

theorem base32_roundtrip:
  assumes "data_inv h ext" "nonneg ext" "objs h p = Some dd" "\<And>n. malloc_ok h n" "data_size dd < 2 ^ 44"
  shows "\<exists>h1 q h2 r. dispatch_transform_to_base32 h junk p = Inr (h1, Some q) \<and>
    fresh_result h ext h1 q (map of_nat (base_text 5 8 5 base32_encode_table (map unat (data_bytes h p)))) \<and>
    dispatch_transform_from_base32 h1 junk q = Inr (h2, Some r) \<and>
    fresh_result h1 (own ext q 1) h2 r (data_bytes h p)"
  unfolding dispatch_transform_to_base32_def dispatch_transform_to_base32_with_table_def
    dispatch_transform_from_base32_def dispatch_transform_from_base32_with_table_def
  using base32.roundtrip_ok [OF assms] by simp

theorem base32_roundtrip_witness:
  "\<exists>h1 q h2 r. dispatch_transform_to_base32 sample_heap 0 3 = Inr (h1, Some q) \<and>
    dispatch_transform_from_base32 h1 0 q = Inr (h2, Some r) \<and> data_bytes h2 r = [2, 3, 4, 5]"
proof -
  obtain dd where dd: "objs sample_heap 3 = Some dd" using sample_objs(3) by blast
  have small: "data_size dd < 2 ^ 44" using sample_size [OF dd] by simp
  show ?thesis
    using base32_roundtrip [OF sample_inv sample_nonneg dd sample_objs(4) small, of 0]
    by (auto simp: fresh_result_def sample_bytes)
qed

section \<open>Transforms composed\<close>

text \<open>\<open>dispatch_data_create_with_transform\<close> from base64 to base32 reads base64 text that
  may have spaces, tabs and line feeds anywhere and may lie in any number of regions, as long as
  only the last region has padding, and answers with the base32 text of the same bytes. The
  intermediate object is released.\<close>

theorem transform_base64_to_base32:
  assumes inv: "data_inv h ext" "nonneg ext" and p: "objs h p = Some dd" and m: "\<And>n. malloc_ok h n"
    and size: "0 < data_size dd" "data_size dd < 2 ^ 44"
    and bs: "\<forall>b \<in> set bs. b < 256"
    and input: "filter (\<lambda>c. \<not> space_char c) (data_bytes h p) = map of_nat (base_text 6 4 3 base64_encode_table bs)"
    and pads: "pads_last (data_regions h p)"
  shows "\<exists>h' q. dispatch_data_create_with_transform h junk p format_type_base64 format_type_base32 =
      Inr (h', Some q) \<and>
    fresh_result h ext h' q (map of_nat (base_text 5 8 5 base32_encode_table bs))"
proof -
  have "data_size dd < 2 ^ 48" using size by simp
  from base64.decode_ok [OF inv p m this bs input pads, of junk]
  obtain h1 t where t: "dispatch_transform_from_base64 h junk p = Inr (h1, Some t)"
    "fresh_result h ext h1 t (map of_nat bs)"
    unfolding dispatch_transform_from_base64_def by blast
  obtain dt where dt: "objs h1 t = Some dt" "data_size dt = length bs" using fresh_live [OF t(2)] by (metis length_map)
  have i1: "data_inv h1 (own ext t 1)" "malloc_ok h1 = malloc_ok h" "data_bytes h1 t = map of_nat bs" "heap_le h h1"
    using t(2) by (simp_all add: fresh_result_def)
  have "length (map of_nat (base_text 6 4 3 base64_encode_table bs) :: bytes) \<le> data_size dd"
    using length_filter_le [of "\<lambda>c. \<not> space_char c" "data_bytes h p"] input
      length_data_bytes [OF data_invD(1) [OF inv(1)] p] by simp
  then have "(length bs + 2) div 3 * 4 \<le> data_size dd" by (simp add: base64.length_text)
  moreover have "length bs \<le> 3 * ((length bs + 2) div 3)" by presburger
  ultimately have "data_size dt < 2 ^ 48" using dt(2) size(2) by simp
  from base32.encode_ok [OF i1(1) nonneg_own [OF inv(2)] dt(1) _ this, of junk] m i1(2)
  obtain h2 q where q: "dispatch_transform_to_base32 h1 junk t = Inr (h2, Some q)"
    "fresh_result h1 (own ext t 1) h2 q (map of_nat (base_text 5 8 5 base32_encode_table (map unat (data_bytes h1 t))))"
    unfolding dispatch_transform_to_base32_def dispatch_transform_to_base32_with_table_def by auto
  have same_bytes: "map unat (data_bytes h1 t) = bs" using bs unfolding i1(3)
    by (simp add: comp_def unat_of_nat map_idI)
  have i2: "data_inv h2 (own (own ext q 1) t 1)" "heap_le h h2" "malloc_ok h2 = malloc_ok h"
    using q(2) i1 heap_le_trans [OF i1(4)] by (simp_all add: fresh_result_def own_swap [of _ q])
  have grow: "0 < ext x \<Longrightarrow> 0 < own ext q 1 x" for x by (auto simp: own_apply)
  obtain h3 where h3: "dispatch_data_release h2 t = Inr h3" "data_inv h3 (own ext q 1)" "heap_le h h3"
    "malloc_ok h3 = malloc_ok h"
    "\<forall>x. 0 < own ext q 1 x \<longrightarrow> x \<noteq> 0 \<longrightarrow> objs h3 x \<noteq> None \<and> data_bytes h3 x = data_bytes h2 x"
    using release_temp [OF inv nonneg_own [OF inv(2)] grow i2] by blast
  have zero: "objs g 0 \<noteq> None \<and> data_bytes g 0 = []" if "heap_ok g" for g
    using that data_bytes_zero [OF that, of 0] by (auto simp: heap_ok_def empty_obj_ok_def)
  have "objs h3 q \<noteq> None \<and> data_bytes h3 q = map of_nat (base_text 5 8 5 base32_encode_table bs)"
  proof (cases "q = 0")
    case True
    then show ?thesis using zero [OF data_invD(1) [OF h3(2)]] zero [OF data_invD(1) [OF i2(1)]] q(2) same_bytes
      by (simp add: fresh_result_def)
  next
    case False
    then have "0 < own ext q 1 q" using inv(2) by (simp add: own_apply nonneg_def add_nonneg_pos)
    then show ?thesis using h3(5) False q(2) same_bytes by (simp add: fresh_result_def)
  qed
  then have "fresh_result h ext h3 q (map of_nat (base_text 5 8 5 base32_encode_table bs))"
    using h3 by (simp add: fresh_result_def)
  moreover have "dispatch_data_create_with_transform h junk p format_type_base64 format_type_base32 = Inr (h3, Some q)"
  proof -
    have mk: "and 0x80 (mask 64 - 0xe1) = (0 :: nat)" "and 0x20 (mask 64 - 0xe1) = (0 :: nat)"
      by (simp_all add: mask_eq_exp_minus_1)
    show ?thesis
      using p size(1) t(1) q(1) h3(1) mk
      by (simp add: dispatch_data_create_with_transform_def format_type_base64_def format_type_base32_def
          dispatch_data_get_size_def)
  qed
  ultimately show ?thesis by blast
qed

text \<open>A heap with the base64 text of the byte 1, a line feed in its middle.\<close>

definition text_heap :: heap where
  "text_heap = \<lparr>objs = [
      0 \<mapsto> buffer_obj [] 0 None DESTRUCTOR_NONE,
      4 \<mapsto> buffer_obj [65, 81, 10, 61, 61] 5 None DESTRUCTOR_FREE],
    fresh = 5, events = [], malloc_ok = (\<lambda>_. True)\<rparr>"

definition text_owners :: owners where
  "text_owners = (\<lambda>_. 0)(4 := 1)"

lemma text_heap_inv: "data_inv text_heap text_owners"
proof -
  have cases: "p = 0 \<or> p = 4" if "objs text_heap p = Some dd" for p dd
    using that by (auto simp: text_heap_def split: if_splits)
  have "heap_ok text_heap"
    unfolding heap_ok_def
  proof (intro conjI allI impI)
    show "empty_obj_ok text_heap" by (simp add: empty_obj_ok_def text_heap_def sample_simps)
    fix p dd assume p: "objs text_heap p = Some dd"
    show "p < fresh text_heap" using cases [OF p] by (auto simp: text_heap_def)
    show "obj_ok text_heap dd" using cases [OF p] p
      by (auto simp: obj_ok_def text_heap_def sample_simps leaf_ok_def)
  qed
  moreover have "counts_ok text_heap text_owners"
  proof (rule counts_okI)
    fix p :: nat and dd assume p: "p \<noteq> 0" "objs text_heap p = Some dd"
    show "int (do_ref_cnt dd) = int (in_refs text_heap p) + text_owners p \<and> 0 < do_ref_cnt dd"
      using cases [OF p(2)] p
      by (auto simp: text_heap_def text_owners_def sample_simps in_refs_def objrefs_def lessThan_nat_numeral lessThan_Suc)
  qed (auto simp: text_heap_def text_owners_def split: if_splits)
  ultimately show ?thesis by (simp add: data_inv_def)
qed

theorem transform_base64_to_base32_witness:
  "\<exists>h' q. dispatch_data_create_with_transform text_heap 0 4 format_type_base64 format_type_base32 =
      Inr (h', Some q) \<and> data_bytes h' q = map of_nat (base_text 5 8 5 base32_encode_table [1])"
proof -
  have o: "objs text_heap 4 = Some (buffer_obj [65, 81, 10, 61, 61] 5 None DESTRUCTOR_FREE)"
    by (simp add: text_heap_def)
  have b: "data_bytes text_heap 4 = [65, 81, 10, 61, 61]"
    by (simp add: data_bytes_def o obj_bytes_def leaf_bytes_def buffer_obj_def blank_obj_def dispatch_data_leaf_def)
  have nn: "nonneg text_owners" by (simp add: nonneg_def text_owners_def)
  have m: "malloc_ok text_heap n" for n by (simp add: text_heap_def)
  have "filter (\<lambda>c. \<not> space_char c) (data_bytes text_heap 4) = map of_nat (base_text 6 4 3 base64_encode_table [1])"
  proof -
    have four: "(4 :: nat) = Suc (Suc (Suc (Suc 0)))" by simp
    have two: "replicate 2 (0 :: nat) = [0, 0]" by (simp only: numeral_2_eq_2 replicate.simps)
    have "digits (2 ^ 6) 4 65536 = [0, 16, 0, 0]" by (simp only: four digits.simps append.simps) simp
    moreover have "num_of 256 ([1] @ replicate 2 0) = 65536" by (simp only: two) (simp add: num_of_def)
    ultimately have "group_digits 6 4 3 [Suc 0] = [0, 16, 0, 0]" by (simp add: group_digits_def)
    moreover have "base64_encode_table ! 0 = 65" "base64_encode_table ! 16 = 81" by code_simp+
    ultimately have "base_text 6 4 3 base64_encode_table [1] = [65, 81, 61, 61]"
      by (subst base_text.simps) (simp add: numeral_2_eq_2)
    then show ?thesis unfolding b by (simp add: space_char_def)
  qed
  moreover have "pads_last (data_regions text_heap 4)"
    by (rule base64.pads_last_leaf [OF leaf_one_region [OF data_invD(1) [OF text_heap_inv] o]])
      (simp add: buffer_obj_def blank_obj_def dispatch_data_leaf_def)
  ultimately show ?thesis
    using transform_base64_to_base32 [OF text_heap_inv nn o m, of "[1]" 0]
    by (auto simp: fresh_result_def buffer_obj_def blank_obj_def)
qed

section \<open>Where decoding fails\<close>

lemma hex_loop:
  "basexx_decode_loop bits grp shifts base32hex_decode_table base32hex_decode_table_size cap bs x count pad out =
    (if \<forall>c \<in> set bs. space_char c then Inr (Some (x, count, pad, out)) else Inr None)"
proof (induction bs)
  case (Cons c bs)
  show ?case
  proof (cases "space_char c")
    case True
    then have "c = 10 \<or> c = 9 \<or> c = 32" by (simp add: space_char_def)
    then show ?thesis using Cons.IH True by simp
  next
    case False
    then have ns: "\<not> (c = 10 \<or> c = 9 \<or> c = 32)" by (simp add: space_char_def)
    have all: "\<forall>i < 33. base32hex_decode_table ! i = -1 \<and> i < length base32hex_decode_table"
      by (simp add: base32hex_decode_table_def nth_append)
    have size: "base32hex_decode_table_size = 33" by (simp add: base32hex_decode_table_size_def base32hex_encode_table_def)
    have "basexx_decode_loop bits grp shifts base32hex_decode_table base32hex_decode_table_size cap (c # bs) x count pad out = Inr None"
      using ns all size by (cases "unat c < 33") (simp_all add: table_at_def Let_def)
    then show ?thesis using False by simp
  qed
qed simp

lemma decode_all_spaces:
  assumes "\<forall>c \<in> set (take n b). space_char c" "n \<le> length b"
    and inv: "data_inv h ext" "nonneg ext" and r: "fresh_result h ext h1 rv []" and m: "\<And>n. malloc_ok h n"
  shows "\<exists>h2 c. basexx_decode_applier bits grp shifts base32_final base32hex_decode_table base32hex_decode_table_size
      junk h1 (0, 0, 0, Some rv) q off b n = Inr (h2, (0, 0, 0, Some c), True) \<and> fresh_result h ext h2 c []"
proof -
  define cap where "cap = sz_mul (howmany n grp) (length shifts)"
  have i1: "data_inv h1 (own ext rv 1)" "malloc_ok h1 = malloc_ok h" using r by (simp_all add: fresh_result_def)
  obtain h2 v where h2: "dispatch_data_create h1 (Some (replicate cap junk)) 0 None DESTRUCTOR_FREE = Inr (h2, Some v)"
    "fresh_result h1 (own ext rv 1) h2 v []"
    using create_free_ok [OF i1(1), of 0 "replicate cap junk"] by auto
  obtain h3 c h4 h5 where h3: "dispatch_data_create_concat h2 rv v = Inr (h3, Some c)"
    "dispatch_data_release h3 v = Inr h4" "dispatch_data_release h4 rv = Inr h5" "fresh_result h ext h5 c []"
    using append_result [OF inv r h2(2)] by auto
  have "read_bytes (Some b) n = Inr (take n b)" using assms(2) by (simp add: read_bytes_def)
  moreover have "sz_sub 0 (base32_final 0) = 0" by (simp add: sz_sub_def base32_final_def)
  ultimately show ?thesis
    using h2(1) h3 assms(1) m i1(2) hex_loop [of bits grp shifts cap "take n b" 0 0 0 "[]"]
    by (simp add: basexx_decode_applier_def cap_def [symmetric] Let_def deref_def)
qed

lemma decode_not_space:
  assumes "\<not> (\<forall>c \<in> set (take n b). space_char c)" "n \<le> length b"
    and r: "fresh_result h ext h1 rv []" and m: "\<And>n. malloc_ok h n"
  shows "\<exists>h2. basexx_decode_applier bits grp shifts base32_final base32hex_decode_table base32hex_decode_table_size
      junk h1 (0, 0, 0, Some rv) q off b n = Inr (h2, (0, 0, 0, Some rv), False) \<and> fresh_result h ext h2 rv []"
proof -
  define cap where "cap = sz_mul (howmany n grp) (length shifts)"
  have "malloc_ok h1 cap" using r m by (simp add: fresh_result_def)
  moreover have "read_bytes (Some b) n = Inr (take n b)" using assms(2) by (simp add: read_bytes_def)
  moreover have "basexx_decode_loop bits grp shifts base32hex_decode_table base32hex_decode_table_size cap
      (take n b) 0 0 0 [] = Inr None"
    using assms(1) by (simp only: hex_loop if_False)
  ultimately show ?thesis
    using r by (simp add: basexx_decode_applier_def cap_def [symmetric] Let_def fresh_result_events)
qed

text \<open>C17: \<open>_dispatch_transform_from_base32hex\<close> fails on every object that holds anything but
  spaces, tabs and line feeds, the text of \<open>_dispatch_transform_to_base32hex\<close> included: the
  size it gives for its decode table is that of the encode table, 33, and every character of the
  alphabet is above. Nothing is left behind.\<close>

theorem base32hex_decodes_nothing:
  assumes inv: "data_inv h ext" "nonneg ext" and p: "objs h p = Some dd" and m: "\<And>n. malloc_ok h n"
    and c: "c \<in> set (data_bytes h p)" "\<not> space_char c"
  shows "\<exists>h'. dispatch_transform_from_base32hex h junk p = Inr (h', None) \<and> data_inv h' ext \<and> heap_le h h'"
proof -
  let ?regs = "data_regions h p"
  let ?app = "basexx_decode_applier 5 8 [32, 24, 16, 8, 0] base32_final base32hex_decode_table base32hex_decode_table_size junk"
  have hok: "heap_ok h" by (rule data_invD(1) [OF inv(1)])
  have regs: "regions_at 0 ?regs" "concat (map region_bytes ?regs) = data_bytes h p"
    using data_regions_ok [OF hok p] by simp_all
  define I where "I ds h1 s \<longleftrightarrow> (\<exists>rv. s = (0, 0, 0, Some rv) \<and> fresh_result h ext h1 rv [] \<and>
      (\<forall>c \<in> set (concat (map region_bytes ds)). space_char c))" for ds :: "region list" and h1 and s :: decode_state
  define Q where "Q h1 s \<longleftrightarrow> (\<exists>x count pad rv. s = (x, count, pad, Some rv) \<and> fresh_result h ext h1 rv [])"
    for h1 and s :: decode_state
  have step: "\<exists>h2 s2 r. ?app h1 s1 q o' b n = Inr (h2, s2, r) \<and> (if r then I (ds @ [(q, o', b, n)]) h2 s2 else Q h2 s2)"
    if split: "?regs = ds @ (q, o', b, n) # rest" and i: "I ds h1 s1" for ds q o' b n rest h1 s1
  proof -
    obtain rv where rv: "s1 = (0, 0, 0, Some rv)" "fresh_result h ext h1 rv []"
      "\<forall>c \<in> set (concat (map region_bytes ds)). space_char c"
      using i unfolding I_def by blast
    have n: "n \<le> length b" using regions_split [of 0 ds q o' b n rest] regs(1) split by simp
    show ?thesis
    proof (cases "\<forall>c \<in> set (take n b). space_char c")
      case True
      then obtain h2 c where "?app h1 s1 q o' b n = Inr (h2, (0, 0, 0, Some c), True)" "fresh_result h ext h2 c []"
        using decode_all_spaces [OF True n inv rv(2) m] rv(1) by blast
      moreover have "\<forall>c \<in> set (concat (map region_bytes (ds @ [(q, o', b, n)]))). space_char c"
        using True rv(3) by auto
      ultimately show ?thesis unfolding I_def
        by (intro exI [of _ h2] exI [of _ "(0, 0, 0, Some c)"] exI [of _ True]) simp
    next
      case False
      obtain h2 where "?app h1 s1 q o' b n = Inr (h2, (0, 0, 0, Some rv), False)" "fresh_result h ext h2 rv []"
        using decode_not_space [OF False n rv(2) m] rv(1) by blast
      then show ?thesis unfolding Q_def
        by (intro exI [of _ h2] exI [of _ "(0, 0, 0, Some rv)"] exI [of _ False]) simp
    qed
  qed
  have I0: "I [] h (0, 0, 0, Some dispatch_data_empty)" using empty_result [OF inv(1)] by (simp add: I_def)
  have view: "heap_ok h' \<and> same_view h h' p" if "I ds h' s'" for ds h' s'
    using that same_view_le [OF _ hok p] unfolding I_def by (auto simp: fresh_result_def data_invD)
  have "\<exists>h' s' r. dispatch_data_apply h (0, 0, 0, Some dispatch_data_empty) p ?app = Inr (h', s', r) \<and>
      (if r then I ?regs h' s' else Q h' s')"
    by (rule apply_inv [where I = I and Q = Q, OF hok p I0 view step])
  moreover have "\<not> I ?regs h' s'" for h' s' using c regs(2) unfolding I_def by auto
  ultimately obtain h1 s1 where run: "dispatch_data_apply h (0, 0, 0, Some dispatch_data_empty) p ?app = Inr (h1, s1, False)"
    "Q h1 s1" by (auto split: if_splits)
  obtain x count pad rv where rv: "s1 = (x, count, pad, Some rv)" "fresh_result h ext h1 rv []"
    using run(2) unfolding Q_def by blast
  obtain h2 where h2: "dispatch_data_release h1 rv = Inr h2" "data_inv h2 ext" "heap_le h h2"
    using release_temp [OF inv inv(2), of h1 rv] rv(2) by (auto simp: fresh_result_def)
  have "dispatch_transform_from_base32hex h junk p = Inr (h2, None)"
    using run(1) rv(1) h2(1)
    by (simp add: dispatch_transform_from_base32hex_def dispatch_transform_from_base32_with_table_def basexx_decode_def deref_def)
  then show ?thesis using h2(2,3) by blast
qed

theorem base32hex_decodes_nothing_witness:
  "\<exists>h'. dispatch_transform_from_base32hex sample_heap 0 3 = Inr (h', None)"
proof -
  obtain dd where dd: "objs sample_heap 3 = Some dd" using sample_objs(3) by blast
  have "2 \<in> set (data_bytes sample_heap 3)" "\<not> space_char 2" by (simp_all add: sample_bytes space_char_def)
  from base32hex_decodes_nothing [OF sample_inv sample_nonneg dd sample_objs(4) this, of 0]
  show ?thesis by blast
qed

text \<open>When the padding of base64 text is not in the last region, the number of padding
  characters is taken off the bytes of a region that has decoded none: decoding the first region
  of \<open>QQ=\<close> and \<open>=\<close> leaves a data object of 2^64 - 1 bytes on a buffer of three.\<close>

theorem base64_split_padding:
  assumes "heap_ok h" "malloc_ok h 3"
  shows "\<exists>h' q d. basexx_decode_applier 6 4 [16, 8, 0] base64_final base64_decode_table base64_decode_table_size junk
      h (0, 0, 0, Some dispatch_data_empty) reg 0 [81, 81, 61] 3 = Inr (h', (66560, 3, 1, Some q), True) \<and>
    objs h' q = Some d \<and> data_size d = 18446744073709551615 \<and> buf d = Some [junk, junk, junk]"
proof -
  obtain e where e: "objs h 0 = Some e" "data_size e = 0" "0 < fresh h"
    using assms(1) by (auto simp: heap_ok_def empty_obj_ok_def)
  have run: "basexx_decode_loop 6 4 [16, 8, 0] base64_decode_table base64_decode_table_size 3 [81, 81, 61] 0 0 0 [] =
      Inr (Some (66560, 3, 1, []))"
  proof -
    have "base64_decode_table ! 81 = 16" "base64_decode_table ! 61 = -2" "length base64_decode_table = 123"
      by code_simp+
    moreover have "(81 :: u8) \<noteq> 10" "(81 :: u8) \<noteq> 9" "(81 :: u8) \<noteq> 32" "(61 :: u8) \<noteq> 10" "(61 :: u8) \<noteq> 9"
      "(61 :: u8) \<noteq> 32" "base64_decode_table_size = 123" by code_simp+
    moreover have "and (Suc 0) 3 = Suc 0" "and (Suc (Suc 0)) 3 = Suc (Suc 0)" "and (Suc (Suc (Suc 0))) 3 = Suc (Suc (Suc 0))"
      by code_simp+
    ultimately show ?thesis
      by (simp add: table_at_def Let_def take_bit_eq_mod push_bit_eq_mult)
  qed
  define d where "d = \<lparr>do_ref_cnt = 1, do_targetq = None, buf = Some [junk, junk, junk],
    data_destructor = DESTRUCTOR_FREE, data_size = 18446744073709551615, records = []\<rparr>"
  define h1 where "h1 = h\<lparr>objs := (objs h)(fresh h \<mapsto> d), fresh := fresh h + 1\<rparr>"
  define h2 where "h2 = h1\<lparr>objs := (objs h1)(fresh h \<mapsto> d\<lparr>do_ref_cnt := 2\<rparr>)\<rparr>"
  define h3 where "h3 = h2\<lparr>objs := (objs h2)(fresh h \<mapsto> d)\<rparr>"
  have create: "dispatch_data_create h (Some [junk, junk, junk]) 18446744073709551615 None DESTRUCTOR_FREE =
      Inr (h1, Some (fresh h))"
    by (simp add: dispatch_data_create_def dispatch_data_alloc_def dispatch_data_init_def data_lookup_def d_def h1_def)
  have l1: "objs h1 0 = Some e" "objs h1 (fresh h) = Some d" using e by (simp_all add: h1_def)
  have concat: "dispatch_data_create_concat h1 0 (fresh h) = Inr (h2, Some (fresh h))"
    using l1 e(2,3) by (simp add: dispatch_data_create_concat_def dispatch_data_retain_def h2_def d_def numeral_2_eq_2)
  have rel: "dispatch_data_release h2 (fresh h) = Inr h3"
    using e(3) by (simp add: dispatch_data_release_def numeral_2_eq_2 data_lookup_def h2_def h3_def d_def)
  have rel0: "dispatch_data_release h3 0 = Inr h3" by (simp add: dispatch_data_release_def numeral_2_eq_2)
  have cap: "sz_mul (howmany 3 4) (length [16 :: nat, 8, 0]) = 3"
    by (simp add: sz_mul_def howmany_def sz_add_def)
  have junk3: "replicate 3 junk = [junk, junk, junk]" by (simp add: numeral_3_eq_3)
  have "basexx_decode_applier 6 4 [16, 8, 0] base64_final base64_decode_table base64_decode_table_size junk
      h (0, 0, 0, Some dispatch_data_empty) reg 0 [81, 81, 61] 3 = Inr (h3, (66560, 3, 1, Some (fresh h)), True)"
    unfolding basexx_decode_applier_def Let_def prod.case cap
    using assms(2) run create concat rel rel0 junk3
    by (simp add: read_bytes_def deref_def sz_sub_def base64_final_def)
  moreover have "objs h3 (fresh h) = Some d" by (simp add: h3_def)
  ultimately show ?thesis by (auto simp: d_def)
qed

theorem base64_split_padding_witness:
  "\<exists>h' q d. basexx_decode_applier 6 4 [16, 8, 0] base64_final base64_decode_table base64_decode_table_size 0
      sample_heap (0, 0, 0, Some dispatch_data_empty) 5 0 [81, 81, 61] 3 = Inr (h', (66560, 3, 1, Some q), True) \<and>
    objs h' q = Some d \<and> data_size d = 18446744073709551615"
  using base64_split_padding [OF data_invD(1) [OF sample_inv] sample_objs(4), of 0 5] by blast

end
