(* ===== verification/Timer_Heap.thy ===== *)
theory Timer_Heap
  imports Prelude
begin

text \<open>
  The timer heap of \<open>src/event/event.c\<close>: two min-heaps, by target in the even slots
  and by deadline in the odd ones, interleaved in one array that is stored in segments of
  growing size; the last segment keeps the pointers to the others in its last entries.

  A heap owns the memory of its segments (\<open>dth_mem\<close>, by address). Arrays of
  \<open>DTH_ID_COUNT\<close> elements are functions read at 0 and 1 only. Indices are natural numbers
  below 2^32, with the wrap-around of \<open>uint32_t\<close> written as \<open>w32\<close>.
  \<open>DISPATCH_TIMER_ASSERT\<close> is modelled as in a build with timer assertions.
\<close>

section \<open>Data\<close>

type_synonym tid = nat
type_synonym addr = nat

datatype cell = Cell_null | Cell_timer tid | Cell_segment addr

record dispatch_timer_source_s =
  target :: u64
  deadline :: u64
  interval :: u64

record dispatch_timer_config_s =
  dtc_timer :: dispatch_timer_source_s
  dtc_clock :: nat

record dispatch_timer_source_refs_s =
  du_ident :: nat
  du_timer_flags :: u8
  du_priority :: u32
  du_wlh :: nat
  du_armed :: bool
  ds_pending_data :: u64
  dt_timer :: dispatch_timer_source_s
  dt_pending_config :: "dispatch_timer_config_s option"
  dt_heap_entry :: "nat \<Rightarrow> nat"

type_synonym timers = "tid \<rightharpoonup> dispatch_timer_source_refs_s"

record dispatch_timer_heap_s =
  dth_count :: nat
  dth_segments :: nat
  dth_max_qos :: nat
  dth_dirty_bits :: nat
  dth_armed :: bool
  dth_needs_program :: bool
  dth_min :: "nat \<Rightarrow> cell"
  dth_heap :: "addr option"
  dth_mem :: "addr \<rightharpoonup> cell list"
  dth_next :: addr

abbreviation (input) DTH_INVALID_ID :: nat where "DTH_INVALID_ID \<equiv> 4294967295"
abbreviation (input) DTH_TARGET_ID :: nat where "DTH_TARGET_ID \<equiv> 0"
abbreviation (input) DTH_DEADLINE_ID :: nat where "DTH_DEADLINE_ID \<equiv> 1"
abbreviation (input) DTH_ID_COUNT :: nat where "DTH_ID_COUNT \<equiv> 2"
abbreviation (input) SEGMENT_CAPACITY :: nat where "SEGMENT_CAPACITY \<equiv> 8"

definition w32 :: "nat \<Rightarrow> nat" where
  "w32 n = n mod 4294967296"

definition DTH_HEAP_ID :: "nat \<Rightarrow> nat" where
  "DTH_HEAP_ID idx = idx mod 2"

definition DTH_IDX_FOR_HEAP_ID :: "nat \<Rightarrow> nat \<Rightarrow> nat" where
  "DTH_IDX_FOR_HEAP_ID idx heap_id = (idx - idx mod 2) + heap_id"

fun heap_key :: "dispatch_timer_source_s \<Rightarrow> nat \<Rightarrow> u64" where
  "heap_key t hid = (if hid = 0 then target t else deadline t)"

section \<open>Segments\<close>

definition dispatch_timer_heap_capacity :: "nat \<Rightarrow> nat" where
  "dispatch_timer_heap_capacity segments =
     (if segments = 0 then 2
      else let seg_no = segments - 1 in
        w32 (2 + w32 (SEGMENT_CAPACITY * 2 ^ seg_no) + 4294967296 - seg_no))"

definition heap_segment :: "dispatch_timer_heap_s \<Rightarrow> addr option \<Rightarrow> cell list result" where
  "heap_segment dth a =
     (case a of None \<Rightarrow> Inl Null_deref
      | Some p \<Rightarrow> (case dth_mem dth p of None \<Rightarrow> Inl Use_after_free | Some s \<Rightarrow> Inr s))"

definition copy_cells :: "cell list \<Rightarrow> nat \<Rightarrow> cell list \<Rightarrow> nat \<Rightarrow> nat \<Rightarrow> cell list result" where
  "copy_cells dst doff src soff n =
     (if doff + n \<le> length dst \<and> soff + n \<le> length src
      then Inr (take doff dst @ take n (drop soff src) @ drop (doff + n) dst)
      else Inl Out_of_bounds)"

definition cell_addr :: "cell \<Rightarrow> addr option result" where
  "cell_addr c = (case c of Cell_null \<Rightarrow> Inr None | Cell_segment a \<Rightarrow> Inr (Some a)
     | Cell_timer _ \<Rightarrow> Inl Out_of_bounds)"

definition dispatch_timer_heap_grow :: "dispatch_timer_heap_s \<Rightarrow> dispatch_timer_heap_s result" where
  "dispatch_timer_heap_grow dth =
     (let seg_no = dth_segments dth;
          seg_capacity = (if seg_no > 0 then w32 (SEGMENT_CAPACITY * 2 ^ (seg_no - 1))
                          else SEGMENT_CAPACITY);
          heap = replicate seg_capacity Cell_null
      in bindR (if seg_no > 1 then
                  bindR (heap_segment dth (dth_heap dth)) (\<lambda>heap_prev.
                    let prev_seg_no = seg_no - 1; prev_seg_capacity = seg_capacity div 2 in
                    copy_cells heap (seg_capacity - prev_seg_no)
                      heap_prev (prev_seg_capacity - prev_seg_no) prev_seg_no)
                else Inr heap) (\<lambda>heap1.
         bindR (if seg_no > 0 then
                  (if seg_capacity - seg_no < length heap1 \<and> seg_no \<le> seg_capacity then
                     Inr (heap1[seg_capacity - seg_no :=
                       (case dth_heap dth of None \<Rightarrow> Cell_null | Some a \<Rightarrow> Cell_segment a)])
                   else Inl Out_of_bounds)
                else Inr heap1) (\<lambda>heap2.
         Inr (dth\<lparr>dth_segments := (seg_no + 1) mod 256,
                dth_mem := (dth_mem dth)(dth_next dth \<mapsto> heap2),
                dth_heap := Some (dth_next dth), dth_next := dth_next dth + 1\<rparr>))))"

definition dispatch_timer_heap_shrink :: "dispatch_timer_heap_s \<Rightarrow> dispatch_timer_heap_s result" where
  "dispatch_timer_heap_shrink dth =
     (let seg_no = (dth_segments dth + 255) mod 256;
          seg_capacity = (if seg_no > 0 then w32 (SEGMENT_CAPACITY * 2 ^ (seg_no - 1))
                          else SEGMENT_CAPACITY)
      in bindR (heap_segment dth (dth_heap dth)) (\<lambda>heap.
         bindR (if seg_no > 0 then
                  (if seg_capacity - seg_no < length heap then cell_addr (heap ! (seg_capacity - seg_no))
                   else Inl Out_of_bounds)
                else Inr None) (\<lambda>prev.
         bindR (if seg_no > 1 then
                  bindR (heap_segment dth prev) (\<lambda>heap_prev.
                    let prev_seg_no = seg_no - 1; prev_seg_capacity = seg_capacity div 2 in
                    bindR (copy_cells heap_prev (prev_seg_capacity - prev_seg_no)
                      heap (seg_capacity - prev_seg_no) prev_seg_no) (\<lambda>heap_prev'.
                    case prev of None \<Rightarrow> Inl Null_deref
                    | Some p \<Rightarrow> Inr ((dth_mem dth)(p \<mapsto> heap_prev'))))
                else Inr (dth_mem dth)) (\<lambda>mem.
         case dth_heap dth of None \<Rightarrow> Inl Null_deref
         | Some a \<Rightarrow> Inr (dth\<lparr>dth_segments := seg_no, dth_heap := prev,
                            dth_mem := mem(a := None)\<rparr>)))))"

text \<open>A slot: one of the two minima, or an entry of a segment.\<close>

datatype slot = Slot_min nat | Slot_cell addr nat

fun bit_length :: "nat \<Rightarrow> nat" where
  "bit_length n = (if n = 0 then 0 else Suc (bit_length (n div 2)))"

definition builtin_clz :: "nat \<Rightarrow> nat" where
  "builtin_clz n = 32 - bit_length n"

definition heap_seg_no :: "nat \<Rightarrow> nat" where
  "heap_seg_no idx =
     builtin_clz (SEGMENT_CAPACITY - 1) - builtin_clz (or idx (SEGMENT_CAPACITY - 1))"

definition dispatch_timer_heap_get_slot :: "dispatch_timer_heap_s \<Rightarrow> nat \<Rightarrow> slot result" where
  "dispatch_timer_heap_get_slot dth idx =
     (let segments = dth_segments dth in
      if idx < DTH_ID_COUNT then Inr (Slot_min idx)
      else
        let idx = idx - DTH_ID_COUNT;
            seg_no = heap_seg_no idx
        in bindR (if seg_no + 1 = segments then Inr (dth_heap dth)
                  else
                    let seg_capacity = w32 (SEGMENT_CAPACITY * 2 ^ (segments - 2)) in
                    bindR (heap_segment dth (dth_heap dth)) (\<lambda>heap.
                      if seg_no + 1 \<le> seg_capacity \<and> seg_capacity - seg_no - 1 < length heap
                      then cell_addr (heap ! (seg_capacity - seg_no - 1))
                      else Inl Out_of_bounds)) (\<lambda>segment.
             let idx' = (if seg_no \<noteq> 0 then idx - SEGMENT_CAPACITY * 2 ^ (seg_no - 1) else idx) in
             case segment of None \<Rightarrow> Inl Null_deref | Some a \<Rightarrow> Inr (Slot_cell a idx')))"

fun slot_read :: "dispatch_timer_heap_s \<Rightarrow> slot \<Rightarrow> cell result" where
  "slot_read dth (Slot_min i) = Inr (dth_min dth i)"
| "slot_read dth (Slot_cell a i) =
     bindR (heap_segment dth (Some a)) (\<lambda>s. if i < length s then Inr (s ! i) else Inl Out_of_bounds)"

fun slot_write :: "dispatch_timer_heap_s \<Rightarrow> slot \<Rightarrow> cell \<Rightarrow> dispatch_timer_heap_s result" where
  "slot_write dth (Slot_min i) c = Inr (dth\<lparr>dth_min := (dth_min dth)(i := c)\<rparr>)"
| "slot_write dth (Slot_cell a i) c =
     bindR (heap_segment dth (Some a)) (\<lambda>s.
       if i < length s then Inr (dth\<lparr>dth_mem := (dth_mem dth)(a \<mapsto> s[i := c])\<rparr>)
       else Inl Out_of_bounds)"

text \<open>Reading a slot that must hold a timer: the code follows the pointer without a test.\<close>

definition slot_timer :: "dispatch_timer_heap_s \<Rightarrow> slot \<Rightarrow> tid result" where
  "slot_timer dth s = bindR (slot_read dth s) (\<lambda>c.
     case c of Cell_null \<Rightarrow> Inl Null_deref | Cell_timer t \<Rightarrow> Inr t | Cell_segment _ \<Rightarrow> Inl Out_of_bounds)"

definition timer_lookup :: "timers \<Rightarrow> tid \<Rightarrow> dispatch_timer_source_refs_s result" where
  "timer_lookup tm t = (case tm t of None \<Rightarrow> Inl Use_after_free | Some dt \<Rightarrow> Inr dt)"

section \<open>Heap operations\<close>

type_synonym heap_state = "dispatch_timer_heap_s \<times> timers"

fun dispatch_timer_heap_set :: "heap_state \<Rightarrow> slot \<Rightarrow> tid \<Rightarrow> nat \<Rightarrow> heap_state result" where
  "dispatch_timer_heap_set (dth, tm) slot t idx =
     (let dth1 = (if idx < DTH_ID_COUNT then dth\<lparr>dth_needs_program := True\<rparr> else dth) in
      bindR (slot_write dth1 slot (Cell_timer t)) (\<lambda>dth2.
      bindR (timer_lookup tm t) (\<lambda>dt.
        Inr (dth2, tm(t \<mapsto> dt\<lparr>dt_heap_entry := (dt_heap_entry dt)(DTH_HEAP_ID idx := idx)\<rparr>)))))"

definition dispatch_timer_heap_parent :: "nat \<Rightarrow> nat" where
  "dispatch_timer_heap_parent idx =
     (let heap_id = DTH_HEAP_ID idx in DTH_IDX_FOR_HEAP_ID ((idx - DTH_ID_COUNT) div 2) heap_id)"

definition dispatch_timer_heap_left_child :: "nat \<Rightarrow> nat" where
  "dispatch_timer_heap_left_child idx =
     (let heap_id = DTH_HEAP_ID idx in w32 (2 * idx + DTH_ID_COUNT - heap_id))"

text \<open>
  The two loops of \<open>_dispatch_timer_heap_resift\<close>. The first answers with the slot and
  the index reached, and whether it moved; the second with the slot and index reached. Fuel
  bounds the number of turns; the index itself is enough for the way up and the number of
  entries for the way down.
\<close>

fun sift_up :: "nat \<Rightarrow> heap_state \<Rightarrow> nat \<Rightarrow> tid \<Rightarrow> slot \<Rightarrow> nat \<Rightarrow> bool
    \<Rightarrow> (heap_state \<times> slot \<times> nat \<times> bool) result" where
  "sift_up 0 h heap_id t slot idx sifted_up = Inl Out_of_fuel"
| "sift_up (Suc fuel) h heap_id t slot idx sifted_up =
     (if idx \<ge> DTH_ID_COUNT then
        let pidx = dispatch_timer_heap_parent idx in
        bindR (dispatch_timer_heap_get_slot (fst h) pidx) (\<lambda>pslot.
        bindR (slot_timer (fst h) pslot) (\<lambda>pt.
        bindR (timer_lookup (snd h) pt) (\<lambda>pdt.
        bindR (timer_lookup (snd h) t) (\<lambda>dt.
        if heap_key (dt_timer pdt) heap_id \<le> heap_key (dt_timer dt) heap_id
        then Inr (h, slot, idx, sifted_up)
        else bindR (dispatch_timer_heap_set h slot pt idx) (\<lambda>h'.
          sift_up fuel h' heap_id t pslot pidx True)))))
      else Inr (h, slot, idx, sifted_up))"

fun sift_down :: "nat \<Rightarrow> heap_state \<Rightarrow> nat \<Rightarrow> tid \<Rightarrow> slot \<Rightarrow> nat
    \<Rightarrow> (heap_state \<times> slot \<times> nat) result" where
  "sift_down 0 h heap_id t slot idx = Inl Out_of_fuel"
| "sift_down (Suc fuel) h heap_id t slot idx =
     (let cidx = dispatch_timer_heap_left_child idx in
      if cidx < dth_count (fst h) then
        let ridx = cidx + DTH_ID_COUNT in
        bindR (dispatch_timer_heap_get_slot (fst h) cidx) (\<lambda>cslot.
        bindR (slot_timer (fst h) cslot) (\<lambda>ct.
        bindR (timer_lookup (snd h) ct) (\<lambda>cdt.
        bindR (if ridx < dth_count (fst h) then
                 bindR (dispatch_timer_heap_get_slot (fst h) ridx) (\<lambda>rslot.
                 bindR (slot_timer (fst h) rslot) (\<lambda>rt.
                 bindR (timer_lookup (snd h) rt) (\<lambda>rdt.
                 if heap_key (dt_timer cdt) heap_id > heap_key (dt_timer rdt) heap_id
                 then Inr (ridx, rslot, rt) else Inr (cidx, cslot, ct))))
               else Inr (cidx, cslot, ct)) (\<lambda>(cidx', cslot', ct').
        bindR (timer_lookup (snd h) ct') (\<lambda>cdt'.
        bindR (timer_lookup (snd h) t) (\<lambda>dt.
        if heap_key (dt_timer dt) heap_id \<le> heap_key (dt_timer cdt') heap_id
        then Inr (h, slot, idx)
        else bindR (dispatch_timer_heap_set h slot ct' idx) (\<lambda>h'.
          sift_down fuel h' heap_id t cslot' cidx')))))))
      else Inr (h, slot, idx))"

definition dispatch_timer_heap_resift :: "heap_state \<Rightarrow> tid \<Rightarrow> nat \<Rightarrow> heap_state result" where
  "dispatch_timer_heap_resift h t idx =
     (let heap_id = DTH_HEAP_ID idx in
      bindR (dispatch_timer_heap_get_slot (fst h) idx) (\<lambda>slot.
      bindR (sift_up (Suc idx) h heap_id t slot idx False) (\<lambda>(h1, slot1, idx1, sifted_up).
      if sifted_up then dispatch_timer_heap_set h1 slot1 t idx1
      else bindR (sift_down (Suc (dth_count (fst h1))) h1 heap_id t slot1 idx1)
             (\<lambda>(h2, slot2, idx2). dispatch_timer_heap_set h2 slot2 t idx2))))"

definition dispatch_priority_qos :: "u32 \<Rightarrow> nat" where
  "dispatch_priority_qos dbp = unat (drop_bit 8 (dbp AND 0xf00))"

definition dispatch_priority_fallback_qos :: "u32 \<Rightarrow> nat" where
  "dispatch_priority_fallback_qos dbp = unat (drop_bit 12 (dbp AND 0xf000))"

definition heap_entry_valid :: "dispatch_timer_source_refs_s \<Rightarrow> bool" where
  "heap_entry_valid dt \<longleftrightarrow> dt_heap_entry dt DTH_TARGET_ID \<noteq> DTH_INVALID_ID \<and>
     dt_heap_entry dt DTH_DEADLINE_ID \<noteq> DTH_INVALID_ID"

definition dispatch_timer_heap_insert :: "heap_state \<Rightarrow> tid \<Rightarrow> heap_state result" where
  "dispatch_timer_heap_insert h t =
     (case h of (dth, tm) \<Rightarrow>
      let count = w32 (dth_count dth + DTH_ID_COUNT);
          idx = w32 (count + 4294967296 - DTH_ID_COUNT);
          dth = dth\<lparr>dth_count := count\<rparr>
      in bindR (timer_lookup tm t) (\<lambda>dt.
      if dt_heap_entry dt DTH_TARGET_ID \<noteq> DTH_INVALID_ID then Inl Client_crash
      else if dt_heap_entry dt DTH_DEADLINE_ID \<noteq> DTH_INVALID_ID then Inl Client_crash
      else
        let qos = max (dispatch_priority_qos (du_priority dt))
                      (dispatch_priority_fallback_qos (du_priority dt));
            dth = (if dth_max_qos dth < qos
                   then dth\<lparr>dth_max_qos := qos mod 256, dth_needs_program := True\<rparr> else dth)
        in
        if idx = 0 then
          Inr (dth\<lparr>dth_needs_program := True,
                 dth_min := (dth_min dth)(DTH_DEADLINE_ID := Cell_timer t, DTH_TARGET_ID := Cell_timer t)\<rparr>,
               tm(t \<mapsto> dt\<lparr>dt_heap_entry := (dt_heap_entry dt)
                    (DTH_TARGET_ID := DTH_TARGET_ID, DTH_DEADLINE_ID := DTH_DEADLINE_ID)\<rparr>))
        else
          bindR (if idx + DTH_ID_COUNT > dispatch_timer_heap_capacity (dth_segments dth)
                 then dispatch_timer_heap_grow dth else Inr dth) (\<lambda>dth'.
          bindR (dispatch_timer_heap_resift (dth', tm) t (idx + DTH_TARGET_ID)) (\<lambda>h1.
            dispatch_timer_heap_resift h1 t (idx + DTH_DEADLINE_ID)))))"

definition heap_remove_last :: "heap_state \<Rightarrow> tid \<Rightarrow> nat \<Rightarrow> nat \<Rightarrow> heap_state result" where
  "heap_remove_last h t idx heap_id =
     bindR (dispatch_timer_heap_get_slot (fst h) (idx + heap_id)) (\<lambda>slot.
     bindR (slot_read (fst h) slot) (\<lambda>last.
     bindR (slot_write (fst h) slot Cell_null) (\<lambda>dth'.
     if last = Cell_timer t then Inr (dth', snd h)
     else case last of
         Cell_timer last_t \<Rightarrow>
           bindR (timer_lookup (snd h) t) (\<lambda>dt.
             dispatch_timer_heap_resift (dth', snd h) last_t (dt_heap_entry dt heap_id))
       | _ \<Rightarrow> Inl Null_deref)))"

definition clear_heap_entry :: "heap_state \<Rightarrow> tid \<Rightarrow> heap_state result" where
  "clear_heap_entry h t =
     bindR (timer_lookup (snd h) t) (\<lambda>dt.
       Inr (fst h, (snd h)(t \<mapsto> dt\<lparr>dt_heap_entry := (dt_heap_entry dt)
              (DTH_TARGET_ID := DTH_INVALID_ID, DTH_DEADLINE_ID := DTH_INVALID_ID)\<rparr>)))"

definition dispatch_timer_heap_remove :: "heap_state \<Rightarrow> tid \<Rightarrow> heap_state result" where
  "dispatch_timer_heap_remove h t =
     (case h of (dth, tm) \<Rightarrow>
      let idx = w32 (dth_count dth + 4294967296 - DTH_ID_COUNT);
          dth = dth\<lparr>dth_count := idx\<rparr>
      in bindR (timer_lookup tm t) (\<lambda>dt.
      if \<not> heap_entry_valid dt then Inl Client_crash
      else if idx = 0 then
        (if dth_min dth DTH_TARGET_ID \<noteq> Cell_timer t \<or> dth_min dth DTH_DEADLINE_ID \<noteq> Cell_timer t
         then Inl Client_crash
         else clear_heap_entry
           (dth\<lparr>dth_needs_program := True,
              dth_min := (dth_min dth)(DTH_DEADLINE_ID := Cell_null, DTH_TARGET_ID := Cell_null)\<rparr>, tm) t)
      else
        bindR (heap_remove_last (dth, tm) t idx DTH_TARGET_ID) (\<lambda>h1.
        bindR (heap_remove_last h1 t idx DTH_DEADLINE_ID) (\<lambda>h2.
        bindR (if idx \<le> dispatch_timer_heap_capacity
                     (w32 (dth_segments (fst h2) + 4294967296 - 1))
               then dispatch_timer_heap_shrink (fst h2) else Inr (fst h2)) (\<lambda>dth3.
          clear_heap_entry (dth3, snd h2) t)))))"

definition dispatch_timer_heap_update :: "heap_state \<Rightarrow> tid \<Rightarrow> heap_state result" where
  "dispatch_timer_heap_update h t =
     bindR (timer_lookup (snd h) t) (\<lambda>dt.
     if \<not> heap_entry_valid dt then Inl Client_crash
     else
       bindR (dispatch_timer_heap_resift h t (dt_heap_entry dt DTH_TARGET_ID)) (\<lambda>h1.
       bindR (timer_lookup (snd h1) t) (\<lambda>dt1.
         dispatch_timer_heap_resift h1 t (dt_heap_entry dt1 DTH_DEADLINE_ID))))"

section \<open>Walking the heap\<close>

text \<open>\<open>builtin_ctz\<close> of the complement: the number of trailing ones.\<close>

function trailing_ones :: "nat \<Rightarrow> nat" where
  "trailing_ones n = (if odd n then Suc (trailing_ones (n div 2)) else 0)"
  by pat_completeness auto
termination by (relation "measure id") (auto elim: oddE)

declare trailing_ones.simps [simp del] bit_length.simps [simp del]

definition dispatch_timer_heap_walk_skip :: "nat \<Rightarrow> nat \<Rightarrow> nat" where
  "dispatch_timer_heap_walk_skip idx count =
     (let heap_id = DTH_HEAP_ID idx;
          idx1 = idx - heap_id;
          idx2 = (if idx1 + DTH_ID_COUNT = count then dispatch_timer_heap_parent idx1 else idx1);
          idx3 = idx2 + DTH_ID_COUNT + DTH_ID_COUNT - 1;
          idx4 = idx3 div 2 ^ trailing_ones idx3
      in if idx4 \<noteq> 0 then DTH_ID_COUNT * idx4 + heap_id else 4294967295)"

definition dispatch_timer_heap_walk_next :: "nat \<Rightarrow> nat \<Rightarrow> nat" where
  "dispatch_timer_heap_walk_next idx count =
     (let lchild = dispatch_timer_heap_left_child idx in
      if lchild < count then lchild else dispatch_timer_heap_walk_skip idx count)"

fun max_target_walk :: "nat \<Rightarrow> heap_state \<Rightarrow> u64 \<Rightarrow> nat \<Rightarrow> u64 \<Rightarrow> u64 result" where
  "max_target_walk 0 h limit idx tgt = Inl Out_of_fuel"
| "max_target_walk (Suc fuel) h limit idx tgt =
     (let count = dth_count (fst h) in
      if idx < count then
        bindR (dispatch_timer_heap_get_slot (fst h) idx) (\<lambda>slot.
        bindR (slot_timer (fst h) slot) (\<lambda>t.
        bindR (timer_lookup (snd h) t) (\<lambda>dri.
        let tmp = target (dt_timer dri) in
        if tmp > limit
        then max_target_walk fuel h limit (dispatch_timer_heap_walk_skip idx count) tgt
        else max_target_walk fuel h limit (dispatch_timer_heap_walk_next idx count) tmp)))
      else Inr tgt)"

definition dispatch_timer_heap_max_target_before :: "heap_state \<Rightarrow> u64 \<Rightarrow> u64 result" where
  "dispatch_timer_heap_max_target_before h limit =
     (let idx = dispatch_timer_heap_left_child DTH_TARGET_ID in
      bindR (slot_timer (fst h) (Slot_min DTH_TARGET_ID)) (\<lambda>t.
      bindR (timer_lookup (snd h) t) (\<lambda>dt.
        max_target_walk (Suc (dth_count (fst h))) h limit idx (target (dt_timer dt)))))"

end
