(* ===== verification/Timer_Storage.thy ===== *)
theory Timer_Storage
  imports Timer_Heap
begin

text \<open>
  The segmented array under the timer heap: every index below the capacity has its own slot,
  growing and shrinking keep the contents of the slots in use, and no segment leaks.
\<close>

section \<open>Segment numbers\<close>

definition seg_cap :: "nat \<Rightarrow> nat" where
  "seg_cap k = (if k = 0 then 8 else 8 * 2 ^ (k - 1))"

definition seg_base :: "nat \<Rightarrow> nat" where
  "seg_base k = (if k = 0 then 0 else 8 * 2 ^ (k - 1))"

lemma bit_length_le: "bit_length n \<le> k \<longleftrightarrow> n < 2 ^ k"
proof (induction n arbitrary: k rule: bit_length.induct)
  case (1 n)
  show ?case
  proof (cases "n = 0")
    case True
    then show ?thesis by (simp add: bit_length.simps)
  next
    case False
    then have "bit_length n = Suc (bit_length (n div 2))" by (simp add: bit_length.simps [of n])
    moreover have "bit_length (n div 2) \<le> j \<longleftrightarrow> n div 2 < 2 ^ j" for j using 1 False by blast
    ultimately show ?thesis
      using False by (cases k) (simp_all add: div_less_iff_less_mult mult.commute)
  qed
qed

lemma less_exp_bits: "(x :: nat) < 2 ^ k \<longleftrightarrow> (\<forall>n\<ge>k. \<not> bit x n)"
proof -
  have "x < 2 ^ k \<longleftrightarrow> (\<forall>n. bit (take_bit k x) n \<longleftrightarrow> bit x n)"
    by (simp only: take_bit_nat_eq_self_iff [symmetric] bit_eq_iff [of "take_bit k x" x] possible_bit_nat simp_thms)
  then show ?thesis unfolding bit_take_bit_iff by (metis not_le)
qed

lemma or_7_less:
  assumes "3 \<le> k"
  shows "or (i :: nat) 7 < 2 ^ k \<longleftrightarrow> i < 2 ^ k"
proof -
  have "(7 :: nat) < 2 ^ k" using power_increasing [OF assms, of "2 :: nat"] by simp
  then have "\<forall>n\<ge>k. \<not> bit (7 :: nat) n" by (simp only: less_exp_bits)
  then show ?thesis unfolding less_exp_bits bit_or_iff by blast
qed

lemma seg_of_le:
  assumes "i < 2 ^ 32"
  shows "heap_seg_no i \<le> k \<longleftrightarrow> i < 8 * 2 ^ k"
proof -
  have "bit_length (7 :: nat) = 3" by (simp add: bit_length.simps)
  moreover have "bit_length (or i 7) \<le> 32" using assms or_7_less [of 32 i] by (simp add: bit_length_le)
  ultimately have "heap_seg_no i \<le> k \<longleftrightarrow> bit_length (or i 7) \<le> k + 3"
    by (auto simp: heap_seg_no_def builtin_clz_def)
  also have "\<dots> \<longleftrightarrow> i < 2 ^ (k + 3)" by (simp add: bit_length_le or_7_less)
  finally show ?thesis by (simp add: power_add mult.commute)
qed

lemma seg_of_bounds:
  assumes "i < 2 ^ 32"
  shows "seg_base (heap_seg_no i) \<le> i" "i < seg_base (heap_seg_no i) + seg_cap (heap_seg_no i)"
proof -
  have "i < 8 * 2 ^ heap_seg_no i" using seg_of_le [OF assms, of "heap_seg_no i"] by simp
  then show "i < seg_base (heap_seg_no i) + seg_cap (heap_seg_no i)"
    by (cases "heap_seg_no i") (simp_all add: seg_base_def seg_cap_def)
  show "seg_base (heap_seg_no i) \<le> i"
  proof (cases "heap_seg_no i")
    case (Suc k)
    then have "\<not> heap_seg_no i \<le> k" by simp
    then show ?thesis using seg_of_le [OF assms, of k] Suc by (simp add: seg_base_def)
  qed (simp add: seg_base_def)
qed

lemma seg_end: "seg_base k + seg_cap k = 8 * 2 ^ k"
  by (cases k) (simp_all add: seg_base_def seg_cap_def)

lemma seg_cap_big: "k < seg_cap k"
proof (cases k)
  case (Suc j)
  have "Suc j \<le> 2 ^ j" by (induction j) auto
  then show ?thesis using Suc by (simp add: seg_cap_def)
qed (simp add: seg_cap_def)

lemma seg_cap_half: "1 < k \<Longrightarrow> seg_cap k div 2 = seg_cap (k - 1)"
  by (cases k; cases "k - 1") (simp_all add: seg_cap_def)

lemma w32_small: "n < 4294967296 \<Longrightarrow> w32 n = n"
  by (simp add: w32_def)

lemma power_28: "n \<le> 28 \<Longrightarrow> (2 :: nat) ^ n \<le> 268435456"
  using power_increasing [of n 28 "2 :: nat"] by simp

lemma seg_cap_code:
  assumes "k \<le> 28"
  shows "(if k > 0 then w32 (8 * 2 ^ (k - 1)) else 8) = seg_cap k"
proof (cases k)
  case (Suc j)
  then have "(2 :: nat) ^ j \<le> 268435456" using assms by (intro power_28) simp
  with Suc show ?thesis by (simp add: seg_cap_def w32_small)
qed (simp add: seg_cap_def)

definition capacity :: "nat \<Rightarrow> nat" where
  "capacity n = (if n = 0 then 2 else 2 + 8 * 2 ^ (n - 1) - (n - 1))"

lemma capacity_arith:
  assumes "j < x"
  shows "2 + 8 * x + 4294967296 - j = (2 + 8 * x - j) + (4294967296 :: nat)"
    "2 + 8 * x - j + 7 \<le> 2 + 8 * (2 * x) - Suc j"
  using assms by linarith+

lemma capacity_code:
  assumes "n \<le> 29"
  shows "dispatch_timer_heap_capacity n = capacity n"
proof (cases n)
  case (Suc j)
  have b: "(2 :: nat) ^ j \<le> 268435456" using assms Suc by (intro power_28) simp
  have "2 + 8 * 2 ^ j + 4294967296 - j = (2 + 8 * 2 ^ j - j) + (4294967296 :: nat)"
    by (rule capacity_arith [OF less_exp])
  then have "w32 (2 + 8 * 2 ^ j + 4294967296 - j) = 2 + 8 * 2 ^ j - j"
    using b by (simp only: w32_def mod_add_self2) simp
  moreover have "w32 (8 * 2 ^ j) = 8 * 2 ^ j" using b by (simp add: w32_def)
  ultimately show ?thesis
    using Suc by (simp add: dispatch_timer_heap_capacity_def capacity_def Let_def)
qed (simp add: dispatch_timer_heap_capacity_def capacity_def)

lemma capacity_even_bound: "n \<le> 29 \<Longrightarrow> capacity n \<le> 2147483650"
proof (cases n)
  case (Suc j)
  assume "n \<le> 29"
  then have "(2 :: nat) ^ j \<le> 268435456" using Suc by (intro power_28) simp
  then show ?thesis using Suc by (simp add: capacity_def)
qed (simp add: capacity_def)

lemma capacity_Suc: "n > 0 \<Longrightarrow> capacity n + 7 \<le> capacity (Suc n)"
proof (cases n)
  case (Suc j)
  show ?thesis
    using capacity_arith(2) [OF less_exp [of j]] Suc
    by (simp only: capacity_def diff_Suc_1 nat.simps if_False power_Suc)
qed simp

lemma capacity_mono_Suc: "capacity n + 7 \<le> capacity (Suc n)"
  using capacity_Suc [of n] by (cases "n = 0") (simp_all add: capacity_def)

section \<open>Layout\<close>

text \<open>\<open>A k\<close> is the address of segment \<open>k\<close>.\<close>

definition layout :: "(nat \<Rightarrow> addr) \<Rightarrow> dispatch_timer_heap_s \<Rightarrow> bool" where
  "layout A dth \<longleftrightarrow>
     (let n = dth_segments dth in
      n \<le> 28 \<and> inj_on A {..<n} \<and>
      (\<forall>k<n. A k < dth_next dth \<and> (\<exists>s. dth_mem dth (A k) = Some s \<and> length s = seg_cap k)) \<and>
      (\<forall>a. a \<notin> A ` {..<n} \<longrightarrow> dth_mem dth a = None) \<and>
      dth_heap dth = (if n = 0 then None else Some (A (n - 1))) \<and>
      (\<forall>j<n - 1. the (dth_mem dth (A (n - 1))) ! (seg_cap (n - 1) - j - 1) = Cell_segment (A j)))"

definition slot_of :: "(nat \<Rightarrow> addr) \<Rightarrow> nat \<Rightarrow> slot" where
  "slot_of A idx =
     (if idx < 2 then Slot_min idx
      else Slot_cell (A (heap_seg_no (idx - 2))) (idx - 2 - seg_base (heap_seg_no (idx - 2))))"

definition cell_at :: "(nat \<Rightarrow> addr) \<Rightarrow> dispatch_timer_heap_s \<Rightarrow> nat \<Rightarrow> cell" where
  "cell_at A dth idx =
     (case slot_of A idx of Slot_min i \<Rightarrow> dth_min dth i | Slot_cell a i \<Rightarrow> the (dth_mem dth a) ! i)"

lemma in_segment:
  assumes "n \<le> 28" "2 \<le> idx" "idx < capacity n"
  shows "heap_seg_no (idx - 2) < n" "idx - 2 - seg_base (heap_seg_no (idx - 2)) < seg_cap (heap_seg_no (idx - 2))"
    "heap_seg_no (idx - 2) + 1 = n \<Longrightarrow>
      idx - 2 - seg_base (heap_seg_no (idx - 2)) < seg_cap (n - 1) - (n - 1)"
    "seg_base (heap_seg_no (idx - 2)) \<le> idx - 2" "idx - 2 < 2 ^ 32"
proof -
  have n0: "n \<noteq> 0" using assms(2,3) by (cases "n = 0") (simp_all add: capacity_def)
  have lt: "idx - 2 < 8 * 2 ^ (n - 1) - (n - 1)"
    using assms n0 less_exp [of "n - 1"] by (simp add: capacity_def)
  have b: "(2 :: nat) ^ (n - 1) \<le> 268435456" using assms(1) by (intro power_28) simp
  show i32: "idx - 2 < 2 ^ 32" using lt b by simp
  have "heap_seg_no (idx - 2) \<le> n - 1" using seg_of_le [OF i32] lt by simp
  then show "heap_seg_no (idx - 2) < n" using n0 by simp
  show "seg_base (heap_seg_no (idx - 2)) \<le> idx - 2" by (rule seg_of_bounds(1) [OF i32])
  then show "idx - 2 - seg_base (heap_seg_no (idx - 2)) < seg_cap (heap_seg_no (idx - 2))"
    using seg_of_bounds(2) [OF i32] by linarith
  assume "heap_seg_no (idx - 2) + 1 = n"
  then have k: "heap_seg_no (idx - 2) = n - 1" by simp
  have "idx - 2 < seg_base (n - 1) + seg_cap (n - 1) - (n - 1)" using lt by (simp only: seg_end)
  then show "idx - 2 - seg_base (heap_seg_no (idx - 2)) < seg_cap (n - 1) - (n - 1)"
    using seg_of_bounds(1) [OF i32] unfolding k by linarith
qed

lemma layoutD:
  assumes "layout A dth"
  shows "dth_segments dth \<le> 28" "inj_on A {..<dth_segments dth}"
    "k < dth_segments dth \<Longrightarrow> A k < dth_next dth"
    "k < dth_segments dth \<Longrightarrow> \<exists>s. dth_mem dth (A k) = Some s \<and> length s = seg_cap k"
    "a \<notin> A ` {..<dth_segments dth} \<Longrightarrow> dth_mem dth a = None"
    "dth_heap dth = (if dth_segments dth = 0 then None else Some (A (dth_segments dth - 1)))"
    "j < dth_segments dth - 1 \<Longrightarrow> the (dth_mem dth (A (dth_segments dth - 1))) !
       (seg_cap (dth_segments dth - 1) - j - 1) = Cell_segment (A j)"
  using assms unfolding layout_def Let_def by blast+

lemma get_slot_ok:
  assumes lay: "layout A dth" and idx: "idx < capacity (dth_segments dth)"
  shows "dispatch_timer_heap_get_slot dth idx = Inr (slot_of A idx)"
proof (cases "idx < 2")
  case True
  then show ?thesis by (simp add: dispatch_timer_heap_get_slot_def slot_of_def)
next
  case False
  let ?n = "dth_segments dth" and ?k = "heap_seg_no (idx - 2)"
  note seg = in_segment [OF layoutD(1) [OF lay] _ idx]
  have k: "?k < ?n" using seg(1) False by simp
  have base: "idx - 2 - SEGMENT_CAPACITY * 2 ^ (?k - 1) = idx - 2 - seg_base ?k" if "?k \<noteq> 0"
    using that by (simp add: seg_base_def)
  have b0: "idx - 2 = idx - 2 - seg_base ?k" if "?k = 0"
    using that by (simp add: seg_base_def)
  have heap: "dth_heap dth = Some (A (?n - 1))" using layoutD(6) [OF lay] k by simp
  show ?thesis
  proof (cases "?k + 1 = ?n")
    case True
    then have "A (?n - 1) = A ?k" by (metis add_diff_cancel_right')
    then show ?thesis
      using False True heap base b0
      by (simp add: dispatch_timer_heap_get_slot_def Let_def slot_of_def)
  next
    case not_last: False
    then have k2: "?k < ?n - 1" using k by simp
    obtain s where s: "dth_mem dth (A (?n - 1)) = Some s" "length s = seg_cap (?n - 1)"
      using layoutD(4) [OF lay, of "?n - 1"] k by auto
    have cap: "w32 (8 * 2 ^ (?n - 2)) = seg_cap (?n - 1)"
    proof -
      have e: "?n - 1 - 1 = ?n - 2" by (simp only: diff_diff_left one_add_one)
      have "0 < ?n - 1" "?n - 1 \<le> 28" using k2 layoutD(1) [OF lay] by linarith+
      then show ?thesis using seg_cap_code [of "?n - 1"] unfolding e by simp
    qed
    have "?k + 1 \<le> seg_cap (?n - 1)" "0 < seg_cap (?n - 1)"
      using k2 seg_cap_big [of "?n - 1"] by linarith+
    moreover have "s ! (seg_cap (?n - 1) - ?k - 1) = Cell_segment (A ?k)"
      using layoutD(7) [OF lay k2] s by simp
    ultimately show ?thesis
      using False not_last heap base b0 s cap
      by (simp add: dispatch_timer_heap_get_slot_def Let_def slot_of_def
          heap_segment_def cell_addr_def)
  qed
qed

lemma slot_read_ok:
  assumes lay: "layout A dth" and idx: "idx < capacity (dth_segments dth)"
  shows "slot_read dth (slot_of A idx) = Inr (cell_at A dth idx)"
proof (cases "idx < 2")
  case True
  then show ?thesis by (simp add: slot_of_def cell_at_def)
next
  case False
  note seg = in_segment [OF layoutD(1) [OF lay] _ idx]
  obtain s where "dth_mem dth (A (heap_seg_no (idx - 2))) = Some s"
    "length s = seg_cap (heap_seg_no (idx - 2))"
    using layoutD(4) [OF lay seg(1)] False by auto
  then show ?thesis
    using False seg(2) by (simp add: slot_of_def cell_at_def heap_segment_def)
qed

lemma slot_of_inj:
  assumes "layout A dth" "i < capacity (dth_segments dth)" "j < capacity (dth_segments dth)"
    and "slot_of A i = slot_of A j"
  shows "i = j"
proof -
  note si = in_segment [OF layoutD(1) [OF assms(1)] _ assms(2)]
  note sj = in_segment [OF layoutD(1) [OF assms(1)] _ assms(3)]
  show ?thesis
  proof (cases "i < 2 \<or> j < 2")
    case True
    then show ?thesis using assms(4) by (auto simp: slot_of_def split: if_splits)
  next
    case False
    then have e: "A (heap_seg_no (i - 2)) = A (heap_seg_no (j - 2))"
      "i - 2 - seg_base (heap_seg_no (i - 2)) = j - 2 - seg_base (heap_seg_no (j - 2))"
      using assms(4) by (auto simp: slot_of_def)
    have "heap_seg_no (i - 2) = heap_seg_no (j - 2)"
      using inj_onD [OF layoutD(2) [OF assms(1)] e(1)] si(1) sj(1) False by simp
    moreover have ij: "2 \<le> i" "2 \<le> j" using False by simp_all
    ultimately show ?thesis using e(2) si(4) [OF ij(1)] sj(4) [OF ij(2)] by (metis diff_diff_left
        le_add_diff_inverse le_add_diff_inverse2)
  qed
qed

lemma slot_write_ok:
  assumes lay: "layout A dth" and idx: "idx < capacity (dth_segments dth)"
  shows "\<exists>dth'. slot_write dth (slot_of A idx) c = Inr dth' \<and> layout A dth' \<and>
    (\<forall>i < capacity (dth_segments dth). cell_at A dth' i = (if i = idx then c else cell_at A dth i)) \<and>
    (\<exists>m mem. dth' = dth\<lparr>dth_min := m, dth_mem := mem\<rparr>)"
proof (cases "idx < 2")
  case True
  have "cell_at A (dth\<lparr>dth_min := (dth_min dth)(idx := c)\<rparr>) i = (if i = idx then c else cell_at A dth i)"
    for i using True by (auto simp: cell_at_def slot_of_def)
  moreover have "layout A (dth\<lparr>dth_min := (dth_min dth)(idx := c)\<rparr>)"
    using lay by (simp add: layout_def)
  moreover have "\<exists>m mem. dth\<lparr>dth_min := (dth_min dth)(idx := c)\<rparr> =
      dth\<lparr>dth_min := m, dth_mem := mem\<rparr>"
    by (rule exI [of _ "(dth_min dth)(idx := c)"], rule exI [of _ "dth_mem dth"]) simp
  ultimately show ?thesis using True by (simp add: slot_of_def)
next
  case False
  let ?n = "dth_segments dth" and ?k = "heap_seg_no (idx - 2)"
  let ?o = "idx - 2 - seg_base ?k"
  note seg = in_segment [OF layoutD(1) [OF lay] _ idx]
  have k: "?k < ?n" "?o < seg_cap ?k" "?k + 1 = ?n \<Longrightarrow> ?o < seg_cap (?n - 1) - (?n - 1)"
    using seg(1-3) False by auto
  obtain s where s: "dth_mem dth (A ?k) = Some s" "length s = seg_cap ?k"
    using layoutD(4) [OF lay k(1)] by auto
  define dth' where "dth' = dth\<lparr>dth_mem := (dth_mem dth)(A ?k \<mapsto> s[?o := c])\<rparr>"
  have w: "slot_write dth (slot_of A idx) c = Inr dth'"
    using False s k(2) by (simp add: slot_of_def heap_segment_def dth'_def)
  have n': "dth_segments dth' = ?n" by (simp add: dth'_def)
  have inj: "A i = A ?k \<longleftrightarrow> i = ?k" if "i < ?n" for i
    using inj_onD [OF layoutD(2) [OF lay], of i ?k] that k(1) by auto
  have "layout A dth'"
    unfolding layout_def n' Let_def
  proof (intro conjI allI impI)
    fix i assume i: "i < ?n"
    show "A i < dth_next dth'" using layoutD(3) [OF lay i] by (simp add: dth'_def)
    show "\<exists>s. dth_mem dth' (A i) = Some s \<and> length s = seg_cap i"
      using layoutD(4) [OF lay i] s inj [OF i] by (auto simp: dth'_def)
  next
    fix a assume "a \<notin> A ` {..<?n}"
    then show "dth_mem dth' a = None" using layoutD(5) [OF lay] k(1) by (auto simp: dth'_def)
  next
    fix j assume j: "j < ?n - 1"
    show "the (dth_mem dth' (A (?n - 1))) ! (seg_cap (?n - 1) - j - 1) = Cell_segment (A j)"
    proof (cases "?k + 1 = ?n")
      case True
      then have kn: "?k = ?n - 1" by simp
      have "?o \<noteq> seg_cap (?n - 1) - j - 1" using k(3) [OF True] j by linarith
      moreover have "A (?n - 1) = A ?k" by (simp only: kn)
      ultimately show ?thesis using layoutD(7) [OF lay j] s by (simp add: dth'_def)
    next
      case ne: False
      then have "A (?n - 1) \<noteq> A ?k" using inj [of "?n - 1"] k(1) by auto
      then show ?thesis using layoutD(7) [OF lay j] by (simp add: dth'_def)
    qed
  qed (use layoutD [OF lay] in \<open>simp_all add: dth'_def\<close>)
  moreover have "cell_at A dth' i = (if i = idx then c else cell_at A dth i)" if i: "i < capacity ?n" for i
  proof (cases "i = idx")
    case True
    then show ?thesis using False s k(2) by (simp add: cell_at_def slot_of_def dth'_def)
  next
    case ne: False
    then have "slot_of A i \<noteq> slot_of A idx" using slot_of_inj [OF lay i idx] by blast
    then show ?thesis
      using ne False s by (auto simp: cell_at_def slot_of_def dth'_def nth_list_update)
  qed
  moreover have "\<exists>m mem. dth' = dth\<lparr>dth_min := m, dth_mem := mem\<rparr>"
    by (rule exI [of _ "dth_min dth"]) (auto simp: dth'_def)
  ultimately show ?thesis using w by blast
qed

section \<open>Growing and shrinking\<close>

text \<open>The fields of a heap other than its storage.\<close>

definition same_fields :: "dispatch_timer_heap_s \<Rightarrow> dispatch_timer_heap_s \<Rightarrow> bool" where
  "same_fields dth dth' \<longleftrightarrow> dth_count dth' = dth_count dth \<and> dth_min dth' = dth_min dth \<and>
     dth_max_qos dth' = dth_max_qos dth \<and> dth_armed dth' = dth_armed dth \<and>
     dth_dirty_bits dth' = dth_dirty_bits dth \<and> dth_needs_program dth' = dth_needs_program dth"

lemma cell_at_cong:
  assumes "\<And>k. k < n \<Longrightarrow> A' k = A k" "n \<le> 28" "dth_min dth' = dth_min dth" "i < capacity n"
    and "\<And>k o'. k < n \<Longrightarrow> o' < seg_cap k \<Longrightarrow> (k + 1 = n \<Longrightarrow> o' < seg_cap k - k) \<Longrightarrow>
      the (dth_mem dth' (A k)) ! o' = the (dth_mem dth (A k)) ! o'"
  shows "cell_at A' dth' i = cell_at A dth i"
proof (cases "i < 2")
  case True
  then show ?thesis using assms(3) by (simp add: cell_at_def slot_of_def)
next
  case False
  then have i2: "2 \<le> i" by simp
  note seg = in_segment [OF assms(2) i2 assms(4)]
  let ?k = "heap_seg_no (i - 2)" and ?o = "i - 2 - seg_base (heap_seg_no (i - 2))"
  have "the (dth_mem dth' (A ?k)) ! ?o = the (dth_mem dth (A ?k)) ! ?o"
  proof (rule assms(5) [OF seg(1,2)])
    assume k: "?k + 1 = n"
    then have "?k = n - 1" by simp
    then show "?o < seg_cap ?k - ?k" using seg(3) [OF k] by simp
  qed
  then show ?thesis using False assms(1) [OF seg(1)] by (simp add: cell_at_def slot_of_def)
qed

lemma nth_middle:
  "length xs = a \<Longrightarrow> i < length ys \<Longrightarrow> (xs @ ys @ zs) ! (a + i) = ys ! i"
  by (auto simp: nth_append)

lemma grow_ok:
  assumes lay: "layout A dth" and n: "dth_segments dth \<le> 27"
  shows "\<exists>dth'. dispatch_timer_heap_grow dth = Inr dth' \<and>
    layout (A(dth_segments dth := dth_next dth)) dth' \<and>
    dth_segments dth' = dth_segments dth + 1 \<and> same_fields dth dth' \<and>
    (\<forall>i < capacity (dth_segments dth).
       cell_at (A(dth_segments dth := dth_next dth)) dth' i = cell_at A dth i)"
proof -
  let ?n = "dth_segments dth" and ?a = "dth_next dth" and ?c = "seg_cap (dth_segments dth)"
  let ?A = "A(?n := ?a)"
  have cap: "(if ?n > 0 then w32 (8 * 2 ^ (?n - 1)) else 8) = ?c" using n by (intro seg_cap_code) simp
  have big: "?n < ?c" by (rule seg_cap_big)
  have ptr: "dth_heap dth = (if ?n = 0 then None else Some (A (?n - 1)))" by (rule layoutD(6) [OF lay])
  obtain heap1 where heap1: "(if ?n > 1 then
        bindR (heap_segment dth (dth_heap dth)) (\<lambda>heap_prev.
          copy_cells (replicate ?c Cell_null) (?c - (?n - 1)) heap_prev (?c div 2 - (?n - 1)) (?n - 1))
      else Inr (replicate ?c Cell_null)) = Inr heap1" "length heap1 = ?c"
    "\<forall>j < ?n - 1. heap1 ! (?c - j - 1) = Cell_segment (A j)"
  proof (cases "?n > 1")
    case True
    obtain s where s: "dth_mem dth (A (?n - 1)) = Some s" "length s = seg_cap (?n - 1)"
      using layoutD(4) [OF lay, of "?n - 1"] True by auto
    have half: "?c div 2 = seg_cap (?n - 1)" using True by (rule seg_cap_half)
    have small: "?n - 1 < seg_cap (?n - 1)" by (rule seg_cap_big)
    define h1 where "h1 = take (?c - (?n - 1)) (replicate ?c Cell_null) @
      take (?n - 1) (drop (seg_cap (?n - 1) - (?n - 1)) s) @
      drop (?c - (?n - 1) + (?n - 1)) (replicate ?c Cell_null)"
    have e: "bindR (heap_segment dth (dth_heap dth)) (\<lambda>heap_prev.
          copy_cells (replicate ?c Cell_null) (?c - (?n - 1)) heap_prev (?c div 2 - (?n - 1)) (?n - 1))
        = Inr h1"
      using True ptr s half small big by (simp add: heap_segment_def copy_cells_def h1_def)
    have len: "length h1 = ?c" using s small big by (simp add: h1_def)
    have "h1 ! (?c - j - 1) = Cell_segment (A j)" if j: "j < ?n - 1" for j
    proof -
      have i: "?c - j - 1 = (?c - (?n - 1)) + (?n - 1 - j - 1)" using j big by linarith
      have "h1 ! (?c - j - 1) = take (?n - 1) (drop (seg_cap (?n - 1) - (?n - 1)) s) ! (?n - 1 - j - 1)"
        unfolding i h1_def using j s small big by (intro nth_middle) simp_all
      also have "\<dots> = s ! (seg_cap (?n - 1) - (?n - 1) + (?n - 1 - j - 1))"
        using j s small by simp
      also have "seg_cap (?n - 1) - (?n - 1) + (?n - 1 - j - 1) = seg_cap (?n - 1) - j - 1"
        using j small by linarith
      also have "s ! (seg_cap (?n - 1) - j - 1) = Cell_segment (A j)"
        using layoutD(7) [OF lay j] s by simp
      finally show ?thesis .
    qed
    then show ?thesis using that [of h1] True e len by simp
  next
    case False
    then show ?thesis using that [of "replicate ?c Cell_null"] by simp
  qed
  define heap2 where "heap2 = (if ?n > 0 then heap1[?c - ?n := Cell_segment (A (?n - 1))] else heap1)"
  define dth' where "dth' = dth\<lparr>dth_segments := ?n + 1, dth_mem := (dth_mem dth)(?a \<mapsto> heap2),
    dth_heap := Some ?a, dth_next := ?a + 1\<rparr>"
  have run: "dispatch_timer_heap_grow dth = Inr dth'"
    unfolding dispatch_timer_heap_grow_def Let_def cap heap1(1) bindR.simps
    using heap1(2) ptr big n by (simp add: heap2_def dth'_def)
  have h2: "length heap2 = ?c" "\<forall>j < ?n. heap2 ! (?c - j - 1) = Cell_segment (A j)"
  proof -
    show "length heap2 = ?c" by (simp add: heap2_def heap1(2))
    show "\<forall>j < ?n. heap2 ! (?c - j - 1) = Cell_segment (A j)"
    proof (intro allI impI)
      fix j assume j: "j < ?n"
      show "heap2 ! (?c - j - 1) = Cell_segment (A j)"
      proof (cases "j = ?n - 1")
        case True
        then have "?c - j - 1 = ?c - ?n" using j by linarith
        then show ?thesis using True j big heap1(2) by (simp add: heap2_def)
      next
        case False
        then have "j < ?n - 1" "?c - j - 1 \<noteq> ?c - ?n" using j big by linarith+
        then show ?thesis using heap1(3) j by (simp add: heap2_def)
      qed
    qed
  qed
  have fresh: "A k \<noteq> ?a" if "k < ?n" for k using layoutD(3) [OF lay that] by simp
  have n': "dth_segments dth' = ?n + 1" by (simp add: dth'_def)
  have "layout ?A dth'"
    unfolding layout_def n' Let_def
  proof (intro conjI allI impI)
    show "?n + 1 \<le> 28" using n by simp
    have "inj_on ?A {..<?n}" using layoutD(2) [OF lay] by (simp add: inj_on_def)
    then show "inj_on ?A {..<?n + 1}"
      using fresh by (simp add: lessThan_Suc) (metis imageE lessThan_iff)
    fix k assume k: "k < ?n + 1"
    show "?A k < dth_next dth'"
      using k layoutD(3) [OF lay, of k] by (cases "k = ?n") (simp_all add: dth'_def)
    show "\<exists>s. dth_mem dth' (?A k) = Some s \<and> length s = seg_cap k"
      using k layoutD(4) [OF lay, of k] fresh [of k] h2(1)
      by (cases "k = ?n") (simp_all add: dth'_def)
  next
    fix a assume "a \<notin> ?A ` {..<?n + 1}"
    then have "a \<noteq> ?a" "a \<notin> A ` {..<?n}" by (auto simp: lessThan_Suc image_iff)
    then show "dth_mem dth' a = None" using layoutD(5) [OF lay] by (simp add: dth'_def)
  next
    show "dth_heap dth' = (if ?n + 1 = 0 then None else Some (?A (?n + 1 - 1)))" by (simp add: dth'_def)
  next
    fix j assume "j < ?n + 1 - 1"
    then show "the (dth_mem dth' (?A (?n + 1 - 1))) ! (seg_cap (?n + 1 - 1) - j - 1) = Cell_segment (?A j)"
      using h2(2) by (simp add: dth'_def)
  qed
  moreover have "cell_at ?A dth' i = cell_at A dth i" if "i < capacity ?n" for i
    using that n fresh by (intro cell_at_cong [of ?n]) (simp_all add: dth'_def)
  moreover have "same_fields dth dth'" by (simp add: same_fields_def dth'_def)
  ultimately show ?thesis using run n' by blast
qed

lemma shrink_ok:
  assumes lay: "layout A dth" and n: "dth_segments dth = Suc m"
  shows "\<exists>dth'. dispatch_timer_heap_shrink dth = Inr dth' \<and> layout A dth' \<and>
    dth_segments dth' = m \<and> same_fields dth dth' \<and>
    (\<forall>i < capacity m. cell_at A dth' i = cell_at A dth i)"
proof -
  have m28: "m \<le> 27" using layoutD(1) [OF lay] n by simp
  have ptr: "dth_heap dth = Some (A m)" using layoutD(6) [OF lay] n by simp
  obtain s where s: "dth_mem dth (A m) = Some s" "length s = seg_cap m"
    using layoutD(4) [OF lay, of m] n by auto
  have backp: "s ! (seg_cap m - j - 1) = Cell_segment (A j)" if "j < m" for j
    using layoutD(7) [OF lay, of j] that n s by simp
  have cap: "(if m > 0 then w32 (8 * 2 ^ (m - 1)) else 8) = seg_cap m" using m28 by (intro seg_cap_code) simp
  have segs: "(dth_segments dth + 255) mod 256 = m" using n m28 by simp
  have big: "m < seg_cap m" by (rule seg_cap_big)
  have lastp: "(if m > 0 then (if seg_cap m - m < length s then cell_addr (s ! (seg_cap m - m))
        else Inl Out_of_bounds) else Inr None) = Inr (if m = 0 then None else Some (A (m - 1)))"
  proof (cases m)
    case (Suc k)
    have "seg_cap m - m = seg_cap m - k - 1" using Suc by simp
    then show ?thesis using backp [of k] Suc s(2) big by (simp add: cell_addr_def)
  qed simp
  obtain mem where upd: "(if m > 1 then
        bindR (heap_segment dth (Some (A (m - 1)))) (\<lambda>heap_prev.
          bindR (copy_cells heap_prev (seg_cap m div 2 - (m - 1)) s (seg_cap m - (m - 1)) (m - 1))
            (\<lambda>heap_prev'. Inr ((dth_mem dth)(A (m - 1) \<mapsto> heap_prev'))))
      else Inr (dth_mem dth)) = (Inr mem :: _ result)"
    "\<forall>a. (mem a = None) = (dth_mem dth a = None)"
    "\<forall>k<m. length (the (mem (A k))) = seg_cap k"
    "\<forall>j < m - 1. the (mem (A (m - 1))) ! (seg_cap (m - 1) - j - 1) = Cell_segment (A j)"
    "\<forall>k<m. \<forall>o'. o' < seg_cap k \<longrightarrow> (k + 1 = m \<longrightarrow> o' < seg_cap k - k) \<longrightarrow>
      the (mem (A k)) ! o' = the (dth_mem dth (A k)) ! o'"
  proof (cases "m > 1")
    case True
    obtain t where t: "dth_mem dth (A (m - 1)) = Some t" "length t = seg_cap (m - 1)"
      using layoutD(4) [OF lay, of "m - 1"] n by (metis diff_le_self le_imp_less_Suc)
    have half: "seg_cap m div 2 = seg_cap (m - 1)" using True by (rule seg_cap_half)
    have small: "m - 1 < seg_cap (m - 1)" by (rule seg_cap_big)
    let ?off = "seg_cap (m - 1) - (m - 1)"
    define t' where "t' = take ?off t @ take (m - 1) (drop (seg_cap m - (m - 1)) s) @ drop (?off + (m - 1)) t"
    have e: "bindR (heap_segment dth (Some (A (m - 1)))) (\<lambda>heap_prev.
          bindR (copy_cells heap_prev (seg_cap m div 2 - (m - 1)) s (seg_cap m - (m - 1)) (m - 1))
            (\<lambda>heap_prev'. Inr ((dth_mem dth)(A (m - 1) \<mapsto> heap_prev')))) =
        (Inr ((dth_mem dth)(A (m - 1) \<mapsto> t')) :: _ result)"
      using t s half small big by (simp add: heap_segment_def copy_cells_def t'_def)
    have len: "length t' = seg_cap (m - 1)" using t s small big by (simp add: t'_def)
    have ptrs: "t' ! (seg_cap (m - 1) - j - 1) = Cell_segment (A j)" if j: "j < m - 1" for j
    proof -
      have i: "seg_cap (m - 1) - j - 1 = ?off + (m - 1 - j - 1)" using j small by linarith
      have "t' ! (seg_cap (m - 1) - j - 1) = take (m - 1) (drop (seg_cap m - (m - 1)) s) ! (m - 1 - j - 1)"
        unfolding i t'_def using j s t small big by (intro nth_middle) simp_all
      also have "\<dots> = s ! (seg_cap m - (m - 1) + (m - 1 - j - 1))" using j s big by simp
      also have "seg_cap m - (m - 1) + (m - 1 - j - 1) = seg_cap m - j - 1" using j big by linarith
      also have "s ! (seg_cap m - j - 1) = Cell_segment (A j)" using backp j by simp
      finally show ?thesis .
    qed
    have keep: "t' ! o' = t ! o'" if "o' < ?off" for o'
      using that t small by (simp add: t'_def nth_append)
    have inj: "A k = A (m - 1) \<longleftrightarrow> k = m - 1" if "k < m" for k
      using inj_onD [OF layoutD(2) [OF lay], of k "m - 1"] that n by auto
    show ?thesis
    proof (rule that [of "(dth_mem dth)(A (m - 1) \<mapsto> t')"])
      show "\<forall>k<m. length (the (((dth_mem dth)(A (m - 1) \<mapsto> t')) (A k))) = seg_cap k"
        using layoutD(4) [OF lay] n len inj by (metis fun_upd_apply less_Suc_eq option.sel)
      show "\<forall>k<m. \<forall>o'. o' < seg_cap k \<longrightarrow> (k + 1 = m \<longrightarrow> o' < seg_cap k - k) \<longrightarrow>
          the (((dth_mem dth)(A (m - 1) \<mapsto> t')) (A k)) ! o' = the (dth_mem dth (A k)) ! o'"
        using keep t(1) inj True by (auto simp: fun_upd_apply)
    qed (use True e t ptrs in auto)
  next
    case False
    have "length (the (dth_mem dth (A k))) = seg_cap k" if "k < m" for k
      using layoutD(4) [OF lay, of k] that n by auto
    then show ?thesis using that [of "dth_mem dth"] False by simp
  qed
  define dth' where "dth' = dth\<lparr>dth_segments := m, dth_heap := (if m = 0 then None else Some (A (m - 1))),
    dth_mem := mem(A m := None)\<rparr>"
  have run: "dispatch_timer_heap_shrink dth = Inr dth'"
  proof -
    have "(if m > 1 then
        bindR (heap_segment dth (if m = 0 then None else Some (A (m - 1)))) (\<lambda>heap_prev.
          bindR (copy_cells heap_prev (seg_cap m div 2 - (m - 1)) s (seg_cap m - (m - 1)) (m - 1))
            (\<lambda>heap_prev'. case (if m = 0 then None else Some (A (m - 1))) of None \<Rightarrow> Inl Null_deref
              | Some p \<Rightarrow> Inr ((dth_mem dth)(p \<mapsto> heap_prev'))))
      else Inr (dth_mem dth)) = (Inr mem :: _ result)"
      using upd(1) by (cases "1 < m") simp_all
    then show ?thesis
      unfolding dispatch_timer_heap_shrink_def Let_def segs cap
      using ptr s(1) lastp by (simp add: heap_segment_def dth'_def)
  qed
  have ne: "A k \<noteq> A m" if "k < m" for k
    using inj_onD [OF layoutD(2) [OF lay], of k m] that n by auto
  have "layout A dth'"
    unfolding layout_def Let_def
  proof (intro conjI allI impI)
    have [simp]: "dth_segments dth' = m" by (simp add: dth'_def)
    show "dth_segments dth' \<le> 28" using m28 by simp
    show "inj_on A {..<dth_segments dth'}"
      using layoutD(2) [OF lay] n by (auto simp: inj_on_def)
    show "dth_heap dth' = (if dth_segments dth' = 0 then None else Some (A (dth_segments dth' - 1)))"
      by (simp add: dth'_def)
    { fix k assume "k < dth_segments dth'"
      then have k: "k < m" by simp
      show "A k < dth_next dth'" using layoutD(3) [OF lay, of k] k n by (simp add: dth'_def)
      obtain t where "mem (A k) = Some t"
        using upd(2) layoutD(4) [OF lay, of k] k n by (metis less_Suc_eq not_None_eq)
      then show "\<exists>s. dth_mem dth' (A k) = Some s \<and> length s = seg_cap k"
        using upd(3) k ne [OF k] by (auto simp: dth'_def) }
    { fix a assume "a \<notin> A ` {..<dth_segments dth'}"
      then show "dth_mem dth' a = None"
        using layoutD(5) [OF lay, of a] upd(2) n by (auto simp: dth'_def lessThan_Suc) }
    { fix j assume "j < dth_segments dth' - 1"
      then have j: "j < m - 1" by simp
      then have "A (m - 1) \<noteq> A m" using ne [of "m - 1"] by simp
      then show "the (dth_mem dth' (A (dth_segments dth' - 1))) !
          (seg_cap (dth_segments dth' - 1) - j - 1) = Cell_segment (A j)"
        using upd(4) j by (simp add: dth'_def) }
  qed
  moreover have "cell_at A dth' i = cell_at A dth i" if i: "i < capacity m" for i
  proof (rule cell_at_cong [of m])
    fix k o' assume "k < m" "o' < seg_cap k" "k + 1 = m \<Longrightarrow> o' < seg_cap k - k"
    then show "the (dth_mem dth' (A k)) ! o' = the (dth_mem dth (A k)) ! o'"
      using upd(5) ne by (simp add: dth'_def)
  qed (use m28 i in \<open>simp_all add: dth'_def\<close>)
  moreover have "same_fields dth dth'" by (simp add: same_fields_def dth'_def)
  moreover have "dth_segments dth' = m" by (simp add: dth'_def)
  ultimately show ?thesis using run by blast
qed

end
