(* ===== verification/Timer_Order.thy ===== *)
theory Timer_Order
  imports Timer_Storage
begin

text \<open>
  Sifting: one of the two interleaved heaps, seen as cells and heap entries, with a hole at
  the index being filled. \<open>_dispatch_timer_heap_resift\<close> fills the hole and leaves an
  ordered heap, without touching the other one.
\<close>

section \<open>Index arithmetic\<close>

abbreviation (input) par :: "nat \<Rightarrow> nat" where "par \<equiv> dispatch_timer_heap_parent"

lemma par_eq: "par i = 2 * ((i - 2) div 4) + i mod 2"
proof -
  have "(i - 2) div 2 div 2 = (i - 2) div 4" by (simp add: div_mult2_eq [symmetric])
  then have "(i - 2) div 2 - (i - 2) div 2 mod 2 = 2 * ((i - 2) div 4)"
    by (simp add: minus_mod_eq_mult_div)
  then show ?thesis
    by (simp add: dispatch_timer_heap_parent_def DTH_IDX_FOR_HEAP_ID_def DTH_HEAP_ID_def)
qed

lemma par_less: "2 \<le> i \<Longrightarrow> par i < i"
  unfolding par_eq by presburger

lemma par_mod: "par i mod 2 = i mod 2"
  unfolding par_eq by presburger

lemma left_eq: "i < 2147483648 - 1 \<Longrightarrow> dispatch_timer_heap_left_child i = 2 * i + 2 - i mod 2"
  by (simp add: dispatch_timer_heap_left_child_def DTH_HEAP_ID_def w32_def)

lemma par_iff_child:
  assumes "2 \<le> i"
  shows "par i = p \<longleftrightarrow> i = 2 * p + 2 - p mod 2 \<or> i = 2 * p + 2 - p mod 2 + 2"
proof -
  obtain q r where i: "i = 4 * q + r + 2" "r < 4"
    using assms that [of "(i - 2) div 4" "(i - 2) mod 4"] by simp
  have par: "par i = 2 * q + r mod 2" using i by (simp add: par_eq mod_add_eq)  presburger
  obtain k b where p: "p = 2 * k + b" "b < 2" using that [of "p div 2" "p mod 2"] by simp
  then have "p mod 2 = b" by simp
  moreover have "r = 0 \<or> r = 1 \<or> r = 2 \<or> r = 3" "b = 0 \<or> b = 1" using i(2) p(2) by linarith+
  ultimately show ?thesis unfolding par using i(1) p(1) by (elim disjE) (simp; presburger)+
qed

section \<open>A heap with a hole\<close>

fun cell_tid :: "cell \<Rightarrow> tid" where
  "cell_tid (Cell_timer t) = t"
| "cell_tid _ = 0"

text \<open>
  \<open>C\<close> gives the cells, \<open>E\<close> the heap entries, \<open>key\<close> the keys; \<open>n\<close> is the
  number of entries of both heaps and \<open>hid\<close> the heap. The hole is the index \<open>idx\<close>;
  with \<open>idx = n\<close> there is none.
\<close>

definition holed :: "(nat \<Rightarrow> cell) \<Rightarrow> (tid \<Rightarrow> nat) \<Rightarrow> nat \<Rightarrow> tid set \<Rightarrow> nat \<Rightarrow> nat \<Rightarrow> bool" where
  "holed C E n M hid idx \<longleftrightarrow>
     (\<forall>s \<in> M. E s < n \<and> E s mod 2 = hid \<and> E s \<noteq> idx \<and> C (E s) = Cell_timer s) \<and>
     (\<forall>i < n. i mod 2 = hid \<longrightarrow> i \<noteq> idx \<longrightarrow> (\<exists>s \<in> M. C i = Cell_timer s \<and> E s = i))"

definition ordered_but :: "(tid \<Rightarrow> u64) \<Rightarrow> (nat \<Rightarrow> cell) \<Rightarrow> nat \<Rightarrow> nat \<Rightarrow> nat \<Rightarrow> bool" where
  "ordered_but key C n hid idx \<longleftrightarrow>
     (\<forall>i < n. i mod 2 = hid \<longrightarrow> 2 \<le> i \<longrightarrow> i \<noteq> idx \<longrightarrow> par i \<noteq> idx \<longrightarrow>
        key (cell_tid (C (par i))) \<le> key (cell_tid (C i))) \<and>
     (\<forall>i < n. i mod 2 = hid \<longrightarrow> 2 \<le> i \<longrightarrow> par i = idx \<longrightarrow> 2 \<le> idx \<longrightarrow>
        key (cell_tid (C (par idx))) \<le> key (cell_tid (C i)))"

lemma holedE:
  assumes "holed C E n M hid idx" "i < n" "i mod 2 = hid" "i \<noteq> idx"
  obtains s where "s \<in> M" "C i = Cell_timer s" "E s = i"
  using assms unfolding holed_def by blast

lemma move_hole:
  assumes h: "holed C E n M hid idx" and s: "s \<in> M" "E s = j"
    and idx: "idx < n" "idx mod 2 = hid"
    and C': "\<And>i. i < n \<Longrightarrow> C' i = (if i = idx then Cell_timer s else C i)" and E': "E' = E(s := idx)"
  shows "holed C' E' n M hid j"
  unfolding holed_def
proof (intro conjI ballI allI impI)
  have js: "C j = Cell_timer s" "j < n" "j \<noteq> idx" using h s unfolding holed_def by blast+
  fix x assume x: "x \<in> M"
  have old: "E x < n" "E x mod 2 = hid" "E x \<noteq> idx" "C (E x) = Cell_timer x"
    using h x unfolding holed_def by blast+
  show "E' x < n" "E' x mod 2 = hid" using old idx by (simp_all add: E')
  show "E' x \<noteq> j" using js old s(2) by (cases "x = s") (auto simp: E')
  show "C' (E' x) = Cell_timer x" using C' idx old by (simp add: E')
next
  fix i assume i: "i < n" "i mod 2 = hid" "i \<noteq> j"
  show "\<exists>x \<in> M. C' i = Cell_timer x \<and> E' x = i"
  proof (cases "i = idx")
    case True
    then show ?thesis using s(1) C' [OF i(1)] by (auto simp: E')
  next
    case False
    then obtain x where "x \<in> M" "C i = Cell_timer x" "E x = i" using holedE [OF h i(1,2)] by blast
    then show ?thesis using False i(3) s(2) C' [OF i(1)] by (auto simp: E' intro!: bexI [of _ x])
  qed
qed

lemma fill_hole:
  assumes h: "holed C E n M hid idx" and t: "t \<notin> M" and idx: "idx < n" "idx mod 2 = hid"
    and C': "\<And>i. i < n \<Longrightarrow> C' i = (if i = idx then Cell_timer t else C i)" and E': "E' = E(t := idx)"
  shows "holed C' E' n (insert t M) hid n"
  unfolding holed_def
proof (intro conjI ballI allI impI)
  fix x assume x: "x \<in> insert t M"
  have "x \<noteq> t \<Longrightarrow> E x < n \<and> E x mod 2 = hid \<and> E x \<noteq> idx \<and> C (E x) = Cell_timer x"
    using h x unfolding holed_def by blast
  then show "E' x < n" "E' x mod 2 = hid" "E' x \<noteq> n" "C' (E' x) = Cell_timer x"
    using idx C' by (auto simp: E')
next
  fix i assume i: "i < n" "i mod 2 = hid" "i \<noteq> n"
  show "\<exists>x \<in> insert t M. C' i = Cell_timer x \<and> E' x = i"
  proof (cases "i = idx")
    case True
    then show ?thesis using C' [OF i(1)] by (simp add: E')
  next
    case False
    then obtain x where "x \<in> M" "C i = Cell_timer x" "E x = i" using holedE [OF h i(1,2)] by blast
    then show ?thesis using False t C' [OF i(1)] by (auto simp: E' intro!: bexI [of _ x])
  qed
qed

lemma orderedD:
  assumes "ordered_but key C n hid idx" "i < n" "i mod 2 = hid" "2 \<le> i"
  shows "i \<noteq> idx \<Longrightarrow> par i \<noteq> idx \<Longrightarrow> key (cell_tid (C (par i))) \<le> key (cell_tid (C i))"
    "par i = idx \<Longrightarrow> 2 \<le> idx \<Longrightarrow> key (cell_tid (C (par idx))) \<le> key (cell_tid (C i))"
  using assms unfolding ordered_but_def by blast+

lemma order_up:
  assumes o: "ordered_but key C n hid idx" and idx: "idx < n" "idx mod 2 = hid" "2 \<le> idx"
    and s: "C (par idx) = Cell_timer s" "key t < key s"
    and C': "\<And>i. i < n \<Longrightarrow> C' i = (if i = idx then Cell_timer s else C i)"
  shows "ordered_but key C' n hid (par idx)"
    "\<forall>i < n. i mod 2 = hid \<longrightarrow> 2 \<le> i \<longrightarrow> par i = par idx \<longrightarrow> key t \<le> key (cell_tid (C' i))"
proof -
  let ?p = "par idx"
  have p: "?p < idx" "?p < n" "?p mod 2 = hid" using par_less [OF idx(3)] idx par_mod by simp_all
  have K: "key (cell_tid (C' i)) = (if i = idx then key s else key (cell_tid (C i)))" if "i < n" for i
    using C' [OF that] by simp
  have sp: "key (cell_tid (C ?p)) = key s" using s(1) by simp
  show "ordered_but key C' n hid ?p"
    unfolding ordered_but_def
  proof (intro conjI allI impI)
    fix i assume i: "i < n" "i mod 2 = hid" "2 \<le> i" "i \<noteq> ?p" "par i \<noteq> ?p"
    have pi: "par i < n" using par_less [OF i(3)] i(1) by simp
    have ne: "i \<noteq> idx" using i(5) by blast
    show "key (cell_tid (C' (par i))) \<le> key (cell_tid (C' i))"
      using orderedD [OF o i(1-3)] ne sp idx(3) K [OF pi] K [OF i(1)] by (cases "par i = idx") simp_all
  next
    fix i assume i: "i < n" "i mod 2 = hid" "2 \<le> i" "par i = ?p" "2 \<le> ?p"
    have pp: "par ?p < ?p" "par ?p < n" using par_less [OF i(5)] p by simp_all
    have up: "key (cell_tid (C (par ?p))) \<le> key s"
      using orderedD(1) [OF o p(2,3) i(5)] p pp sp by simp
    show "key (cell_tid (C' (par ?p))) \<le> key (cell_tid (C' i))"
    proof (cases "i = idx")
      case True
      then show ?thesis using up K [OF i(1)] K [OF pp(2)] pp p by simp
    next
      case False
      have "key s \<le> key (cell_tid (C i))" using orderedD(1) [OF o i(1-3) False] i(4) p(1) sp by simp
      then show ?thesis using up False K [OF i(1)] K [OF pp(2)] pp p by simp
    qed
  qed
  show "\<forall>i < n. i mod 2 = hid \<longrightarrow> 2 \<le> i \<longrightarrow> par i = ?p \<longrightarrow> key t \<le> key (cell_tid (C' i))"
  proof (intro allI impI)
    fix i assume i: "i < n" "i mod 2 = hid" "2 \<le> i" "par i = ?p"
    show "key t \<le> key (cell_tid (C' i))"
    proof (cases "i = idx")
      case True
      then show ?thesis using K [OF i(1)] s(2) by simp
    next
      case False
      have "key s \<le> key (cell_tid (C i))" using orderedD(1) [OF o i(1-3) False] i(4) p(1) sp by simp
      then show ?thesis using False K [OF i(1)] s(2) by simp
    qed
  qed
qed

lemma order_down:
  assumes o: "ordered_but key C n hid idx" and idx: "idx < n" "idx mod 2 = hid"
    and c: "c < n" "c mod 2 = hid" "2 \<le> c" "par c = idx" and s: "C c = Cell_timer s" "key s \<le> key t"
    and min: "\<And>i. i < n \<Longrightarrow> i mod 2 = hid \<Longrightarrow> 2 \<le> i \<Longrightarrow> par i = idx \<Longrightarrow> key s \<le> key (cell_tid (C i))"
    and C': "\<And>i. i < n \<Longrightarrow> C' i = (if i = idx then Cell_timer s else C i)"
  shows "ordered_but key C' n hid c" "key (cell_tid (C' (par c))) \<le> key t"
proof -
  have ic: "idx < c" using par_less [OF c(3)] c(4) by simp
  have K: "key (cell_tid (C' i)) = (if i = idx then key s else key (cell_tid (C i)))" if "i < n" for i
    using C' [OF that] by simp
  have sc: "key (cell_tid (C c)) = key s" using s(1) by simp
  show "ordered_but key C' n hid c"
    unfolding ordered_but_def
  proof (intro conjI allI impI)
    fix i assume i: "i < n" "i mod 2 = hid" "2 \<le> i" "i \<noteq> c" "par i \<noteq> c"
    have pi: "par i < i" "par i < n" using par_less [OF i(3)] i(1) by simp_all
    consider "i = idx" | "i \<noteq> idx" "par i = idx" | "i \<noteq> idx" "par i \<noteq> idx" by blast
    then show "key (cell_tid (C' (par i))) \<le> key (cell_tid (C' i))"
    proof cases
      case 1
      then show ?thesis
        using orderedD(2) [OF o c(1-3)] c(4) i(3) K [OF i(1)] K [OF pi(2)] pi sc by simp
    next
      case 2
      then show ?thesis using min [OF i(1-3) 2(2)] K [OF i(1)] K [OF pi(2)] by simp
    next
      case 3
      then show ?thesis using orderedD(1) [OF o i(1-3) 3] K [OF i(1)] K [OF pi(2)] by simp
    qed
  next
    fix i assume i: "i < n" "i mod 2 = hid" "2 \<le> i" "par i = c" "2 \<le> c"
    have ne: "i \<noteq> idx" using par_less [OF i(3)] i(4) ic by simp
    then show "key (cell_tid (C' (par c))) \<le> key (cell_tid (C' i))"
      using orderedD(1) [OF o i(1-3) ne] i(4) ic sc c(4) K [OF i(1)] K [OF idx(1)] by simp
  qed
  show "key (cell_tid (C' (par c))) \<le> key t" using c(4) K [OF idx(1)] s(2) by simp
qed

lemma order_fill:
  assumes o: "ordered_but key C n hid idx" and idx: "idx < n" "idx mod 2 = hid"
    and up: "2 \<le> idx \<Longrightarrow> key (cell_tid (C (par idx))) \<le> key t"
    and down: "\<And>i. i < n \<Longrightarrow> i mod 2 = hid \<Longrightarrow> 2 \<le> i \<Longrightarrow> par i = idx \<Longrightarrow> key t \<le> key (cell_tid (C i))"
    and C': "\<And>i. i < n \<Longrightarrow> C' i = (if i = idx then Cell_timer t else C i)"
  shows "ordered_but key C' n hid n"
  unfolding ordered_but_def
proof (intro conjI allI impI)
  have K: "key (cell_tid (C' i)) = (if i = idx then key t else key (cell_tid (C i)))" if "i < n" for i
    using C' [OF that] by simp
  fix i assume i: "i < n" "i mod 2 = hid" "2 \<le> i"
  have pi: "par i < i" "par i < n" using par_less [OF i(3)] i(1) by simp_all
  consider "i = idx" | "i \<noteq> idx" "par i = idx" | "i \<noteq> idx" "par i \<noteq> idx" by blast
  then show "key (cell_tid (C' (par i))) \<le> key (cell_tid (C' i))"
  proof cases
    case 1
    then show ?thesis using up i(3) pi K [OF i(1)] K [OF pi(2)] by simp
  next
    case 2
    then show ?thesis using down [OF i 2(2)] K [OF i(1)] K [OF pi(2)] by simp
  next
    case 3
    then show ?thesis using orderedD(1) [OF o i 3] K [OF i(1)] K [OF pi(2)] by simp
  qed
  { assume "par i = n"
    then have False using pi by simp
    then show "key (cell_tid (C' (par n))) \<le> key (cell_tid (C' i))" .. }
qed

text \<open>The root of an ordered heap has the smallest key.\<close>

lemma root_min:
  assumes h: "holed C E n M hid n" and o: "ordered_but key C n hid n"
    and r: "hid < 2" "hid < n" and s: "s \<in> M"
  shows "key (cell_tid (C hid)) \<le> key s"
proof -
  have "i < n \<Longrightarrow> i mod 2 = hid \<Longrightarrow> key (cell_tid (C hid)) \<le> key (cell_tid (C i))" for i
  proof (induction i rule: less_induct)
    case (less i)
    show ?case
    proof (cases "2 \<le> i")
      case True
      have p: "par i < i" "par i < n" "par i mod 2 = hid"
        using par_less [OF True] less.prems par_mod by simp_all
      have "key (cell_tid (C hid)) \<le> key (cell_tid (C (par i)))" by (rule less.IH [OF p])
      also have "\<dots> \<le> key (cell_tid (C i))"
        using orderedD(1) [OF o less.prems True] less.prems(1) p(2) by simp
      finally show ?thesis .
    next
      case False
      then have "i = hid" using less.prems(2) by presburger
      then show ?thesis by simp
    qed
  qed
  moreover have "E s < n" "E s mod 2 = hid" "C (E s) = Cell_timer s"
    using h s unfolding holed_def by blast+
  ultimately show ?thesis by (metis cell_tid.simps(1))
qed

section \<open>Sifting in the model\<close>

definition entry :: "timers \<Rightarrow> nat \<Rightarrow> tid \<Rightarrow> nat" where
  "entry tm hid s = dt_heap_entry (the (tm s)) hid"

definition tkey :: "timers \<Rightarrow> nat \<Rightarrow> tid \<Rightarrow> u64" where
  "tkey tm hid s = heap_key (dt_timer (the (tm s))) hid"

definition forget_entry :: "dispatch_timer_source_refs_s \<Rightarrow> dispatch_timer_source_refs_s" where
  "forget_entry dt = dt\<lparr>dt_heap_entry := (\<lambda>_. 0)\<rparr>"

text \<open>What a sift in heap \<open>hid\<close> leaves alone.\<close>

definition frame :: "(nat \<Rightarrow> addr) \<Rightarrow> nat \<Rightarrow> heap_state \<Rightarrow> heap_state \<Rightarrow> bool" where
  "frame A hid h h' \<longleftrightarrow>
     layout A (fst h') \<and> dth_segments (fst h') = dth_segments (fst h) \<and>
     dth_count (fst h') = dth_count (fst h) \<and> dth_max_qos (fst h') = dth_max_qos (fst h) \<and>
     dth_armed (fst h') = dth_armed (fst h) \<and> dth_dirty_bits (fst h') = dth_dirty_bits (fst h) \<and>
     (dth_needs_program (fst h) \<longrightarrow> dth_needs_program (fst h')) \<and>
     (\<forall>i < capacity (dth_segments (fst h)). i mod 2 \<noteq> hid \<longrightarrow>
        cell_at A (fst h') i = cell_at A (fst h) i) \<and>
     (\<forall>s. map_option forget_entry (snd h' s) = map_option forget_entry (snd h s)) \<and>
     (\<forall>s k. k \<noteq> hid \<longrightarrow> entry (snd h') k s = entry (snd h) k s)"

lemma frame_refl: "layout A (fst h) \<Longrightarrow> frame A hid h h"
  by (simp add: frame_def)

lemma frame_trans: "frame A hid h h' \<Longrightarrow> frame A hid h' h'' \<Longrightarrow> frame A hid h h''"
  unfolding frame_def by simp

lemma frame_tm:
  assumes "frame A hid h h'"
  shows "snd h' s = None \<longleftrightarrow> snd h s = None" "tkey (snd h') k = tkey (snd h) k"
proof -
  have e: "map_option forget_entry (snd h' s) = map_option forget_entry (snd h s)" for s
    using assms by (simp add: frame_def)
  show "snd h' s = None \<longleftrightarrow> snd h s = None" by (metis e map_option_is_None)
  show "tkey (snd h') k = tkey (snd h) k"
  proof
    fix s
    have t: "dt_timer (forget_entry dt) = dt_timer dt" for dt by (simp add: forget_entry_def)
    show "tkey (snd h') k s = tkey (snd h) k s"
    proof (cases "snd h s")
      case None
      then show ?thesis using e [of s] by (simp add: tkey_def)
    next
      case (Some a)
      then obtain b where b: "snd h' s = Some b" "forget_entry b = forget_entry a"
        using e [of s] by (cases "snd h' s") simp_all
      have "dt_timer b = dt_timer a" using arg_cong [OF b(2), of dt_timer] by (simp only: t)
      then show ?thesis using Some b(1) by (simp add: tkey_def)
    qed
  qed
qed

lemma heap_set_ok:
  assumes lay: "layout A (fst h)" and idx: "idx < capacity (dth_segments (fst h))"
    and s: "snd h s \<noteq> None"
  shows "\<exists>h'. dispatch_timer_heap_set h (slot_of A idx) s idx = Inr h' \<and> frame A (idx mod 2) h h' \<and>
    (\<forall>i < capacity (dth_segments (fst h)).
       cell_at A (fst h') i = (if i = idx then Cell_timer s else cell_at A (fst h) i)) \<and>
    entry (snd h') (idx mod 2) = (entry (snd h) (idx mod 2))(s := idx) \<and>
    (idx < 2 \<longrightarrow> dth_needs_program (fst h'))"
proof -
  obtain dth tm where h: "h = (dth, tm)" by (cases h)
  obtain dt where dt: "tm s = Some dt" using s h by auto
  define dth1 where "dth1 = (if idx < 2 then dth\<lparr>dth_needs_program := True\<rparr> else dth)"
  have lay1: "layout A dth1" using lay h by (simp add: layout_def dth1_def)
  have seg1: "dth_segments dth1 = dth_segments dth" by (simp add: dth1_def)
  have cell1: "cell_at A dth1 i = cell_at A dth i" for i
    by (simp add: cell_at_def dth1_def split: slot.split)
  obtain dth2 where w: "slot_write dth1 (slot_of A idx) (Cell_timer s) = Inr dth2" "layout A dth2"
    "\<forall>i < capacity (dth_segments dth1). cell_at A dth2 i = (if i = idx then Cell_timer s else cell_at A dth1 i)"
    "\<exists>m mem. dth2 = dth1\<lparr>dth_min := m, dth_mem := mem\<rparr>"
    using slot_write_ok [OF lay1, of idx "Cell_timer s"] idx h seg1 by auto
  have same: "dth_segments dth2 = dth_segments dth" "dth_count dth2 = dth_count dth"
    "dth_max_qos dth2 = dth_max_qos dth" "dth_armed dth2 = dth_armed dth"
    "dth_dirty_bits dth2 = dth_dirty_bits dth" "dth_needs_program dth \<longrightarrow> dth_needs_program dth2"
    "idx < 2 \<longrightarrow> dth_needs_program dth2"
    using w(4) by (cases "idx < 2"; auto simp: dth1_def)+
  define tm2 where "tm2 = tm(s \<mapsto> dt\<lparr>dt_heap_entry := (dt_heap_entry dt)(DTH_HEAP_ID idx := idx)\<rparr>)"
  have run: "dispatch_timer_heap_set h (slot_of A idx) s idx = Inr (dth2, tm2)"
    using w(1) dt h by (simp add: dth1_def tm2_def timer_lookup_def Let_def)
  have e: "entry tm2 k x = (if x = s \<and> k = idx mod 2 then idx else entry tm k x)" for k x
    using dt by (simp add: entry_def tm2_def DTH_HEAP_ID_def)
  have "map_option forget_entry (tm2 x) = map_option forget_entry (tm x)" for x
    using dt by (simp add: tm2_def forget_entry_def)
  then have "frame A (idx mod 2) h (dth2, tm2)"
    using same w(2,3) idx h seg1 cell1 by (auto simp: frame_def e)
  moreover have "entry tm2 (idx mod 2) = (entry tm (idx mod 2))(s := idx)"
    by (rule ext) (simp add: e)
  ultimately show ?thesis using run w(3) h seg1 cell1 same by auto
qed

text \<open>Timer \<open>t\<close> is to be put into heap \<open>hid\<close>, whose hole is at \<open>idx\<close>.\<close>

definition sift_inv :: "(nat \<Rightarrow> addr) \<Rightarrow> nat \<Rightarrow> tid \<Rightarrow> tid set \<Rightarrow> heap_state \<Rightarrow> nat \<Rightarrow> bool" where
  "sift_inv A hid t M h idx \<longleftrightarrow>
     layout A (fst h) \<and> dth_count (fst h) \<le> capacity (dth_segments (fst h)) \<and>
     dth_count (fst h) < 2147483647 \<and> idx < dth_count (fst h) \<and> idx mod 2 = hid \<and>
     holed (cell_at A (fst h)) (entry (snd h) hid) (dth_count (fst h)) M hid idx \<and>
     ordered_but (tkey (snd h) hid) (cell_at A (fst h)) (dth_count (fst h)) hid idx \<and>
     (\<forall>s \<in> insert t M. snd h s \<noteq> None)"

definition children_ok :: "(nat \<Rightarrow> addr) \<Rightarrow> nat \<Rightarrow> tid \<Rightarrow> heap_state \<Rightarrow> nat \<Rightarrow> bool" where
  "children_ok A hid t h idx \<longleftrightarrow>
     (\<forall>i < dth_count (fst h). i mod 2 = hid \<longrightarrow> 2 \<le> i \<longrightarrow> par i = idx \<longrightarrow>
        tkey (snd h) hid t \<le> tkey (snd h) hid (cell_tid (cell_at A (fst h) i)))"

definition parent_ok :: "(nat \<Rightarrow> addr) \<Rightarrow> nat \<Rightarrow> tid \<Rightarrow> heap_state \<Rightarrow> nat \<Rightarrow> bool" where
  "parent_ok A hid t h idx \<longleftrightarrow>
     (2 \<le> idx \<longrightarrow> tkey (snd h) hid (cell_tid (cell_at A (fst h) (par idx))) \<le> tkey (snd h) hid t)"

lemma sift_invD:
  assumes "sift_inv A hid t M h idx"
  shows "layout A (fst h)" "dth_count (fst h) \<le> capacity (dth_segments (fst h))"
    "dth_count (fst h) < 2147483647" "idx < dth_count (fst h)" "idx mod 2 = hid"
    "holed (cell_at A (fst h)) (entry (snd h) hid) (dth_count (fst h)) M hid idx"
    "ordered_but (tkey (snd h) hid) (cell_at A (fst h)) (dth_count (fst h)) hid idx"
    "s \<in> insert t M \<Longrightarrow> snd h s \<noteq> None"
  using assms unfolding sift_inv_def by blast+

lemma sift_cell:
  assumes inv: "sift_inv A hid t M h idx" and i: "i < dth_count (fst h)" "i mod 2 = hid" "i \<noteq> idx"
  obtains s dt where "s \<in> M" "cell_at A (fst h) i = Cell_timer s" "entry (snd h) hid s = i"
    "snd h s = Some dt" "dispatch_timer_heap_get_slot (fst h) i = Inr (slot_of A i)"
    "slot_timer (fst h) (slot_of A i) = Inr s" "timer_lookup (snd h) s = Inr dt"
    "heap_key (dt_timer dt) hid = tkey (snd h) hid s"
proof -
  have cap: "i < capacity (dth_segments (fst h))" using i(1) sift_invD(2) [OF inv] by simp
  obtain s where s: "s \<in> M" "cell_at A (fst h) i = Cell_timer s" "entry (snd h) hid s = i"
    using holedE [OF sift_invD(6) [OF inv] i] by blast
  obtain dt where dt: "snd h s = Some dt" using sift_invD(8) [OF inv, of s] s(1) by auto
  show ?thesis
    using that [OF s dt] get_slot_ok [OF sift_invD(1) [OF inv] cap]
      slot_read_ok [OF sift_invD(1) [OF inv] cap] s(2) dt
    by (simp add: slot_timer_def timer_lookup_def tkey_def)
qed

lemma sift_move:
  assumes inv: "sift_inv A hid t M h idx"
    and s: "s \<in> M" "entry (snd h) hid s = j" "j \<noteq> idx"
  shows "\<exists>h'. dispatch_timer_heap_set h (slot_of A idx) s idx = Inr h' \<and> frame A hid h h' \<and>
    (\<forall>i < dth_count (fst h).
       cell_at A (fst h') i = (if i = idx then Cell_timer s else cell_at A (fst h) i)) \<and>
    (ordered_but (tkey (snd h) hid) (cell_at A (fst h')) (dth_count (fst h)) hid j \<longrightarrow>
     sift_inv A hid t M h' j)"
proof -
  note i = sift_invD [OF inv]
  have idx: "idx < capacity (dth_segments (fst h))" using i(2,4) by simp
  obtain h' where h': "dispatch_timer_heap_set h (slot_of A idx) s idx = Inr h'" "frame A hid h h'"
    "\<forall>k < capacity (dth_segments (fst h)).
       cell_at A (fst h') k = (if k = idx then Cell_timer s else cell_at A (fst h) k)"
    "entry (snd h') hid = (entry (snd h) hid)(s := idx)"
    using heap_set_ok [OF i(1) idx, of s] i(5,8) s(1) by auto
  have C': "cell_at A (fst h') k = (if k = idx then Cell_timer s else cell_at A (fst h) k)"
    if "k < dth_count (fst h)" for k using h'(3) that i(2) by simp
  have holed: "holed (cell_at A (fst h')) (entry (snd h') hid) (dth_count (fst h)) M hid j"
    using move_hole [OF i(6) s(1,2) i(4,5)] C' h'(4) by blast
  have j: "j < dth_count (fst h)" "j mod 2 = hid" using i(6) s(1,2) unfolding holed_def by blast+
  have "sift_inv A hid t M h' j"
    if "ordered_but (tkey (snd h) hid) (cell_at A (fst h')) (dth_count (fst h)) hid j"
    using that h'(2) holed j i(2,3,8) frame_tm [OF h'(2)] unfolding sift_inv_def frame_def by simp
  then show ?thesis using h'(1,2) C' by blast
qed

lemma sift_up_ok:
  assumes "sift_inv A hid t M h idx" "idx < fuel" "moved \<longrightarrow> children_ok A hid t h idx"
  shows "\<exists>h' idx' moved'. sift_up fuel h hid t (slot_of A idx) idx moved =
      Inr (h', slot_of A idx', idx', moved') \<and> frame A hid h h' \<and> sift_inv A hid t M h' idx' \<and>
    (moved' \<longrightarrow> children_ok A hid t h' idx') \<and> parent_ok A hid t h' idx'"
  using assms
proof (induction fuel arbitrary: h idx moved)
  case (Suc fuel)
  note inv = Suc.prems(1)
  note i = sift_invD [OF inv]
  show ?case
  proof (cases "2 \<le> idx")
    case False
    then show ?thesis
      using inv Suc.prems(3) frame_refl [OF i(1)] by (auto simp: parent_ok_def)
  next
    case True
    let ?p = "par idx"
    have p: "?p < dth_count (fst h)" "?p mod 2 = hid" "?p \<noteq> idx"
      using par_less [OF True] i(4,5) par_mod by simp_all
    obtain s dt where s: "s \<in> M" "cell_at A (fst h) ?p = Cell_timer s" "entry (snd h) hid s = ?p"
      "snd h s = Some dt" "dispatch_timer_heap_get_slot (fst h) ?p = Inr (slot_of A ?p)"
      "slot_timer (fst h) (slot_of A ?p) = Inr s" "timer_lookup (snd h) s = Inr dt"
      "heap_key (dt_timer dt) hid = tkey (snd h) hid s"
      by (rule sift_cell [OF inv p])
    obtain d where d: "snd h t = Some d" using i(8) [of t] by auto
    then have d': "timer_lookup (snd h) t = Inr d" "heap_key (dt_timer d) hid = tkey (snd h) hid t"
      by (simp_all add: timer_lookup_def tkey_def)
    show ?thesis
    proof (cases "tkey (snd h) hid s \<le> tkey (snd h) hid t")
      case le: True
      then show ?thesis
        using True s d' inv Suc.prems(3) frame_refl [OF i(1)]
        by (auto simp: Let_def parent_ok_def simp del: heap_key.simps)
    next
      case gt: False
      then have lt: "tkey (snd h) hid t < tkey (snd h) hid s" by simp
      obtain h1 where h1: "dispatch_timer_heap_set h (slot_of A idx) s idx = Inr h1" "frame A hid h h1"
        "\<forall>k < dth_count (fst h).
           cell_at A (fst h1) k = (if k = idx then Cell_timer s else cell_at A (fst h) k)"
        "ordered_but (tkey (snd h) hid) (cell_at A (fst h1)) (dth_count (fst h)) hid ?p \<longrightarrow>
         sift_inv A hid t M h1 ?p"
        using sift_move [OF inv s(1,3) p(3)] by blast
      note up = order_up [OF i(7) i(4,5) True s(2) lt, of "cell_at A (fst h1)"]
      have inv1: "sift_inv A hid t M h1 ?p" using h1(3,4) up(1) by blast
      have "dth_count (fst h1) = dth_count (fst h)" using h1(2) by (simp add: frame_def)
      then have "children_ok A hid t h1 ?p"
        using up(2) h1(3) frame_tm(2) [OF h1(2)] by (simp add: children_ok_def)
      moreover have "?p < fuel" using par_less [OF True] Suc.prems(2) by simp
      ultimately obtain h' idx' moved' where
        "sift_up fuel h1 hid t (slot_of A ?p) ?p True = Inr (h', slot_of A idx', idx', moved')"
        "frame A hid h1 h'" "sift_inv A hid t M h' idx'"
        "moved' \<longrightarrow> children_ok A hid t h' idx'" "parent_ok A hid t h' idx'"
        using Suc.IH [OF inv1, of True] by blast
      then show ?thesis
        using True gt s d' h1(1) frame_trans [OF h1(2)]
        by (auto simp: Let_def simp del: heap_key.simps)
    qed
  qed
qed simp

lemma left_child:
  assumes "idx < n" "n < 2147483647"
  defines "c \<equiv> dispatch_timer_heap_left_child idx"
  shows "2 \<le> c" "c mod 2 = idx mod 2" "par c = idx" "par (c + 2) = idx" "idx < c"
    "2 \<le> i \<Longrightarrow> par i = idx \<Longrightarrow> i = c \<or> i = c + 2"
proof -
  have c: "c = 2 * idx + 2 - idx mod 2" unfolding c_def using assms(1,2) by (intro left_eq) simp
  obtain k b where k: "idx = 2 * k + b" "b < 2" using that [of "idx div 2" "idx mod 2"] by simp
  have m: "idx mod 2 = b" using k by simp
  have eq: "c = 4 * k + b + 2" unfolding c m using k by simp
  show c2: "2 \<le> c" and "idx < c" using eq k by simp_all
  have "c = 2 * (2 * k + 1) + b" using eq by simp
  then show "c mod 2 = idx mod 2" unfolding m using k(2) by (simp only: mod_mult_self4 mod_less)
  show "par c = idx" using par_iff_child [OF c2, of idx] c by blast
  have "2 \<le> c + 2" "c + 2 = 2 * idx + 2 - idx mod 2 + 2" using c by simp_all
  then show "par (c + 2) = idx" using par_iff_child [of "c + 2" idx] by blast
  show "2 \<le> i \<Longrightarrow> par i = idx \<Longrightarrow> i = c \<or> i = c + 2" using par_iff_child [of i idx] unfolding c by blast
qed

lemma sift_down_ok:
  assumes "sift_inv A hid t M h idx" "dth_count (fst h) < fuel + idx" "parent_ok A hid t h idx"
  shows "\<exists>h' idx'. sift_down fuel h hid t (slot_of A idx) idx = Inr (h', slot_of A idx', idx') \<and>
    frame A hid h h' \<and> sift_inv A hid t M h' idx' \<and>
    children_ok A hid t h' idx' \<and> parent_ok A hid t h' idx'"
  using assms
proof (induction fuel arbitrary: h idx)
  case 0
  then show ?case using sift_invD(4) by fastforce
next
  case (Suc fuel)
  note inv = Suc.prems(1)
  note i = sift_invD [OF inv]
  let ?c = "dispatch_timer_heap_left_child idx" and ?n = "dth_count (fst h)"
  let ?key = "tkey (snd h) hid" and ?C = "cell_at A (fst h)"
  note c = left_child [OF i(4,3)]
  show ?case
  proof (cases "?c < ?n")
    case False
    then have "children_ok A hid t h idx" using c(6) by (fastforce simp: children_ok_def)
    then show ?thesis using False inv Suc.prems(3) frame_refl [OF i(1)] by auto
  next
    case cn: True
    have cm: "?c mod 2 = hid" "?c \<noteq> idx" using c(2,5) i(5) by simp_all
    obtain s dt where s: "s \<in> M" "?C ?c = Cell_timer s" "entry (snd h) hid s = ?c"
      "snd h s = Some dt" "dispatch_timer_heap_get_slot (fst h) ?c = Inr (slot_of A ?c)"
      "slot_timer (fst h) (slot_of A ?c) = Inr s" "timer_lookup (snd h) s = Inr dt"
      "heap_key (dt_timer dt) hid = ?key s"
      by (rule sift_cell [OF inv cn cm])
    obtain d where d: "snd h t = Some d" using i(8) [of t] by auto
    then have d': "timer_lookup (snd h) t = Inr d" "heap_key (dt_timer d) hid = ?key t"
      by (simp_all add: timer_lookup_def tkey_def)
    obtain c' s' dt' where pick: "(if ?c + 2 < ?n then
          bindR (dispatch_timer_heap_get_slot (fst h) (?c + 2)) (\<lambda>rslot.
          bindR (slot_timer (fst h) rslot) (\<lambda>rt.
          bindR (timer_lookup (snd h) rt) (\<lambda>rdt.
          if heap_key (dt_timer dt) hid > heap_key (dt_timer rdt) hid
          then Inr (?c + 2, rslot, rt) else Inr (?c, slot_of A ?c, s))))
        else Inr (?c, slot_of A ?c, s)) = (Inr (c', slot_of A c', s') :: (nat \<times> slot \<times> tid) result)"
      "c' < ?n" "c' mod 2 = hid" "2 \<le> c'" "par c' = idx" "s' \<in> M" "?C c' = Cell_timer s'"
      "entry (snd h) hid s' = c'" "timer_lookup (snd h) s' = Inr dt'"
      "heap_key (dt_timer dt') hid = ?key s'"
      "\<forall>k < ?n. k mod 2 = hid \<longrightarrow> 2 \<le> k \<longrightarrow> par k = idx \<longrightarrow> ?key s' \<le> ?key (cell_tid (?C k))"
    proof (cases "?c + 2 < ?n")
      case True
      have rm: "(?c + 2) mod 2 = hid" "?c + 2 \<noteq> idx" using cm c(5) by simp_all
      obtain r rdt where r: "r \<in> M" "?C (?c + 2) = Cell_timer r" "entry (snd h) hid r = ?c + 2"
        "snd h r = Some rdt" "dispatch_timer_heap_get_slot (fst h) (?c + 2) = Inr (slot_of A (?c + 2))"
        "slot_timer (fst h) (slot_of A (?c + 2)) = Inr r" "timer_lookup (snd h) r = Inr rdt"
        "heap_key (dt_timer rdt) hid = ?key r"
        by (rule sift_cell [OF inv True rm])
      show ?thesis
      proof (cases "?key s > ?key r")
        case gt: True
        show ?thesis
        proof (rule that [of "?c + 2" r rdt])
          show "\<forall>k < ?n. k mod 2 = hid \<longrightarrow> 2 \<le> k \<longrightarrow> par k = idx \<longrightarrow> ?key r \<le> ?key (cell_tid (?C k))"
            using c(6) r(2) s(2) gt by force
        qed (use True r s gt rm c in \<open>simp_all del: heap_key.simps\<close>)
      next
        case le: False
        show ?thesis
        proof (rule that [of ?c s dt])
          show "\<forall>k < ?n. k mod 2 = hid \<longrightarrow> 2 \<le> k \<longrightarrow> par k = idx \<longrightarrow> ?key s \<le> ?key (cell_tid (?C k))"
            using c(6) r(2) s(2) le by force
        qed (use True r s le cn cm c in \<open>simp_all del: heap_key.simps\<close>)
      qed
    next
      case False
      show ?thesis
      proof (rule that [of ?c s dt])
        show "\<forall>k < ?n. k mod 2 = hid \<longrightarrow> 2 \<le> k \<longrightarrow> par k = idx \<longrightarrow> ?key s \<le> ?key (cell_tid (?C k))"
          using c(6) s(2) False by force
      qed (use False s cn cm c in \<open>simp_all del: heap_key.simps\<close>)
    qed
    have step: "sift_down (Suc fuel) h hid t (slot_of A idx) idx =
        (if ?key t \<le> ?key s' then Inr (h, slot_of A idx, idx)
         else bindR (dispatch_timer_heap_set h (slot_of A idx) s' idx) (\<lambda>h'.
           sift_down fuel h' hid t (slot_of A c') c'))"
      unfolding sift_down.simps(2) Let_def if_P [OF cn] s(5,6,7) bindR.simps pick(1) prod.case
        pick(9) d' pick(10) ..
    show ?thesis
    proof (cases "?key t \<le> ?key s'")
      case True
      then have "children_ok A hid t h idx"
        using pick(11) order_trans unfolding children_ok_def by blast
      then show ?thesis using True step inv Suc.prems(3) frame_refl [OF i(1)] by auto
    next
      case False
      then have lt: "?key s' \<le> ?key t" by simp
      have ne: "c' \<noteq> idx" using par_less [OF pick(4)] pick(5) by simp
      obtain h1 where h1: "dispatch_timer_heap_set h (slot_of A idx) s' idx = Inr h1" "frame A hid h h1"
        "\<forall>k < ?n. cell_at A (fst h1) k = (if k = idx then Cell_timer s' else ?C k)"
        "ordered_but ?key (cell_at A (fst h1)) ?n hid c' \<longrightarrow> sift_inv A hid t M h1 c'"
        using sift_move [OF inv pick(6,8) ne] by blast
      note down = order_down [OF i(7) i(4,5) pick(2-5,7) lt, of "cell_at A (fst h1)"]
      have inv1: "sift_inv A hid t M h1 c'" using h1(3,4) down(1) pick(11) by blast
      have "parent_ok A hid t h1 c'"
        using down(2) pick(11) h1(3) frame_tm(2) [OF h1(2)] by (simp add: parent_ok_def)
      moreover have "dth_count (fst h1) < fuel + c'"
        using h1(2) Suc.prems(2) par_less [OF pick(4)] pick(5) by (simp add: frame_def)
      ultimately obtain h' idx' where
        "sift_down fuel h1 hid t (slot_of A c') c' = Inr (h', slot_of A idx', idx')"
        "frame A hid h1 h'" "sift_inv A hid t M h' idx'"
        "children_ok A hid t h' idx'" "parent_ok A hid t h' idx'"
        using Suc.IH [OF inv1] by blast
      then show ?thesis using step False h1(1) frame_trans [OF h1(2)] by auto
    qed
  qed
qed

text \<open>Heap \<open>hid\<close> holds exactly the timers \<open>M\<close>, in order.\<close>

definition heap_ok_for :: "(nat \<Rightarrow> addr) \<Rightarrow> nat \<Rightarrow> tid set \<Rightarrow> heap_state \<Rightarrow> bool" where
  "heap_ok_for A hid M h \<longleftrightarrow>
     holed (cell_at A (fst h)) (entry (snd h) hid) (dth_count (fst h)) M hid (dth_count (fst h)) \<and>
     ordered_but (tkey (snd h) hid) (cell_at A (fst h)) (dth_count (fst h)) hid (dth_count (fst h))"

lemma place_ok:
  assumes inv: "sift_inv A hid t M h idx" and t: "t \<notin> M"
    and c: "children_ok A hid t h idx" and p: "parent_ok A hid t h idx"
  shows "\<exists>h'. dispatch_timer_heap_set h (slot_of A idx) t idx = Inr h' \<and> frame A hid h h' \<and>
    heap_ok_for A hid (insert t M) h'"
proof -
  note i = sift_invD [OF inv]
  have idx: "idx < capacity (dth_segments (fst h))" using i(2,4) by simp
  obtain h' where h': "dispatch_timer_heap_set h (slot_of A idx) t idx = Inr h'" "frame A hid h h'"
    "\<forall>k < capacity (dth_segments (fst h)).
       cell_at A (fst h') k = (if k = idx then Cell_timer t else cell_at A (fst h) k)"
    "entry (snd h') hid = (entry (snd h) hid)(t := idx)"
    using heap_set_ok [OF i(1) idx, of t] i(5,8) by auto
  have C': "cell_at A (fst h') k = (if k = idx then Cell_timer t else cell_at A (fst h) k)"
    if "k < dth_count (fst h)" for k using h'(3) that i(2) by simp
  have "holed (cell_at A (fst h')) (entry (snd h') hid) (dth_count (fst h)) (insert t M) hid
      (dth_count (fst h))"
    by (rule fill_hole [OF i(6) t i(4,5) C' h'(4)])
  moreover have "ordered_but (tkey (snd h) hid) (cell_at A (fst h')) (dth_count (fst h)) hid
      (dth_count (fst h))"
  proof (rule order_fill [OF i(7) i(4,5) _ _ C'])
    show "2 \<le> idx \<Longrightarrow>
        tkey (snd h) hid (cell_tid (cell_at A (fst h) (par idx))) \<le> tkey (snd h) hid t"
      using p by (simp add: parent_ok_def)
    show "tkey (snd h) hid t \<le> tkey (snd h) hid (cell_tid (cell_at A (fst h) k))"
      if "k < dth_count (fst h)" "k mod 2 = hid" "2 \<le> k" "par k = idx" for k
      using c that unfolding children_ok_def by blast
  qed
  moreover have "dth_count (fst h') = dth_count (fst h)" using h'(2) by (simp add: frame_def)
  ultimately show ?thesis
    using h'(1,2) frame_tm(2) [OF h'(2)] by (simp add: heap_ok_for_def)
qed

lemma resift_ok:
  assumes inv: "sift_inv A hid t M h idx" and t: "t \<notin> M"
  shows "\<exists>h'. dispatch_timer_heap_resift h t idx = Inr h' \<and> frame A hid h h' \<and>
    heap_ok_for A hid (insert t M) h'"
proof -
  note i = sift_invD [OF inv]
  have slot: "dispatch_timer_heap_get_slot (fst h) idx = Inr (slot_of A idx)"
    using get_slot_ok [OF i(1)] i(2,4) by simp
  obtain h1 idx1 moved where up: "sift_up (Suc idx) h hid t (slot_of A idx) idx False =
      Inr (h1, slot_of A idx1, idx1, moved)" "frame A hid h h1" "sift_inv A hid t M h1 idx1"
    "moved \<longrightarrow> children_ok A hid t h1 idx1" "parent_ok A hid t h1 idx1"
    using sift_up_ok [OF inv, of "Suc idx" False] by auto
  have start: "dispatch_timer_heap_resift h t idx =
      (if moved then dispatch_timer_heap_set h1 (slot_of A idx1) t idx1
       else bindR (sift_down (Suc (dth_count (fst h1))) h1 hid t (slot_of A idx1) idx1)
             (\<lambda>(h2, slot2, idx2). dispatch_timer_heap_set h2 slot2 t idx2))"
    unfolding dispatch_timer_heap_resift_def Let_def DTH_HEAP_ID_def i(5) slot bindR.simps up(1)
      prod.case ..
  show ?thesis
  proof (cases moved)
    case True
    then show ?thesis
      using start place_ok [OF up(3) t _ up(5)] up(4) frame_trans [OF up(2)] by auto
  next
    case False
    have "dth_count (fst h1) < Suc (dth_count (fst h1)) + idx1" by simp
    from sift_down_ok [OF up(3) this up(5)]
    obtain h2 idx2 where down: "sift_down (Suc (dth_count (fst h1))) h1 hid t (slot_of A idx1) idx1 =
        Inr (h2, slot_of A idx2, idx2)" "frame A hid h1 h2" "sift_inv A hid t M h2 idx2"
      "children_ok A hid t h2 idx2" "parent_ok A hid t h2 idx2" by blast
    obtain h3 where "dispatch_timer_heap_set h2 (slot_of A idx2) t idx2 = Inr h3" "frame A hid h2 h3"
      "heap_ok_for A hid (insert t M) h3"
      using place_ok [OF down(3) t down(4,5)] by blast
    then show ?thesis
      using start False down(1) frame_trans [OF up(2) frame_trans [OF down(2)]]
      by (auto simp del: dispatch_timer_heap_set.simps sift_down.simps)
  qed
qed

end
