(* ===== verification/Timer_Heap_Ops.thy ===== *)
theory Timer_Heap_Ops
  imports Timer_Order
begin

text \<open>
  The invariant of a timer heap that holds the timers \<open>M\<close>, and its preservation by
  insertion, removal and update: both heaps stay ordered, every timer knows its two slots,
  and the number of segments is the smallest one that fits.
\<close>

section \<open>The invariant\<close>

definition tight :: "dispatch_timer_heap_s \<Rightarrow> bool" where
  "tight dth \<longleftrightarrow> even (dth_count dth) \<and> dth_count dth \<le> capacity (dth_segments dth) \<and>
     (0 < dth_segments dth \<longrightarrow> capacity (dth_segments dth - 1) < dth_count dth) \<and>
     (dth_count dth = 0 \<longrightarrow> dth_min dth 0 = Cell_null \<and> dth_min dth 1 = Cell_null)"

definition timer_heap_inv :: "heap_state \<Rightarrow> tid set \<Rightarrow> bool" where
  "timer_heap_inv h M \<longleftrightarrow>
     (\<exists>A. layout A (fst h) \<and> tight (fst h) \<and> heap_ok_for A 0 M h \<and> heap_ok_for A 1 M h \<and>
        (\<forall>s \<in> M. snd h s \<noteq> None))"

text \<open>The largest number of entries: the capacity of 28 segments.\<close>

abbreviation (input) MAX_ENTRIES :: nat where "MAX_ENTRIES \<equiv> 1073741799"

lemma capacity_28: "capacity 28 = MAX_ENTRIES"
  by (simp add: capacity_def)

lemma capacity_less_28: "n \<le> 28 \<Longrightarrow> capacity n < MAX_ENTRIES \<Longrightarrow> n \<le> 27"
  using capacity_28 by (cases "n = 28") auto

lemma capacity_le_28:
  assumes "n \<le> 28"
  shows "capacity n \<le> MAX_ENTRIES"
proof -
  have "capacity m \<le> capacity (m + k)" for m k
  proof (induction k)
    case (Suc k)
    then show ?case using capacity_mono_Suc [of "m + k"] by simp
  qed simp
  from this [of n "28 - n"] show ?thesis using assms capacity_28 by simp
qed

section \<open>Changing the view\<close>

lemma holed_cong:
  assumes "\<And>i. i < n \<Longrightarrow> i mod 2 = hid \<Longrightarrow> C' i = C i" "\<And>s. s \<in> M \<Longrightarrow> E' s = E s"
    and "holed C E n M hid idx"
  shows "holed C' E' n M hid idx"
  unfolding holed_def
proof (intro conjI ballI allI impI)
  fix s assume s: "s \<in> M"
  have "E s < n" "E s mod 2 = hid" "E s \<noteq> idx" "C (E s) = Cell_timer s"
    using assms(3) s unfolding holed_def by blast+
  then show "E' s < n" "E' s mod 2 = hid" "E' s \<noteq> idx" "C' (E' s) = Cell_timer s"
    using assms(1,2) s by simp_all
next
  fix i assume "i < n" "i mod 2 = hid" "i \<noteq> idx"
  then obtain s where "s \<in> M" "C i = Cell_timer s" "E s = i" using holedE [OF assms(3)] by blast
  then show "\<exists>s \<in> M. C' i = Cell_timer s \<and> E' s = i"
    using assms(1,2) \<open>i < n\<close> \<open>i mod 2 = hid\<close> by auto
qed

lemma ordered_cong:
  assumes C: "\<And>i. i < n \<Longrightarrow> i mod 2 = hid \<Longrightarrow> C' i = C i" and idx: "idx < n \<and> idx mod 2 = hid \<or> n \<le> idx"
    and o: "ordered_but key C n hid idx"
  shows "ordered_but key C' n hid idx"
  unfolding ordered_but_def
proof (intro conjI allI impI)
  fix i assume i: "i < n" "i mod 2 = hid" "2 \<le> i"
  have p: "par i < i" "par i < n" "par i mod 2 = hid"
    using par_less [OF i(3)] i par_mod by simp_all
  { assume "i \<noteq> idx" "par i \<noteq> idx"
    then show "key (cell_tid (C' (par i))) \<le> key (cell_tid (C' i))"
      using orderedD(1) [OF o i] C i p by simp }
  { assume "par i = idx" "2 \<le> idx"
    then have "par idx < n" "par idx mod 2 = hid" using par_less [of idx] p par_mod by simp_all
    then show "key (cell_tid (C' (par idx))) \<le> key (cell_tid (C' i))"
      using orderedD(2) [OF o i \<open>par i = idx\<close> \<open>2 \<le> idx\<close>] C i by simp }
qed

text \<open>Taking a timer out of an ordered heap, whose key may have changed, leaves a hole.\<close>

lemma open_hole:
  assumes h: "holed C E n M hid n" and o: "ordered_but key C n hid n" and t: "t \<in> M"
    and key: "\<And>s. s \<noteq> t \<Longrightarrow> key' s = key s"
  shows "holed C E n (M - {t}) hid (E t)" "ordered_but key' C n hid (E t)"
    "E t < n" "E t mod 2 = hid"
proof -
  have t': "E t < n" "E t mod 2 = hid" "C (E t) = Cell_timer t" using h t unfolding holed_def by blast+
  then show "E t < n" "E t mod 2 = hid" by blast+
  have ne: "C i \<noteq> Cell_timer t" "\<exists>s \<in> M - {t}. C i = Cell_timer s \<and> E s = i"
    if i: "i < n" "i mod 2 = hid" "i \<noteq> E t" for i
  proof -
    have "i \<noteq> n" using i by simp
    then obtain s where s: "s \<in> M" "C i = Cell_timer s" "E s = i" using holedE [OF h i(1,2)] by blast
    then show "C i \<noteq> Cell_timer t" "\<exists>s \<in> M - {t}. C i = Cell_timer s \<and> E s = i" using i(3) by auto
  qed
  show "holed C E n (M - {t}) hid (E t)"
    unfolding holed_def
  proof (intro conjI ballI allI impI)
    fix s assume s: "s \<in> M - {t}"
    then have "E s < n" "E s mod 2 = hid" "C (E s) = Cell_timer s" using h unfolding holed_def by blast+
    then show "E s < n" "E s mod 2 = hid" "C (E s) = Cell_timer s" "E s \<noteq> E t"
      using s t'(3) by auto
  qed (use ne in blast)
  have k: "key' (cell_tid (C i)) = key (cell_tid (C i))" if i: "i < n" "i mod 2 = hid" "i \<noteq> E t" for i
  proof -
    obtain s where "s \<in> M - {t}" "C i = Cell_timer s" using ne(2) [OF i] by blast
    then show ?thesis using key by simp
  qed
  have le: "key (cell_tid (C (par i))) \<le> key (cell_tid (C i))" if i: "i < n" "i mod 2 = hid" "2 \<le> i" for i
    using orderedD(1) [OF o i] par_less [OF i(3)] i(1) by simp
  show "ordered_but key' C n hid (E t)"
    unfolding ordered_but_def
  proof (intro conjI allI impI)
    fix i assume i: "i < n" "i mod 2 = hid" "2 \<le> i"
    have p: "par i < i" "par i < n" "par i mod 2 = hid"
      using par_less [OF i(3)] i par_mod by simp_all
    { assume "i \<noteq> E t" "par i \<noteq> E t"
      then show "key' (cell_tid (C (par i))) \<le> key' (cell_tid (C i))"
        using le [OF i] k i p by simp }
    { assume e: "par i = E t" "2 \<le> E t"
      have pp: "par (E t) < E t" "par (E t) < n" "par (E t) mod 2 = hid"
        using par_less [OF e(2)] t' par_mod by simp_all
      have "key (cell_tid (C (par (E t)))) \<le> key (cell_tid (C (E t)))" using le [OF t'(1,2) e(2)] .
      also have "\<dots> \<le> key (cell_tid (C i))" using le [OF i] e(1) by simp
      finally show "key' (cell_tid (C (par (E t)))) \<le> key' (cell_tid (C i))"
        using k [OF pp(2,3)] k [OF i(1,2)] pp(1) p(1) e(1) by simp }
  qed
qed

text \<open>Dropping the last entry of each heap.\<close>

lemma ordered_shrink:
  assumes "ordered_but key C n hid idx" "m \<le> n"
  shows "ordered_but key C m hid idx"
  unfolding ordered_but_def
proof (intro conjI allI impI)
  fix i assume i: "i < m" "i mod 2 = hid" "2 \<le> i"
  then have "i < n" using assms(2) by simp
  note le = orderedD [OF assms(1) this i(2,3)]
  show "key (cell_tid (C (par i))) \<le> key (cell_tid (C i))" if "i \<noteq> idx" "par i \<noteq> idx"
    using le(1) that .
  show "key (cell_tid (C (par idx))) \<le> key (cell_tid (C i))" if "par i = idx" "2 \<le> idx"
    using le(2) that .
qed

lemma ordered_full_shrink:
  assumes "ordered_but key C n hid n" "m \<le> n"
  shows "ordered_but key C m hid m"
  unfolding ordered_but_def
proof (intro conjI allI impI)
  fix i assume i: "i < m" "i mod 2 = hid" "2 \<le> i"
  then have p: "par i < m" "i < n" "i \<noteq> n" "par i \<noteq> n" using par_less [OF i(3)] assms(2) by simp_all
  then show "key (cell_tid (C (par i))) \<le> key (cell_tid (C i))"
    using orderedD(1) [OF assms(1) p(2) i(2,3)] by simp
  show "key (cell_tid (C (par m))) \<le> key (cell_tid (C i))" if "par i = m" using that p by simp
qed

lemma parity_gap:
  assumes "even (n :: nat)" "hid < 2" "i mod 2 = hid" "i < n + 2"
  shows "i \<noteq> n + hid \<Longrightarrow> i < n" "i \<le> n + hid"
proof -
  obtain k where k: "n = 2 * k" using assms(1) by (elim evenE)
  have i: "i = 2 * (i div 2) + hid" using assms(3) by (metis mult_div_mod_eq)
  then have "i div 2 \<le> k" using assms(4) k by linarith
  then show "i \<le> n + hid" using i k by linarith
  assume "i \<noteq> n + hid"
  then have "i div 2 \<noteq> k" using i k by metis
  then have "i div 2 + 1 \<le> k" using \<open>i div 2 \<le> k\<close> by simp
  then show "i < n" using i k assms(2) by linarith
qed

lemma holed_drop:
  assumes h: "holed C E n M hid idx" and n: "n = m + 2" "even m" "hid < 2"
    and l: "l \<in> M" "E l = m + hid"
  shows "holed C E m (M - {l}) hid idx"
  unfolding holed_def
proof (intro conjI ballI allI impI)
  have Cl: "C (m + hid) = Cell_timer l" using h l unfolding holed_def by auto
  fix s assume s: "s \<in> M - {l}"
  have s': "E s < n" "E s mod 2 = hid" "E s \<noteq> idx" "C (E s) = Cell_timer s"
    using h s unfolding holed_def by blast+
  then show "E s mod 2 = hid" "E s \<noteq> idx" "C (E s) = Cell_timer s" by blast+
  have "E s \<noteq> m + hid" using s'(4) Cl s by auto
  then show "E s < m" using parity_gap(1) [OF n(2,3) s'(2)] s'(1) n(1) by simp
next
  fix i assume i: "i < m" "i mod 2 = hid" "i \<noteq> idx"
  then have "i < n" using n(1) by simp
  then obtain s where "s \<in> M" "C i = Cell_timer s" "E s = i" using holedE [OF h _ i(2,3)] by blast
  then show "\<exists>s \<in> M - {l}. C i = Cell_timer s \<and> E s = i" using l(2) i(1) by auto
qed

lemma holed_extend:
  assumes "holed C E n M hid n" "even n" "hid < 2"
  shows "holed C E (n + 2) M hid (n + hid)"
  unfolding holed_def
proof (intro conjI ballI allI impI)
  fix s assume "s \<in> M"
  then have "E s < n" "E s mod 2 = hid" "C (E s) = Cell_timer s" using assms(1) unfolding holed_def by blast+
  then show "E s < n + 2" "E s mod 2 = hid" "C (E s) = Cell_timer s" "E s \<noteq> n + hid" by simp_all
next
  fix i assume i: "i < n + 2" "i mod 2 = hid" "i \<noteq> n + hid"
  then have "i < n" using parity_gap(1) [OF assms(2,3) i(2,1)] by simp
  then show "\<exists>s \<in> M. C i = Cell_timer s \<and> E s = i" using holedE [OF assms(1) _ i(2)] by blast
qed

lemma ordered_extend:
  assumes o: "ordered_but key C n hid n" and n: "even n" "hid < 2"
  shows "ordered_but key C (n + 2) hid (n + hid)"
  unfolding ordered_but_def
proof (intro conjI allI impI)
  fix i assume i: "i < n + 2" "i mod 2 = hid" "2 \<le> i"
  have p: "par i < i" "par i mod 2 = hid" using par_less [OF i(3)] par_mod i(2) by simp_all
  { assume "i \<noteq> n + hid"
    then have "i < n" using parity_gap(1) [OF n i(2,1)] by simp
    then show "key (cell_tid (C (par i))) \<le> key (cell_tid (C i))"
      using orderedD(1) [OF o _ i(2,3)] p by simp }
  { assume "par i = n + hid"
    then have False using p(1) parity_gap(2) [OF n i(2,1)] by simp
    then show "key (cell_tid (C (par (n + hid)))) \<le> key (cell_tid (C i))" .. }
qed

section \<open>Insertion\<close>

lemma frame_view:
  assumes f: "frame A hid h h'" and ne: "k \<noteq> hid" and n: "n \<le> capacity (dth_segments (fst h))"
  shows "\<And>i. i < n \<Longrightarrow> i mod 2 = k \<Longrightarrow> cell_at A (fst h') i = cell_at A (fst h) i"
    "entry (snd h') k s = entry (snd h) k s"
  using f ne n unfolding frame_def by auto

lemma heap_ok_for_frame:
  assumes f: "frame A hid h h'" and ne: "k \<noteq> hid"
    and n: "dth_count (fst h) \<le> capacity (dth_segments (fst h))" and ok: "heap_ok_for A k M h"
  shows "heap_ok_for A k M h'"
proof -
  have c: "dth_count (fst h') = dth_count (fst h)" using f by (simp add: frame_def)
  note v = frame_view [OF f ne n]
  show ?thesis
    using ok holed_cong [OF v(1) v(2)] ordered_cong [OF v(1)] frame_tm(2) [OF f]
    unfolding heap_ok_for_def c by simp
qed

lemma heap_ok_for_0: "dth_count (fst h) = 0 \<Longrightarrow> heap_ok_for A k M h \<Longrightarrow> M = {}"
  by (auto simp: heap_ok_for_def holed_def)

lemma insert_rest:
  assumes lay: "layout A (fst h)" and n: "dth_count (fst h) = n + 2" "even n" "n + 2 < 2147483647"
    and cap: "n + 2 \<le> capacity (dth_segments (fst h))"
    and hk: "\<And>k. k < 2 \<Longrightarrow> holed (cell_at A (fst h)) (entry (snd h) k) n M k n \<and>
      ordered_but (tkey (snd h) k) (cell_at A (fst h)) n k n"
    and M: "\<forall>s \<in> insert t M. snd h s \<noteq> None" "t \<notin> M"
  shows "\<exists>h'. bindR (dispatch_timer_heap_resift h t (n + DTH_TARGET_ID))
      (\<lambda>h1. dispatch_timer_heap_resift h1 t (n + DTH_DEADLINE_ID)) = Inr h' \<and>
    layout A (fst h') \<and> heap_ok_for A 0 (insert t M) h' \<and> heap_ok_for A 1 (insert t M) h' \<and>
    dth_count (fst h') = n + 2 \<and> dth_segments (fst h') = dth_segments (fst h) \<and>
    (\<forall>s. map_option forget_entry (snd h' s) = map_option forget_entry (snd h s))"
proof -
  have s: "sift_inv A k t M h (n + k)" if "k < 2" for k
    using lay n cap M(1) holed_extend [OF conjunct1 [OF hk [OF that]] n(2) that]
      ordered_extend [OF conjunct2 [OF hk [OF that]] n(2) that] that
    unfolding sift_inv_def n(1) by auto
  obtain h1 where h1: "dispatch_timer_heap_resift h t (n + 0) = Inr h1" "frame A 0 h h1"
    "heap_ok_for A 0 (insert t M) h1"
    using resift_ok [OF s [of 0] M(2)] by auto
  have c1: "dth_count (fst h1) = n + 2" "dth_segments (fst h1) = dth_segments (fst h)" "layout A (fst h1)"
    using h1(2) n(1) by (simp_all add: frame_def)
  note v = frame_view [OF h1(2), of 1 "n + 2", OF _ cap]
  have "sift_inv A 1 t M h1 (n + 1)"
    unfolding sift_inv_def c1
  proof (intro conjI)
    note s1 = sift_invD [OF s [of 1]]
    show "holed (cell_at A (fst h1)) (entry (snd h1) 1) (n + 2) M 1 (n + 1)"
      using s1(6) holed_cong [OF v(1) v(2)] n(1) by simp
    show "ordered_but (tkey (snd h1) 1) (cell_at A (fst h1)) (n + 2) 1 (n + 1)"
    proof -
      have o: "ordered_but (tkey (snd h) 1) (cell_at A (fst h)) (n + 2) 1 (n + 1)"
        using s1(7) n(1) by simp
      have "ordered_but (tkey (snd h) 1) (cell_at A (fst h1)) (n + 2) 1 (n + 1)"
        by (rule ordered_cong [OF v(1) _ o]) (use n(2) in \<open>simp_all add: mod_Suc even_iff_mod_2_eq_zero\<close>)
      then show ?thesis by (simp only: frame_tm(2) [OF h1(2)])
    qed
    show "\<forall>s\<in>insert t M. snd h1 s \<noteq> None" using M(1) frame_tm(1) [OF h1(2)] by simp
  qed (use c1 n cap in \<open>simp_all add: mod_Suc even_iff_mod_2_eq_zero\<close>)
  then obtain h2 where h2: "dispatch_timer_heap_resift h1 t (n + 1) = Inr h2" "frame A 1 h1 h2"
    "heap_ok_for A 1 (insert t M) h2"
    using resift_ok [OF _ M(2)] by blast
  have "heap_ok_for A 0 (insert t M) h2"
    using heap_ok_for_frame [OF h2(2), of 0] h1(3) c1 cap by simp
  moreover have "dth_count (fst h2) = n + 2" "dth_segments (fst h2) = dth_segments (fst h)"
    "layout A (fst h2)"
    using h2(2) c1 by (simp_all add: frame_def)
  moreover have "\<forall>s. map_option forget_entry (snd h2 s) = map_option forget_entry (snd h s)"
    using h1(2) h2(2) by (simp add: frame_def)
  ultimately show ?thesis using h1(1) h2(1,3) by simp
qed

lemma layout_fields:
  "layout A (dth\<lparr>dth_count := c\<rparr>) = layout A dth"
  "layout A (dth\<lparr>dth_max_qos := q\<rparr>) = layout A dth"
  "layout A (dth\<lparr>dth_needs_program := b\<rparr>) = layout A dth"
  "layout A (dth\<lparr>dth_min := m\<rparr>) = layout A dth"
  "cell_at A (dth\<lparr>dth_count := c\<rparr>) = cell_at A dth"
  "cell_at A (dth\<lparr>dth_max_qos := q\<rparr>) = cell_at A dth"
  "cell_at A (dth\<lparr>dth_needs_program := b\<rparr>) = cell_at A dth"
  by (simp_all add: layout_def cell_at_def fun_eq_iff split: slot.split)

text \<open>The timers of a heap after an operation on it: nothing but heap entries changed.\<close>

definition same_timers :: "heap_state \<Rightarrow> heap_state \<Rightarrow> bool" where
  "same_timers h h' \<longleftrightarrow> (\<forall>s. map_option forget_entry (snd h' s) = map_option forget_entry (snd h s))"

lemma insert_ok:
  assumes inv: "timer_heap_inv h M" and t: "t \<notin> M" "snd h t = Some dt"
    "dt_heap_entry dt 0 = DTH_INVALID_ID" "dt_heap_entry dt 1 = DTH_INVALID_ID"
    and room: "dth_count (fst h) + 2 \<le> MAX_ENTRIES"
  shows "\<exists>h'. dispatch_timer_heap_insert h t = Inr h' \<and> timer_heap_inv h' (insert t M) \<and>
    same_timers h h' \<and> dth_count (fst h') = dth_count (fst h) + 2"
proof -
  obtain dth tm where h: "h = (dth, tm)" by (cases h)
  obtain A where A: "layout A dth" "tight dth" "heap_ok_for A 0 M h" "heap_ok_for A 1 M h"
    "\<forall>s \<in> M. tm s \<noteq> None"
    using inv h by (auto simp: timer_heap_inv_def)
  let ?n = "dth_count dth"
  have n: "even ?n" "?n \<le> capacity (dth_segments dth)" "w32 (?n + 2) = ?n + 2"
    "w32 (?n + 2 + 4294967296 - 2) = ?n"
    using A(2) room h by (simp_all add: tight_def w32_def)
  define q where "q = max (dispatch_priority_qos (du_priority dt)) (dispatch_priority_fallback_qos (du_priority dt))"
  define d1 where "d1 = (if dth_max_qos dth < q then dth\<lparr>dth_count := ?n + 2,
      dth_max_qos := q mod 256, dth_needs_program := True\<rparr> else dth\<lparr>dth_count := ?n + 2\<rparr>)"
  have d1: "layout A d1" "dth_count d1 = ?n + 2" "dth_segments d1 = dth_segments dth"
    "cell_at A d1 = cell_at A dth"
    using A(1) by (simp_all add: d1_def layout_fields)
  have code: "dispatch_timer_heap_insert h t =
     (if ?n = 0 then
          Inr (d1\<lparr>dth_needs_program := True,
                 dth_min := (dth_min d1)(DTH_DEADLINE_ID := Cell_timer t, DTH_TARGET_ID := Cell_timer t)\<rparr>,
               tm(t \<mapsto> dt\<lparr>dt_heap_entry := (dt_heap_entry dt)
                    (DTH_TARGET_ID := DTH_TARGET_ID, DTH_DEADLINE_ID := DTH_DEADLINE_ID)\<rparr>))
      else
          bindR (if ?n + 2 > dispatch_timer_heap_capacity (dth_segments dth)
                 then dispatch_timer_heap_grow d1 else Inr d1) (\<lambda>dth'.
          bindR (dispatch_timer_heap_resift (dth', tm) t (?n + DTH_TARGET_ID)) (\<lambda>h1.
            dispatch_timer_heap_resift h1 t (?n + DTH_DEADLINE_ID))))"
    unfolding dispatch_timer_heap_insert_def h prod.case Let_def n(3,4)
    using t(2-4) h by (simp add: timer_lookup_def d1_def q_def)
  show ?thesis
  proof (cases "?n = 0")
    case True
    then have M: "M = {}" using heap_ok_for_0 [OF _ A(3)] h by simp
    have s0: "dth_segments dth = 0"
      using A(2) True by (auto simp: tight_def)
    define h' where "h' = (d1\<lparr>dth_needs_program := True,
        dth_min := (dth_min d1)(DTH_DEADLINE_ID := Cell_timer t, DTH_TARGET_ID := Cell_timer t)\<rparr>,
        tm(t \<mapsto> dt\<lparr>dt_heap_entry := (dt_heap_entry dt)(DTH_TARGET_ID := DTH_TARGET_ID,
          DTH_DEADLINE_ID := DTH_DEADLINE_ID)\<rparr>))"
    have lay: "layout A (fst h')" using d1(1) by (simp add: h'_def layout_fields)
    have c: "dth_count (fst h') = 2" "dth_segments (fst h') = 0" using d1 True s0 by (simp_all add: h'_def)
    have cell: "cell_at A (fst h') i = Cell_timer t" if "i < 2" for i
      using that by (auto simp: cell_at_def slot_of_def h'_def less_2_cases_iff)
    have ent: "entry (snd h') k t = k" if "k < 2" for k
      using that by (auto simp: entry_def h'_def less_2_cases_iff)
    have "heap_ok_for A k {t} h'" if k: "k < 2" for k
      unfolding heap_ok_for_def c holed_def ordered_but_def
      using cell ent [OF k] k by auto
    then have "timer_heap_inv h' (insert t M)"
      using lay c M unfolding timer_heap_inv_def tight_def
      by (intro exI [of _ A]) (simp add: capacity_def, simp add: h'_def)
    moreover have "same_timers h h'" using t(2) h by (simp add: same_timers_def h'_def forget_entry_def)
    ultimately show ?thesis using code True c h by (simp add: h'_def)
  next
    case False
    have seg: "dth_segments dth \<le> 28" by (rule layoutD(1) [OF A(1)])
    have capc: "dispatch_timer_heap_capacity (dth_segments dth) = capacity (dth_segments dth)"
      using seg by (intro capacity_code) simp
    obtain A' d2 where d2: "(if ?n + 2 > dispatch_timer_heap_capacity (dth_segments dth)
        then dispatch_timer_heap_grow d1 else Inr d1) = Inr d2" "layout A' d2" "dth_count d2 = ?n + 2"
      "?n + 2 \<le> capacity (dth_segments d2)"
      "0 < dth_segments d2 \<longrightarrow> capacity (dth_segments d2 - 1) < ?n + 2"
      "\<And>i. i < ?n \<Longrightarrow> cell_at A' d2 i = cell_at A dth i"
    proof (cases "?n + 2 > capacity (dth_segments dth)")
      case True
      then have seg27: "dth_segments d1 \<le> 27"
        using room h seg d1(3) capacity_less_28 [OF seg] by simp
      obtain d where d: "dispatch_timer_heap_grow d1 = Inr d"
        "layout (A(dth_segments d1 := dth_next d1)) d" "dth_segments d = dth_segments d1 + 1"
        "same_fields d1 d" "\<forall>i < capacity (dth_segments d1).
           cell_at (A(dth_segments d1 := dth_next d1)) d i = cell_at A d1 i"
        using grow_ok [OF d1(1) seg27] by blast
      have "?n + 2 \<le> capacity (dth_segments d)"
        using n(2) capacity_mono_Suc [of "dth_segments dth"] d(3) d1(3) by simp
      moreover have "dth_count d = ?n + 2" using d(4) d1(2) by (simp add: same_fields_def)
      ultimately show ?thesis
        using that [of d "A(dth_segments d1 := dth_next d1)"] True capc d d1 n(2) by simp
    next
      case False
      moreover have "0 < dth_segments dth \<longrightarrow> capacity (dth_segments dth - 1) < ?n + 2"
        using A(2) by (auto simp: tight_def)
      ultimately show ?thesis using that [of d1 A] capc d1 by simp
    qed
    have hk: "holed (cell_at A' (fst (d2, tm))) (entry (snd (d2, tm)) k) ?n M k ?n \<and>
        ordered_but (tkey (snd (d2, tm)) k) (cell_at A' (fst (d2, tm))) ?n k ?n" if "k < 2" for k
    proof -
      have "heap_ok_for A k M h" using that A(3,4) by (auto simp: less_2_cases_iff)
      then show ?thesis
        using holed_cong [of ?n k "cell_at A' d2" "cell_at A dth" M "entry tm k" "entry tm k" ?n]
          ordered_cong [of ?n k "cell_at A' d2" "cell_at A dth" ?n "tkey tm k"] d2(6)
        by (simp add: heap_ok_for_def h)
    qed
    have MS: "\<forall>s \<in> insert t M. snd (d2, tm) s \<noteq> None" using A(5) t(2) h by simp
    have small: "?n + 2 < 2147483647" using room h by simp
    obtain h' where h': "bindR (dispatch_timer_heap_resift (d2, tm) t (?n + DTH_TARGET_ID))
        (\<lambda>h1. dispatch_timer_heap_resift h1 t (?n + DTH_DEADLINE_ID)) = Inr h'"
      "layout A' (fst h')" "heap_ok_for A' 0 (insert t M) h'" "heap_ok_for A' 1 (insert t M) h'"
      "dth_count (fst h') = ?n + 2" "dth_segments (fst h') = dth_segments d2"
      "\<forall>s. map_option forget_entry (snd h' s) = map_option forget_entry (tm s)"
      using insert_rest [of A' "(d2, tm)" ?n M t, OF _ _ n(1) small _ hk MS t(1)] d2(2-4) by auto
    have "\<forall>s \<in> insert t M. snd h' s \<noteq> None"
      using MS h'(7) by (metis map_option_is_None snd_conv)
    moreover have "tight (fst h')" using h'(5,6) d2(4,5) n(1) by (simp add: tight_def)
    ultimately have "timer_heap_inv h' (insert t M)" using h'(2-4) unfolding timer_heap_inv_def by blast
    then show ?thesis using code False d2(1) h' h by (simp add: same_timers_def)
  qed
qed

section \<open>Removal and update\<close>

text \<open>Writing a null into a slot of heap \<open>hid\<close>.\<close>

lemma clear_slot:
  assumes lay: "layout A (fst h)" and idx: "idx < capacity (dth_segments (fst h))"
  shows "\<exists>dth'. slot_write (fst h) (slot_of A idx) c = Inr dth' \<and>
    frame A (idx mod 2) h (dth', snd h) \<and>
    (\<forall>i < capacity (dth_segments (fst h)). i \<noteq> idx \<longrightarrow> cell_at A dth' i = cell_at A (fst h) i)"
proof -
  obtain dth' where w: "slot_write (fst h) (slot_of A idx) c = Inr dth'" "layout A dth'"
    "\<forall>i < capacity (dth_segments (fst h)).
       cell_at A dth' i = (if i = idx then c else cell_at A (fst h) i)"
    "\<exists>m mem. dth' = (fst h)\<lparr>dth_min := m, dth_mem := mem\<rparr>"
    using slot_write_ok [OF lay idx] by blast
  then have "frame A (idx mod 2) h (dth', snd h)" by (auto simp: frame_def)
  with w show ?thesis by auto
qed

lemma remove_last_ok:
  assumes lay: "layout A (fst h)" and n: "dth_count (fst h) = n" "even n" "0 < n" "n < 2147483645"
    and cap: "n + 2 \<le> capacity (dth_segments (fst h))" and k: "k < 2"
    and hk: "holed (cell_at A (fst h)) (entry (snd h) k) (n + 2) M k (n + 2)"
      "ordered_but (tkey (snd h) k) (cell_at A (fst h)) (n + 2) k (n + 2)"
    and M: "\<forall>s \<in> M. snd h s \<noteq> None" "t \<in> M"
  shows "\<exists>h'. heap_remove_last h t n k = Inr h' \<and> frame A k h h' \<and> heap_ok_for A k (M - {t}) h'"
proof -
  have nk: "n + k < n + 2" "(n + k) mod 2 = k" "n + k \<noteq> n + 2" using n(2) k by auto
  have idx: "n + k < capacity (dth_segments (fst h))" using nk(1) cap by simp
  obtain l where l: "l \<in> M" "cell_at A (fst h) (n + k) = Cell_timer l" "entry (snd h) k l = n + k"
    using holedE [OF hk(1) nk] by blast
  obtain d where d: "slot_write (fst h) (slot_of A (n + k)) Cell_null = Inr d"
    "frame A k h (d, snd h)"
    "\<forall>i < capacity (dth_segments (fst h)). i \<noteq> n + k \<longrightarrow> cell_at A d i = cell_at A (fst h) i"
    using clear_slot [OF lay idx, of Cell_null] nk(2) by auto
  have cells: "cell_at A d i = cell_at A (fst h) i" if "i < n" for i using d(3) that cap by simp
  have dc: "dth_count d = n" "dth_segments d = dth_segments (fst h)" "layout A d"
    using d(2) n(1) by (simp_all add: frame_def)
  obtain dt where dt: "snd h t = Some dt" using M by auto
  have code: "heap_remove_last h t n k =
      (if l = t then Inr (d, snd h)
       else dispatch_timer_heap_resift (d, snd h) l (entry (snd h) k t))"
    using get_slot_ok [OF lay idx] slot_read_ok [OF lay idx] l(2) d(1) dt
    by (simp add: heap_remove_last_def timer_lookup_def entry_def)
  note op = open_hole [OF hk M(2), of "tkey (snd h) k"]
  show ?thesis
  proof (cases "l = t")
    case True
    have "holed (cell_at A (fst h)) (entry (snd h) k) n (M - {t}) k (n + 2)"
      using holed_drop [OF hk(1) refl n(2) k l(1,3)] True by simp
    then have "holed (cell_at A (fst h)) (entry (snd h) k) n (M - {t}) k n"
      unfolding holed_def by auto
    then have "holed (cell_at A d) (entry (snd h) k) n (M - {t}) k n"
      by (rule holed_cong [rotated 2]) (simp_all add: cells)
    moreover have "ordered_but (tkey (snd h) k) (cell_at A d) n k n"
      by (rule ordered_cong [OF _ _ ordered_full_shrink [OF hk(2), of n]]) (simp_all add: cells)
    ultimately have "heap_ok_for A k (M - {t}) (d, snd h)" by (simp add: heap_ok_for_def dc)
    then show ?thesis using code True d(2) by simp
  next
    case False
    let ?r = "entry (snd h) k t"
    have r: "?r < n + 2" "?r mod 2 = k" "?r \<noteq> n + k"
    proof -
      show "?r < n + 2" "?r mod 2 = k" using op(3,4) by simp_all
      have "cell_at A (fst h) ?r = Cell_timer t" using hk(1) M(2) unfolding holed_def by blast
      then show "?r \<noteq> n + k" using l(2) False by auto
    qed
    then have rn: "?r < n" using parity_gap(1) [OF n(2) k r(2,1)] by simp
    have lM: "l \<in> M - {t}" using l(1) False by simp
    have h0: "holed (cell_at A (fst h)) (entry (snd h) k) n (M - {t} - {l}) k ?r"
      using holed_drop [OF op(1) refl n(2) k lM l(3)] by simp
    have "sift_inv A k l (M - {t} - {l}) (d, snd h) ?r"
      unfolding sift_inv_def fst_conv snd_conv dc
    proof (intro conjI)
      show "holed (cell_at A d) (entry (snd h) k) n (M - {t} - {l}) k ?r"
        by (rule holed_cong [OF _ _ h0]) (simp_all add: cells)
      show "ordered_but (tkey (snd h) k) (cell_at A d) n k ?r"
        by (rule ordered_cong [OF _ _ ordered_shrink [OF op(2)]]) (use cells rn r(2) in simp_all)
      show "\<forall>s\<in>insert l (M - {t} - {l}). snd h s \<noteq> None" using M(1) l(1) by auto
    qed (use dc cap n(4) rn r(2) in simp_all)
    moreover have "l \<notin> M - {t} - {l}" by simp
    ultimately obtain h' where h': "dispatch_timer_heap_resift (d, snd h) l ?r = Inr h'"
      "frame A k (d, snd h) h'" "heap_ok_for A k (insert l (M - {t} - {l})) h'"
      using resift_ok by blast
    have "insert l (M - {t} - {l}) = M - {t}" using lM by blast
    then show ?thesis using code False h' frame_trans [OF d(2) h'(2)] by simp
  qed
qed

lemma heap_entries_valid:
  assumes "heap_ok_for A 0 M h" "heap_ok_for A 1 M h" "t \<in> M" "snd h t = Some dt"
    and "dth_count (fst h) \<le> MAX_ENTRIES"
  shows "heap_entry_valid dt"
proof -
  have "entry (snd h) 0 t < dth_count (fst h)" "entry (snd h) 1 t < dth_count (fst h)"
    using assms(1-3) unfolding heap_ok_for_def holed_def by blast+
  then show ?thesis using assms(4,5) by (simp add: entry_def heap_entry_valid_def)
qed

lemma clear_entry_ok:
  assumes "heap_ok_for A k M h" "t \<notin> M" "snd h t = Some dt"
  shows "heap_ok_for A k M (fst h, (snd h)(t \<mapsto> dt\<lparr>dt_heap_entry := f\<rparr>))"
proof -
  let ?tm = "(snd h)(t \<mapsto> dt\<lparr>dt_heap_entry := f\<rparr>)"
  have key: "tkey ?tm k = tkey (snd h) k" using assms(3) by (auto simp: tkey_def fun_eq_iff)
  have ent: "entry ?tm k s = entry (snd h) k s" if "s \<in> M" for s using assms(2) that by (auto simp: entry_def)
  have o: "holed (cell_at A (fst h)) (entry (snd h) k) (dth_count (fst h)) M k (dth_count (fst h))"
    "ordered_but (tkey (snd h) k) (cell_at A (fst h)) (dth_count (fst h)) k (dth_count (fst h))"
    using assms(1) by (simp_all add: heap_ok_for_def)
  have "holed (cell_at A (fst h)) (entry ?tm k) (dth_count (fst h)) M k (dth_count (fst h))"
    by (rule holed_cong [OF refl _ o(1)]) (rule ent)
  then show ?thesis using o(2) unfolding heap_ok_for_def fst_conv snd_conv key by simp
qed

lemma layout_shrink_cells:
  assumes "heap_ok_for A k M h" "dth_count d' = dth_count (fst h)"
    and "\<And>i. i < dth_count (fst h) \<Longrightarrow> cell_at A d' i = cell_at A (fst h) i"
  shows "heap_ok_for A k M (d', snd h)"
proof -
  let ?n = "dth_count (fst h)"
  have o: "holed (cell_at A (fst h)) (entry (snd h) k) ?n M k ?n"
    "ordered_but (tkey (snd h) k) (cell_at A (fst h)) ?n k ?n"
    using assms(1) by (simp_all add: heap_ok_for_def)
  have "holed (cell_at A d') (entry (snd h) k) ?n M k ?n"
    by (rule holed_cong [OF _ refl o(1)]) (rule assms(3))
  moreover have "ordered_but (tkey (snd h) k) (cell_at A d') ?n k ?n"
    by (rule ordered_cong [OF _ _ o(2)]) (simp_all add: assms(3))
  ultimately show ?thesis by (simp add: heap_ok_for_def assms(2))
qed

lemma capacity_ge_2: "2 \<le> capacity n"
  using capacity_mono_Suc [of "n - 1"] by (cases n) (simp_all add: capacity_def)

lemma remove_ok:
  assumes inv: "timer_heap_inv h M" and t: "t \<in> M"
  shows "\<exists>h'. dispatch_timer_heap_remove h t = Inr h' \<and> timer_heap_inv h' (M - {t}) \<and>
    same_timers h h' \<and> dth_count (fst h') + 2 = dth_count (fst h) \<and>
    (\<exists>dt. snd h' t = Some dt \<and> dt_heap_entry dt 0 = DTH_INVALID_ID \<and>
       dt_heap_entry dt 1 = DTH_INVALID_ID)"
proof -
  obtain dth tm where h: "h = (dth, tm)" by (cases h)
  obtain A where A: "layout A dth" "tight dth" "heap_ok_for A 0 M h" "heap_ok_for A 1 M h"
    "\<forall>s \<in> M. tm s \<noteq> None"
    using inv h by (auto simp: timer_heap_inv_def)
  have seg: "dth_segments dth \<le> 28" by (rule layoutD(1) [OF A(1)])
  have cnt: "dth_count dth \<le> capacity (dth_segments dth)" "dth_count dth \<le> MAX_ENTRIES" "even (dth_count dth)"
    using A(2) capacity_le_28 [OF seg] by (simp_all add: tight_def)
  have E0: "entry tm 0 t < dth_count dth" "entry tm 0 t mod 2 = 0"
      "cell_at A dth (entry tm 0 t) = Cell_timer t"
    and E1: "entry tm 1 t < dth_count dth" "entry tm 1 t mod 2 = 1"
      "cell_at A dth (entry tm 1 t) = Cell_timer t"
    using A(3,4) t h unfolding heap_ok_for_def holed_def by auto
  obtain n where n: "dth_count dth = n + 2" "even n"
    using cnt(3) E1(1) by (metis add.commute dvd_diff_nat even_numeral le_add_diff_inverse not_less
        odd_one less_2_cases_iff One_nat_def even_zero less_nat_zero_code)
  have idx: "w32 (dth_count dth + 4294967296 - 2) = n" using n cnt(2) by (simp add: w32_def)
  obtain dt where dt: "tm t = Some dt" using A(5) t by auto
  have valid: "heap_entry_valid dt" using heap_entries_valid [OF A(3,4) t] dt h cnt(2) by simp
  define d0 where "d0 = dth\<lparr>dth_count := n\<rparr>"
  have d0: "layout A d0" "cell_at A d0 = cell_at A dth" "dth_count d0 = n"
    "dth_segments d0 = dth_segments dth"
    using A(1) by (simp_all add: d0_def layout_fields)
  show ?thesis
  proof (cases "n = 0")
    case True
    have "entry tm 0 t < 2" "entry tm 1 t < 2" using E0(1) E1(1) n True by simp_all
    then have e: "entry tm 0 t = 0" "entry tm 1 t = 1" using E0(2) E1(2) by simp_all
    have mins: "dth_min dth 0 = Cell_timer t" "dth_min dth 1 = Cell_timer t"
      using E0(3) E1(3) unfolding e by (simp_all add: cell_at_def slot_of_def)
    have s0: "dth_segments dth = 0"
    proof (rule ccontr)
      assume "dth_segments dth \<noteq> 0"
      then have "capacity (dth_segments dth - 1) < 2" using A(2) n True by (simp add: tight_def)
      then show False using capacity_ge_2 [of "dth_segments dth - 1"] by simp
    qed
    have none: "M - {t} = {}"
    proof -
      have "s = t" if "s \<in> M" for s
      proof -
        have "entry tm 0 s < 2" "entry tm 0 s mod 2 = 0" "cell_at A dth (entry tm 0 s) = Cell_timer s"
          using A(3) that h n True unfolding heap_ok_for_def holed_def by auto
        then show ?thesis using E0(3) e by (metis cell.inject(1) mod_less)
      qed
      then show ?thesis by blast
    qed
    have "heap_ok_for A k {} (d, tm')" if "dth_count d = 0" for d k tm'
      using that by (simp add: heap_ok_for_def holed_def ordered_but_def)
    then have empty: "heap_ok_for A k (M - {t}) (d, tm')" if "dth_count d = 0" for d k tm'
      using that unfolding none by simp
    define d' where "d' = d0\<lparr>dth_needs_program := True,
      dth_min := (dth_min d0)(DTH_DEADLINE_ID := Cell_null, DTH_TARGET_ID := Cell_null)\<rparr>"
    define tm' where "tm' = tm(t \<mapsto> dt\<lparr>dt_heap_entry := (dt_heap_entry dt)
      (DTH_TARGET_ID := DTH_INVALID_ID, DTH_DEADLINE_ID := DTH_INVALID_ID)\<rparr>)"
    have run: "dispatch_timer_heap_remove h t = Inr (d', tm')"
      using idx valid dt mins n True h
      by (simp add: dispatch_timer_heap_remove_def timer_lookup_def clear_heap_entry_def d0_def
          d'_def tm'_def)
    have d': "dth_count d' = 0" "layout A d'" "tight d'"
      using d0 True s0 by (simp_all add: d'_def layout_fields tight_def)
    have "\<forall>s \<in> M - {t}. tm' s \<noteq> None" using none by blast
    then have "timer_heap_inv (d', tm') (M - {t})"
      unfolding timer_heap_inv_def using d' empty [of d'] by (intro exI [of _ A]) simp
    moreover have "same_timers h (d', tm')"
      using dt h by (simp add: same_timers_def tm'_def forget_entry_def)
    ultimately show ?thesis using run d'(1) n(1) True h by (simp add: tm'_def)
  next
    case False
    have small: "n < 2147483645" "0 < n" "n + 2 \<le> capacity (dth_segments d0)"
      using n False cnt d0(4) by simp_all
    have full: "holed (cell_at A d0) (entry tm k) (n + 2) M k (n + 2)"
      "ordered_but (tkey tm k) (cell_at A d0) (n + 2) k (n + 2)" if "k < 2" for k
      using A(3,4) that h n(1) d0(2) by (auto simp: heap_ok_for_def less_2_cases_iff)
    obtain h1 where h1: "heap_remove_last (d0, tm) t n 0 = Inr h1" "frame A 0 (d0, tm) h1"
      "heap_ok_for A 0 (M - {t}) h1"
      using remove_last_ok [of A "(d0, tm)" n 0 M t] d0 n(2) small full [of 0] A(5) t by auto
    have c1: "layout A (fst h1)" "dth_count (fst h1) = n" "dth_segments (fst h1) = dth_segments dth"
      using h1(2) d0 by (simp_all add: frame_def)
    note v1 = frame_view [OF h1(2), of 1 "n + 2"]
    have hk1: "holed (cell_at A (fst h1)) (entry (snd h1) 1) (n + 2) M 1 (n + 2)"
      by (rule holed_cong [OF _ _ full(1) [of 1]]) (use v1 small in simp_all)
    have ok1: "ordered_but (tkey (snd h1) 1) (cell_at A (fst h1)) (n + 2) 1 (n + 2)"
      unfolding frame_tm(2) [OF h1(2)] snd_conv
      by (rule ordered_cong [OF _ _ full(2) [of 1]]) (use v1 small in simp_all)
    have M1: "\<forall>s \<in> M. snd h1 s \<noteq> None" using A(5) frame_tm(1) [OF h1(2)] by simp
    obtain h2 where h2: "heap_remove_last h1 t n 1 = Inr h2" "frame A 1 h1 h2"
      "heap_ok_for A 1 (M - {t}) h2"
      using remove_last_ok [OF c1(1,2) n(2) small(2,1) _ _ hk1 ok1 M1 t] c1(3) d0(4) small(3) by auto
    have c2: "layout A (fst h2)" "dth_count (fst h2) = n" "dth_segments (fst h2) = dth_segments dth"
      using h2(2) c1 by (simp_all add: frame_def)
    have ok20: "heap_ok_for A 0 (M - {t}) h2"
      using heap_ok_for_frame [OF h2(2) _ _ h1(3)] c1 small(3) d0(4) by simp
    obtain m where m: "dth_segments dth = Suc m"
      using cnt(1) n(1) small(2) by (cases "dth_segments dth") (simp_all add: capacity_def)
    have wm: "w32 (dth_segments (fst h2) + 4294967296 - 1) = m"
      using m seg c2(3) by (simp add: w32_def)
    have capm: "dispatch_timer_heap_capacity m = capacity m" using m seg by (intro capacity_code) simp
    have t1: "capacity m < n + 2" using A(2) m n(1) by (simp add: tight_def)
    obtain d3 where d3: "(if n \<le> dispatch_timer_heap_capacity m then dispatch_timer_heap_shrink (fst h2)
        else Inr (fst h2)) = Inr d3" "layout A d3" "dth_count d3 = n"
      "\<And>i. i < n \<Longrightarrow> cell_at A d3 i = cell_at A (fst h2) i" "tight d3"
    proof (cases "n \<le> capacity m")
      case True
      obtain d where d: "dispatch_timer_heap_shrink (fst h2) = Inr d" "layout A d" "dth_segments d = m"
        "same_fields (fst h2) d" "\<forall>i < capacity m. cell_at A d i = cell_at A (fst h2) i"
        using shrink_ok [OF c2(1), of m] c2(3) m by auto
      have cd: "dth_count d = n" using d(4) c2(2) by (simp add: same_fields_def)
      have "0 < m \<Longrightarrow> capacity (m - 1) < n"
        using capacity_mono_Suc [of "m - 1"] True t1 n by simp
      then have "tight d" using cd d(3) True n(2) small(2) by (simp add: tight_def)
      then show ?thesis using that [of d] d cd True capm by simp
    next
      case False
      then have "tight (fst h2)" using c2 m small(2,3) d0(4) n(2) by (simp add: tight_def)
      then show ?thesis using that [of "fst h2"] False c2 capm by simp
    qed
    have tm2: "\<forall>s. map_option forget_entry (snd h2 s) = map_option forget_entry (tm s)"
      using h1(2) h2(2) by (simp add: frame_def)
    obtain dt2 where dt2: "snd h2 t = Some dt2" using M1 t frame_tm(1) [OF h2(2)] by fastforce
    let ?f = "(dt_heap_entry dt2)(0 := DTH_INVALID_ID, 1 := DTH_INVALID_ID)"
    let ?tm3 = "(snd h2)(t \<mapsto> dt2\<lparr>dt_heap_entry := ?f\<rparr>)"
    have run: "dispatch_timer_heap_remove h t = Inr (d3, ?tm3)"
      using idx valid dt False h1(1) h2(1) d3(1) dt2 wm h
      by (simp add: dispatch_timer_heap_remove_def timer_lookup_def clear_heap_entry_def Let_def d0_def)
    have "heap_ok_for A k (M - {t}) (d3, ?tm3)" if "k < 2" for k
    proof -
      have "heap_ok_for A k (M - {t}) h2" using that ok20 h2(3) by (auto simp: less_2_cases_iff)
      then have "heap_ok_for A k (M - {t}) (d3, snd h2)"
        by (rule layout_shrink_cells) (use d3(3,4) c2(2) in simp_all)
      then show ?thesis using clear_entry_ok [of A k "M - {t}" "(d3, snd h2)" t dt2 ?f] dt2 by simp
    qed
    moreover have "\<forall>s \<in> M - {t}. ?tm3 s \<noteq> None"
      using M1 frame_tm(1) [OF h2(2)] by simp
    ultimately have "timer_heap_inv (d3, ?tm3) (M - {t})"
      unfolding timer_heap_inv_def using d3(2,5) by (intro exI [of _ A]) simp
    moreover have "map_option forget_entry (?tm3 s) = map_option forget_entry (snd h2 s)" for s
      using dt2 by (simp add: forget_entry_def)
    then have "same_timers h (d3, ?tm3)" using tm2 h by (simp add: same_timers_def del: fun_upd_apply)
    ultimately show ?thesis using run n(1) h d3(3) by simp
  qed
qed

section \<open>Update and minimum\<close>

lemma update_ok:
  assumes inv: "timer_heap_inv (dth, tm) M" and t: "t \<in> M" "tm t = Some dt"
    and dt': "dt_heap_entry dt' = dt_heap_entry dt"
  shows "\<exists>h'. dispatch_timer_heap_update (dth, tm(t \<mapsto> dt')) t = Inr h' \<and> timer_heap_inv h' M \<and>
    same_timers (dth, tm(t \<mapsto> dt')) h' \<and> dth_count (fst h') = dth_count dth"
proof -
  obtain A where A: "layout A dth" "tight dth" "heap_ok_for A 0 M (dth, tm)"
    "heap_ok_for A 1 M (dth, tm)" "\<forall>s \<in> M. tm s \<noteq> None"
    using inv by (auto simp: timer_heap_inv_def)
  let ?tm = "tm(t \<mapsto> dt')" and ?n = "dth_count dth"
  have seg: "dth_segments dth \<le> 28" by (rule layoutD(1) [OF A(1)])
  have cnt: "?n \<le> capacity (dth_segments dth)" "?n \<le> MAX_ENTRIES" "even ?n"
    using A(2) capacity_le_28 [OF seg] by (simp_all add: tight_def)
  have ent: "entry ?tm k = entry tm k" for k using dt' t(2) by (auto simp: entry_def fun_eq_iff)
  have key: "tkey ?tm k s = tkey tm k s" if "s \<noteq> t" for k s using that by (simp add: tkey_def)
  have valid: "heap_entry_valid dt'"
    using heap_entries_valid [OF A(3,4) t(1)] t(2) cnt(2) dt' by (simp add: heap_entry_valid_def)
  have hole: "holed (cell_at A dth) (entry ?tm k) ?n (M - {t}) k (entry tm k t) \<and>
      ordered_but (tkey ?tm k) (cell_at A dth) ?n k (entry tm k t) \<and> entry tm k t < ?n \<and>
      entry tm k t mod 2 = k" if "k < 2" for k
  proof -
    have "holed (cell_at A dth) (entry tm k) ?n M k ?n" "ordered_but (tkey tm k) (cell_at A dth) ?n k ?n"
      using A(3,4) that by (auto simp: heap_ok_for_def less_2_cases_iff)
    from open_hole [OF this t(1) key] show ?thesis by (simp add: ent)
  qed
  have M: "\<forall>s \<in> insert t (M - {t}). ?tm s \<noteq> None" using A(5) by simp
  have tM: "t \<notin> M - {t}" "insert t (M - {t}) = M" using t(1) by auto
  have "sift_inv A 0 t (M - {t}) (dth, ?tm) (entry tm 0 t)"
    using A(1) cnt hole [of 0] M unfolding sift_inv_def fst_conv snd_conv by linarith
  then obtain h1 where h1: "dispatch_timer_heap_resift (dth, ?tm) t (entry tm 0 t) = Inr h1"
    "frame A 0 (dth, ?tm) h1" "heap_ok_for A 0 M h1"
    using resift_ok [OF _ tM(1)] tM(2) by metis
  have c1: "layout A (fst h1)" "dth_count (fst h1) = ?n" "dth_segments (fst h1) = dth_segments dth"
    using h1(2) by (simp_all add: frame_def)
  note v = frame_view [OF h1(2), of 1 ?n]
  have "holed (cell_at A (fst h1)) (entry (snd h1) 1) ?n (M - {t}) 1 (entry tm 1 t)"
    by (rule holed_cong [of _ _ _ "cell_at A dth" _ _ "entry ?tm 1"]) (use v cnt hole [of 1] in simp_all)
  moreover have "ordered_but (tkey (snd h1) 1) (cell_at A (fst h1)) ?n 1 (entry tm 1 t)"
    unfolding frame_tm(2) [OF h1(2)] snd_conv
    by (rule ordered_cong [of _ _ _ "cell_at A dth"]) (use v cnt hole [of 1] in simp_all)
  moreover have M1: "\<forall>s \<in> insert t (M - {t}). snd h1 s \<noteq> None" using M frame_tm(1) [OF h1(2)] by simp
  ultimately have "sift_inv A 1 t (M - {t}) h1 (entry tm 1 t)"
    using c1 cnt hole [of 1] unfolding sift_inv_def c1 by simp
  then obtain h2 where h2: "dispatch_timer_heap_resift h1 t (entry tm 1 t) = Inr h2"
    "frame A 1 h1 h2" "heap_ok_for A 1 M h2"
    using resift_ok [OF _ tM(1)] tM(2) by metis
  have ok0: "heap_ok_for A 0 M h2"
    using heap_ok_for_frame [OF h2(2) _ _ h1(3)] c1 cnt by simp
  have c2: "layout A (fst h2)" "dth_count (fst h2) = ?n" "dth_segments (fst h2) = dth_segments dth"
    using h2(2) c1 by (simp_all add: frame_def)
  have "?n \<noteq> 0" using hole [of 0] by auto
  then have "tight (fst h2)" using A(2) c2 by (simp add: tight_def)
  moreover have "\<forall>s \<in> M. snd h2 s \<noteq> None" using M1 frame_tm(1) [OF h2(2)] tM(2) by simp
  ultimately have inv2: "timer_heap_inv h2 M"
    using c2(1) ok0 h2(3) unfolding timer_heap_inv_def by blast
  obtain dt1 where dt1: "snd h1 t = Some dt1" using M1 by auto
  have "dt_heap_entry dt1 1 = entry tm 1 t"
    using v(2) [of t] cnt(1) ent dt1 by (simp add: entry_def)
  moreover have "dt_heap_entry dt' 0 = entry tm 0 t" using dt' t(2) by (simp add: entry_def)
  ultimately have "dispatch_timer_heap_update (dth, ?tm) t = Inr h2"
    using valid h1(1) h2(1) dt1 by (simp add: dispatch_timer_heap_update_def timer_lookup_def)
  moreover have "same_timers (dth, ?tm) h2" using h1(2) h2(2) by (simp add: same_timers_def frame_def)
  ultimately show ?thesis using inv2 c2(2) by blast
qed

lemma min_ok:
  assumes inv: "timer_heap_inv h M" and k: "k < 2"
  shows "M = {} \<Longrightarrow> dth_min (fst h) k = Cell_null"
    "M \<noteq> {} \<Longrightarrow> \<exists>t \<in> M. dth_min (fst h) k = Cell_timer t \<and>
      (\<forall>s \<in> M. tkey (snd h) k t \<le> tkey (snd h) k s)"
proof -
  obtain A where A: "layout A (fst h)" "tight (fst h)" "heap_ok_for A k M h"
    using inv k by (auto simp: timer_heap_inv_def less_2_cases_iff)
  let ?n = "dth_count (fst h)"
  have hk: "holed (cell_at A (fst h)) (entry (snd h) k) ?n M k ?n"
    "ordered_but (tkey (snd h) k) (cell_at A (fst h)) ?n k ?n"
    using A(3) by (simp_all add: heap_ok_for_def)
  have c: "cell_at A (fst h) k = dth_min (fst h) k" using k by (simp add: cell_at_def slot_of_def)
  show "dth_min (fst h) k = Cell_null" if "M = {}"
  proof -
    have "?n = 0"
    proof (rule ccontr)
      assume "?n \<noteq> 0"
      then have "k < ?n" using A(2) k unfolding tight_def by (elim conjE evenE) simp
      then show False using holedE [OF hk(1), of k] k that by auto
    qed
    then show ?thesis using A(2) k by (auto simp: tight_def less_2_cases_iff)
  qed
  show "\<exists>t \<in> M. dth_min (fst h) k = Cell_timer t \<and>
      (\<forall>s \<in> M. tkey (snd h) k t \<le> tkey (snd h) k s)" if ne: "M \<noteq> {}"
  proof -
    obtain x where x: "x \<in> M" using ne by blast
    then have "entry (snd h) k x < ?n" using hk(1) unfolding holed_def by blast
    then have "0 < ?n" by simp
    then have kn: "k < ?n" using A(2) k unfolding tight_def by (elim conjE evenE) simp
    then obtain t where t: "t \<in> M" "cell_at A (fst h) k = Cell_timer t"
      using holedE [OF hk(1), of k] k by auto
    have "tkey (snd h) k t \<le> tkey (snd h) k s" if "s \<in> M" for s
      using root_min [OF hk k kn that] t(2) by simp
    then show ?thesis using t c by auto
  qed
qed

end
