(* ===== verification/Timer_Walk.thy ===== *)
theory Timer_Walk
  imports Timer_Heap_Ops
begin

text \<open>
  The walk of the target heap in prefix order by index arithmetic. Nodes are numbered from 1
  as in the comments of the code: entry \<open>idx\<close> of the target heap is node
  \<open>idx div 2 + 1\<close>. The walk never leaves the heap and visits no node twice.
\<close>

section \<open>Prefix order\<close>

definition node_walk :: "nat \<Rightarrow> nat" where
  "node_walk j = j div 2 ^ trailing_ones j"

text \<open>The position of a node in prefix order: first its leftmost leaf, then its depth.\<close>

definition node_pos :: "nat \<Rightarrow> nat" where
  "node_pos j = j * 2 ^ (32 - bit_length j)"

definition prefix_rank :: "nat \<Rightarrow> nat" where
  "prefix_rank j = 64 * node_pos j + bit_length j"

lemma bit_length_double: "0 < j \<Longrightarrow> bit_length (2 * j) = Suc (bit_length j)"
  by (simp add: bit_length.simps [of "2 * j"])

lemma bit_length_double_1: "bit_length (2 * j + 1) = Suc (bit_length j)"
  by (simp add: bit_length.simps [of "Suc (2 * j)"])

lemma trailing_ones_even: "even j \<Longrightarrow> trailing_ones j = 0"
  by (simp add: trailing_ones.simps)

lemma trailing_ones_odd: "odd j \<Longrightarrow> trailing_ones j = Suc (trailing_ones (j div 2))"
  by (simp add: trailing_ones.simps [of j])

lemma node_walk_odd: "odd j \<Longrightarrow> node_walk j = node_walk (j div 2)"
  by (simp add: node_walk_def trailing_ones_odd div_mult2_eq)

lemma node_walk_even: "even j \<Longrightarrow> node_walk j = j"
  by (simp add: node_walk_def trailing_ones_even)

lemma node_walk_props: "even (node_walk j)" "node_walk j \<le> j"
proof (induction j rule: trailing_ones.induct)
  case (1 j)
  {
    case 1
    show ?case using 1 "1.IH"(1) by (cases "odd j") (simp_all add: node_walk_odd node_walk_even)
  next
    case 2
    show ?case
    proof (cases "odd j")
      case True
      then have "node_walk j \<le> j div 2" using "1.IH"(2) by (simp add: node_walk_odd)
      then show ?thesis by (rule order_trans) simp
    qed (simp add: node_walk_even)
  }
qed

text \<open>The node after the subtree of \<open>j\<close> starts where the leaves of that subtree end.\<close>

lemma node_pos_after:
  assumes "node_walk j \<noteq> 0" "bit_length j \<le> 32"
  shows "node_pos (node_walk j + 1) = node_pos j + 2 ^ (32 - bit_length j)"
  using assms
proof (induction j rule: trailing_ones.induct)
  case (1 j)
  show ?case
  proof (cases "odd j")
    case False
    then have e: "node_walk j = j" "0 < j" using 1(2) by (simp_all add: node_walk_even)
    obtain k where k: "j = 2 * k" "0 < k" using False e(2) by (auto elim: evenE)
    have "bit_length (j + 1) = bit_length j"
      using k bit_length_double [OF k(2)] bit_length_double_1 [of k] by simp
    then show ?thesis by (simp add: e(1) node_pos_def)
  next
    case True
    then obtain k where k: "j = 2 * k + 1" by (elim oddE)
    then have dk: "j div 2 = k" by simp
    have walk: "node_walk j = node_walk k" using True dk by (simp add: node_walk_odd)
    have bl: "bit_length j = Suc (bit_length k)" unfolding k by (rule bit_length_double_1)
    have "node_pos (node_walk k + 1) = node_pos k + 2 ^ (32 - bit_length k)"
      using 1(1) [OF True] 1(2,3) walk bl dk by simp
    moreover have "node_pos k + 2 ^ (32 - bit_length k) = node_pos j + 2 ^ (32 - bit_length j)"
    proof -
      have "32 - bit_length k = Suc (32 - bit_length j)" using bl 1(3) by simp
      then have "node_pos k + 2 ^ (32 - bit_length k) = (2 * k + 1) * 2 ^ (32 - bit_length j) +
          2 ^ (32 - bit_length j)"
        by (simp only: node_pos_def power_Suc distrib_right)
      then show ?thesis by (simp only: node_pos_def k [symmetric])
    qed
    ultimately show ?thesis by (simp only: walk)
  qed
qed

lemma prefix_rank_less:
  assumes "node_pos i < node_pos j" "bit_length i \<le> 32"
  shows "prefix_rank i < prefix_rank j"
  using assms by (simp add: prefix_rank_def)

lemma rank_child: "0 < j \<Longrightarrow> bit_length j < 32 \<Longrightarrow> prefix_rank j < prefix_rank (2 * j)"
  by (simp add: prefix_rank_def node_pos_def bit_length_double Suc_diff_Suc [symmetric])

text \<open>Skipping, for the last node \<open>N\<close> through its parent.\<close>

definition node_skip :: "nat \<Rightarrow> nat \<Rightarrow> nat" where
  "node_skip j N = node_walk (if j = N then j div 2 else j)"

lemma rank_skip:
  assumes j: "0 < j" "j \<le> N" "bit_length N \<le> 32" and s: "node_skip j N \<noteq> 0"
  shows "prefix_rank j < prefix_rank (node_skip j N + 1)" "node_skip j N + 1 \<le> N"
proof -
  have blj: "bit_length j \<le> 32"
    using j(2,3) by (simp add: bit_length_le)
  have "node_pos j < node_pos (node_skip j N + 1) \<and> node_skip j N + 1 \<le> N"
  proof (cases "j = N")
    case False
    then show ?thesis
      using node_pos_after [of j] s blj node_walk_props(2) [of j] j(2) by (simp add: node_skip_def)
  next
    case True
    let ?p = "j div 2"
    have w: "node_skip j N = node_walk ?p" using True by (simp add: node_skip_def)
    have p0: "?p \<noteq> 0" using s w node_walk_props(2) [of ?p] by auto
    have bl: "bit_length j = Suc (bit_length ?p)" using j(1) by (simp add: bit_length.simps [of j])
    have after: "node_pos (node_walk ?p + 1) = node_pos ?p + 2 ^ (32 - bit_length ?p)"
      using node_pos_after [of ?p] s w bl blj by simp
    have e: "32 - bit_length ?p = Suc (32 - bit_length j)" using bl blj by simp
    have "j \<le> 2 * ?p + 1" by simp
    then have "node_pos j \<le> (2 * ?p + 1) * 2 ^ (32 - bit_length j)"
      unfolding node_pos_def by (rule mult_le_mono1)
    also have "\<dots> < node_pos ?p + 2 ^ (32 - bit_length ?p)"
      unfolding e by (simp add: node_pos_def e)
    finally have "node_pos j < node_pos (node_walk ?p + 1)" using after by simp
    moreover have "node_walk ?p + 1 \<le> N" using node_walk_props(2) [of ?p] p0 True by simp
    ultimately show ?thesis by (simp add: w)
  qed
  then show "prefix_rank j < prefix_rank (node_skip j N + 1)" "node_skip j N + 1 \<le> N"
    using prefix_rank_less blj by blast+
qed

text \<open>How many nodes are still ahead.\<close>

definition nodes_ahead :: "nat \<Rightarrow> nat \<Rightarrow> nat" where
  "nodes_ahead N j = card {k \<in> {1..N}. prefix_rank j < prefix_rank k}"

lemma nodes_ahead_less:
  assumes "prefix_rank j < prefix_rank k" "1 \<le> k" "k \<le> N"
  shows "nodes_ahead N k < nodes_ahead N j"
  unfolding nodes_ahead_def using assms by (intro psubset_card_mono) auto

lemma nodes_ahead_le: "nodes_ahead N j \<le> N"
proof -
  have "nodes_ahead N j \<le> card {1..N}" unfolding nodes_ahead_def by (intro card_mono) auto
  then show ?thesis by simp
qed

section \<open>The index arithmetic of the code\<close>

lemma walk_skip_eq:
  assumes "even idx" "idx < count" "even count" "2 \<le> idx"
  shows "dispatch_timer_heap_walk_skip idx count =
    (let e = node_skip (idx div 2 + 1) (count div 2) in if e \<noteq> 0 then 2 * e else 4294967295)"
proof -
  obtain m where m: "idx = 2 * m" using assms(1) by (elim evenE)
  obtain N where N: "count = 2 * N" using assms(3) by (elim evenE)
  have m1: "1 \<le> m" using assms(4) m by simp
  have par: "par (2 * m) = 2 * ((m - 1) div 2)"
  proof -
    have "(2 * m - 2) div 4 = (m - 1) div 2" using m1 by simp
    then show ?thesis by (simp add: par_eq)
  qed
  have last: "idx + 2 = count \<longleftrightarrow> m + 1 = N" using m N by auto
  define j0 where "j0 = (if m + 1 = N then (m + 1) div 2 else m + 1)"
  have i2: "(if idx + 2 = count then par idx else idx) = 2 * (j0 - 1)"
  proof (cases "m + 1 = N")
    case True
    have "(m - 1) div 2 = (m + 1) div 2 - 1" using m1 by simp
    then show ?thesis using True last m par by (simp add: j0_def)
  next
    case False
    then show ?thesis using last m by (simp add: j0_def)
  qed
  have "1 \<le> (m + 1) div 2" using m1 by simp
  then have j0: "1 \<le> j0" unfolding j0_def by (cases "m + 1 = N") (simp_all only: if_True if_False, simp)
  have a: "2 * (j0 - 1) + 2 + 2 - 1 = 2 * j0 + 1" using j0 by simp
  have e: "(2 * j0 + 1) div 2 ^ trailing_ones (2 * j0 + 1) = node_walk j0"
    using node_walk_odd [of "2 * j0 + 1"] by (simp add: node_walk_def)
  have w: "node_skip (idx div 2 + 1) (count div 2) = node_walk j0"
    using m N by (simp add: node_skip_def j0_def)
  have hid: "DTH_HEAP_ID idx = 0" using assms(1) by (simp add: DTH_HEAP_ID_def)
  show ?thesis
    by (simp only: dispatch_timer_heap_walk_skip_def Let_def hid diff_zero i2 a e w add_0_right)
qed

text \<open>Both steps lead to an entry of the heap further ahead, or out of it.\<close>

lemma walk_step:
  assumes idx: "even idx" "idx < count" "2 \<le> idx" and c: "even count" "count < 2147483647"
    and s: "next_idx = dispatch_timer_heap_walk_skip idx count \<or>
      next_idx = dispatch_timer_heap_walk_next idx count"
  shows "next_idx = 4294967295 \<or> even next_idx \<and> next_idx < count \<and> 2 \<le> next_idx \<and>
    nodes_ahead (count div 2) (next_idx div 2 + 1) < nodes_ahead (count div 2) (idx div 2 + 1)"
proof -
  let ?N = "count div 2" and ?j = "idx div 2 + 1"
  have jN: "0 < ?j" "?j \<le> ?N" using idx c(1) by (auto elim!: evenE)
  have "?N < 2 ^ 31" using c(2) by simp
  then have bN31: "bit_length ?N \<le> 31" by (simp add: bit_length_le)
  then have bN: "bit_length ?N \<le> 32" by simp
  have skip: "dispatch_timer_heap_walk_skip idx count = 4294967295 \<or>
      even (dispatch_timer_heap_walk_skip idx count) \<and> dispatch_timer_heap_walk_skip idx count < count \<and>
      2 \<le> dispatch_timer_heap_walk_skip idx count \<and>
      nodes_ahead ?N (dispatch_timer_heap_walk_skip idx count div 2 + 1) < nodes_ahead ?N ?j"
  proof (cases "node_skip ?j ?N = 0")
    case True
    then show ?thesis using walk_skip_eq [OF idx(1,2) c(1) idx(3)] by simp
  next
    case False
    let ?e = "node_skip ?j ?N"
    note r = rank_skip [OF jN bN False]
    have "nodes_ahead ?N (?e + 1) < nodes_ahead ?N ?j" by (rule nodes_ahead_less [OF r(1) _ r(2)]) simp
    moreover have "2 * ?e < count" using r(2) by linarith
    ultimately show ?thesis using walk_skip_eq [OF idx(1,2) c(1) idx(3)] False by (simp add: Let_def)
  qed
  show ?thesis
  proof (cases "next_idx = dispatch_timer_heap_walk_skip idx count")
    case True
    then show ?thesis using skip by simp
  next
    case False
    then have n: "next_idx = dispatch_timer_heap_walk_next idx count" using s by simp
    have l: "dispatch_timer_heap_left_child idx = 2 * idx + 2"
      using left_eq [of idx] idx c(2) by simp
    show ?thesis
    proof (cases "2 * idx + 2 < count")
      case False
      then show ?thesis using n l skip by (simp add: dispatch_timer_heap_walk_next_def)
    next
      case True
      then have nx: "next_idx = 2 * idx + 2" using n l by (simp add: dispatch_timer_heap_walk_next_def)
      have j2: "next_idx div 2 + 1 = 2 * ?j" using nx idx(1) by (auto elim!: evenE)
      have le: "2 * ?j \<le> ?N" using True c(1) idx(1) by (auto elim!: evenE)
      have "bit_length ?j \<le> 31" using jN(2) bN31 by (simp add: bit_length_le)
      then have "prefix_rank ?j < prefix_rank (2 * ?j)" using rank_child [OF jN(1)] by simp
      then have "nodes_ahead ?N (2 * ?j) < nodes_ahead ?N ?j" using le by (intro nodes_ahead_less) simp_all
      then show ?thesis using nx j2 True by simp
    qed
  qed
qed

section \<open>The latest target before a limit\<close>

lemma walk_ok:
  assumes inv: "timer_heap_inv h M"
    and idx: "count \<le> idx \<or> even idx \<and> 2 \<le> idx \<and> nodes_ahead (count div 2) (idx div 2 + 1) + 1 < fuel"
    and count: "count = dth_count (fst h)" and fuel: "0 < fuel"
  shows "\<exists>r. max_target_walk fuel h limit idx tgt = Inr r \<and>
    (r = tgt \<or> r \<le> limit \<and> (\<exists>t \<in> M. r = tkey (snd h) 0 t))"
  using idx fuel
proof (induction fuel arbitrary: idx tgt)
  case (Suc fuel)
  obtain A where A: "layout A (fst h)" "tight (fst h)" "heap_ok_for A 0 M h" "\<forall>s \<in> M. snd h s \<noteq> None"
    using inv by (auto simp: timer_heap_inv_def)
  have c: "even count" "count \<le> capacity (dth_segments (fst h))" "count \<le> MAX_ENTRIES"
    using A(2) capacity_le_28 [OF layoutD(1) [OF A(1)]] count by (simp_all add: tight_def)
  show ?case
  proof (cases "idx < count")
    case False
    then show ?thesis using count by simp
  next
    case True
    then have i: "even idx" "2 \<le> idx" "nodes_ahead (count div 2) (idx div 2 + 1) < fuel"
      using Suc.prems(1) by simp_all
    have cap: "idx < capacity (dth_segments (fst h))" using True c(2) by simp
    have hld: "holed (cell_at A (fst h)) (entry (snd h) 0) count M 0 count"
      using A(3) count by (simp add: heap_ok_for_def)
    have "idx mod 2 = 0" "idx \<noteq> count" using i(1) True by (simp_all add: even_iff_mod_2_eq_zero)
    then obtain t where t: "t \<in> M" "cell_at A (fst h) idx = Cell_timer t"
      using holedE [OF hld True] by metis
    obtain dt where dt: "snd h t = Some dt" using A(4) t(1) by auto
    have read: "dispatch_timer_heap_get_slot (fst h) idx = Inr (slot_of A idx)"
      "slot_timer (fst h) (slot_of A idx) = Inr t"
      using get_slot_ok [OF A(1) cap] slot_read_ok [OF A(1) cap] t(2) by (simp_all add: slot_timer_def)
    have key: "target (dt_timer dt) = tkey (snd h) 0 t" using dt by (simp add: tkey_def)
    define nx where "nx = (if target (dt_timer dt) > limit then dispatch_timer_heap_walk_skip idx count
      else dispatch_timer_heap_walk_next idx count)"
    define tg where "tg = (if target (dt_timer dt) > limit then tgt else target (dt_timer dt))"
    have run: "max_target_walk (Suc fuel) h limit idx tgt = max_target_walk fuel h limit nx tg"
      using True read dt count by (simp add: Let_def timer_lookup_def nx_def tg_def)
    have big: "count < 2147483647" using c(3) by simp
    have "nx = dispatch_timer_heap_walk_skip idx count \<or> nx = dispatch_timer_heap_walk_next idx count"
      by (simp add: nx_def)
    from walk_step [OF i(1) True i(2) c(1) big this]
    have step: "nx = 4294967295 \<or> even nx \<and> nx < count \<and> 2 \<le> nx \<and>
        nodes_ahead (count div 2) (nx div 2 + 1) < nodes_ahead (count div 2) (idx div 2 + 1)" .
    have "0 < fuel" using i(3) by simp
    moreover have "count \<le> nx \<or> even nx \<and> 2 \<le> nx \<and> nodes_ahead (count div 2) (nx div 2 + 1) + 1 < fuel"
      using step i(3) big by linarith
    ultimately obtain r where "max_target_walk fuel h limit nx tg = Inr r"
      "r = tg \<or> r \<le> limit \<and> (\<exists>t \<in> M. r = tkey (snd h) 0 t)"
      using Suc.IH by blast
    moreover have "tg = tgt \<or> tg \<le> limit \<and> tg = tkey (snd h) 0 t"
      using key by (simp add: tg_def not_less)
    ultimately show ?thesis using run t(1) by metis
  qed
qed simp

end
