(* ===== verification/Timer_Properties.thy ===== *)
theory Timer_Properties
  imports Timer_Walk
begin

text \<open>
  The timer heap as a priority queue: the interface its callers rely on, a client of that
  interface that takes the due timers out in order, and the properties of the operations of
  the code.
\<close>

section \<open>The interface\<close>

text \<open>
  The client: as long as the earliest element is due, take it out. Fuel is the number of
  elements; one more than there are is enough.
\<close>

fun drain_due :: "('h \<Rightarrow> 'a option) \<Rightarrow> ('h \<Rightarrow> 'a \<Rightarrow> 'h result) \<Rightarrow> ('h \<Rightarrow> 'a \<Rightarrow> u64) \<Rightarrow> u64
    \<Rightarrow> nat \<Rightarrow> 'h \<Rightarrow> ('h \<times> 'a list) result" where
  "drain_due earliest delete key now 0 h = Inl Out_of_fuel"
| "drain_due earliest delete key now (Suc fuel) h =
     (case earliest h of
        None \<Rightarrow> Inr (h, [])
      | Some t \<Rightarrow>
          if key h t > now then Inr (h, [])
          else bindR (delete h t) (\<lambda>h'.
            bindR (drain_due earliest delete key now fuel h') (\<lambda>(h'', ts). Inr (h'', t # ts))))"

locale timer_queue =
  fixes inv :: "'h \<Rightarrow> 'a set \<Rightarrow> bool"
    and key :: "'h \<Rightarrow> 'a \<Rightarrow> u64"
    and earliest :: "'h \<Rightarrow> 'a option"
    and delete :: "'h \<Rightarrow> 'a \<Rightarrow> 'h result"
  assumes inv_finite: "inv h M \<Longrightarrow> finite M"
    and earliest_None: "inv h M \<Longrightarrow> earliest h = None \<longleftrightarrow> M = {}"
    and earliest_Some: "inv h M \<Longrightarrow> earliest h = Some t \<Longrightarrow> t \<in> M \<and> (\<forall>s \<in> M. key h t \<le> key h s)"
    and delete_ok: "inv h M \<Longrightarrow> t \<in> M \<Longrightarrow>
      \<exists>h'. delete h t = Inr h' \<and> inv h' (M - {t}) \<and> (\<forall>s. key h' s = key h s)"
begin

lemma none_due:
  assumes "inv h M" "earliest h = Some t" "now < key h t" "s \<in> M"
  shows "now < key h s"
  using earliest_Some [OF assms(1,2)] assms(3,4) by (blast intro: less_le_trans)

lemma drain_due_ok:
  assumes "inv h M" "card M < fuel"
  shows "\<exists>h' ts. drain_due earliest delete key now fuel h = Inr (h', ts) \<and>
    inv h' {s \<in> M. now < key h s} \<and> set ts = {s \<in> M. key h s \<le> now} \<and> distinct ts \<and>
    sorted (map (key h) ts) \<and> (\<forall>s. key h' s = key h s)"
  using assms
proof (induction fuel arbitrary: h M)
  case (Suc fuel)
  note inv = Suc.prems(1)
  show ?case
  proof (cases "earliest h")
    case None
    then have "M = {}" using earliest_None [OF inv] by simp
    then show ?thesis using None inv by simp
  next
    case (Some t)
    note t = earliest_Some [OF inv Some]
    show ?thesis
    proof (cases "now < key h t")
      case True
      then have "{s \<in> M. now < key h s} = M" "{s \<in> M. key h s \<le> now} = {}"
        using none_due [OF inv Some True] by (auto simp: not_le [symmetric])
      then show ?thesis using True Some inv by simp
    next
      case False
      obtain h1 where h1: "delete h t = Inr h1" "inv h1 (M - {t})" "\<forall>s. key h1 s = key h s"
        using delete_ok [OF inv] t by blast
      have "card (M - {t}) < fuel"
        using Suc.prems(2) t inv_finite [OF inv] by (simp add: card_Diff_singleton)
          (metis card_gt_0_iff diff_less empty_iff less_Suc_eq_le not_less_eq_eq One_nat_def less_one
            Suc_pred less_Suc_eq)
      then obtain h2 ts where h2: "drain_due earliest delete key now fuel h1 = Inr (h2, ts)"
        "inv h2 {s \<in> M - {t}. now < key h1 s}" "set ts = {s \<in> M - {t}. key h1 s \<le> now}"
        "distinct ts" "sorted (map (key h1) ts)" "\<forall>s. key h2 s = key h1 s"
        using Suc.IH [OF h1(2)] by blast
      have e: "{s \<in> M - {t}. now < key h1 s} = {s \<in> M. now < key h s}"
        "insert t {s \<in> M - {t}. key h1 s \<le> now} = {s \<in> M. key h s \<le> now}"
        using False h1(3) t by auto
      have k: "key h1 = key h" using h1(3) by (simp add: fun_eq_iff)
      have "\<forall>s \<in> set ts. key h t \<le> key h s" using h2(3) t by blast
      then have "sorted (map (key h) (t # ts))" using h2(5) unfolding k by simp
      then show ?thesis using False Some h1(1,3) h2 e by auto
    qed
  qed
qed simp

end

section \<open>The timer heap provides it, by target and by deadline\<close>

fun heap_earliest :: "nat \<Rightarrow> heap_state \<Rightarrow> tid option" where
  "heap_earliest hid h = (case dth_min (fst h) hid of Cell_timer t \<Rightarrow> Some t | _ \<Rightarrow> None)"

lemma members_finite:
  assumes "timer_heap_inv h M"
  shows "finite M"
proof -
  obtain A where "heap_ok_for A 0 M h" using assms by (auto simp: timer_heap_inv_def)
  then have e: "entry (snd h) 0 s < dth_count (fst h) \<and>
      cell_at A (fst h) (entry (snd h) 0 s) = Cell_timer s" if "s \<in> M" for s
    using that by (auto simp: heap_ok_for_def holed_def)
  have "M \<subseteq> (\<lambda>i. cell_tid (cell_at A (fst h) i)) ` {..<dth_count (fst h)}"
  proof
    fix s assume "s \<in> M"
    from e [OF this] show "s \<in> (\<lambda>i. cell_tid (cell_at A (fst h) i)) ` {..<dth_count (fst h)}"
      by (intro image_eqI [of _ _ "entry (snd h) 0 s"]) simp_all
  qed
  then show ?thesis by (rule finite_subset) simp
qed

lemma same_timers_tkey:
  assumes "same_timers h h'"
  shows "tkey (snd h') k s = tkey (snd h) k s"
proof -
  have t: "dt_timer (forget_entry dt) = dt_timer dt" for dt by (simp add: forget_entry_def)
  have e: "map_option forget_entry (snd h' s) = map_option forget_entry (snd h s)"
    using assms by (simp add: same_timers_def)
  show ?thesis
  proof (cases "snd h s")
    case None
    then show ?thesis using e by (simp add: tkey_def)
  next
    case (Some a)
    then obtain b where b: "snd h' s = Some b" "forget_entry b = forget_entry a"
      using e by (cases "snd h' s") simp_all
    have "dt_timer b = dt_timer a" using arg_cong [OF b(2), of dt_timer] by (simp only: t)
    then show ?thesis using Some b(1) by (simp add: tkey_def)
  qed
qed

lemma heap_queue_laws:
  assumes k: "k < 2"
  shows "timer_queue timer_heap_inv (\<lambda>h. tkey (snd h) k) (heap_earliest k) dispatch_timer_heap_remove"
proof
  show "finite M" if "timer_heap_inv h M" for h M using that by (rule members_finite)
  fix h M assume inv: "timer_heap_inv h M"
  note m = min_ok [OF inv k]
  show "heap_earliest k h = None \<longleftrightarrow> M = {}"
    using m by (cases "M = {}") auto
  show "t \<in> M \<and> (\<forall>s \<in> M. tkey (snd h) k t \<le> tkey (snd h) k s)" if "heap_earliest k h = Some t" for t
  proof -
    have "M \<noteq> {}" using m(1) that by auto
    with m(2) that show ?thesis by auto
  qed
  show "\<exists>h'. dispatch_timer_heap_remove h t = Inr h' \<and> timer_heap_inv h' (M - {t}) \<and>
      (\<forall>s. tkey (snd h') k s = tkey (snd h) k s)" if "t \<in> M" for t
    using remove_ok [OF inv that] same_timers_tkey by blast
qed


interpretation by_deadline: timer_queue timer_heap_inv "\<lambda>h. tkey (snd h) 1" "heap_earliest 1"
    dispatch_timer_heap_remove
  by (rule heap_queue_laws) simp

section \<open>A sample heap\<close>

text \<open>Three timers, with targets 1, 10 and 5, in one segment; a fourth one is not in the heap.\<close>

definition sample_timer :: "u64 \<Rightarrow> nat \<Rightarrow> nat \<Rightarrow> dispatch_timer_source_refs_s" where
  "sample_timer tgt i j = \<lparr>du_ident = 0, du_timer_flags = 0, du_priority = 0, du_wlh = 1,
     du_armed = True, ds_pending_data = 0, dt_timer = \<lparr>target = tgt, deadline = 100, interval = 7\<rparr>,
     dt_pending_config = None, dt_heap_entry = (\<lambda>_. 0)(0 := i, 1 := j)\<rparr>"

definition sample_timer_heap :: heap_state where
  "sample_timer_heap =
     (\<lparr>dth_count = 6, dth_segments = 1, dth_max_qos = 0, dth_dirty_bits = 0, dth_armed = False,
        dth_needs_program = True, dth_min = (\<lambda>_. Cell_timer 2), dth_heap = Some 0,
        dth_mem = [0 \<mapsto> [Cell_timer 3, Cell_timer 3, Cell_timer 4, Cell_timer 4,
          Cell_null, Cell_null, Cell_null, Cell_null]], dth_next = 1\<rparr>,
      [2 \<mapsto> sample_timer 1 0 1, 3 \<mapsto> sample_timer 10 2 3, 4 \<mapsto> sample_timer 5 4 5,
       5 \<mapsto> sample_timer 3 DTH_INVALID_ID DTH_INVALID_ID])"

lemma less_6: "i < (6 :: nat) \<Longrightarrow> i = 0 \<or> i = 1 \<or> i = 2 \<or> i = 3 \<or> i = 4 \<or> i = 5"
  by arith

lemma seg_no_small: "heap_seg_no 0 = 0" "heap_seg_no (Suc 0) = 0" "heap_seg_no 2 = 0" "heap_seg_no 3 = 0"
  using seg_of_le [of 0 0] seg_of_le [of 1 0] seg_of_le [of 2 0] seg_of_le [of 3 0] by simp_all

lemma sample_cells:
  "cell_at (\<lambda>_. 0) (fst sample_timer_heap) 0 = Cell_timer 2"
  "cell_at (\<lambda>_. 0) (fst sample_timer_heap) 1 = Cell_timer 2"
  "cell_at (\<lambda>_. 0) (fst sample_timer_heap) 2 = Cell_timer 3"
  "cell_at (\<lambda>_. 0) (fst sample_timer_heap) 3 = Cell_timer 3"
  "cell_at (\<lambda>_. 0) (fst sample_timer_heap) 4 = Cell_timer 4"
  "cell_at (\<lambda>_. 0) (fst sample_timer_heap) 5 = Cell_timer 4"
  by (simp_all add: cell_at_def slot_of_def sample_timer_heap_def seg_no_small seg_base_def)

lemma sample_parents: "par 2 = 0" "par 3 = 1" "par 4 = 0" "par 5 = 1"
  by (simp_all add: par_eq)

lemma sample_timer_inv: "timer_heap_inv sample_timer_heap {2, 3, 4}"
proof -
  let ?A = "\<lambda>_ :: nat. 0 :: nat"
  have "layout ?A (fst sample_timer_heap)"
    by (auto simp: layout_def sample_timer_heap_def seg_cap_def inj_on_def)
  moreover have "tight (fst sample_timer_heap)"
    by (simp add: tight_def sample_timer_heap_def capacity_def)
  moreover have "heap_ok_for ?A k {2, 3, 4} sample_timer_heap" if "k < 2" for k
  proof -
    have n: "dth_count (fst sample_timer_heap) = 6" by (simp add: sample_timer_heap_def)
    have e: "entry (snd sample_timer_heap) k 2 = k" "entry (snd sample_timer_heap) k 3 = 2 + k"
      "entry (snd sample_timer_heap) k 4 = 4 + k"
      using that by (auto simp: entry_def sample_timer_heap_def sample_timer_def less_2_cases_iff)
    have key: "tkey (snd sample_timer_heap) k 2 \<le> tkey (snd sample_timer_heap) k 3"
      "tkey (snd sample_timer_heap) k 2 \<le> tkey (snd sample_timer_heap) k 4"
      by (simp_all add: tkey_def sample_timer_heap_def sample_timer_def)
    show ?thesis
      unfolding heap_ok_for_def n
    proof
      show "holed (cell_at ?A (fst sample_timer_heap)) (entry (snd sample_timer_heap) k) 6 {2, 3, 4} k 6"
        using that
      proof (cases "k = 0")
        case True
        have i: "i = 0 \<or> i = 2 \<or> i = 4" if "i < 6" "i mod 2 = 0" for i :: nat
          using less_6 [OF that(1)] that(2) by (elim disjE) simp_all
        show ?thesis unfolding True holed_def
        proof (intro conjI allI impI)
          show "\<forall>s \<in> {2, 3, 4}. entry (snd sample_timer_heap) 0 s < 6 \<and> entry (snd sample_timer_heap) 0 s mod 2 = 0 \<and>
              entry (snd sample_timer_heap) 0 s \<noteq> 6 \<and>
              cell_at ?A (fst sample_timer_heap) (entry (snd sample_timer_heap) 0 s) = Cell_timer s"
            using e sample_cells unfolding True by simp
          fix j :: nat assume "j < 6" "j mod 2 = 0"
          from i [OF this] show "\<exists>s \<in> {2, 3, 4}. cell_at ?A (fst sample_timer_heap) j = Cell_timer s \<and>
              entry (snd sample_timer_heap) 0 s = j"
            using e sample_cells unfolding True by (elim disjE) simp_all
        qed
      next
        case False
        with \<open>k < 2\<close> have k: "k = 1" by simp
        have i: "i = 1 \<or> i = 3 \<or> i = 5" if "i < 6" "i mod 2 = 1" for i :: nat
          using less_6 [OF that(1)] that(2) by (elim disjE) simp_all
        show ?thesis unfolding k holed_def
        proof (intro conjI allI impI)
          show "\<forall>s \<in> {2, 3, 4}. entry (snd sample_timer_heap) 1 s < 6 \<and> entry (snd sample_timer_heap) 1 s mod 2 = 1 \<and>
              entry (snd sample_timer_heap) 1 s \<noteq> 6 \<and>
              cell_at ?A (fst sample_timer_heap) (entry (snd sample_timer_heap) 1 s) = Cell_timer s"
            using e sample_cells unfolding k by simp
          fix j :: nat assume "j < 6" "j mod 2 = 1"
          from i [OF this] show "\<exists>s \<in> {2, 3, 4}. cell_at ?A (fst sample_timer_heap) j = Cell_timer s \<and>
              entry (snd sample_timer_heap) 1 s = j"
            using e sample_cells unfolding k by (elim disjE) simp_all
        qed
      qed
      show "ordered_but (tkey (snd sample_timer_heap) k) (cell_at ?A (fst sample_timer_heap)) 6 k 6"
        unfolding ordered_but_def
      proof (intro conjI allI impI)
        fix i :: nat assume i: "i < 6" "2 \<le> i"
        then consider "i = 2" | "i = 3" | "i = 4" | "i = 5" by linarith
        then show "tkey (snd sample_timer_heap) k (cell_tid (cell_at ?A (fst sample_timer_heap) (par i)))
            \<le> tkey (snd sample_timer_heap) k (cell_tid (cell_at ?A (fst sample_timer_heap) i))"
          by cases (simp_all only: sample_parents sample_cells cell_tid.simps key)
      next
        fix i :: nat assume "i < 6" "2 \<le> i" "par i = 6"
        then show "tkey (snd sample_timer_heap) k (cell_tid (cell_at ?A (fst sample_timer_heap) (par 6)))
            \<le> tkey (snd sample_timer_heap) k (cell_tid (cell_at ?A (fst sample_timer_heap) i))"
          using par_less [of i] by simp
      qed
    qed
  qed
  moreover have "\<forall>s \<in> {2, 3, 4}. snd sample_timer_heap s \<noteq> None" by (simp add: sample_timer_heap_def)
  ultimately show ?thesis unfolding timer_heap_inv_def by (intro exI [of _ ?A]) simp
qed


lemma sample_timer_fields:
  "dth_count (fst sample_timer_heap) = 6" "dth_segments (fst sample_timer_heap) = 1"
  "snd sample_timer_heap 2 = Some (sample_timer 1 0 1)"
  "snd sample_timer_heap 3 = Some (sample_timer 10 2 3)"
  "snd sample_timer_heap 4 = Some (sample_timer 5 4 5)"
  "snd sample_timer_heap 5 = Some (sample_timer 3 DTH_INVALID_ID DTH_INVALID_ID)"
  "target (dt_timer (sample_timer x i j)) = x"
  by (simp_all add: sample_timer_heap_def sample_timer_def)

lemma sample_layout: "layout (\<lambda>_. 0) (fst sample_timer_heap)"
  by (auto simp: layout_def sample_timer_heap_def seg_cap_def inj_on_def)

section \<open>Properties of the storage\<close>

text \<open>below the capacity, every index of a well laid out heap has a slot inside the memory
  the heap owns, and two indices never share one; after
  \<open>_dispatch_timer_heap_grow\<close> the old indices still read the same cells.\<close>

theorem heap_slots_sound:
  assumes "layout A dth" "dth_segments dth \<le> 27"
    and "i < capacity (dth_segments dth)" "j < capacity (dth_segments dth)"
  shows "dispatch_timer_heap_get_slot dth i = Inr (slot_of A i) \<and>
    slot_read dth (slot_of A i) = Inr (cell_at A dth i) \<and>
    (dispatch_timer_heap_get_slot dth i = dispatch_timer_heap_get_slot dth j \<longrightarrow> i = j) \<and>
    (\<exists>dth' slot. dispatch_timer_heap_grow dth = Inr dth' \<and> dth_segments dth' = dth_segments dth + 1 \<and>
       dispatch_timer_heap_get_slot dth' i = Inr slot \<and>
       slot_read dth' slot = Inr (cell_at A dth i))"
proof -
  obtain dth' where g: "dispatch_timer_heap_grow dth = Inr dth'"
    "layout (A(dth_segments dth := dth_next dth)) dth'" "dth_segments dth' = dth_segments dth + 1"
    "\<forall>i < capacity (dth_segments dth). cell_at (A(dth_segments dth := dth_next dth)) dth' i = cell_at A dth i"
    using grow_ok [OF assms(1,2)] by blast
  have i': "i < capacity (dth_segments dth')"
    using assms(3) capacity_mono_Suc [of "dth_segments dth"] g(3) by simp
  show ?thesis
    using get_slot_ok [OF assms(1,3)] get_slot_ok [OF assms(1,4)] slot_read_ok [OF assms(1,3)]
      slot_of_inj [OF assms(1,3,4)] g get_slot_ok [OF g(2) i'] slot_read_ok [OF g(2) i'] assms(3)
    by simp
qed

theorem heap_slots_sound_witness:
  "dispatch_timer_heap_get_slot (fst sample_timer_heap) 4 = Inr (slot_of (\<lambda>_. 0) 4) \<and>
   slot_read (fst sample_timer_heap) (slot_of (\<lambda>_. 0) 4) = Inr (Cell_timer 4)"
  using heap_slots_sound [OF sample_layout, of 4 5] by (simp add: sample_timer_fields capacity_def sample_cells)

section \<open>Properties of the operations\<close>

text \<open>C9: \<open>_dispatch_timer_heap_insert\<close> of a timer that is in no heap does not stop while there
  is room, and keeps the invariant: the heap then holds that timer and the ones it held, both orders
  are right, and nothing of any timer but its heap entries has changed.\<close>

theorem insert_keeps_heap:
  assumes "timer_heap_inv h M" "t \<notin> M" "snd h t = Some dt"
    and "dt_heap_entry dt 0 = DTH_INVALID_ID" "dt_heap_entry dt 1 = DTH_INVALID_ID"
    and "dth_count (fst h) + 2 \<le> MAX_ENTRIES"
  shows "\<exists>h'. dispatch_timer_heap_insert h t = Inr h' \<and> timer_heap_inv h' (insert t M) \<and>
    same_timers h h' \<and> dth_count (fst h') = dth_count (fst h) + 2"
  using insert_ok [OF assms] .

theorem insert_keeps_heap_witness:
  "\<exists>h'. dispatch_timer_heap_insert sample_timer_heap 5 = Inr h' \<and> timer_heap_inv h' {5, 2, 3, 4} \<and>
    dth_count (fst h') = 8"
  using insert_keeps_heap [OF sample_timer_inv, of 5] by (simp add: sample_timer_fields sample_timer_def) blast

text \<open>C10: \<open>_dispatch_timer_heap_remove\<close> of a timer of the heap does not stop and keeps the
  invariant for the other timers; the timer removed has invalid heap entries afterwards, as
  insertion asks for.\<close>

theorem remove_keeps_heap:
  assumes "timer_heap_inv h M" "t \<in> M"
  shows "\<exists>h'. dispatch_timer_heap_remove h t = Inr h' \<and> timer_heap_inv h' (M - {t}) \<and>
    same_timers h h' \<and> dth_count (fst h') + 2 = dth_count (fst h) \<and>
    (\<exists>dt. snd h' t = Some dt \<and> dt_heap_entry dt 0 = DTH_INVALID_ID \<and>
       dt_heap_entry dt 1 = DTH_INVALID_ID)"
  using remove_ok [OF assms] .

theorem remove_keeps_heap_witness:
  "\<exists>h'. dispatch_timer_heap_remove sample_timer_heap 2 = Inr h' \<and> timer_heap_inv h' ({2, 3, 4} - {2})"
  using remove_keeps_heap [OF sample_timer_inv, of 2] by auto

text \<open>C11: after the target and deadline of a timer of the heap have changed in any way,
  \<open>_dispatch_timer_heap_update\<close> restores both orders, with the same timers in the heap.\<close>

theorem update_restores_heap:
  assumes "timer_heap_inv (dth, tm) M" "t \<in> M" "tm t = Some dt"
    and "dt' = dt\<lparr>dt_timer := new\<rparr>"
  shows "\<exists>h'. dispatch_timer_heap_update (dth, tm(t \<mapsto> dt')) t = Inr h' \<and> timer_heap_inv h' M \<and>
    same_timers (dth, tm(t \<mapsto> dt')) h' \<and> dth_count (fst h') = dth_count dth"
  using update_ok [OF assms(1-3)] assms(4) by simp

theorem update_restores_heap_witness:
  "\<exists>h'. dispatch_timer_heap_update (fst sample_timer_heap, (snd sample_timer_heap)
      (2 \<mapsto> (sample_timer 1 0 1)\<lparr>dt_timer := \<lparr>target = 50, deadline = 60, interval = 7\<rparr>\<rparr>)) 2 = Inr h' \<and>
    timer_heap_inv h' {2, 3, 4}"
  using update_restores_heap [of "fst sample_timer_heap" "snd sample_timer_heap" "{2, 3, 4}" 2
      "sample_timer 1 0 1" _ "\<lparr>target = 50, deadline = 60, interval = 7\<rparr>"] sample_timer_inv
  by (auto simp: sample_timer_fields)








text \<open>The walk over the sample heap: the timers with targets 10 and 5 in this order.\<close>

lemma sample_walk_read:
  "dispatch_timer_heap_get_slot (fst sample_timer_heap) 2 = Inr (slot_of (\<lambda>_. 0) 2)"
  "dispatch_timer_heap_get_slot (fst sample_timer_heap) 4 = Inr (slot_of (\<lambda>_. 0) 4)"
  "slot_timer (fst sample_timer_heap) (slot_of (\<lambda>_. 0) 2) = Inr 3"
  "slot_timer (fst sample_timer_heap) (slot_of (\<lambda>_. 0) 4) = Inr 4"
  using get_slot_ok [OF sample_layout, of 2] get_slot_ok [OF sample_layout, of 4]
    slot_read_ok [OF sample_layout, of 2] slot_read_ok [OF sample_layout, of 4]
  by (simp_all add: sample_timer_fields capacity_def sample_cells slot_timer_def)

lemma sample_walk_steps:
  "dispatch_timer_heap_left_child 0 = 2"
  "dispatch_timer_heap_walk_next 2 6 = 4" "dispatch_timer_heap_walk_next 4 6 = 4294967295"
proof -
  have t: "trailing_ones 5 = 1" "trailing_ones 3 = 2"
    by (simp_all add: trailing_ones.simps [of 5] trailing_ones.simps [of 2] trailing_ones.simps [of 3]
        trailing_ones.simps [of "Suc 0"] trailing_ones.simps [of 0])
  then have t3: "trailing_ones (Suc (Suc (Suc 0))) = 2" by (simp only: numeral_3_eq_3)
  have l: "dispatch_timer_heap_left_child 2 = 6" "dispatch_timer_heap_left_child 4 = 10"
    using left_eq [of 2] left_eq [of 4] by simp_all
  show "dispatch_timer_heap_left_child 0 = 2" using left_eq [of 0] by simp
  show "dispatch_timer_heap_walk_next 2 6 = 4"
    using t l by (simp add: dispatch_timer_heap_walk_next_def dispatch_timer_heap_walk_skip_def
        DTH_HEAP_ID_def)
  show "dispatch_timer_heap_walk_next 4 6 = 4294967295"
    using t t3 l sample_parents by (simp add: dispatch_timer_heap_walk_next_def
        dispatch_timer_heap_walk_skip_def DTH_HEAP_ID_def)
qed

text \<open>the answer of \<open>_dispatch_timer_heap_max_target_before\<close> need not be the latest
  target before the limit: the loop keeps the last target it visits, so on three timers with
  targets 1, 10 and 5, and limit 20, it answers 5.\<close>

theorem max_target_before_not_latest:
  "dispatch_timer_heap_max_target_before sample_timer_heap 20 = Inr 5 \<and>
   tkey (snd sample_timer_heap) 0 3 = 10 \<and> dth_min (fst sample_timer_heap) 0 = Cell_timer 2"
proof -
  have f: "Suc (dth_count (fst sample_timer_heap)) = Suc (Suc (Suc 4))" by (simp add: sample_timer_fields)
  have seven: "max_target_walk 7 = max_target_walk (Suc (Suc (Suc 4)))" by simp
  have m: "dth_min (fst sample_timer_heap) 0 = Cell_timer 2" by (simp add: sample_timer_heap_def)
  have l: "timer_lookup (snd sample_timer_heap) 2 = Inr (sample_timer 1 0 1)"
    "timer_lookup (snd sample_timer_heap) 3 = Inr (sample_timer 10 2 3)"
    "timer_lookup (snd sample_timer_heap) 4 = Inr (sample_timer 5 4 5)"
    by (simp_all add: timer_lookup_def sample_timer_fields)
  have "dispatch_timer_heap_max_target_before sample_timer_heap 20 = Inr 5"
    unfolding dispatch_timer_heap_max_target_before_def f
    using m by (simp only: slot_timer_def slot_read.simps bindR.simps cell.case sample_walk_steps(1) l Let_def)
      (simp add: sample_walk_read sample_walk_steps l sample_timer_fields Let_def del: Suc_numeral)
  then show ?thesis using m by (simp add: tkey_def sample_timer_fields)
qed

end
