(* ===== verification/Threads.thy ===== *)
theory Threads
  imports Prelude
begin

text \<open>
  What the models of concurrent components share. A component is a state with a program counter
  for each thread, threads are named by their Mach port (\<open>dispatch_tid\<close> of
  \<open>src/shims/lock.h\<close>), and a step is one atomic operation of one thread. A safety property
  is an invariant of the steps: the locale \<open>invariant_system\<close> gives it for the states
  that can be reached, and each component interprets it.
\<close>

type_synonym dispatch_tid = u32

section \<open>Reachable states\<close>

inductive reach :: "('s \<Rightarrow> bool) \<Rightarrow> ('s \<Rightarrow> 's \<Rightarrow> bool) \<Rightarrow> 's \<Rightarrow> bool" for init step where
  reach_init: "init s \<Longrightarrow> reach init step s"
| reach_step: "reach init step s \<Longrightarrow> step s t \<Longrightarrow> reach init step t"

locale invariant_system =
  fixes init :: "'s \<Rightarrow> bool" and step :: "'s \<Rightarrow> 's \<Rightarrow> bool" and inv :: "'s \<Rightarrow> bool"
  assumes inv_init: "init s \<Longrightarrow> inv s"
    and inv_step: "step s t \<Longrightarrow> inv s \<Longrightarrow> inv t"
begin

lemma inv_reach: "reach init step s \<Longrightarrow> inv s"
  by (induction rule: reach.induct) (blast intro: inv_init inv_step)+

end

section \<open>Counting threads\<close>

definition threads_in :: "('p \<Rightarrow> bool) \<Rightarrow> (dispatch_tid \<Rightarrow> 'p) \<Rightarrow> nat" where
  "threads_in P f = card {t. P (f t)}"

lemma threads_in_update:
  "threads_in P (f(t := x)) + (if P (f t) then 1 else 0) = threads_in P f + (if P x then 1 else 0)"
proof -
  have part: "threads_in P g = card {u. P (g u) \<and> u \<noteq> t} + (if P (g t) then 1 else 0)" for g
  proof -
    have "{u. P (g u)} = (if P (g t) then insert t {u. P (g u) \<and> u \<noteq> t} else {u. P (g u) \<and> u \<noteq> t})" by auto
    then have "threads_in P g = card (if P (g t) then insert t {u. P (g u) \<and> u \<noteq> t} else {u. P (g u) \<and> u \<noteq> t})"
      unfolding threads_in_def by (rule arg_cong)
    then show ?thesis by simp
  qed
  have "{u. P ((f(t := x)) u) \<and> u \<noteq> t} = {u. P (f u) \<and> u \<noteq> t}" by auto
  then show ?thesis using part [of f] part [of "f(t := x)"] by simp
qed

lemma threads_in_upd:
  "\<not> P (f t) \<Longrightarrow> \<not> P x \<Longrightarrow> threads_in P (f(t := x)) = threads_in P f"
  "\<not> P (f t) \<Longrightarrow> P x \<Longrightarrow> threads_in P (f(t := x)) = Suc (threads_in P f)"
  "P (f t) \<Longrightarrow> \<not> P x \<Longrightarrow> threads_in P f = Suc (threads_in P (f(t := x)))"
  "P (f t) \<Longrightarrow> P x \<Longrightarrow> threads_in P (f(t := x)) = threads_in P f"
  using threads_in_update [of P f t x] by simp_all

lemma threads_in_le: "threads_in P f \<le> 2 ^ 32"
proof -
  have "card {t. P (f t)} \<le> card (UNIV :: dispatch_tid set)" by (rule card_mono) simp_all
  then show ?thesis by (simp add: threads_in_def card_word)
qed

lemma threads_in_pos: "P (f t) \<Longrightarrow> 0 < threads_in P f"
  by (auto simp: threads_in_def card_gt_0_iff)

lemma threads_in_none: "threads_in P f = 0 \<longleftrightarrow> (\<forall>t. \<not> P (f t))"
  by (simp add: threads_in_def)

lemma threads_in_const: "\<not> P x \<Longrightarrow> threads_in P (\<lambda>_. x) = 0"
  by (simp add: threads_in_def)

section \<open>Signed increments\<close>

lemma sint_inc_u64: "sint (x + 1 :: u64) = (if sint x = 2 ^ 63 - 1 then - (2 ^ 63) else sint x + 1)"
  using uint_u64_bounds [of x] by (auto simp: sint_u64 uint_add_u64 split: if_splits)

lemma sint_dec_u64: "- (2 ^ 63) < sint x \<Longrightarrow> sint (x - 1 :: u64) = sint x - 1"
  using uint_u64_bounds [of x] by (auto simp: sint_u64 uint_sub_u64 split: if_splits)

end
