(* ===== verification/Lock.thy ===== *)
theory Lock
  imports Threads Time
begin

text \<open>
  The lock words of \<open>src/shims/lock.h\<close> and the kernel calls of \<open>src/shims/lock.c\<close>
  on a Mach system: who owns a lock word, what each operation on an unfair lock, a gate, a once gate
  and a thread event does to it atomically, and how the answers of \<open>__ulock_wait\<close> and
  \<open>__ulock_wake\<close> are treated. The machines that run these operations in many threads are in
  the theories of the components.
\<close>

section \<open>Lock words\<close>

type_synonym dispatch_lock = u32

abbreviation (input) DLOCK_OWNER_MASK :: dispatch_lock where "DLOCK_OWNER_MASK \<equiv> 0xfffffffc"
abbreviation (input) DLOCK_WAITERS_BIT :: dispatch_lock where "DLOCK_WAITERS_BIT \<equiv> 1"
abbreviation (input) DLOCK_FAILED_TRYLOCK_BIT :: dispatch_lock where "DLOCK_FAILED_TRYLOCK_BIT \<equiv> 2"
abbreviation (input) DLOCK_OWNER_NULL :: dispatch_tid where "DLOCK_OWNER_NULL \<equiv> 0"

definition dispatch_lock_owner :: "dispatch_lock \<Rightarrow> dispatch_tid" where
  "dispatch_lock_owner lock_value =
     (if lock_value AND DLOCK_OWNER_MASK \<noteq> 0
      then lock_value OR DLOCK_WAITERS_BIT OR DLOCK_FAILED_TRYLOCK_BIT
      else DLOCK_OWNER_NULL)"

definition dispatch_lock_value_from_tid :: "dispatch_tid \<Rightarrow> dispatch_lock" where
  "dispatch_lock_value_from_tid tid = tid AND DLOCK_OWNER_MASK"

definition dispatch_lock_is_locked :: "dispatch_lock \<Rightarrow> bool" where
  "dispatch_lock_is_locked lock_value \<longleftrightarrow> lock_value AND DLOCK_OWNER_MASK \<noteq> 0"

definition dispatch_lock_is_locked_by :: "dispatch_lock \<Rightarrow> dispatch_tid \<Rightarrow> bool" where
  "dispatch_lock_is_locked_by lock_value tid \<longleftrightarrow> (lock_value XOR tid) AND DLOCK_OWNER_MASK = 0"

definition dispatch_lock_has_waiters :: "dispatch_lock \<Rightarrow> bool" where
  "dispatch_lock_has_waiters lock_value \<longleftrightarrow> lock_value AND DLOCK_WAITERS_BIT \<noteq> 0"

definition dispatch_lock_has_failed_trylock :: "dispatch_lock \<Rightarrow> bool" where
  "dispatch_lock_has_failed_trylock lock_value \<longleftrightarrow> lock_value AND DLOCK_FAILED_TRYLOCK_BIT \<noteq> 0"

text \<open>Names of Mach ports have both low bits set, which is why a lock word can use them.\<close>

definition thread_port :: "dispatch_tid \<Rightarrow> bool" where
  "thread_port tid \<longleftrightarrow> tid AND 3 = 3 \<and> tid AND DLOCK_OWNER_MASK \<noteq> 0"

section \<open>Answers of the kernel\<close>

text \<open>Answers of Mach calls, and the error numbers of the others.\<close>

type_synonym kern_return_t = int

abbreviation (input) KERN_SUCCESS :: kern_return_t where "KERN_SUCCESS \<equiv> 0"
abbreviation (input) KERN_ABORTED :: kern_return_t where "KERN_ABORTED \<equiv> 14"
abbreviation (input) KERN_INVALID_NAME :: kern_return_t where "KERN_INVALID_NAME \<equiv> 15"
abbreviation (input) KERN_OPERATION_TIMED_OUT :: kern_return_t where "KERN_OPERATION_TIMED_OUT \<equiv> 49"

abbreviation (input) ENOENT :: int where "ENOENT \<equiv> 2"
abbreviation (input) EINTR :: int where "EINTR \<equiv> 4"
abbreviation (input) EFAULT :: int where "EFAULT \<equiv> 14"
abbreviation (input) ETIMEDOUT :: int where "ETIMEDOUT \<equiv> 60"
abbreviation (input) ENOTEMPTY :: int where "ENOTEMPTY \<equiv> 66"
abbreviation (input) UINT32_MAX :: nat where "UINT32_MAX \<equiv> 4294967295"

datatype kernel_answer = Call_again | Answer int | Answer_crash

text \<open>One turn of \<open>_dlock_wait\<close>: what to do with the answer \<open>rc\<close> of \<open>__ulock_wait\<close>.\<close>

definition dlock_wait :: "nat \<Rightarrow> int \<Rightarrow> kernel_answer" where
  "dlock_wait timeout rc =
     (if rc > 0 then Answer ENOTEMPTY
      else if - rc = 0 then Answer 0
      else if - rc = EINTR then (if timeout = 0 then Call_again else Answer (- rc))
      else if - rc = ETIMEDOUT \<or> - rc = EFAULT then Answer (- rc)
      else Answer_crash)"

definition dlock_wake :: "int \<Rightarrow> kernel_answer" where
  "dlock_wake rc = (if rc = 0 \<or> rc = - ENOENT then Answer 0 else Answer_crash)"

text \<open>
  \<open>_dispatch_wait_on_address\<close>: the timeout in microseconds for the kernel, and whether to ask
  again after an answer: when the time does not fit 32 bits the wait is done in slices.
\<close>

abbreviation (input) NSEC_PER_USEC :: nat where "NSEC_PER_USEC \<equiv> 1000"

definition wait_usecs :: "u64 \<Rightarrow> nat" where
  "wait_usecs nsecs =
     (let usecs = (unat nsecs + (NSEC_PER_USEC - 1)) mod 2 ^ 64 div NSEC_PER_USEC
      in if usecs > UINT32_MAX then UINT32_MAX else usecs)"

datatype address_wait =
    Address_done int
  | Address_kernel nat

definition wait_on_address_enter :: "clocks \<Rightarrow> u64 \<Rightarrow> address_wait" where
  "wait_on_address_enter c timeout =
     (let nsecs = dispatch_timeout c timeout in
      if nsecs = 0 then Address_done ETIMEDOUT
      else if nsecs = DISPATCH_TIME_FOREVER then Address_kernel 0
      else Address_kernel (wait_usecs nsecs))"

definition wait_on_address_again :: "clocks \<Rightarrow> u64 \<Rightarrow> nat \<Rightarrow> int \<Rightarrow> address_wait" where
  "wait_on_address_again c timeout usecs rc =
     (let nsecs = dispatch_timeout c timeout in
      if usecs = UINT32_MAX \<and> rc = ETIMEDOUT \<and> nsecs \<noteq> 0 then Address_kernel (wait_usecs nsecs)
      else Address_done rc)"

section \<open>Compare and wait\<close>

text \<open>
  The kernel's queue of threads that wait on a word, of type \<open>'w\<close>, as a parameter.
  \<open>ul_wait w t eq w'\<close>: thread \<open>t\<close> calls \<open>__ulock_wait\<close>, \<open>eq\<close> tells whether the
  word has the value it names; \<open>ul_return w t rc w'\<close>: the call of \<open>t\<close> returns.
\<close>

record 'w ulock =
  ul_wait :: "'w \<Rightarrow> dispatch_tid \<Rightarrow> bool \<Rightarrow> 'w \<Rightarrow> bool"
  ul_return :: "'w \<Rightarrow> dispatch_tid \<Rightarrow> int \<Rightarrow> 'w \<Rightarrow> bool"
  ul_wake_all :: "'w \<Rightarrow> 'w"

text \<open>What is documented: a thread sleeps only if the word had the value, until it is woken.\<close>

definition compare_and_wait :: "'w ulock \<Rightarrow> ('w \<Rightarrow> dispatch_tid \<Rightarrow> bool) \<Rightarrow> bool" where
  "compare_and_wait U asleep \<longleftrightarrow>
     (\<forall>w t eq w' u. ul_wait U w t eq w' \<longrightarrow> asleep w' u \<longrightarrow> asleep w u \<or> u = t \<and> eq) \<and>
     (\<forall>w t rc w' u. ul_return U w t rc w' \<longrightarrow> asleep w' u \<longrightarrow> asleep w u \<and> u \<noteq> t) \<and>
     (\<forall>w t. \<not> asleep (ul_wake_all U w) t) \<and>
     (\<forall>w t. \<not> asleep w t \<longrightarrow> (\<exists>w'. ul_return U w t 0 w'))"

lemma compare_and_waitD:
  assumes "compare_and_wait U asleep"
  shows "ul_wait U w t eq w' \<Longrightarrow> asleep w' u \<Longrightarrow> asleep w u \<or> u = t \<and> eq"
    and "ul_return U w t rc w' \<Longrightarrow> asleep w' u \<Longrightarrow> asleep w u \<and> u \<noteq> t"
    and "\<not> asleep (ul_wake_all U w) t"
    and "\<not> asleep w t \<Longrightarrow> \<exists>w'. ul_return U w t 0 w'"
  using assms unfolding compare_and_wait_def by blast+

text \<open>A kernel of this kind: the set of sleeping threads.\<close>

definition set_ulock :: "dispatch_tid set ulock" where
  "set_ulock = \<lparr>ul_wait = (\<lambda>w t eq w'. w' = (if eq then insert t w else w)),
     ul_return = (\<lambda>w t rc w'. w' = w - {t} \<and> (t \<in> w \<longrightarrow> rc \<noteq> 0)),
     ul_wake_all = (\<lambda>w. {})\<rparr>"

lemma set_ulock_waits: "compare_and_wait set_ulock (\<lambda>w t. t \<in> w)"
  by (auto simp: compare_and_wait_def set_ulock_def split: if_splits)

end
