(* ===== verification/Semaphore.thy ===== *)
theory Semaphore
  imports Lock
begin

text \<open>
  \<open>dispatch_semaphore_t\<close> of \<open>src/semaphore.c\<close> over the Mach semaphores of
  \<open>src/shims/lock.c\<close>. Any number of threads signal and wait; each atomic operation on
  \<open>dsema_value\<close> and each call into the kernel is one step. The kernel's semaphore is a
  parameter: \<open>counting_kernel\<close> states what \<open>semaphore_signal\<close>, \<open>semaphore_wait\<close>
  and \<open>semaphore_timedwait\<close> are documented to do.
\<close>

section \<open>Kernel semaphores\<close>

text \<open>
  A kernel semaphore of type \<open>'k\<close>: a fresh one, and for each call the answers it may give,
  with the semaphore afterwards. A call that may not answer yet blocks.
\<close>

record 'k kernel =
  semaphore_create :: 'k
  semaphore_signal :: "'k \<Rightarrow> kern_return_t \<Rightarrow> 'k \<Rightarrow> bool"
  semaphore_wait :: "'k \<Rightarrow> kern_return_t \<Rightarrow> 'k \<Rightarrow> bool"
  semaphore_timedwait :: "'k \<Rightarrow> kern_return_t \<Rightarrow> 'k \<Rightarrow> bool"

definition counting_kernel :: "'k kernel \<Rightarrow> ('k \<Rightarrow> nat) \<Rightarrow> bool" where
  "counting_kernel K tokens \<longleftrightarrow>
     tokens (semaphore_create K) = 0 \<and>
     (\<forall>k r k'. semaphore_signal K k r k' \<longrightarrow> r = KERN_SUCCESS \<and> tokens k' = Suc (tokens k)) \<and>
     (\<forall>k r k'. semaphore_wait K k r k' \<longrightarrow>
        r = KERN_SUCCESS \<and> tokens k = Suc (tokens k') \<or> r = KERN_ABORTED \<and> tokens k' = tokens k) \<and>
     (\<forall>k r k'. semaphore_timedwait K k r k' \<longrightarrow>
        r = KERN_SUCCESS \<and> tokens k = Suc (tokens k') \<or>
        r \<in> {KERN_ABORTED, KERN_OPERATION_TIMED_OUT} \<and> tokens k' = tokens k) \<and>
     (\<forall>k. 0 < tokens k \<longrightarrow> (\<exists>k'. semaphore_wait K k KERN_SUCCESS k'))"

section \<open>The semaphore and its operations\<close>

text \<open>
  \<open>dsema_sema\<close> is \<open>None\<close> for \<open>MACH_PORT_NULL\<close>: the kernel object is made when it is first
  needed. A thread is at one of the points of the code between two atomic operations;
  \<open>Done r\<close> is outside, after a call that answered \<open>r\<close>.
\<close>

record 'k dispatch_semaphore_s =
  dsema_value :: u64
  dsema_orig :: u64
  dsema_sema :: "'k option"

datatype sema_pc =
    Done kern_return_t
  | Signal_slow
  | Signal_kernel
  | Wait_slow u64
  | Timed_wait u64
  | Load_value
  | Undo u64
  | Kernel_wait
  | Crashed

abbreviation (input) LONG_MIN :: u64 where "LONG_MIN \<equiv> 0x8000000000000000"

definition dispatch_semaphore_create :: "u64 \<Rightarrow> 'k dispatch_semaphore_s option" where
  "dispatch_semaphore_create value =
     (if sint value < 0 then None
      else Some \<lparr>dsema_value = value, dsema_orig = value, dsema_sema = None\<rparr>)"

definition dispatch_semaphore_dispose :: "'k dispatch_semaphore_s \<Rightarrow> 'k dispatch_semaphore_s result" where
  "dispatch_semaphore_dispose dsema =
     (if sint (dsema_value dsema) < sint (dsema_orig dsema) then Inl Client_crash
      else Inr (dsema\<lparr>dsema_sema := None\<rparr>))"

definition dispatch_sema4_create :: "'k kernel \<Rightarrow> 'k dispatch_semaphore_s \<Rightarrow> 'k dispatch_semaphore_s" where
  "dispatch_sema4_create K dsema =
     (case dsema_sema dsema of
        None \<Rightarrow> dsema\<lparr>dsema_sema := Some (semaphore_create K)\<rparr>
      | Some _ \<Rightarrow> dsema)"

definition dispatch_semaphore_signal :: "'k dispatch_semaphore_s \<Rightarrow> 'k dispatch_semaphore_s \<times> sema_pc" where
  "dispatch_semaphore_signal dsema =
     (let value = dsema_value dsema + 1 in
      (dsema\<lparr>dsema_value := value\<rparr>,
       if sint value > 0 then Done 0
       else if value = LONG_MIN then Crashed
       else Signal_slow))"

definition dispatch_semaphore_wait ::
  "'k dispatch_semaphore_s \<Rightarrow> u64 \<Rightarrow> 'k dispatch_semaphore_s \<times> sema_pc" where
  "dispatch_semaphore_wait dsema timeout =
     (let value = dsema_value dsema - 1 in
      (dsema\<lparr>dsema_value := value\<rparr>, if sint value \<ge> 0 then Done 0 else Wait_slow timeout))"

text \<open>The \<open>switch\<close> of \<open>_dispatch_semaphore_wait_slow\<close>, and its answers to the kernel.\<close>

definition wait_slow_switch :: "u64 \<Rightarrow> sema_pc" where
  "wait_slow_switch timeout =
     (if timeout = DISPATCH_TIME_NOW then Load_value
      else if timeout = DISPATCH_TIME_FOREVER then Kernel_wait
      else Timed_wait timeout)"

definition dispatch_sema4_signal :: "kern_return_t \<Rightarrow> sema_pc" where
  "dispatch_sema4_signal kr = (if kr \<noteq> KERN_SUCCESS then Crashed else Done 1)"

definition dispatch_sema4_wait :: "kern_return_t \<Rightarrow> sema_pc" where
  "dispatch_sema4_wait kr =
     (if kr = KERN_ABORTED then Kernel_wait
      else if kr \<noteq> KERN_SUCCESS then Crashed
      else Done 0)"

definition dispatch_sema4_timedwait :: "u64 \<Rightarrow> kern_return_t \<Rightarrow> sema_pc" where
  "dispatch_sema4_timedwait timeout kr =
     (if kr = KERN_ABORTED then Timed_wait timeout
      else if kr = KERN_OPERATION_TIMED_OUT then Load_value
      else if kr \<noteq> KERN_SUCCESS then Crashed
      else Done 0)"

text \<open>One turn of the loop that tries to undo the decrement.\<close>

definition wait_slow_undo :: "'k dispatch_semaphore_s \<Rightarrow> u64 \<Rightarrow> 'k dispatch_semaphore_s \<times> sema_pc" where
  "wait_slow_undo dsema orig =
     (if sint orig < 0 then
        if dsema_value dsema = orig
        then (dsema\<lparr>dsema_value := orig + 1\<rparr>, Done KERN_OPERATION_TIMED_OUT)
        else (dsema, Undo (dsema_value dsema))
      else (dsema, Kernel_wait))"

text \<open>The steps of a thread inside the slow paths.\<close>

inductive sema_slow :: "'k kernel \<Rightarrow> 'k dispatch_semaphore_s \<Rightarrow> sema_pc \<Rightarrow> 'k dispatch_semaphore_s \<Rightarrow> sema_pc \<Rightarrow> bool"
  for K where
  signal_create: "sema_slow K d Signal_slow (dispatch_sema4_create K d) Signal_kernel"
| signal_kernel: "dsema_sema d = Some k \<Longrightarrow> semaphore_signal K k kr k' \<Longrightarrow>
    sema_slow K d Signal_kernel (d\<lparr>dsema_sema := Some k'\<rparr>) (dispatch_sema4_signal kr)"
| wait_create: "sema_slow K d (Wait_slow timeout) (dispatch_sema4_create K d) (wait_slow_switch timeout)"
| timed_wait: "dsema_sema d = Some k \<Longrightarrow> semaphore_timedwait K k kr k' \<Longrightarrow>
    sema_slow K d (Timed_wait timeout) (d\<lparr>dsema_sema := Some k'\<rparr>) (dispatch_sema4_timedwait timeout kr)"
| load_value: "sema_slow K d Load_value d (Undo (dsema_value d))"
| undo: "wait_slow_undo d orig = (d', pc') \<Longrightarrow> sema_slow K d (Undo orig) d' pc'"
| kernel_wait: "dsema_sema d = Some k \<Longrightarrow> semaphore_wait K k kr k' \<Longrightarrow>
    sema_slow K d Kernel_wait (d\<lparr>dsema_sema := Some k'\<rparr>) (dispatch_sema4_wait kr)"

section \<open>The system\<close>

text \<open>
  All threads, with two counters that the code does not have: how many signals were sent and
  how many waits answered 0. A crash ends the process.
\<close>

record 'k sema_sys =
  sema :: "'k dispatch_semaphore_s"
  pcs :: "dispatch_tid \<Rightarrow> sema_pc"
  signals :: nat
  acquired :: nat

definition crashed :: "'k sema_sys \<Rightarrow> bool" where
  "crashed s \<longleftrightarrow> (\<exists>t. pcs s t = Crashed)"

definition wait_done :: "sema_pc \<Rightarrow> nat" where
  "wait_done pc = (if pc = Done 0 then 1 else 0)"

inductive sema_step :: "'k kernel \<Rightarrow> 'k sema_sys \<Rightarrow> 'k sema_sys \<Rightarrow> bool" for K where
  signal: "\<not> crashed s \<Longrightarrow> pcs s t = Done r \<Longrightarrow> dispatch_semaphore_signal (sema s) = (d, pc) \<Longrightarrow>
    sema_step K s (s\<lparr>sema := d, pcs := (pcs s)(t := pc), signals := Suc (signals s)\<rparr>)"
| wait: "\<not> crashed s \<Longrightarrow> pcs s t = Done r \<Longrightarrow> dispatch_semaphore_wait (sema s) timeout = (d, pc) \<Longrightarrow>
    sema_step K s (s\<lparr>sema := d, pcs := (pcs s)(t := pc), acquired := acquired s + wait_done pc\<rparr>)"
| slow: "\<not> crashed s \<Longrightarrow> sema_slow K (sema s) (pcs s t) d pc \<Longrightarrow>
    sema_step K s (s\<lparr>sema := d, pcs := (pcs s)(t := pc), acquired := acquired s + wait_done pc\<rparr>)"

definition sema_init :: "'k sema_sys \<Rightarrow> bool" where
  "sema_init s \<longleftrightarrow> (\<exists>value. dispatch_semaphore_create value = Some (sema s)) \<and>
     pcs s = (\<lambda>_. Done 0) \<and> signals s = 0 \<and> acquired s = 0"

inductive_cases sema_slowE: "sema_slow K d pc d' pc'"
inductive_cases sema_stepE: "sema_step K s s'"
section \<open>Conservation of permits\<close>

definition waiting :: "sema_pc \<Rightarrow> bool" where
  "waiting pc \<longleftrightarrow> (case pc of Wait_slow _ \<Rightarrow> True | Timed_wait _ \<Rightarrow> True | Load_value \<Rightarrow> True | Undo _ \<Rightarrow> True
     | Kernel_wait \<Rightarrow> True | _ \<Rightarrow> False)"

definition posting :: "sema_pc \<Rightarrow> bool" where
  "posting pc \<longleftrightarrow> pc = Signal_slow \<or> pc = Signal_kernel"

definition in_kernel :: "sema_pc \<Rightarrow> bool" where
  "in_kernel pc \<longleftrightarrow> (case pc of Signal_kernel \<Rightarrow> True | Wait_slow _ \<Rightarrow> False | _ \<Rightarrow> waiting pc)"

lemmas sema_pc_defs = waiting_def posting_def in_kernel_def wait_done_def

definition kernel_tokens :: "('k \<Rightarrow> nat) \<Rightarrow> 'k dispatch_semaphore_s \<Rightarrow> nat" where
  "kernel_tokens tokens d = (case dsema_sema d of None \<Rightarrow> 0 | Some k \<Rightarrow> tokens k)"

text \<open>
  Every signal that finds the value negative owes one token to the kernel and every wait that
  finds no permit is owed one: the tokens in the kernel, the signals about to be posted and the
  debt in the value add up to the threads that wait.
\<close>

definition sema_inv :: "('k \<Rightarrow> nat) \<Rightarrow> 'k sema_sys \<Rightarrow> bool" where
  "sema_inv tokens s \<longleftrightarrow>
     0 \<le> sint (dsema_orig (sema s)) \<and>
     sint (dsema_value (sema s)) + int (acquired s) + int (threads_in waiting (pcs s)) =
       sint (dsema_orig (sema s)) + int (signals s) \<and>
     kernel_tokens tokens (sema s) + threads_in posting (pcs s) + nat (- sint (dsema_value (sema s))) =
       threads_in waiting (pcs s) \<and>
     (\<forall>t. in_kernel (pcs s t) \<longrightarrow> dsema_sema (sema s) \<noteq> None)"

lemma value_lower: "sema_inv tokens s \<Longrightarrow> - (2 ^ 63) < sint (dsema_value (sema s))"
proof -
  assume "sema_inv tokens s"
  then have "nat (- sint (dsema_value (sema s))) \<le> threads_in waiting (pcs s)" by (simp add: sema_inv_def)
  also have "\<dots> \<le> 2 ^ 32" by (rule threads_in_le)
  finally show ?thesis by simp
qed

lemma sema4_create_simps [simp]:
  "dsema_value (dispatch_sema4_create K d) = dsema_value d"
  "dsema_orig (dispatch_sema4_create K d) = dsema_orig d"
  "dsema_sema (dispatch_sema4_create K d) \<noteq> None"
  by (simp_all add: dispatch_sema4_create_def split: option.splits)

lemma kernel_tokens_simps [simp]:
  "counting_kernel K tokens \<Longrightarrow> kernel_tokens tokens (dispatch_sema4_create K d) = kernel_tokens tokens d"
  "kernel_tokens tokens (d\<lparr>dsema_value := v\<rparr>) = kernel_tokens tokens d"
  "kernel_tokens tokens (d\<lparr>dsema_sema := Some k\<rparr>) = tokens k"
  "dsema_sema d = Some k \<Longrightarrow> kernel_tokens tokens d = tokens k"
  by (simp_all add: kernel_tokens_def dispatch_sema4_create_def counting_kernel_def split: option.splits)

text \<open>A step moves one thread; the counters follow it.\<close>

lemma sema_inv_move:
  assumes inv: "sema_inv tokens s"
    and orig: "dsema_orig d = dsema_orig (sema s)"
    and kept: "dsema_sema (sema s) \<noteq> None \<Longrightarrow> dsema_sema d \<noteq> None"
    and made: "in_kernel pc \<Longrightarrow> dsema_sema d \<noteq> None"
    and sum: "sint (dsema_value d) + int a + (if waiting pc then 1 else 0) =
      sint (dsema_value (sema s)) + (if waiting (pcs s t) then 1 else 0) + int b"
    and debt: "int (kernel_tokens tokens d) + (if posting pc then 1 else 0) + int (nat (- sint (dsema_value d))) +
        (if waiting (pcs s t) then 1 else 0) =
      int (kernel_tokens tokens (sema s)) + (if posting (pcs s t) then 1 else 0) +
        int (nat (- sint (dsema_value (sema s)))) + (if waiting pc then 1 else 0)"
  shows "sema_inv tokens (s\<lparr>sema := d, pcs := (pcs s)(t := pc), signals := signals s + b, acquired := acquired s + a\<rparr>)"
proof -
  have w: "int (threads_in waiting ((pcs s)(t := pc))) + (if waiting (pcs s t) then 1 else 0) =
      int (threads_in waiting (pcs s)) + (if waiting pc then 1 else 0)"
    using threads_in_update [of waiting "pcs s" t pc] by (simp split: if_splits)
  have p: "int (threads_in posting ((pcs s)(t := pc))) + (if posting (pcs s t) then 1 else 0) =
      int (threads_in posting (pcs s)) + (if posting pc then 1 else 0)"
    using threads_in_update [of posting "pcs s" t pc] by (simp split: if_splits)
  have i: "sint (dsema_value (sema s)) + int (acquired s) + int (threads_in waiting (pcs s)) =
       sint (dsema_orig (sema s)) + int (signals s)"
     "int (kernel_tokens tokens (sema s)) + int (threads_in posting (pcs s)) + int (nat (- sint (dsema_value (sema s)))) =
       int (threads_in waiting (pcs s))"
    using inv unfolding sema_inv_def by linarith+
  have "sint (dsema_value d) + int (acquired s + a) + int (threads_in waiting ((pcs s)(t := pc))) =
       sint (dsema_orig d) + int (signals s + b)"
    using i(1) w sum orig by simp
  moreover have "int (kernel_tokens tokens d) + int (threads_in posting ((pcs s)(t := pc))) +
      int (nat (- sint (dsema_value d))) = int (threads_in waiting ((pcs s)(t := pc)))"
    using i(2) w p debt by linarith
  then have "kernel_tokens tokens d + threads_in posting ((pcs s)(t := pc)) + nat (- sint (dsema_value d)) =
      threads_in waiting ((pcs s)(t := pc))" by linarith
  moreover have "dsema_sema d \<noteq> None" if "in_kernel (((pcs s)(t := pc)) u)" for u
    using that inv kept made by (cases "u = t") (auto simp: sema_inv_def)
  ultimately show ?thesis
    using inv orig by (simp add: sema_inv_def)
qed

lemma slow_step_inv:
  assumes K: "counting_kernel K tokens" and inv: "sema_inv tokens s"
    and step: "sema_slow K (sema s) (pcs s t) d pc" and alive: "pc \<noteq> Crashed"
  shows "sema_inv tokens (s\<lparr>sema := d, pcs := (pcs s)(t := pc), acquired := acquired s + wait_done pc\<rparr>)"
proof -
  have some: "in_kernel (pcs s t) \<Longrightarrow> dsema_sema (sema s) \<noteq> None" using inv by (auto simp: sema_inv_def)
  note low = value_lower [OF inv]
  have "sema_inv tokens (s\<lparr>sema := d, pcs := (pcs s)(t := pc), signals := signals s + 0,
      acquired := acquired s + wait_done pc\<rparr>)"
    using step
  proof (cases rule: sema_slow.cases)
    case signal_create
    then show ?thesis using K by (intro sema_inv_move [OF inv]) (simp_all add: sema_pc_defs)
  next
    case (signal_kernel k kr k')
    then have "kr = 0" "tokens k' = Suc (tokens k)" using K by (auto simp: counting_kernel_def)
    with signal_kernel show ?thesis
      by (intro sema_inv_move [OF inv]) (simp_all add: sema_pc_defs dispatch_sema4_signal_def)
  next
    case (wait_create timeout)
    then show ?thesis using K by (intro sema_inv_move [OF inv]) (auto simp: sema_pc_defs wait_slow_switch_def)
  next
    case (timed_wait k kr k' timeout)
    then have "kr = 0 \<and> tokens k = Suc (tokens k') \<or> kr \<in> {14, 49} \<and> tokens k' = tokens k"
      using K unfolding counting_kernel_def by blast
    with timed_wait show ?thesis
      by (intro sema_inv_move [OF inv]) (auto simp: sema_pc_defs dispatch_sema4_timedwait_def)
  next
    case load_value
    then show ?thesis using some by (intro sema_inv_move [OF inv]) (auto simp: sema_pc_defs)
  next
    case (undo orig)
    then have "dsema_sema (sema s) \<noteq> None" using some by (simp add: in_kernel_def waiting_def)
    with undo low show ?thesis
      by (intro sema_inv_move [OF inv]; auto simp: sema_pc_defs wait_slow_undo_def sint_inc_u64 split: if_splits)
  next
    case (kernel_wait k kr k')
    then have "kr = 0 \<and> tokens k = Suc (tokens k') \<or> kr = 14 \<and> tokens k' = tokens k"
      using K unfolding counting_kernel_def by blast
    with kernel_wait show ?thesis
      by (intro sema_inv_move [OF inv]) (auto simp: sema_pc_defs dispatch_sema4_wait_def)
  qed
  then show ?thesis by simp
qed

lemma signal_step_inv:
  assumes inv: "sema_inv tokens s" and pc: "pcs s t = Done r"
    and sig: "dispatch_semaphore_signal (sema s) = (d, pc)" and alive: "pc \<noteq> Crashed"
  shows "sema_inv tokens (s\<lparr>sema := d, pcs := (pcs s)(t := pc), signals := Suc (signals s)\<rparr>)"
proof -
  have v: "sint (dsema_value (sema s) + 1) = sint (dsema_value (sema s)) + 1"
  proof (cases "sint (dsema_value (sema s)) = 2 ^ 63 - 1")
    case True
    then have "sint (dsema_value (sema s) + 1) = sint LONG_MIN" by (simp add: sint_inc_u64)
    then have "dsema_value (sema s) + 1 = LONG_MIN" by (rule signed_word_eqI)
    then show ?thesis using sig alive by (auto simp: dispatch_semaphore_signal_def)
  qed (simp add: sint_inc_u64)
  have "sema_inv tokens (s\<lparr>sema := d, pcs := (pcs s)(t := pc), signals := signals s + 1, acquired := acquired s + 0\<rparr>)"
    using sig alive pc v
    by (intro sema_inv_move [OF inv]) (auto simp: dispatch_semaphore_signal_def sema_pc_defs Let_def split: if_splits)
  then show ?thesis by simp
qed

lemma wait_step_inv:
  assumes inv: "sema_inv tokens s" and pc: "pcs s t = Done r"
    and wait: "dispatch_semaphore_wait (sema s) timeout = (d, pc)"
  shows "sema_inv tokens (s\<lparr>sema := d, pcs := (pcs s)(t := pc), acquired := acquired s + wait_done pc\<rparr>)"
proof -
  have v: "sint (dsema_value (sema s) - 1) = sint (dsema_value (sema s)) - 1"
    by (rule sint_dec_u64 [OF value_lower [OF inv]])
  have "sema_inv tokens (s\<lparr>sema := d, pcs := (pcs s)(t := pc), signals := signals s + 0, acquired := acquired s + wait_done pc\<rparr>)"
    using wait pc v
    by (intro sema_inv_move [OF inv]) (auto simp: dispatch_semaphore_wait_def sema_pc_defs Let_def split: if_splits)
  then show ?thesis by simp
qed

lemma sema_step_inv:
  assumes "counting_kernel K tokens" "sema_step K s s'" "sema_inv tokens s" "\<not> crashed s'"
  shows "sema_inv tokens s'"
  using assms(2)
proof (cases rule: sema_step.cases)
  case (signal t r d pc)
  then have "pc \<noteq> Crashed" using assms(4) by (auto simp: crashed_def dest: spec [of _ t])
  then show ?thesis using signal signal_step_inv [OF assms(3), of t r d pc] by simp
next
  case (wait t r timeout d pc)
  then show ?thesis using wait_step_inv [OF assms(3), of t r timeout d pc] by simp
next
  case (slow t d pc)
  then have "pc \<noteq> Crashed" using assms(4) by (auto simp: crashed_def dest: spec [of _ t])
  then show ?thesis using slow slow_step_inv [OF assms(1,3), of t d pc] by simp
qed

interpretation sema: invariant_system sema_init "sema_step K"
  "\<lambda>s. counting_kernel K tokens \<longrightarrow> \<not> crashed s \<longrightarrow> sema_inv tokens s" for K tokens
proof
  fix s :: "'a sema_sys"
  assume init: "sema_init s"
  then obtain v where "sema s = \<lparr>dsema_value = v, dsema_orig = v, dsema_sema = None\<rparr>" "0 \<le> sint v"
    unfolding sema_init_def dispatch_semaphore_create_def
    by (metis (no_types, lifting) linorder_not_less option.discI option.inject)
  then show "counting_kernel K tokens \<longrightarrow> \<not> crashed s \<longrightarrow> sema_inv tokens s" using init
    by (auto simp: sema_init_def sema_inv_def dispatch_semaphore_create_def kernel_tokens_def
        threads_in_const sema_pc_defs split: if_splits)
next
  fix s s' :: "'a sema_sys"
  assume st: "sema_step K s s'" and inv: "counting_kernel K tokens \<longrightarrow> \<not> crashed s \<longrightarrow> sema_inv tokens s"
  have "\<not> crashed s" using st by (cases rule: sema_step.cases) simp_all
  then show "counting_kernel K tokens \<longrightarrow> \<not> crashed s' \<longrightarrow> sema_inv tokens s'"
    using inv sema_step_inv [OF _ st] by blast
qed

end
