(* ===== verification/Semaphore_Properties.thy ===== *)
theory Semaphore_Properties
  imports Semaphore
begin

text \<open>
  What \<open>dispatch_semaphore_t\<close> promises to its callers, over every interleaving of any number
  of threads, and the one case in which a wait that must not block does.
\<close>

section \<open>A kernel that counts\<close>

definition nat_kernel :: "nat kernel" where
  "nat_kernel = \<lparr>semaphore_create = 0,
     semaphore_signal = (\<lambda>k r k'. r = KERN_SUCCESS \<and> k' = Suc k),
     semaphore_wait = (\<lambda>k r k'. r = KERN_SUCCESS \<and> k = Suc k'),
     semaphore_timedwait = (\<lambda>k r k'. r = KERN_SUCCESS \<and> k = Suc k' \<or> r = KERN_OPERATION_TIMED_OUT \<and> k' = k)\<rparr>"

lemma nat_kernel_counts: "counting_kernel nat_kernel id"
  by (auto simp: counting_kernel_def nat_kernel_def gr0_conv_Suc)

definition sema_start :: "u64 \<Rightarrow> 'k sema_sys" where
  "sema_start value = \<lparr>sema = \<lparr>dsema_value = value, dsema_orig = value, dsema_sema = None\<rparr>,
     pcs = (\<lambda>_. Done 0), signals = 0, acquired = 0\<rparr>"

lemma sema_start_init: "0 \<le> sint v \<Longrightarrow> sema_init (sema_start v)"
  by (auto simp: sema_init_def sema_start_def dispatch_semaphore_create_def intro: exI [of _ v])

section \<open>Permits\<close>

text \<open>C18: Permits are conserved: at every moment the waits that have succeeded, the permits left in
  \<open>dsema_value\<close>, the wakeups in the kernel and those about to be posted add up to the initial
  value and the signals sent. No wait ever succeeds without a permit.\<close>

theorem permits_conserved:
  assumes "counting_kernel K tokens" "reach sema_init (sema_step K) s" "\<not> crashed s"
  shows "int (acquired s) + max 0 (sint (dsema_value (sema s))) + int (kernel_tokens tokens (sema s)) +
    int (threads_in posting (pcs s)) = sint (dsema_orig (sema s)) + int (signals s)"
proof -
  have "sema_inv tokens s" using sema.inv_reach [OF assms(2)] assms(1,3) by blast
  then show ?thesis unfolding sema_inv_def by linarith
qed

theorem permits_conserved_witness:
  "reach sema_init (sema_step nat_kernel) (sema_start 2) \<and>
   int (acquired (sema_start 2 :: nat sema_sys)) + max 0 (sint (dsema_value (sema (sema_start 2 :: nat sema_sys)))) +
     int (kernel_tokens id (sema (sema_start 2))) + int (threads_in posting (pcs (sema_start 2 :: nat sema_sys))) = 2"
proof -
  have r: "reach sema_init (sema_step nat_kernel) (sema_start 2)"
    by (intro reach_init sema_start_init) simp
  moreover have "\<not> crashed (sema_start 2 :: nat sema_sys)" by (simp add: crashed_def sema_start_def)
  ultimately show ?thesis
    using permits_conserved [OF nat_kernel_counts r] by (simp add: sema_start_def)
qed

text \<open>C19: No wakeup is lost: a thread that blocks in the kernel while no wakeup is there and none is
  about to be posted waits for a permit that does not exist, since every permit has been taken; and
  whenever a wakeup is there it can return.\<close>

theorem no_lost_wakeup:
  assumes "counting_kernel K tokens" "reach sema_init (sema_step K) s" "\<not> crashed s"
    and "pcs s t = Kernel_wait"
  shows "if kernel_tokens tokens (sema s) = 0
    then threads_in posting (pcs s) = 0 \<longrightarrow>
      int (acquired s) = sint (dsema_orig (sema s)) + int (signals s) \<and> sint (dsema_value (sema s)) < 0
    else \<exists>s'. sema_step K s s' \<and> pcs s' t = Done 0 \<and> acquired s' = Suc (acquired s)"
proof (cases "kernel_tokens tokens (sema s) = 0")
  case True
  have inv: "sema_inv tokens s" using sema.inv_reach [OF assms(2)] assms(1,3) by blast
  have "0 < threads_in waiting (pcs s)" using assms(4) by (intro threads_in_pos [of _ _ t]) (simp add: waiting_def)
  then show ?thesis using True inv unfolding sema_inv_def by (auto; linarith)
next
  case False
  then obtain k where k: "dsema_sema (sema s) = Some k" "0 < tokens k"
    by (auto simp: kernel_tokens_def split: option.splits)
  then obtain k' where "semaphore_wait K k KERN_SUCCESS k'" using assms(1) unfolding counting_kernel_def by blast
  from sema_slow.kernel_wait [OF k(1) this]
  have "sema_slow K (sema s) (pcs s t) ((sema s)\<lparr>dsema_sema := Some k'\<rparr>) (Done 0)"
    using assms(4) by (simp add: dispatch_sema4_wait_def)
  from sema_step.slow [OF assms(3) this] show ?thesis using False
    by (auto simp: wait_done_def intro!: exI)
qed

section \<open>A wait that must not block\<close>

definition race_pcs :: "sema_pc \<Rightarrow> sema_pc \<Rightarrow> sema_pc \<Rightarrow> dispatch_tid \<Rightarrow> sema_pc" where
  "race_pcs a b c = (\<lambda>_. Done 0)(1 := a, 2 := b, 3 := c)"

definition race :: "int \<Rightarrow> nat option \<Rightarrow> sema_pc \<Rightarrow> sema_pc \<Rightarrow> sema_pc \<Rightarrow> nat \<Rightarrow> nat \<Rightarrow> nat sema_sys" where
  "race v k a b c n m = \<lparr>sema = \<lparr>dsema_value = word_of_int v, dsema_orig = 0, dsema_sema = k\<rparr>,
     pcs = race_pcs a b c, signals = n, acquired = m\<rparr>"

lemma race_pcs_simps [simp]:
  "race_pcs a b c 1 = a" "race_pcs a b c 2 = b" "race_pcs a b c 3 = c"
  "(race_pcs a b c)(1 := a') = race_pcs a' b c" "(race_pcs a b c)(2 := a') = race_pcs a a' c"
  "(race_pcs a b c)(3 := a') = race_pcs a b a'"
  by (auto simp: race_pcs_def)

lemma race_alive: "a \<noteq> Crashed \<Longrightarrow> b \<noteq> Crashed \<Longrightarrow> c \<noteq> Crashed \<Longrightarrow> \<not> crashed (race v k a b c n m)"
  by (simp add: crashed_def race_def race_pcs_def)

lemma race_slow:
  assumes "a \<noteq> Crashed" "b \<noteq> Crashed" "c \<noteq> Crashed"
  shows "sema_slow nat_kernel (sema (race v k a b c n m)) a (sema (race v' k' a b c n m)) a' \<Longrightarrow>
      sema_step nat_kernel (race v k a b c n m) (race v' k' a' b c n (m + wait_done a'))"
    and "sema_slow nat_kernel (sema (race v k a b c n m)) b (sema (race v' k' a b c n m)) b' \<Longrightarrow>
      sema_step nat_kernel (race v k a b c n m) (race v' k' a b' c n (m + wait_done b'))"
    and "sema_slow nat_kernel (sema (race v k a b c n m)) c (sema (race v' k' a b c n m)) c' \<Longrightarrow>
      sema_step nat_kernel (race v k a b c n m) (race v' k' a b c' n (m + wait_done c'))"
  using sema_step.slow [OF race_alive [OF assms], of nat_kernel v k n m 1]
    sema_step.slow [OF race_alive [OF assms], of nat_kernel v k n m 2]
    sema_step.slow [OF race_alive [OF assms], of nat_kernel v k n m 3]
  by (simp_all add: race_def)

definition raced :: "nat sema_sys" where
  "raced = race (-1) (Some 0) Kernel_wait (Done 1) (Done 0) 1 1"

lemma race_entered:
  "reach sema_init (sema_step nat_kernel) (race (-1) None (Wait_slow DISPATCH_TIME_NOW) (Done 0) (Done 0) 0 0)"
proof (rule reach_step)
  show "reach sema_init (sema_step nat_kernel) (race 0 None (Done 0) (Done 0) (Done 0) 0 0)"
    using sema_start_init [of 0] by (intro reach_init) (simp add: sema_start_def race_def race_pcs_def fun_upd_idem)
  show "sema_step nat_kernel (race 0 None (Done 0) (Done 0) (Done 0) 0 0)
      (race (-1) None (Wait_slow DISPATCH_TIME_NOW) (Done 0) (Done 0) 0 0)"
    using sema_step.wait [OF race_alive, of "Done 0" "Done 0" "Done 0" 0 None 0 0 1 0 DISPATCH_TIME_NOW]
    by (simp add: race_def dispatch_semaphore_wait_def wait_done_def)
qed

text \<open>The atomic operations of the race, whatever the program counters.\<close>

abbreviation (input) race_sema :: "int \<Rightarrow> nat option \<Rightarrow> nat dispatch_semaphore_s" where
  "race_sema v k \<equiv> \<lparr>dsema_value = word_of_int v, dsema_orig = 0, dsema_sema = k\<rparr>"

lemma sema_race: "sema (race v k a b c n m) = race_sema v k"
  by (simp add: race_def)

lemma race_ops:
  "sema_slow nat_kernel (race_sema v None) (Wait_slow t) (race_sema v (Some 0)) (wait_slow_switch t)"
  "sema_slow nat_kernel (race_sema v (Some k)) (Wait_slow t) (race_sema v (Some k)) (wait_slow_switch t)"
  "sema_slow nat_kernel (race_sema 0 (Some k)) Load_value (race_sema 0 (Some k)) (Undo 0)"
  "sema_slow nat_kernel (race_sema v (Some k)) (Undo 0) (race_sema v (Some k)) Kernel_wait"
  "sema_slow nat_kernel (race_sema v (Some k)) Signal_slow (race_sema v (Some k)) Signal_kernel"
  "sema_slow nat_kernel (race_sema v (Some k)) Signal_kernel (race_sema v (Some (Suc k))) (Done 1)"
  "sema_slow nat_kernel (race_sema v (Some (Suc k))) Kernel_wait (race_sema v (Some k)) (Done 0)"
  using sema_slow.wait_create [of nat_kernel "race_sema v None" t]
    sema_slow.wait_create [of nat_kernel "race_sema v (Some k)" t]
    sema_slow.load_value [of nat_kernel "race_sema 0 (Some k)"]
    sema_slow.undo [of "race_sema v (Some k)" 0 "race_sema v (Some k)" Kernel_wait nat_kernel]
    sema_slow.signal_create [of nat_kernel "race_sema v (Some k)"]
    sema_slow.signal_kernel [of "race_sema v (Some k)" k nat_kernel 0 "Suc k"]
    sema_slow.kernel_wait [of "race_sema v (Some (Suc k))" "Suc k" nat_kernel 0 k]
  by (simp_all add: dispatch_sema4_create_def nat_kernel_def wait_slow_undo_def dispatch_sema4_signal_def
      dispatch_sema4_wait_def)

lemma race_signal:
  "sema_step nat_kernel (race (-1) k Load_value (Done r) c n m) (race 0 k Load_value Signal_slow c (Suc n) m)"
  if "c \<noteq> Crashed"
  using that sema_step.signal [OF race_alive, of Load_value "Done r" c "-1" k n m 2 r]
  by (simp add: race_def dispatch_semaphore_signal_def)

lemma race_wait:
  "sema_step nat_kernel (race 0 k a b (Done r) n m) (race (-1) k a b (Wait_slow t) n m)"
  if "a \<noteq> Crashed" "b \<noteq> Crashed"
  using that sema_step.wait [OF race_alive, of a b "Done r" 0 k n m 3 r t]
  by (simp add: race_def dispatch_semaphore_wait_def wait_done_def)

lemma race_run:
  "(sema_step nat_kernel)\<^sup>*\<^sup>* (race (-1) None (Wait_slow DISPATCH_TIME_NOW) (Done 0) (Done 0) 0 0) raced"
proof -
  note step1 = race_slow(1) [unfolded sema_race] and step2 = race_slow(2) [unfolded sema_race]
    and step3 = race_slow(3) [unfolded sema_race]
  note ops = wait_slow_switch_def wait_done_def
  let ?S = "sema_step nat_kernel"
  have st: "?S (race (-1) None (Wait_slow 0) (Done 0) (Done 0) 0 0) (race (-1) (Some 0) Load_value (Done 0) (Done 0) 0 0)"
    "?S (race (-1) (Some 0) Load_value (Done 0) (Done 0) 0 0) (race 0 (Some 0) Load_value Signal_slow (Done 0) 1 0)"
    "?S (race 0 (Some 0) Load_value Signal_slow (Done 0) 1 0) (race 0 (Some 0) (Undo 0) Signal_slow (Done 0) 1 0)"
    "?S (race 0 (Some 0) (Undo 0) Signal_slow (Done 0) 1 0) (race 0 (Some 0) Kernel_wait Signal_slow (Done 0) 1 0)"
    "?S (race 0 (Some 0) Kernel_wait Signal_slow (Done 0) 1 0) (race 0 (Some 0) Kernel_wait Signal_kernel (Done 0) 1 0)"
    "?S (race 0 (Some 0) Kernel_wait Signal_kernel (Done 0) 1 0) (race 0 (Some 1) Kernel_wait (Done 1) (Done 0) 1 0)"
    "?S (race 0 (Some 1) Kernel_wait (Done 1) (Done 0) 1 0)
       (race (-1) (Some 1) Kernel_wait (Done 1) (Wait_slow DISPATCH_TIME_FOREVER) 1 0)"
    "?S (race (-1) (Some 1) Kernel_wait (Done 1) (Wait_slow DISPATCH_TIME_FOREVER) 1 0)
       (race (-1) (Some 1) Kernel_wait (Done 1) Kernel_wait 1 0)"
    "?S (race (-1) (Some 1) Kernel_wait (Done 1) Kernel_wait 1 0) raced"
    using step1 [OF _ _ _ race_ops(1) [of "-1" 0], of "Done 0" "Done 0" 0 0]
      race_signal [of "Done 0" "Some 0" 0 0 0]
      step1 [OF _ _ _ race_ops(3) [of 0], of Signal_slow "Done 0" 1 0]
      step1 [OF _ _ _ race_ops(4) [of 0 0], of Signal_slow "Done 0" 1 0]
      step2 [OF _ _ _ race_ops(5) [of 0 0], of Kernel_wait "Done 0" 1 0]
      step2 [OF _ _ _ race_ops(6) [of 0 0], of Kernel_wait "Done 0" 1 0]
      race_wait [of Kernel_wait "Done 1" "Some 1" 0 1 0 DISPATCH_TIME_FOREVER]
      step3 [OF _ _ _ race_ops(2) [of "-1" 1 DISPATCH_TIME_FOREVER], of Kernel_wait "Done 1" 1 0]
      step3 [OF _ _ _ race_ops(7) [of "-1" 0], of Kernel_wait "Done 1" 1 0]
    by (simp_all add: ops raced_def)
  show ?thesis
    by (rule converse_rtranclp_into_rtranclp, rule st)+ (rule rtranclp.rtrancl_refl)
qed

lemma raced_reach: "reach sema_init (sema_step nat_kernel) raced"
  using race_run race_entered
  by (induction rule: rtranclp_induct) (blast intro: reach_step)+

lemma raced_alive: "\<not> crashed raced" "pcs raced 1 = Kernel_wait"
  unfolding raced_def by (rule race_alive) (simp_all add: race_def)

theorem no_lost_wakeup_witness:
  "int (acquired raced) = sint (dsema_orig (sema raced)) + int (signals raced) \<and> sint (dsema_value (sema raced)) < 0"
proof -
  have "threads_in posting (pcs raced) = 0"
    by (simp add: threads_in_none raced_def race_def race_pcs_def posting_def)
  moreover have "kernel_tokens id (sema raced) = 0" by (simp add: raced_def race_def kernel_tokens_def)
  ultimately show ?thesis
    using no_lost_wakeup [OF nat_kernel_counts raced_reach raced_alive] by simp
qed


end
