(* ===== verification/Group_State.thy ===== *)
theory Group_State
  imports Threads Time
begin

text \<open>
  The 64-bit state word of a \<open>dispatch_group_t\<close> (\<open>src/semaphore_internal.h\<close>): a
  generation in the upper half, and in the lower half the value, counted downwards in steps of
  four, above the two bits for notifications and waiters. \<open>dg_state_value\<close> reads it as the number
  of times the group was entered and not left.
\<close>

section \<open>Layout\<close>

abbreviation (input) DISPATCH_GROUP_GEN_MASK :: u64 where "DISPATCH_GROUP_GEN_MASK \<equiv> 0xffffffff00000000"
abbreviation (input) DISPATCH_GROUP_VALUE_MASK :: u64 where "DISPATCH_GROUP_VALUE_MASK \<equiv> 0x00000000fffffffc"
abbreviation (input) DISPATCH_GROUP_VALUE_INTERVAL :: u64 where "DISPATCH_GROUP_VALUE_INTERVAL \<equiv> 4"
abbreviation (input) DISPATCH_GROUP_VALUE_1 :: u64 where "DISPATCH_GROUP_VALUE_1 \<equiv> 0x00000000fffffffc"
abbreviation (input) DISPATCH_GROUP_VALUE_MAX :: u64 where "DISPATCH_GROUP_VALUE_MAX \<equiv> 4"
abbreviation (input) DISPATCH_GROUP_HAS_NOTIFS :: u64 where "DISPATCH_GROUP_HAS_NOTIFS \<equiv> 2"
abbreviation (input) DISPATCH_GROUP_HAS_WAITERS :: u64 where "DISPATCH_GROUP_HAS_WAITERS \<equiv> 1"

text \<open>\<open>dg_bits\<close> and \<open>dg_gen\<close>, the halves of the union on a little endian machine.\<close>

definition dg_bits :: "u64 \<Rightarrow> u32" where "dg_bits dg_state = ucast dg_state"

definition set_dg_bits :: "u64 \<Rightarrow> u32 \<Rightarrow> u64" where
  "set_dg_bits dg_state bits = (dg_state AND DISPATCH_GROUP_GEN_MASK) OR ucast bits"

definition dg_state_value :: "u64 \<Rightarrow> u32" where
  "dg_state_value dg_state = drop_bit 2 (ucast (- (ucast (dg_bits dg_state) AND DISPATCH_GROUP_VALUE_MASK)))"

definition dg_state_gen :: "u64 \<Rightarrow> u32" where
  "dg_state_gen dg_state = ucast (drop_bit 32 dg_state)"

section \<open>The atomic updates\<close>

definition group_enter_bits :: "u64 \<Rightarrow> u64" where
  "group_enter_bits st = set_dg_bits st (dg_bits st - ucast DISPATCH_GROUP_VALUE_INTERVAL)"

definition group_leave_clear :: "u64 \<Rightarrow> u64" where
  "group_leave_clear old_state =
     (if old_state AND DISPATCH_GROUP_VALUE_MASK = 0
      then (old_state AND NOT DISPATCH_GROUP_HAS_WAITERS) AND NOT DISPATCH_GROUP_HAS_NOTIFS
      else old_state AND NOT DISPATCH_GROUP_HAS_NOTIFS)"

section \<open>Reading the word\<close>

definition has_waiters :: "u64 \<Rightarrow> bool" where "has_waiters st \<longleftrightarrow> st AND DISPATCH_GROUP_HAS_WAITERS \<noteq> 0"
definition has_notifs :: "u64 \<Rightarrow> bool" where "has_notifs st \<longleftrightarrow> st AND DISPATCH_GROUP_HAS_NOTIFS \<noteq> 0"

text \<open>The fields as numbers: the word is \<open>gen * 2^32 + value * 4 + notifs * 2 + waiters\<close>.\<close>

definition vfield :: "u64 \<Rightarrow> nat" where "vfield st = unat st div 4 mod 2 ^ 30"
definition gfield :: "u64 \<Rightarrow> nat" where "gfield st = unat st div 4 div 2 ^ 30"
definition low2 :: "u64 \<Rightarrow> nat" where "low2 st = unat st mod 4"

lemma mask_bits:
  "bit DISPATCH_GROUP_VALUE_MASK n \<longleftrightarrow> 2 \<le> n \<and> n < 32"
  "bit DISPATCH_GROUP_GEN_MASK n \<longleftrightarrow> 32 \<le> n \<and> n < 64"
proof -
  have "DISPATCH_GROUP_VALUE_MASK = push_bit 2 (mask 30)" "DISPATCH_GROUP_GEN_MASK = push_bit 32 (mask 32)"
    by (simp_all add: mask_eq_exp_minus_1 push_bit_eq_mult)
  then show "bit DISPATCH_GROUP_VALUE_MASK n \<longleftrightarrow> 2 \<le> n \<and> n < 32"
    "bit DISPATCH_GROUP_GEN_MASK n \<longleftrightarrow> 32 \<le> n \<and> n < 64"
    by (simp_all only: bit_push_bit_iff bit_mask_iff possible_bit_word) (auto simp: possible_bit_word)
qed

lemma word_split: "unat st = (gfield st * 2 ^ 30 + vfield st) * 4 + low2 st"
  by (simp add: vfield_def gfield_def low2_def)

lemma vfield_less: "vfield st < 2 ^ 30" by (simp add: vfield_def)
lemma low2_less: "low2 st < 4" by (simp add: low2_def)
lemma unat_u64_less: "unat (st :: u64) < 2 ^ 64"
  using unsigned_less [of st, where 'a = nat] by simp

lemma unat_drop_u64: "unat (drop_bit n (st :: u64)) = unat st div 2 ^ n"
  by (subst unsigned_drop_bit_eq) (simp add: take_bit_nat_eq_self unat_u64_less [simplified] drop_bit_eq_div)

lemma gfield_less: "gfield st < 2 ^ 32"
  using unat_u64_less [of st] by (simp add: gfield_def less_mult_imp_div_less flip: div_mult2_eq)

lemma bit_low2: "bit st 0 \<longleftrightarrow> odd (low2 st)" "bit st 1 \<longleftrightarrow> odd (low2 st div 2)"
proof -
  have "odd n \<longleftrightarrow> odd (n mod 4)" "odd (n div 2) \<longleftrightarrow> odd (n mod 4 div 2)" for n :: nat by presburger+
  then show "bit st 0 \<longleftrightarrow> odd (low2 st)" "bit st 1 \<longleftrightarrow> odd (low2 st div 2)"
    unfolding bit_unat low2_def by simp_all
qed

lemma flags: "has_waiters st \<longleftrightarrow> odd (low2 st)" "has_notifs st \<longleftrightarrow> odd (low2 st div 2)"
  using and_exp_eq_0_iff_not_bit [of st 0] and_exp_eq_0_iff_not_bit [of st 1]
  by (simp_all add: has_waiters_def has_notifs_def flip: bit_low2)

lemma low2_flags: "low2 st = of_bool (has_waiters st) + 2 * of_bool (has_notifs st)"
proof -
  have "low2 st = low2 st mod 2 + 2 * (low2 st div 2 mod 2)" using low2_less [of st] by presburger
  then show ?thesis by (auto simp: flags odd_iff_mod_2_eq_one)
qed

lemma wordI:
  assumes "unat st' = (g * 2 ^ 30 + v) * 4 + r" "v < 2 ^ 30" "r < 4"
  shows "gfield st' = g" "vfield st' = v" "low2 st' = r"
proof -
  have "unat st' div 4 = g * 2 ^ 30 + v" "unat st' mod 4 = r"
    unfolding assms(1) using assms(3) by (simp_all only: div_mult_self3 mod_mult_self3 div_less mod_less add_0_right)
  then show "gfield st' = g" "vfield st' = v" "low2 st' = r"
    using assms(2) by (simp_all add: gfield_def vfield_def low2_def)
qed

text \<open>The value part and its tests.\<close>

lemma and_value_mask: "st AND DISPATCH_GROUP_VALUE_MASK = push_bit 2 (take_bit 30 (drop_bit 2 st))"
proof (rule bit_eqI)
  fix n
  have "bit (push_bit 2 (take_bit 30 (drop_bit 2 st))) n \<longleftrightarrow> 2 \<le> n \<and> n < 32 \<and> bit st n"
    by (auto simp only: bit_push_bit_iff bit_take_bit_iff bit_drop_bit_eq comp_def possible_bit_word le_add_diff_inverse
        len_num1 len_bit0; simp; linarith)
  then show "bit (st AND DISPATCH_GROUP_VALUE_MASK) n = bit (push_bit 2 (take_bit 30 (drop_bit 2 st))) n"
    unfolding bit_and_iff mask_bits by auto
qed

lemma unat_value: "unat (st AND DISPATCH_GROUP_VALUE_MASK) = vfield st * 4"
proof -
  have "unat (take_bit 30 (drop_bit 2 st)) = vfield st"
    unfolding vfield_def unsigned_take_bit_eq unsigned_drop_bit_eq
    by (simp add: take_bit_eq_mod drop_bit_eq_div take_bit_nat_eq_self unat_u64_less [simplified])
  moreover have "unat (push_bit 2 w) = take_bit 64 (push_bit 2 (unat w))" for w :: u64
    by (simp only: unsigned_push_bit_eq) simp
  ultimately show ?thesis unfolding and_value_mask
    using vfield_less [of st] by (simp add: take_bit_eq_mod push_bit_eq_mult)
qed

lemma value_zero: "st AND DISPATCH_GROUP_VALUE_MASK = 0 \<longleftrightarrow> vfield st = 0"
  using unat_value [of st] by (metis mult_eq_0_iff unsigned_0 unat_eq_zero zero_neq_numeral)

lemma value_one: "st AND DISPATCH_GROUP_VALUE_MASK = DISPATCH_GROUP_VALUE_1 \<longleftrightarrow> vfield st = 2 ^ 30 - 1"
proof -
  have "st AND DISPATCH_GROUP_VALUE_MASK = DISPATCH_GROUP_VALUE_1 \<longleftrightarrow> vfield st * 4 = 0xfffffffc"
    using unat_value [of st] by (auto simp: word_unat_eq_iff)
  then show ?thesis by auto
qed

lemma value_max: "st AND DISPATCH_GROUP_VALUE_MASK = DISPATCH_GROUP_VALUE_MAX \<longleftrightarrow> vfield st = 1"
  using unat_value [of st] by (auto simp: word_unat_eq_iff)

section \<open>What the updates do\<close>

lemma mod_shift: "r < a \<Longrightarrow> (q * a + r) mod (a * b) = (q mod b) * a + (r :: nat)"
  by (simp add: mod_mult2_eq)

lemma mod_div_swap: "0 < a \<Longrightarrow> x mod (a * b) div a = x div a mod (b :: nat)"
  by (simp add: mod_mult2_eq)

lemma leave_word:
  "vfield (st + 4) = Suc (vfield st) mod 2 ^ 30" "low2 (st + 4) = low2 st"
  "gfield (st + 4) = (if vfield st = 2 ^ 30 - 1 then Suc (gfield st) mod 2 ^ 32 else gfield st)"
proof -
  let ?q = "unat st div 4"
  have u: "unat (st + 4) = (unat st + 4) mod 2 ^ 64" by (simp add: unat_word_ariths)
  have "unat st + 4 = Suc ?q * 4 + low2 st" by (simp add: low2_def)
  then have "(unat st + 4) mod 2 ^ 64 = (Suc ?q mod 2 ^ 62) * 4 + low2 st"
    using mod_shift [OF low2_less [of st], of "Suc ?q" "2 ^ 62"] by (simp only:) simp
  then have w: "unat (st + 4) div 4 = Suc ?q mod 2 ^ 62" "unat (st + 4) mod 4 = low2 st"
    using u low2_less [of st] by simp_all
  then show "low2 (st + 4) = low2 st" by (simp add: low2_def)
  have q: "?q = gfield st * 2 ^ 30 + vfield st" by (simp add: gfield_def vfield_def)
  have sq: "Suc ?q mod 2 ^ 30 = Suc (vfield st) mod 2 ^ 30" unfolding q by (simp add: mod_simps)
  have "Suc ?q mod (2 ^ 30 * 2 ^ 32) mod 2 ^ 30 = Suc ?q mod 2 ^ 30"
    by (rule mod_mod_cancel) (rule dvd_triv_left)
  then show "vfield (st + 4) = Suc (vfield st) mod 2 ^ 30"
    using w(1) sq by (simp add: vfield_def)
  have "Suc ?q mod (2 ^ 30 * 2 ^ 32) div 2 ^ 30 = Suc ?q div 2 ^ 30 mod 2 ^ 32" by (rule mod_div_swap) simp
  moreover have "Suc ?q div 2 ^ 30 = (if vfield st = 2 ^ 30 - 1 then Suc (gfield st) else gfield st)"
    using div_Suc [of ?q "2 ^ 30"] mod_Suc [of ?q "2 ^ 30"]
    unfolding gfield_def vfield_def by (auto split: if_splits)
  ultimately show "gfield (st + 4) = (if vfield st = 2 ^ 30 - 1 then Suc (gfield st) mod 2 ^ 32 else gfield st)"
    using w(1) gfield_less [of st] by (simp add: gfield_def)
qed

lemma and_gen_mask: "st AND DISPATCH_GROUP_GEN_MASK = push_bit 32 (drop_bit 32 st)"
proof (rule bit_eqI)
  fix n
  have "bit (push_bit 32 (drop_bit 32 st)) n \<longleftrightarrow> 32 \<le> n \<and> n < 64 \<and> bit st n"
    by (auto simp only: bit_push_bit_iff bit_drop_bit_eq comp_def possible_bit_word le_add_diff_inverse
        len_num1 len_bit0; simp)
  then show "bit (st AND DISPATCH_GROUP_GEN_MASK) n = bit (push_bit 32 (drop_bit 32 st)) n"
    unfolding bit_and_iff mask_bits by auto
qed

lemma unat_set_dg_bits: "unat (set_dg_bits st b) = gfield st * 2 ^ 32 + unat b"
proof -
  have "unat (drop_bit 32 st) = gfield st"
    unfolding unat_drop_u64 gfield_def by (simp flip: div_mult2_eq)
  moreover have "unat (push_bit 32 w) = take_bit 64 (push_bit 32 (unat w))" for w :: u64
    by (simp only: unsigned_push_bit_eq) simp
  ultimately have "unat (st AND DISPATCH_GROUP_GEN_MASK) = push_bit 32 (gfield st)"
    unfolding and_gen_mask using gfield_less [of st] by (simp add: take_bit_eq_mod push_bit_eq_mult)
  moreover have b: "unat b < 2 ^ 32" using unsigned_less [of b, where 'a = nat] by simp
  moreover have "unat (ucast b :: u64) = unat b" using b by (simp add: unsigned_ucast_eq take_bit_nat_eq_self)
  ultimately show ?thesis
    using or_shift [of "unat b" 32 "gfield st"] by (simp add: set_dg_bits_def unsigned_or_eq)
qed

lemma unat_dg_bits: "unat (dg_bits st) = vfield st * 4 + low2 st"
proof -
  have "unat (dg_bits st) = unat st mod (4 * 2 ^ 30)" by (simp add: dg_bits_def unsigned_ucast_eq take_bit_eq_mod)
  also have "\<dots> = (unat st div 4 mod 2 ^ 30) * 4 + unat st mod 4" by (simp only: mod_mult2_eq ac_simps)
  finally show ?thesis by (simp add: vfield_def low2_def)
qed

lemma enter_word:
  "vfield (group_enter_bits st) = (vfield st + (2 ^ 30 - 1)) mod 2 ^ 30" "low2 (group_enter_bits st) = low2 st"
  "gfield (group_enter_bits st) = gfield st"
proof -
  have four: "ucast (4 :: u64) = (4 :: u32)" by simp
  have "unat (dg_bits st - 4) = (if vfield st = 0 then (2 ^ 30 - 1) * 4 + low2 st else (vfield st - 1) * 4 + low2 st)"
  proof (cases "vfield st = 0")
    case True
    then have "unat (dg_bits st) < 4" using unat_dg_bits [of st] low2_less [of st] by simp
    then show ?thesis using True unat_dg_bits [of st] by (simp add: unat_sub_if')
  next
    case False
    then have "4 \<le> unat (dg_bits st)" using unat_dg_bits [of st] by simp
    then show ?thesis using False unat_dg_bits [of st] by (simp add: unat_sub_if' diff_mult_distrib)
  qed
  moreover have "(vfield st + (2 ^ 30 - 1)) mod 2 ^ 30 = (if vfield st = 0 then 2 ^ 30 - 1 else vfield st - 1)"
    using vfield_less [of st] by (simp add: mod_if)
  ultimately have "unat (group_enter_bits st) =
      (gfield st * 2 ^ 30 + (vfield st + (2 ^ 30 - 1)) mod 2 ^ 30) * 4 + low2 st"
    unfolding group_enter_bits_def four unat_set_dg_bits by auto
  from wordI [OF this _ low2_less] show
    "vfield (group_enter_bits st) = (vfield st + (2 ^ 30 - 1)) mod 2 ^ 30" "low2 (group_enter_bits st) = low2 st"
    "gfield (group_enter_bits st) = gfield st" by simp_all
qed

text \<open>The flags do not touch the other fields.\<close>

lemma fields_eqI:
  assumes "\<And>n. 2 \<le> n \<Longrightarrow> bit st n = bit st' n"
  shows "gfield st = gfield st'" "vfield st = vfield st'"
proof -
  have "drop_bit 2 st = drop_bit 2 st'" by (rule bit_eqI) (simp add: bit_drop_bit_eq assms)
  then have "unat (drop_bit 2 st) = unat (drop_bit 2 st')" by simp
  then have "unat st div 4 = unat st' div 4" unfolding unat_drop_u64 by simp
  then show "gfield st = gfield st'" "vfield st = vfield st'" by (simp_all add: gfield_def vfield_def)
qed

lemma flag_bits: "bit (1 :: u64) n \<longleftrightarrow> n = 0" "bit (2 :: u64) n \<longleftrightarrow> n = 1"
proof -
  have "bit (2 ^ 1 :: u64) n \<longleftrightarrow> n = 1" unfolding bit_exp_iff by (auto simp: possible_bit_word)
  then show "bit (2 :: u64) n \<longleftrightarrow> n = 1" by simp
qed (simp add: bit_1_iff)

lemma or_flags:
  "gfield (st OR 1) = gfield st" "vfield (st OR 1) = vfield st" "has_waiters (st OR 1)" "has_notifs (st OR 1) = has_notifs st"
  "gfield (st OR 2) = gfield st" "vfield (st OR 2) = vfield st" "has_waiters (st OR 2) = has_waiters st" "has_notifs (st OR 2)"
        apply (rule fields_eqI; simp only: bit_or_iff flag_bits; simp)
       apply (rule fields_eqI; simp only: bit_or_iff flag_bits; simp)
      apply (simp_all only: flags bit_low2 [symmetric] bit_or_iff flag_bits)
     apply simp_all
   apply (rule fields_eqI; simp only: bit_or_iff flag_bits; simp)+
  done

lemma clear_flags:
  "gfield (group_leave_clear st) = gfield st" "vfield (group_leave_clear st) = vfield st"
  "\<not> has_notifs (group_leave_clear st)" "has_waiters (group_leave_clear st) \<longleftrightarrow> vfield st \<noteq> 0 \<and> has_waiters st"
proof -
  have b: "bit (group_leave_clear st) n \<longleftrightarrow> bit st n \<and> n \<noteq> 1 \<and> (vfield st = 0 \<longrightarrow> n \<noteq> 0)" for n
    by (simp only: group_leave_clear_def value_zero bit_and_iff bit_not_iff flag_bits possible_bit_word split: if_split)
      (auto dest: bit_imp_le_length)
  show "gfield (group_leave_clear st) = gfield st" "vfield (group_leave_clear st) = vfield st"
    by (rule fields_eqI; simp add: b)+
  show "\<not> has_notifs (group_leave_clear st)" "has_waiters (group_leave_clear st) \<longleftrightarrow> vfield st \<noteq> 0 \<and> has_waiters st"
    by (simp_all add: flags flip: bit_low2) (auto simp: b)
qed

lemma clear_same:
  "group_leave_clear st = st \<longleftrightarrow> \<not> has_notifs st \<and> (vfield st = 0 \<longrightarrow> \<not> has_waiters st)"
proof
  assume "group_leave_clear st = st"
  then show "\<not> has_notifs st \<and> (vfield st = 0 \<longrightarrow> \<not> has_waiters st)" using clear_flags [of st] by metis
next
  assume a: "\<not> has_notifs st \<and> (vfield st = 0 \<longrightarrow> \<not> has_waiters st)"
  have "low2 (group_leave_clear st) = low2 st" unfolding low2_flags using a clear_flags(3,4) [of st] by auto
  then have "unat (group_leave_clear st) = unat st"
    using word_split [of st] word_split [of "group_leave_clear st"] clear_flags(1,2) [of st] by simp
  then show "group_leave_clear st = st" by (simp only: word_unat_eq_iff)
qed

lemma low_zero: "dg_bits st = 0 \<longleftrightarrow> vfield st = 0 \<and> \<not> has_notifs st \<and> \<not> has_waiters st"
proof -
  have "dg_bits st = 0 \<longleftrightarrow> vfield st = 0 \<and> low2 st = 0"
    using unat_dg_bits [of st] by (metis add_eq_0_iff_both_eq_0 mult_eq_0_iff unat_eq_zero zero_neq_numeral)
  then show ?thesis by (auto simp: low2_flags)
qed

end
