(* ===== verification/Group.thy ===== *)
theory Group
  imports Group_State Lock
begin

text \<open>
  \<open>dispatch_group_t\<close> of \<open>src/semaphore.c\<close>: entering, leaving, waiting and notifying by
  any number of threads. Each atomic operation on the state word or on the list of notifications,
  and each call into the kernel, is one step of one thread. The list \<open>dg_notify\<close> is a queue to
  which a thread adds with one exchange of the tail, and which is taken whole.
\<close>

section \<open>State\<close>

type_synonym notification = nat

text \<open>\<open>dg_refs\<close> counts the references that the group takes on itself while it is in use.\<close>

record dispatch_group_s =
  dg_state :: u64
  dg_notify :: "notification list"
  dg_refs :: int

definition dispatch_group_create_with_count :: "u32 \<Rightarrow> dispatch_group_s" where
  "dispatch_group_create_with_count n =
     \<lparr>dg_state = set_dg_bits 0 (if n \<noteq> 0 then - n * ucast DISPATCH_GROUP_VALUE_INTERVAL else 0),
      dg_notify = [], dg_refs = (if n \<noteq> 0 then 1 else 0)\<rparr>"

definition dispatch_group_create :: dispatch_group_s where
  "dispatch_group_create = dispatch_group_create_with_count 0"

definition dispatch_group_create_and_enter :: dispatch_group_s where
  "dispatch_group_create_and_enter = dispatch_group_create_with_count 1"

definition dispatch_group_dispose :: "dispatch_group_s \<Rightarrow> unit result" where
  "dispatch_group_dispose dg = (if dg_bits (dg_state dg) \<noteq> 0 then Inl Client_crash else Inr ())"

text \<open>
  Where a thread is: \<open>Group_done r\<close> outside, after a call that answered \<open>r\<close>, the others
  between two atomic operations.
\<close>

datatype group_pc =
    Group_done int
  | Enter_retain
  | Leave_loop u64
  | Wake u64 bool
  | Wake_waiters u64 int
  | Wake_release int
  | Wait_enter u32 u64
  | Wait_kernel u32 u64 nat
  | Wait_check u32 u64 int
  | Notify_first
  | Group_crashed

section \<open>Operations\<close>

definition dispatch_group_enter :: "dispatch_group_s \<Rightarrow> dispatch_group_s \<times> group_pc" where
  "dispatch_group_enter dg =
     (let old_bits = ucast (dg_bits (dg_state dg)) :: u64;
          old_value = old_bits AND DISPATCH_GROUP_VALUE_MASK
      in (dg\<lparr>dg_state := group_enter_bits (dg_state dg)\<rparr>,
          if old_value = 0 then Enter_retain
          else if old_value = DISPATCH_GROUP_VALUE_MAX then Group_crashed
          else Group_done 0))"

definition group_enter_retain :: "dispatch_group_s \<Rightarrow> dispatch_group_s \<times> group_pc" where
  "group_enter_retain dg = (dg\<lparr>dg_refs := dg_refs dg + 1\<rparr>, Group_done 0)"

definition dispatch_group_leave :: "dispatch_group_s \<Rightarrow> dispatch_group_s \<times> group_pc" where
  "dispatch_group_leave dg =
     (let old_state = dg_state dg;
          old_value = old_state AND DISPATCH_GROUP_VALUE_MASK
      in (dg\<lparr>dg_state := old_state + DISPATCH_GROUP_VALUE_INTERVAL\<rparr>,
          if old_value = DISPATCH_GROUP_VALUE_1 then Leave_loop (old_state + DISPATCH_GROUP_VALUE_INTERVAL)
          else if old_value = 0 then Group_crashed
          else Group_done 0))"

text \<open>One turn of the loop of \<open>dispatch_group_leave\<close>.\<close>

definition group_leave_loop :: "dispatch_group_s \<Rightarrow> u64 \<Rightarrow> dispatch_group_s \<times> group_pc" where
  "group_leave_loop dg old_state =
     (let new_state = group_leave_clear old_state in
      if old_state = new_state then (dg, Wake old_state True)
      else if dg_state dg = old_state then (dg\<lparr>dg_state := new_state\<rparr>, Wake old_state True)
      else (dg, Leave_loop (dg_state dg)))"

text \<open>
  \<open>_dispatch_group_wake\<close>: the notifications are taken from the list and submitted, then the
  waiters are woken, then the references are given back. \<open>None\<close> is a snapshot of an empty list,
  on which the code would wait for a head that never comes.
\<close>

definition group_wake_notify :: "dispatch_group_s \<Rightarrow> u64 \<Rightarrow> bool \<Rightarrow> (dispatch_group_s \<times> notification list \<times> group_pc) option" where
  "group_wake_notify dg st needs_release =
     (let refs = (if needs_release then 1 else 0) in
      if has_notifs st then
        (if dg_notify dg = [] then None
         else Some (dg\<lparr>dg_notify := []\<rparr>, dg_notify dg, Wake_waiters st (refs + 1)))
      else Some (dg, [], Wake_waiters st refs))"

definition group_wake_release :: "dispatch_group_s \<Rightarrow> int \<Rightarrow> dispatch_group_s \<times> group_pc" where
  "group_wake_release dg refs = (dg\<lparr>dg_refs := dg_refs dg - refs\<rparr>, Group_done 0)"

definition dispatch_group_wait :: "dispatch_group_s \<Rightarrow> u64 \<Rightarrow> dispatch_group_s \<times> group_pc" where
  "dispatch_group_wait dg timeout =
     (let old_state = dg_state dg in
      if old_state AND DISPATCH_GROUP_VALUE_MASK = 0 then (dg, Group_done 0)
      else if timeout = 0 then (dg, Group_done KERN_OPERATION_TIMED_OUT)
      else
        let new_state = old_state OR DISPATCH_GROUP_HAS_WAITERS in
        (if has_waiters old_state then dg else dg\<lparr>dg_state := new_state\<rparr>,
         Wait_enter (dg_state_gen new_state) timeout))"

text \<open>The loop of \<open>_dispatch_group_wait_slow\<close> after \<open>_dispatch_wait_on_address\<close> answered \<open>rc\<close>.\<close>

definition dispatch_group_wait_slow :: "dispatch_group_s \<Rightarrow> u32 \<Rightarrow> u64 \<Rightarrow> int \<Rightarrow> group_pc" where
  "dispatch_group_wait_slow dg gen timeout rc =
     (if gen \<noteq> dg_state_gen (dg_state dg) then Group_done 0
      else if rc = ETIMEDOUT then Group_done KERN_OPERATION_TIMED_OUT
      else Wait_enter gen timeout)"

definition group_wait_answer :: "clocks \<Rightarrow> u32 \<Rightarrow> u64 \<Rightarrow> nat \<Rightarrow> int \<Rightarrow> group_pc" where
  "group_wait_answer c gen timeout usecs rc =
     (case dlock_wait usecs rc of
        Call_again \<Rightarrow> Wait_kernel gen timeout usecs
      | Answer_crash \<Rightarrow> Group_crashed
      | Answer r \<Rightarrow>
          (case wait_on_address_again c timeout usecs r of
             Address_done r' \<Rightarrow> Wait_check gen timeout r'
           | Address_kernel usecs' \<Rightarrow> Wait_kernel gen timeout usecs'))"

text \<open>\<open>_dispatch_group_notify\<close>: the push of the tail, and what its first pusher does next.\<close>

definition dispatch_group_notify :: "dispatch_group_s \<Rightarrow> notification \<Rightarrow> dispatch_group_s \<times> group_pc" where
  "dispatch_group_notify dg dsn =
     (dg\<lparr>dg_notify := dg_notify dg @ [dsn]\<rparr>,
      if dg_notify dg = [] then Notify_first else Group_done 0)"

definition group_notify_first :: "dispatch_group_s \<Rightarrow> dispatch_group_s \<times> group_pc" where
  "group_notify_first dg =
     (let dg' = dg\<lparr>dg_refs := dg_refs dg + 1\<rparr>;
          old_state = dg_state dg;
          new_state = old_state OR DISPATCH_GROUP_HAS_NOTIFS
      in if dg_bits old_state = 0 then (dg', Wake new_state False)
         else (dg'\<lparr>dg_state := new_state\<rparr>, Group_done 0))"

section \<open>The system\<close>

text \<open>
  All threads and the kernel's queue, with what the code does not have: the notifications asked for
  and those submitted, and how often the group became empty.
\<close>

record 'w group_sys =
  dg :: dispatch_group_s
  gpcs :: "dispatch_tid \<Rightarrow> group_pc"
  wq :: 'w
  asked :: "notification list"
  submitted :: "notification list"
  epochs :: nat

definition group_crashed :: "'w group_sys \<Rightarrow> bool" where
  "group_crashed s \<longleftrightarrow> (\<exists>t. gpcs s t = Group_crashed)"

definition move :: "'w group_sys \<Rightarrow> dispatch_tid \<Rightarrow> dispatch_group_s \<times> group_pc \<Rightarrow> 'w group_sys" where
  "move s t r = s\<lparr>dg := fst r, gpcs := (gpcs s)(t := snd r)\<rparr>"

inductive group_step :: "'w ulock \<Rightarrow> 'w group_sys \<Rightarrow> 'w group_sys \<Rightarrow> bool" for U where
  enter: "gpcs s t = Group_done r \<Longrightarrow> group_step U s (move s t (dispatch_group_enter (dg s)))"
| enter_retain: "gpcs s t = Enter_retain \<Longrightarrow> group_step U s (move s t (group_enter_retain (dg s)))"
| leave: "gpcs s t = Group_done r \<Longrightarrow>
    group_step U s ((move s t (dispatch_group_leave (dg s)))
      \<lparr>epochs := epochs s + (if dg_state (dg s) AND DISPATCH_GROUP_VALUE_MASK = DISPATCH_GROUP_VALUE_1 then 1 else 0)\<rparr>)"
| leave_loop: "gpcs s t = Leave_loop st \<Longrightarrow> group_step U s (move s t (group_leave_loop (dg s) st))"
| wake_notify: "gpcs s t = Wake st needs \<Longrightarrow> group_wake_notify (dg s) st needs = Some (d, ns, pc) \<Longrightarrow>
    group_step U s ((move s t (d, pc))\<lparr>submitted := submitted s @ ns\<rparr>)"
| wake_waiters: "gpcs s t = Wake_waiters st refs \<Longrightarrow>
    group_step U s ((move s t (dg s, Wake_release refs))
      \<lparr>wq := (if has_waiters st then ul_wake_all U (wq s) else wq s)\<rparr>)"
| wake_release: "gpcs s t = Wake_release refs \<Longrightarrow> group_step U s (move s t (group_wake_release (dg s) refs))"
| wait: "gpcs s t = Group_done r \<Longrightarrow> group_step U s (move s t (dispatch_group_wait (dg s) timeout))"
| wait_timeout: "gpcs s t = Wait_enter gen timeout \<Longrightarrow> wait_on_address_enter c timeout = Address_done rc \<Longrightarrow>
    group_step U s (move s t (dg s, Wait_check gen timeout rc))"
| wait_call: "gpcs s t = Wait_enter gen timeout \<Longrightarrow> wait_on_address_enter c timeout = Address_kernel usecs \<Longrightarrow>
    ul_wait U (wq s) t (dg_state_gen (dg_state (dg s)) = gen) w \<Longrightarrow>
    group_step U s ((move s t (dg s, Wait_kernel gen timeout usecs))\<lparr>wq := w\<rparr>)"
| wait_return: "gpcs s t = Wait_kernel gen timeout usecs \<Longrightarrow> ul_return U (wq s) t rc w \<Longrightarrow>
    group_wait_answer c gen timeout usecs rc = pc \<Longrightarrow> (\<forall>n. pc \<noteq> Wait_kernel gen timeout n) \<Longrightarrow>
    group_step U s ((move s t (dg s, pc))\<lparr>wq := w\<rparr>)"
| wait_again: "gpcs s t = Wait_kernel gen timeout usecs \<Longrightarrow> ul_return U (wq s) t rc w' \<Longrightarrow>
    group_wait_answer c gen timeout usecs rc = Wait_kernel gen timeout usecs' \<Longrightarrow>
    ul_wait U w' t (dg_state_gen (dg_state (dg s)) = gen) w \<Longrightarrow>
    group_step U s ((move s t (dg s, Wait_kernel gen timeout usecs'))\<lparr>wq := w\<rparr>)"
| wait_check: "gpcs s t = Wait_check gen timeout rc \<Longrightarrow>
    group_step U s (move s t (dg s, dispatch_group_wait_slow (dg s) gen timeout rc))"
| notify: "gpcs s t = Group_done r \<Longrightarrow>
    group_step U s ((move s t (dispatch_group_notify (dg s) n))\<lparr>asked := asked s @ [n]\<rparr>)"
| notify_first: "gpcs s t = Notify_first \<Longrightarrow> group_step U s (move s t (group_notify_first (dg s)))"

definition group_run :: "'w ulock \<Rightarrow> 'w group_sys \<Rightarrow> 'w group_sys \<Rightarrow> bool" where
  "group_run U s s' \<longleftrightarrow> \<not> group_crashed s \<and> group_step U s s'"

definition group_init :: "('w \<Rightarrow> dispatch_tid \<Rightarrow> bool) \<Rightarrow> 'w group_sys \<Rightarrow> bool" where
  "group_init asleep s \<longleftrightarrow> dg s = dispatch_group_create \<and> gpcs s = (\<lambda>_. Group_done 0) \<and>
     (\<forall>t. \<not> asleep (wq s) t) \<and> asked s = [] \<and> submitted s = [] \<and> epochs s = 0"

end
