(* ===== verification/Group_Invariant.thy ===== *)
theory Group_Invariant
  imports Group
begin

text \<open>
  The invariants of a group: the bit for notifications is a lock on their list, a bit that is set
  while the group is empty is about to be cleared, a thread that sleeps on an old generation is
  about to be woken, and the references the group holds on itself are accounted for.
\<close>

section \<open>Sums over the threads\<close>

lemma sum_threads_update:
  "(\<Sum>u \<in> UNIV. h ((f(t := x)) u)) + h (f t) = (\<Sum>u \<in> UNIV. h (f u)) + (h x :: int)"
  for f :: "dispatch_tid \<Rightarrow> 'p"
proof -
  have "(\<Sum>u \<in> UNIV. h (g u)) = h (g t) + (\<Sum>u \<in> UNIV - {t}. h (g u))" for g :: "dispatch_tid \<Rightarrow> 'p"
    by (rule sum.remove) simp_all
  moreover have "(\<Sum>u \<in> UNIV - {t}. h ((f(t := x)) u)) = (\<Sum>u \<in> UNIV - {t}. h (f u))"
    by (rule sum.cong) simp_all
  ultimately show ?thesis by simp
qed

section \<open>The invariants\<close>

definition dirty :: "u64 \<Rightarrow> bool" where
  "dirty st \<longleftrightarrow> has_notifs st \<or> vfield st = 0 \<and> has_waiters st"

definition notif_waker :: "group_pc \<Rightarrow> bool" where
  "notif_waker pc \<longleftrightarrow> (case pc of Wake st _ \<Rightarrow> has_notifs st | _ \<Rightarrow> False)"

definition cleaning :: "group_pc \<Rightarrow> bool" where
  "cleaning pc \<longleftrightarrow> (case pc of Leave_loop st \<Rightarrow> dirty st | _ \<Rightarrow> False)"

definition notify_inv :: "'w group_sys \<Rightarrow> bool" where
  "notify_inv s \<longleftrightarrow>
     asked s = submitted s @ dg_notify (dg s) \<and>
     threads_in ((=) Notify_first) (gpcs s) + threads_in notif_waker (gpcs s) + of_bool (has_notifs (dg_state (dg s))) =
       of_bool (dg_notify (dg s) \<noteq> []) \<and>
     (vfield (dg_state (dg s)) = 0 \<longrightarrow> has_notifs (dg_state (dg s)) \<or> has_waiters (dg_state (dg s)) \<longrightarrow>
       (\<exists>t. cleaning (gpcs s t)))"

text \<open>What the operations do to the fields of the word.\<close>

definition same_low :: "u64 \<Rightarrow> u64 \<Rightarrow> bool" where
  "same_low st st' \<longleftrightarrow> (has_notifs st' \<longleftrightarrow> has_notifs st) \<and> (has_waiters st' \<longleftrightarrow> has_waiters st)"

lemma same_low_leave: "same_low st (st + 4)"
  by (simp add: same_low_def flags leave_word)

lemma same_low_enter: "same_low st (group_enter_bits st)"
  by (simp add: same_low_def flags enter_word)

lemma old_value:
  "ucast (dg_bits st) AND DISPATCH_GROUP_VALUE_MASK = st AND DISPATCH_GROUP_VALUE_MASK"
proof (rule bit_eqI)
  fix n
  show "bit (ucast (dg_bits st) AND DISPATCH_GROUP_VALUE_MASK) n = bit (st AND DISPATCH_GROUP_VALUE_MASK) n"
    unfolding bit_and_iff mask_bits dg_bits_def by (auto simp: bit_ucast_iff)
qed

lemma vfield_old: "vfield (ucast (dg_bits st)) = vfield st"
  using unat_value [of "ucast (dg_bits st)"] unat_value [of st] by (simp add: old_value)

lemma neg_value:
  assumes x: "unat (x :: u64) = v * 4" and v: "v < 2 ^ 30"
  shows "unat (drop_bit 2 (ucast (- x) :: u32)) = (2 ^ 30 - v) mod 2 ^ 30"
proof (cases "v = 0")
  case True
  then have "x = 0" using x by (simp add: word_unat_eq_iff)
  then show ?thesis using True by simp
next
  case False
  then have "x \<noteq> 0" using x by auto
  then have "unat (- x) = 2 ^ 64 - v * 4" using x False unat_sub_if' [of 0 x] by simp
  also have "\<dots> = (2 ^ 32 - v * 4) + (2 ^ 32 - 1) * 2 ^ 32" using v by simp
  finally have "unat (- x) mod 2 ^ 32 = (2 ^ 32 - v * 4) mod 2 ^ 32" by (simp only: mod_mult_self1)
  then have "unat (- x) mod 2 ^ 32 = 2 ^ 32 - v * 4" using v False by simp
  then have u: "unat (ucast (- x) :: u32) = 2 ^ 32 - v * 4" by (simp add: unsigned_ucast_eq take_bit_eq_mod)
  have "unat (drop_bit 2 (ucast (- x) :: u32)) = unat (ucast (- x) :: u32) div 4"
  proof -
    have "unat (ucast (- x) :: u32) < 2 ^ 32" unfolding u using False by simp
    then show ?thesis by (subst unsigned_drop_bit_eq) (simp add: take_bit_nat_eq_self drop_bit_eq_div)
  qed
  then show ?thesis using u v False by simp
qed

lemma value_number: "unat (dg_state_value st) = (2 ^ 30 - vfield st) mod 2 ^ 30"
  unfolding dg_state_value_def
  by (rule neg_value) (use unat_value [of "ucast (dg_bits st)"] vfield_old [of st] vfield_less [of st] in simp_all)

lemma value_is_zero: "dg_state_value st = 0 \<longleftrightarrow> vfield st = 0"
  using value_number [of st] vfield_less [of st]
  by (cases "vfield st = 0") (auto simp: word_unat_eq_iff)

text \<open>The operations on fields, errors left out.\<close>

lemma enter_ok:
  assumes "dispatch_group_enter d = (d', pc)" "pc \<noteq> Group_crashed"
  shows "dg_notify d' = dg_notify d" "dg_refs d' = dg_refs d" "same_low (dg_state d) (dg_state d')"
    "gfield (dg_state d') = gfield (dg_state d)" "0 < vfield (dg_state d')"
    "pc = (if vfield (dg_state d) = 0 then Enter_retain else Group_done 0)"
proof -
  have e: "d' = d\<lparr>dg_state := group_enter_bits (dg_state d)\<rparr>"
    "pc = (if vfield (dg_state d) = 0 then Enter_retain else Group_done 0)" "vfield (dg_state d) \<noteq> 1"
    using assms by (auto simp: dispatch_group_enter_def Let_def vfield_old value_zero value_max split: if_splits)
  have "(vfield (dg_state d) + (2 ^ 30 - 1)) mod 2 ^ 30 \<noteq> 0"
    using e(3) vfield_less [of "dg_state d"] by (cases "vfield (dg_state d) = 0") (auto simp: mod_if)
  then show "0 < vfield (dg_state d')" using e(1) by (simp add: enter_word)
  show "dg_notify d' = dg_notify d" "dg_refs d' = dg_refs d" "same_low (dg_state d) (dg_state d')"
    "gfield (dg_state d') = gfield (dg_state d)" "pc = (if vfield (dg_state d) = 0 then Enter_retain else Group_done 0)"
    using e by (simp_all add: enter_word same_low_enter)
qed

lemma leave_ok:
  assumes "dispatch_group_leave d = (d', pc)" "pc \<noteq> Group_crashed"
  shows "dg_notify d' = dg_notify d" "dg_refs d' = dg_refs d" "same_low (dg_state d) (dg_state d')" "0 < vfield (dg_state d)"
    "if vfield (dg_state d) = 2 ^ 30 - 1
     then pc = Leave_loop (dg_state d') \<and> vfield (dg_state d') = 0 \<and> gfield (dg_state d') = Suc (gfield (dg_state d)) mod 2 ^ 32
     else pc = Group_done 0 \<and> 0 < vfield (dg_state d') \<and> gfield (dg_state d') = gfield (dg_state d)"
proof -
  have e: "d' = d\<lparr>dg_state := dg_state d + 4\<rparr>" "vfield (dg_state d) \<noteq> 0"
    "pc = (if vfield (dg_state d) = 2 ^ 30 - 1 then Leave_loop (dg_state d + 4) else Group_done 0)"
    using assms by (auto simp: dispatch_group_leave_def Let_def value_zero value_one split: if_splits)
  then show "dg_notify d' = dg_notify d" "dg_refs d' = dg_refs d" "same_low (dg_state d) (dg_state d')" "0 < vfield (dg_state d)"
    by (simp_all add: same_low_leave)
  show "if vfield (dg_state d) = 2 ^ 30 - 1
     then pc = Leave_loop (dg_state d') \<and> vfield (dg_state d') = 0 \<and> gfield (dg_state d') = Suc (gfield (dg_state d)) mod 2 ^ 32
     else pc = Group_done 0 \<and> 0 < vfield (dg_state d') \<and> gfield (dg_state d') = gfield (dg_state d)"
    using e vfield_less [of "dg_state d"] by (simp add: leave_word)
qed

lemma loop_ok:
  assumes "group_leave_loop d st = (d', pc)"
  shows "\<not> dirty st \<and> d' = d \<and> pc = Wake st True \<or>
    dirty st \<and> dg_state d = st \<and> d' = d\<lparr>dg_state := group_leave_clear st\<rparr> \<and> pc = Wake st True \<or>
    dirty st \<and> dg_state d \<noteq> st \<and> d' = d \<and> pc = Leave_loop (dg_state d)"
  using assms clear_same [of st] by (auto simp: group_leave_loop_def dirty_def split: if_splits)

lemma not_dirty_notifs: "\<not> dirty st \<Longrightarrow> \<not> has_notifs st" by (simp add: dirty_def)

lemma wait_ok:
  assumes "dispatch_group_wait d timeout = (d', pc)"
  shows "d' = d \<and> (\<exists>r. pc = Group_done r) \<or>
    0 < vfield (dg_state d) \<and> pc = Wait_enter (dg_state_gen (dg_state d')) timeout \<and>
    dg_notify d' = dg_notify d \<and> dg_refs d' = dg_refs d \<and> has_waiters (dg_state d') \<and> has_notifs (dg_state d') = has_notifs (dg_state d) \<and>
    vfield (dg_state d') = vfield (dg_state d) \<and> gfield (dg_state d') = gfield (dg_state d)"
proof (cases "has_waiters (dg_state d)")
  case True
  then have "bit (dg_state d) 0" by (simp add: flags flip: bit_low2)
  then have "dg_state d OR 1 = dg_state d" by (intro bit_eqI) (auto simp: bit_or_iff flag_bits)
  then show ?thesis using assms True by (auto simp: dispatch_group_wait_def Let_def value_zero split: if_splits)
next
  case False
  then show ?thesis using assms
    by (auto simp: dispatch_group_wait_def Let_def value_zero or_flags split: if_splits)
qed

lemma first_ok:
  assumes "group_notify_first d = (d', pc)"
  shows "dg_state d' = dg_state d \<and> pc = Wake (dg_state d OR 2) False \<and> vfield (dg_state d) = 0 \<and>
      \<not> has_notifs (dg_state d) \<and> \<not> has_waiters (dg_state d) \<and> d' = d\<lparr>dg_refs := dg_refs d + 1\<rparr> \<or>
    dg_state d' = dg_state d OR 2 \<and> pc = Group_done 0 \<and>
      (vfield (dg_state d) = 0 \<longrightarrow> has_notifs (dg_state d) \<or> has_waiters (dg_state d)) \<and>
      d' = d\<lparr>dg_refs := dg_refs d + 1, dg_state := dg_state d OR 2\<rparr>"
  using assms by (auto simp: group_notify_first_def Let_def low_zero split: if_splits)

section \<open>Notifications\<close>

lemma move_simps [simp]:
  "dg (move s t r) = fst r" "gpcs (move s t r) = (gpcs s)(t := snd r)" "wq (move s t r) = wq s"
  "asked (move s t r) = asked s" "submitted (move s t r) = submitted s" "epochs (move s t r) = epochs s"
  by (simp_all add: move_def)

text \<open>A step that leaves the list alone and keeps the flags keeps the invariant.\<close>

lemma notify_inv_move:
  assumes inv: "notify_inv s"
    and same: "asked s' = asked s" "submitted s' = submitted s" "dg_notify (dg s') = dg_notify (dg s)"
      "gpcs s' = (gpcs s)(t := pc)"
    and sum: "of_bool (pc = Notify_first) + of_bool (notif_waker pc) + of_bool (has_notifs (dg_state (dg s'))) =
      of_bool (gpcs s t = Notify_first) + of_bool (notif_waker (gpcs s t)) + (of_bool (has_notifs (dg_state (dg s))) :: nat)"
    and zero: "vfield (dg_state (dg s')) = 0 \<Longrightarrow> has_notifs (dg_state (dg s')) \<or> has_waiters (dg_state (dg s')) \<Longrightarrow>
      cleaning pc \<or> \<not> cleaning (gpcs s t) \<and> vfield (dg_state (dg s)) = 0 \<and>
        (has_notifs (dg_state (dg s)) \<or> has_waiters (dg_state (dg s)))"
  shows "notify_inv s'"
proof -
  have "threads_in ((=) Notify_first) (gpcs s') + of_bool (gpcs s t = Notify_first) =
      threads_in ((=) Notify_first) (gpcs s) + of_bool (pc = Notify_first)"
    using threads_in_update [of "(=) Notify_first" "gpcs s" t pc] same(4) by (auto split: if_splits)
  moreover have "threads_in notif_waker (gpcs s') + of_bool (notif_waker (gpcs s t)) =
      threads_in notif_waker (gpcs s) + of_bool (notif_waker pc)"
    using threads_in_update [of notif_waker "gpcs s" t pc] same(4) by (auto split: if_splits)
  moreover have "\<exists>t. cleaning (gpcs s' t)"
    if z: "vfield (dg_state (dg s')) = 0" "has_notifs (dg_state (dg s')) \<or> has_waiters (dg_state (dg s'))"
  proof (cases "cleaning pc")
    case True
    then show ?thesis using same(4) by (auto intro: exI [of _ t])
  next
    case False
    then obtain u where "cleaning (gpcs s u)" "u \<noteq> t" using zero [OF z] inv unfolding notify_inv_def by metis
    then show ?thesis using same(4) by (auto intro: exI [of _ u])
  qed
  ultimately show ?thesis using inv sum same unfolding notify_inv_def by (auto simp del: of_bool_eq_0_iff)
qed

lemma notify_step:
  assumes step: "group_step U s s'" and alive: "\<not> group_crashed s'" and inv: "notify_inv s"
  shows "notify_inv s'"
  using step
proof (cases rule: group_step.cases)
  case (enter t r)
  obtain d pc where e: "dispatch_group_enter (dg s) = (d, pc)" by fastforce
  then have "pc \<noteq> Group_crashed" using alive enter by (auto simp: group_crashed_def dest: spec [of _ t])
  note ok = enter_ok [OF e this]
  show ?thesis
    by (rule notify_inv_move [OF inv, of _ t pc])
      (use enter e ok in \<open>auto simp: same_low_def notif_waker_def\<close>)
next
  case (leave t r)
  obtain d pc where e: "dispatch_group_leave (dg s) = (d, pc)" by fastforce
  then have "pc \<noteq> Group_crashed" using alive leave by (auto simp: group_crashed_def dest: spec [of _ t])
  note ok = leave_ok [OF e this]
  show ?thesis
    by (rule notify_inv_move [OF inv, of _ t pc])
      (use leave e ok in \<open>auto simp: same_low_def notif_waker_def cleaning_def dirty_def split: if_splits\<close>)
next
  case (leave_loop t st)
  obtain d pc where e: "group_leave_loop (dg s) st = (d, pc)" by fastforce
  show ?thesis
    by (rule notify_inv_move [OF inv, of _ t pc])
      (use leave_loop e loop_ok [OF e] clear_flags [of st] in \<open>auto simp: notif_waker_def cleaning_def dirty_def\<close>)
next
  case (wait t r timeout)
  obtain d pc where e: "dispatch_group_wait (dg s) timeout = (d, pc)" by fastforce
  show ?thesis
    by (rule notify_inv_move [OF inv, of _ t pc])
      (use wait e wait_ok [OF e] in \<open>auto simp: notif_waker_def cleaning_def\<close>)
next
  case (notify_first t)
  obtain d pc where e: "group_notify_first (dg s) = (d, pc)" by fastforce
  have one: "0 < threads_in ((=) Notify_first) (gpcs s)"
    using notify_first by (intro threads_in_pos [of _ _ t]) simp
  then have quiet: "\<not> has_notifs (dg_state (dg s))" "dg_notify (dg s) \<noteq> []"
    using inv unfolding notify_inv_def of_bool_def by (auto split: if_splits)
  show ?thesis
    by (rule notify_inv_move [OF inv, of _ t pc])
      (use notify_first e first_ok [OF e] quiet in \<open>auto simp: notif_waker_def cleaning_def or_flags\<close>)
next
  case (notify t r n)
  show ?thesis
  proof (cases "dg_notify (dg s) = []")
    case False
    have upd: "threads_in P ((gpcs s)(t := Group_done 0)) = threads_in P (gpcs s)"
      if "\<not> P (gpcs s t)" "\<not> P (Group_done 0)" for P using that by (rule threads_in_upd(1))
    have "\<exists>u. cleaning (((gpcs s)(t := Group_done 0)) u)" if "cleaning (gpcs s u)" for u
      using that notify by (intro exI [of _ u]) (auto simp: cleaning_def)
    then show ?thesis using inv False notify upd [of "(=) Notify_first"] upd [of notif_waker]
      unfolding notify_inv_def by (auto simp: dispatch_group_notify_def notif_waker_def simp del: fun_upd_apply)
  next
    case True
    have "threads_in ((=) Notify_first) ((gpcs s)(t := Notify_first)) = Suc (threads_in ((=) Notify_first) (gpcs s))"
      using notify by (intro threads_in_upd(2)) simp_all
    moreover have "threads_in notif_waker ((gpcs s)(t := Notify_first)) = threads_in notif_waker (gpcs s)"
      using notify by (intro threads_in_upd(1)) (simp_all add: notif_waker_def)
    moreover have "\<exists>u. cleaning (((gpcs s)(t := Notify_first)) u)" if "cleaning (gpcs s u)" for u
      using that notify by (intro exI [of _ u]) (auto simp: cleaning_def)
    ultimately show ?thesis using inv True notify
      unfolding notify_inv_def by (auto simp: dispatch_group_notify_def simp del: fun_upd_apply)
  qed
next
  case (wake_notify t st needs d ns pc)
  show ?thesis
  proof (cases "has_notifs st")
    case False
    then show ?thesis using wake_notify
      by (intro notify_inv_move [OF inv, of _ t pc]) (auto simp: group_wake_notify_def notif_waker_def cleaning_def)
  next
    case True
    then have w: "notif_waker (gpcs s t)" using wake_notify by (simp add: notif_waker_def)
    obtain refs where r: "d = (dg s)\<lparr>dg_notify := []\<rparr>" "ns = dg_notify (dg s)" "pc = Wake_waiters st refs"
      using wake_notify True by (auto simp: group_wake_notify_def Let_def split: if_splits)
    have "threads_in ((=) Notify_first) ((gpcs s)(t := pc)) = threads_in ((=) Notify_first) (gpcs s)"
      using wake_notify r by (intro threads_in_upd(1)) simp_all
    moreover have "Suc (threads_in notif_waker ((gpcs s)(t := pc))) = threads_in notif_waker (gpcs s)"
      using w r by (intro threads_in_upd(3) [symmetric]) (simp_all add: notif_waker_def)
    moreover have "\<exists>u. cleaning (((gpcs s)(t := pc)) u)" if "cleaning (gpcs s u)" for u
      using that wake_notify by (intro exI [of _ u]) (auto simp: cleaning_def)
    ultimately show ?thesis using inv wake_notify r
      unfolding notify_inv_def of_bool_def by (auto split: if_splits simp del: fun_upd_apply)
  qed
next
  case (wait_check t gen timeout rc)
  then show ?thesis
    by (intro notify_inv_move [OF inv, of _ t])
      (auto simp: dispatch_group_wait_slow_def notif_waker_def cleaning_def split: if_splits)
next
  case (wait_return t gen timeout usecs rc w c pc)
  have "pc \<noteq> Notify_first \<and> \<not> notif_waker pc" using wait_return(4)
    by (auto simp: group_wait_answer_def notif_waker_def split: kernel_answer.splits address_wait.splits)
  moreover have "\<not> notif_waker (gpcs s t)" "\<not> cleaning (gpcs s t)" "gpcs s t \<noteq> Notify_first"
    using wait_return(2) by (simp_all add: notif_waker_def cleaning_def)
  ultimately show ?thesis using wait_return(1)
    by (intro notify_inv_move [OF inv, of _ t]) auto
qed (auto intro!: notify_inv_move [OF inv] simp: group_enter_retain_def group_wake_release_def notif_waker_def cleaning_def)

section \<open>Waiters\<close>

definition waits_on :: "group_pc \<Rightarrow> u32 \<Rightarrow> bool" where
  "waits_on pc gen \<longleftrightarrow> (\<exists>timeout. pc = Wait_enter gen timeout \<or> (\<exists>n. pc = Wait_kernel gen timeout n) \<or>
     (\<exists>rc. pc = Wait_check gen timeout rc))"

lemma waits_on_simps [simp]:
  "waits_on (Wait_enter gen timeout) g \<longleftrightarrow> g = gen" "waits_on (Wait_kernel gen timeout n) g \<longleftrightarrow> g = gen"
  "waits_on (Wait_check gen timeout rc) g \<longleftrightarrow> g = gen" "\<not> waits_on (Group_done r) g" "\<not> waits_on Enter_retain g"
  "\<not> waits_on (Leave_loop st) g" "\<not> waits_on (Wake st b) g" "\<not> waits_on (Wake_waiters st refs) g"
  "\<not> waits_on (Wake_release refs) g" "\<not> waits_on Notify_first g" "\<not> waits_on Group_crashed g"
  by (auto simp: waits_on_def)

text \<open>The thread has read waiters that it will wake.\<close>

definition will_wake :: "group_pc \<Rightarrow> bool" where
  "will_wake pc \<longleftrightarrow> (case pc of Wake st _ \<Rightarrow> has_waiters st | Wake_waiters st _ \<Rightarrow> has_waiters st | _ \<Rightarrow> False)"

definition may_wake :: "group_pc \<Rightarrow> bool" where
  "may_wake pc \<longleftrightarrow> (case pc of Leave_loop st \<Rightarrow> has_waiters st | _ \<Rightarrow> False)"

definition wake_pending :: "'w group_sys \<Rightarrow> bool" where
  "wake_pending s \<longleftrightarrow> (\<exists>u. will_wake (gpcs s u)) \<or> has_waiters (dg_state (dg s)) \<and> (\<exists>u. may_wake (gpcs s u))"

definition wait_inv :: "('w \<Rightarrow> dispatch_tid \<Rightarrow> bool) \<Rightarrow> 'w group_sys \<Rightarrow> bool" where
  "wait_inv asleep s \<longleftrightarrow>
     gfield (dg_state (dg s)) = epochs s mod 2 ^ 32 \<and>
     (\<forall>t gen. waits_on (gpcs s t) gen \<longrightarrow> unat gen \<le> epochs s \<and>
       (unat gen = epochs s \<longrightarrow> 0 < vfield (dg_state (dg s)) \<and> has_waiters (dg_state (dg s)))) \<and>
     (\<forall>t. asleep (wq s) t \<longrightarrow> (\<exists>gen timeout n. gpcs s t = Wait_kernel gen timeout n \<and>
       (unat gen < epochs s \<longrightarrow> wake_pending s)))"

lemma unat_gen: "unat (dg_state_gen st) = gfield st"
proof -
  have "unat (drop_bit 32 st) = gfield st"
    unfolding unat_drop_u64 gfield_def by (simp flip: div_mult2_eq)
  then show ?thesis using gfield_less [of st]
    by (simp add: dg_state_gen_def unsigned_ucast_eq take_bit_nat_eq_self)
qed

text \<open>
  A step of thread \<open>t\<close> to \<open>pc\<close>: the epoch is the same, the value and the flag for waiters are kept
  for those who wait on it, and the sleepers are kept or \<open>t\<close> itself.
\<close>

lemma wait_inv_move:
  assumes inv: "wait_inv asleep s"
    and pcs: "gpcs s' = (gpcs s)(t := pc)"
    and same: "epochs s' = epochs s" "gfield (dg_state (dg s')) = gfield (dg_state (dg s))"
    and keep: "0 < vfield (dg_state (dg s)) \<Longrightarrow> has_waiters (dg_state (dg s)) \<Longrightarrow>
      0 < vfield (dg_state (dg s')) \<and> has_waiters (dg_state (dg s'))"
    and own: "\<And>gen. waits_on pc gen \<Longrightarrow> waits_on (gpcs s t) gen \<or>
      unat gen = epochs s \<and> 0 < vfield (dg_state (dg s')) \<and> has_waiters (dg_state (dg s'))"
    and pending: "wake_pending s \<Longrightarrow> (\<exists>u. asleep (wq s') u) \<Longrightarrow> wake_pending s'"
    and sleep: "\<And>u. asleep (wq s') u \<Longrightarrow> asleep (wq s) u \<and> u \<noteq> t \<or>
      u = t \<and> (\<exists>gen timeout n. pc = Wait_kernel gen timeout n \<and> unat gen = epochs s)"
  shows "wait_inv asleep s'"
  unfolding wait_inv_def
proof (intro conjI allI impI)
  show "gfield (dg_state (dg s')) = epochs s' mod 2 ^ 32" using inv same by (simp add: wait_inv_def)
  fix u gen assume w: "waits_on (gpcs s' u) gen"
  show "unat gen \<le> epochs s'"
    using w own [of gen] inv same pcs unfolding wait_inv_def by (cases "u = t") auto
  assume "unat gen = epochs s'"
  then have "0 < vfield (dg_state (dg s')) \<and> has_waiters (dg_state (dg s'))"
    using w own [of gen] inv same pcs keep unfolding wait_inv_def by (cases "u = t") auto
  then show "0 < vfield (dg_state (dg s'))" "has_waiters (dg_state (dg s'))" by simp_all
next
  fix u assume a: "asleep (wq s') u"
  show "\<exists>gen timeout n. gpcs s' u = Wait_kernel gen timeout n \<and> (unat gen < epochs s' \<longrightarrow> wake_pending s')"
  proof (cases "u = t")
    case True
    then show ?thesis using sleep [OF a] pcs same by auto
  next
    case False
    then obtain gen timeout n where "gpcs s u = Wait_kernel gen timeout n" "unat gen < epochs s \<longrightarrow> wake_pending s"
      using sleep [OF a] inv unfolding wait_inv_def by blast
    then show ?thesis using False pcs same pending a by auto
  qed
qed

lemma pending_move:
  assumes "gpcs s' = (gpcs s)(t := pc)" "has_waiters (dg_state (dg s)) \<Longrightarrow> has_waiters (dg_state (dg s'))"
    "will_wake (gpcs s t) \<Longrightarrow> will_wake pc" "may_wake (gpcs s t) \<Longrightarrow> may_wake pc" "wake_pending s"
  shows "wake_pending s'"
proof -
  have "\<exists>u. will_wake (gpcs s' u)" if "will_wake (gpcs s u)" for u
    using that assms(1,3) by (cases "u = t") (auto intro: exI [of _ u])
  moreover have "\<exists>u. may_wake (gpcs s' u)" if "may_wake (gpcs s u)" for u
    using that assms(1,4) by (cases "u = t") (auto intro: exI [of _ u])
  ultimately show ?thesis using assms(2,5) unfolding wake_pending_def by blast
qed

lemma not_asleep:
  assumes "wait_inv asleep s" "asleep (wq s) t"
  obtains gen timeout n where "gpcs s t = Wait_kernel gen timeout n"
  using assms unfolding wait_inv_def by blast

lemma wait_step:
  assumes U: "compare_and_wait U asleep" and step: "group_step U s s'" and alive: "\<not> group_crashed s'"
    and ep: "epochs s' < 2 ^ 32" and inv: "wait_inv asleep s"
  shows "wait_inv asleep s'"
proof -
  have other: "u \<noteq> t" if "asleep (wq s) u" "\<And>gen timeout n. gpcs s t \<noteq> Wait_kernel gen timeout n" for u t
    using not_asleep [OF inv that(1)] that(2) by metis
  note pcs = will_wake_def may_wake_def
  show ?thesis
    using step
  proof (cases rule: group_step.cases)
    case (enter t r)
    obtain d pc where e: "dispatch_group_enter (dg s) = (d, pc)" by fastforce
    then have "pc \<noteq> Group_crashed" using alive enter by (auto simp: group_crashed_def dest: spec [of _ t])
    note ok = enter_ok [OF e this]
    show ?thesis
      by (rule wait_inv_move [OF inv, of _ t pc])
        (use enter e ok in \<open>auto simp: same_low_def pcs intro!: pending_move [of _ s t pc] dest: other [where t = t] split: if_splits\<close>)
  next
    case (leave t r)
    obtain d pc where e: "dispatch_group_leave (dg s) = (d, pc)" by fastforce
    then have "pc \<noteq> Group_crashed" using alive leave by (auto simp: group_crashed_def dest: spec [of _ t])
    note ok = leave_ok [OF e this]
    show ?thesis
    proof (cases "vfield (dg_state (dg s)) = 2 ^ 30 - 1")
      case False
      then show ?thesis
        by (intro wait_inv_move [OF inv, of _ t pc])
          (use leave e ok in \<open>auto simp: same_low_def pcs value_one intro!: pending_move [of _ s t pc]
            dest: other [where t = t] split: if_splits\<close>)
    next
      case True
      then have s': "s' = (move s t (d, pc))\<lparr>epochs := Suc (epochs s)\<rparr>" "pc = Leave_loop (dg_state d)"
        "gfield (dg_state d) = Suc (gfield (dg_state (dg s))) mod 2 ^ 32"
        using leave e ok by (simp_all add: value_one)
      have old: "unat gen \<le> epochs s" if "waits_on (gpcs s' u) gen" for u gen
        using that s' inv unfolding wait_inv_def by (cases "u = t") auto
      have pend: "wake_pending s'" if as: "asleep (wq s) u" for u
      proof -
        obtain gen timeout n where g: "gpcs s u = Wait_kernel gen timeout n" "unat gen < epochs s \<longrightarrow> wake_pending s"
          using inv as unfolding wait_inv_def by blast
        have gen: "waits_on (gpcs s u) gen" using g by simp
        then have "unat gen \<le> epochs s" "unat gen = epochs s \<Longrightarrow> has_waiters (dg_state (dg s))"
          using inv unfolding wait_inv_def by blast+
        moreover have "wake_pending s'" if "wake_pending s"
          using that leave(2) s' ok(3) by (intro pending_move [of s' s t pc]) (auto simp: same_low_def pcs)
        moreover have "wake_pending s'" if "has_waiters (dg_state (dg s))"
          using that s' ok(3) by (auto simp: wake_pending_def same_low_def pcs intro!: exI [of _ t])
        ultimately show ?thesis using g(2) by (cases "unat gen = epochs s") auto
      qed
      show ?thesis
        unfolding wait_inv_def
      proof (intro conjI allI impI)
        show "gfield (dg_state (dg s')) = epochs s' mod 2 ^ 32"
          using inv s' unfolding wait_inv_def by (simp add: mod_Suc_eq)
        fix u gen assume w: "waits_on (gpcs s' u) gen"
        show "unat gen \<le> epochs s'" using old [OF w] s' by simp
        assume "unat gen = epochs s'"
        then show "0 < vfield (dg_state (dg s'))" "has_waiters (dg_state (dg s'))" using old [OF w] s' by simp_all
      next
        fix u assume a: "asleep (wq s') u"
        then have a': "asleep (wq s) u" using s' by simp
        obtain gen timeout n where "gpcs s u = Wait_kernel gen timeout n" using not_asleep [OF inv a'] .
        moreover have "u \<noteq> t" using other [OF a', of t] leave by auto
        ultimately show "\<exists>gen timeout n. gpcs s' u = Wait_kernel gen timeout n \<and> (unat gen < epochs s' \<longrightarrow> wake_pending s')"
          using s' pend [OF a'] by simp
      qed
    qed
  next
    case (leave_loop t st)
    obtain d pc where e: "group_leave_loop (dg s) st = (d, pc)" by fastforce
    have "wake_pending s'" if wp: "wake_pending s"
    proof -
      have s': "dg s' = d" "gpcs s' = (gpcs s)(t := pc)" "gpcs s t = Leave_loop st" using leave_loop e by simp_all
      have "\<not> will_wake (gpcs s t)" "may_wake (gpcs s t) \<longleftrightarrow> has_waiters st" using s'(3) by (simp_all add: pcs)
      then consider (some) u where "will_wake (gpcs s u)" "u \<noteq> t"
        | (here) "has_waiters (dg_state (dg s))" "has_waiters st"
        | (there) u where "has_waiters (dg_state (dg s))" "may_wake (gpcs s u)" "u \<noteq> t"
        using wp unfolding wake_pending_def by metis
      then show ?thesis
      proof cases
        case some
        then show ?thesis using s' by (auto simp: wake_pending_def intro!: exI [of _ u])
      next
        case here
        then show ?thesis using s' loop_ok [OF e] by (auto simp: wake_pending_def pcs intro!: exI [of _ t])
      next
        case there
        then have "will_wake pc \<or> has_waiters (dg_state d)" using loop_ok [OF e] by (auto simp: pcs)
        then show ?thesis using there s' unfolding wake_pending_def by (metis fun_upd_apply)
      qed
    qed
    then show ?thesis
      by (intro wait_inv_move [OF inv, of _ t pc])
        (use leave_loop e loop_ok [OF e] clear_flags [of st] in \<open>auto dest: other [where t = t]\<close>)
  next
    case (wait t r timeout)
    obtain d pc where e: "dispatch_group_wait (dg s) timeout = (d, pc)" by fastforce
    have "unat (dg_state_gen (dg_state d)) = epochs s" if "gfield (dg_state d) = gfield (dg_state (dg s))"
      using that inv wait ep by (simp add: unat_gen wait_inv_def)
    then show ?thesis
      by (intro wait_inv_move [OF inv, of _ t pc])
        (use wait e wait_ok [OF e] in \<open>auto simp: pcs intro!: pending_move [of _ s t pc] dest: other [where t = t]\<close>)
  next
    case (notify_first t)
    obtain d pc where e: "group_notify_first (dg s) = (d, pc)" by fastforce
    show ?thesis
      by (rule wait_inv_move [OF inv, of _ t pc])
        (use notify_first e first_ok [OF e] in \<open>auto simp: pcs or_flags intro!: pending_move [of _ s t pc]
          dest: other [where t = t]\<close>)
  next
    case (wait_call t gen timeout c usecs w)
    have g: "unat (dg_state_gen (dg_state (dg s))) = epochs s" using inv wait_call ep by (simp add: unat_gen wait_inv_def)
    have "asleep w u \<Longrightarrow> asleep (wq s) u \<and> u \<noteq> t \<or> u = t \<and> unat gen = epochs s" for u
      using compare_and_waitD(1) [OF U wait_call(4), of u] other [of u t] wait_call(2) g by auto
    then show ?thesis
      by (intro wait_inv_move [OF inv, of _ t]) (use wait_call in \<open>auto simp: pcs intro!: pending_move [of _ s t]\<close>)
  next
    case (wait_again t gen timeout usecs rc w' c usecs' w)
    have g: "unat (dg_state_gen (dg_state (dg s))) = epochs s" using inv wait_again ep by (simp add: unat_gen wait_inv_def)
    have "asleep w u \<Longrightarrow> asleep (wq s) u \<and> u \<noteq> t \<or> u = t \<and> unat gen = epochs s" for u
      using compare_and_waitD(1) [OF U wait_again(5), of u] compare_and_waitD(2) [OF U wait_again(3), of u] g by auto
    then show ?thesis
      by (intro wait_inv_move [OF inv, of _ t]) (use wait_again in \<open>auto simp: pcs intro!: pending_move [of _ s t]\<close>)
  next
    case (wait_return t gen timeout usecs rc w c pc)
    have "waits_on pc g \<Longrightarrow> g = gen" for g using wait_return(4,5)
      by (auto simp: group_wait_answer_def split: kernel_answer.splits address_wait.splits)
    then show ?thesis
      by (intro wait_inv_move [OF inv, of _ t])
        (use wait_return in \<open>auto simp: pcs intro!: pending_move [of _ s t] dest: compare_and_waitD(2) [OF U]\<close>)
  next
    case (wake_waiters t st refs)
    show ?thesis
    proof (cases "has_waiters st")
      case True
      then show ?thesis
        by (intro wait_inv_move [OF inv, of _ t])
          (use wake_waiters compare_and_waitD(3) [OF U] in auto)
    next
      case False
      then show ?thesis
        by (intro wait_inv_move [OF inv, of _ t])
          (use wake_waiters in \<open>auto simp: pcs intro!: pending_move [of _ s t] dest: other [where t = t]\<close>)
    qed
  next
    case (wake_notify t st needs d ns pc)
    then show ?thesis
      by (intro wait_inv_move [OF inv, of _ t])
        (auto simp: pcs group_wake_notify_def Let_def intro!: pending_move [of _ s t] dest: other [where t = t]
          split: if_splits)
  next
    case (wait_check t gen timeout rc)
    then show ?thesis
      by (intro wait_inv_move [OF inv, of _ t])
        (auto simp: pcs dispatch_group_wait_slow_def intro!: pending_move [of _ s t] dest: other [where t = t]
          split: if_splits)
  next
    case (enter_retain t)
    then show ?thesis
      by (intro wait_inv_move [OF inv, of _ t "Group_done 0"])
        (auto simp: pcs group_enter_retain_def intro!: pending_move [of _ s t "Group_done 0"] dest: other [where t = t])
  next
    case (wake_release t refs)
    then show ?thesis
      by (intro wait_inv_move [OF inv, of _ t "Group_done 0"])
        (auto simp: pcs group_wake_release_def intro!: pending_move [of _ s t "Group_done 0"] dest: other [where t = t])
  next
    case (wait_timeout t gen timeout c rc)
    then show ?thesis
      by (intro wait_inv_move [OF inv, of _ t "Wait_check gen timeout rc"])
        (auto simp: pcs intro!: pending_move [of _ s t "Wait_check gen timeout rc"] dest: other [where t = t])
  next
    case (notify t r n)
    then show ?thesis
      by (intro wait_inv_move [OF inv, of _ t "snd (dispatch_group_notify (dg s) n)"])
        (auto simp: pcs dispatch_group_notify_def intro!: pending_move [of _ s t] dest: other [where t = t]
          split: if_splits)
  qed
qed

section \<open>References\<close>

definition held :: "group_pc \<Rightarrow> int" where
  "held pc = (case pc of Enter_retain \<Rightarrow> -1 | Leave_loop _ \<Rightarrow> 1 | Wake _ needs \<Rightarrow> of_bool needs
     | Wake_waiters _ refs \<Rightarrow> refs | Wake_release refs \<Rightarrow> refs | Notify_first \<Rightarrow> -1 | _ \<Rightarrow> 0)"

definition refs_inv :: "'w group_sys \<Rightarrow> bool" where
  "refs_inv s \<longleftrightarrow> dg_refs (dg s) =
     of_bool (0 < vfield (dg_state (dg s))) + of_bool (dg_notify (dg s) \<noteq> []) + (\<Sum>t \<in> UNIV. held (gpcs s t))"

lemma refs_inv_move:
  assumes "refs_inv s" "gpcs s' = (gpcs s)(t := pc)"
    and "dg_refs (dg s') - of_bool (0 < vfield (dg_state (dg s'))) - of_bool (dg_notify (dg s') \<noteq> []) - held pc =
      dg_refs (dg s) - of_bool (0 < vfield (dg_state (dg s))) - of_bool (dg_notify (dg s) \<noteq> []) - held (gpcs s t)"
  shows "refs_inv s'"
  using assms sum_threads_update [of held "gpcs s" t pc] unfolding refs_inv_def by simp

lemma refs_step:
  assumes step: "group_step U s s'" and alive: "\<not> group_crashed s'" and inv: "refs_inv s" and lst: "notify_inv s"
  shows "refs_inv s'"
  using step
proof (cases rule: group_step.cases)
  case (enter t r)
  obtain d pc where e: "dispatch_group_enter (dg s) = (d, pc)" by fastforce
  then have "pc \<noteq> Group_crashed" using alive enter by (auto simp: group_crashed_def dest: spec [of _ t])
  note ok = enter_ok [OF e this]
  show ?thesis by (rule refs_inv_move [OF inv, of _ t pc]) (use enter e ok in \<open>auto simp: held_def\<close>)
next
  case (leave t r)
  obtain d pc where e: "dispatch_group_leave (dg s) = (d, pc)" by fastforce
  then have "pc \<noteq> Group_crashed" using alive leave by (auto simp: group_crashed_def dest: spec [of _ t])
  note ok = leave_ok [OF e this]
  show ?thesis by (rule refs_inv_move [OF inv, of _ t pc]) (use leave e ok in \<open>auto simp: held_def split: if_splits\<close>)
next
  case (leave_loop t st)
  obtain d pc where e: "group_leave_loop (dg s) st = (d, pc)" by fastforce
  show ?thesis
    by (rule refs_inv_move [OF inv, of _ t pc])
      (use leave_loop e loop_ok [OF e] clear_flags [of st] in \<open>auto simp: held_def\<close>)
next
  case (wait t r timeout)
  obtain d pc where e: "dispatch_group_wait (dg s) timeout = (d, pc)" by fastforce
  show ?thesis
    by (rule refs_inv_move [OF inv, of _ t pc]) (use wait e wait_ok [OF e] in \<open>auto simp: held_def\<close>)
next
  case (notify_first t)
  obtain d pc where e: "group_notify_first (dg s) = (d, pc)" by fastforce
  show ?thesis
    by (rule refs_inv_move [OF inv, of _ t pc])
      (use notify_first e first_ok [OF e] in \<open>auto simp: held_def or_flags\<close>)
next
  case (notify t r n)
  then show ?thesis
    by (intro refs_inv_move [OF inv, of _ t]) (auto simp: held_def dispatch_group_notify_def)
next
  case (wake_notify t st needs d ns pc)
  then show ?thesis
    by (intro refs_inv_move [OF inv, of _ t])
      (auto simp: held_def group_wake_notify_def Let_def split: if_splits)
next
  case (wait_return t gen timeout usecs rc w c pc)
  have "held pc = 0" using wait_return(4)
    by (auto simp: group_wait_answer_def held_def split: kernel_answer.splits address_wait.splits)
  then show ?thesis using wait_return(1,2) by (intro refs_inv_move [OF inv, of _ t pc]) (auto simp: held_def)
next
  case (wait_check t gen timeout rc)
  then show ?thesis
    by (intro refs_inv_move [OF inv, of _ t]) (auto simp: held_def dispatch_group_wait_slow_def)
next
  case (enter_retain t)
  then show ?thesis by (intro refs_inv_move [OF inv, of _ t]) (auto simp: held_def group_enter_retain_def)
next
  case (wake_release t refs)
  then show ?thesis by (intro refs_inv_move [OF inv, of _ t]) (auto simp: held_def group_wake_release_def)
next
  case (wake_waiters t st refs)
  then show ?thesis by (intro refs_inv_move [OF inv, of _ t "Wake_release refs"]) (auto simp: held_def)
next
  case (wait_timeout t gen timeout c rc)
  then show ?thesis by (intro refs_inv_move [OF inv, of _ t "Wait_check gen timeout rc"]) (auto simp: held_def)
next
  case (wait_call t gen timeout c usecs w)
  then show ?thesis by (intro refs_inv_move [OF inv, of _ t "Wait_kernel gen timeout usecs"]) (auto simp: held_def)
next
  case (wait_again t gen timeout usecs rc w' c usecs' w)
  then show ?thesis by (intro refs_inv_move [OF inv, of _ t "Wait_kernel gen timeout usecs'"]) (auto simp: held_def)
qed

section \<open>All together\<close>

definition group_inv :: "('w \<Rightarrow> dispatch_tid \<Rightarrow> bool) \<Rightarrow> 'w group_sys \<Rightarrow> bool" where
  "group_inv asleep s \<longleftrightarrow> notify_inv s \<and> refs_inv s \<and> (epochs s < 2 ^ 32 \<longrightarrow> wait_inv asleep s)"

lemma epochs_mono: "group_step U s s' \<Longrightarrow> epochs s \<le> epochs s'"
  by (cases rule: group_step.cases) auto

lemma group_init_inv:
  assumes "group_init asleep s"
  shows "group_inv asleep s"
proof -
  have z: "dg_state (dg s) = 0" "dg_notify (dg s) = []" "dg_refs (dg s) = 0"
    using assms by (simp_all add: group_init_def dispatch_group_create_def dispatch_group_create_with_count_def
        set_dg_bits_def)
  have w: "vfield 0 = 0" "gfield 0 = 0" "\<not> has_notifs 0" "\<not> has_waiters 0"
    by (simp_all add: vfield_def gfield_def has_notifs_def has_waiters_def)
  show ?thesis
    using assms z w
    by (simp add: group_inv_def notify_inv_def refs_inv_def wait_inv_def group_init_def threads_in_const held_def
        notif_waker_def)
qed

interpretation grp: invariant_system "group_init asleep" "group_run U"
  "\<lambda>s. compare_and_wait U asleep \<longrightarrow> \<not> group_crashed s \<longrightarrow> group_inv asleep s" for U asleep
proof
  fix s assume "group_init asleep s"
  then show "compare_and_wait U asleep \<longrightarrow> \<not> group_crashed s \<longrightarrow> group_inv asleep s"
    using group_init_inv by blast
next
  fix s s' assume st: "group_run U s s'"
    and inv: "compare_and_wait U asleep \<longrightarrow> \<not> group_crashed s \<longrightarrow> group_inv asleep s"
  then have step: "group_step U s s'" "\<not> group_crashed s" by (simp_all add: group_run_def)
  show "compare_and_wait U asleep \<longrightarrow> \<not> group_crashed s' \<longrightarrow> group_inv asleep s'"
  proof (intro impI)
    assume U: "compare_and_wait U asleep" and alive: "\<not> group_crashed s'"
    then have i: "group_inv asleep s" using inv step by blast
    have "wait_inv asleep s'" if "epochs s' < 2 ^ 32"
      using wait_step [OF U step(1) alive that] i epochs_mono [OF step(1)] that by (auto simp: group_inv_def)
    then show "group_inv asleep s'"
      using notify_step [OF step(1) alive] refs_step [OF step(1) alive] i by (simp add: group_inv_def)
  qed
qed

end
