(* ===== verification/Group_Properties.thy ===== *)
theory Group_Properties
  imports Group_Invariant
begin

text \<open>
  What \<open>dispatch_group_t\<close> promises: notifications are submitted exactly once, in the order
  they were asked for, and not while the group is in use; a thread that waits is woken when the
  group becomes empty; the references that keep a group alive while it is in use are given back.
\<close>

definition group_start :: "'w \<Rightarrow> 'w group_sys" where
  "group_start w = \<lparr>dg = dispatch_group_create, gpcs = (\<lambda>_. Group_done 0), wq = w, asked = [], submitted = [], epochs = 0\<rparr>"

lemma group_start_init: "group_init (\<lambda>w t. t \<in> w) (group_start {})"
  by (simp add: group_init_def group_start_def)

lemma group_start_reach: "reach (group_init (\<lambda>w t. t \<in> w)) (group_run set_ulock) (group_start {})"
  by (rule reach_init) (rule group_start_init)

section \<open>Counting\<close>

lemma group_enter_counts:
  "case dispatch_group_enter d of (d', pc) \<Rightarrow>
      (if unat (dg_state_value (dg_state d)) = 2 ^ 30 - 1 then pc = Group_crashed
       else pc \<noteq> Group_crashed \<and> unat (dg_state_value (dg_state d')) = unat (dg_state_value (dg_state d)) + 1 \<and>
         dg_state_gen (dg_state d') = dg_state_gen (dg_state d) \<and> same_low (dg_state d) (dg_state d'))"
proof -
  let ?v = "vfield (dg_state d)"
  have v: "?v < 2 ^ 30" by (rule vfield_less)
  obtain d' pc where e: "dispatch_group_enter d = (d', pc)" by fastforce
  have crash: "pc = Group_crashed \<longleftrightarrow> ?v = 1"
    using e by (auto simp: dispatch_group_enter_def Let_def vfield_old value_zero value_max split: if_splits)
  have d': "dg_state d' = group_enter_bits (dg_state d)" using e by (auto simp: dispatch_group_enter_def Let_def)
  have "unat (dg_state_value (dg_state d)) = 2 ^ 30 - 1 \<longleftrightarrow> ?v = 1"
    using v by (cases "?v = 0") (auto simp: value_number)
  moreover have "unat (dg_state_value (dg_state d')) = unat (dg_state_value (dg_state d)) + 1" if "?v \<noteq> 1"
    using that v unfolding value_number d' enter_word(1) by (cases "?v = 0") (auto simp: mod_if)
  moreover have "dg_state_gen (dg_state d') = dg_state_gen (dg_state d)"
    unfolding word_unat_eq_iff unat_gen d' by (rule enter_word(3))
  ultimately show "case dispatch_group_enter d of (d', pc) \<Rightarrow>
      (if unat (dg_state_value (dg_state d)) = 2 ^ 30 - 1 then pc = Group_crashed
       else pc \<noteq> Group_crashed \<and> unat (dg_state_value (dg_state d')) = unat (dg_state_value (dg_state d)) + 1 \<and>
         dg_state_gen (dg_state d') = dg_state_gen (dg_state d) \<and> same_low (dg_state d) (dg_state d'))"
    using e crash same_low_enter [of "dg_state d"] d' by simp
qed

lemma group_leave_counts:
  "case dispatch_group_leave d of (d', pc) \<Rightarrow>
      (if dg_state_value (dg_state d) = 0 then pc = Group_crashed
       else pc \<noteq> Group_crashed \<and> unat (dg_state_value (dg_state d')) + 1 = unat (dg_state_value (dg_state d)) \<and>
         dg_state_gen (dg_state d') = dg_state_gen (dg_state d) + (if dg_state_value (dg_state d') = 0 then 1 else 0) \<and>
         same_low (dg_state d) (dg_state d'))"
proof -
  let ?v = "vfield (dg_state d)"
  have v: "?v < 2 ^ 30" by (rule vfield_less)
  obtain d' pc where e: "dispatch_group_leave d = (d', pc)" by fastforce
  have crash: "pc = Group_crashed \<longleftrightarrow> ?v = 0"
    using e by (auto simp: dispatch_group_leave_def Let_def value_zero value_one split: if_splits)
  have d': "dg_state d' = dg_state d + 4" using e by (auto simp: dispatch_group_leave_def Let_def)
  have zero: "dg_state_value (dg_state d') = 0 \<longleftrightarrow> ?v = 2 ^ 30 - 1"
    unfolding value_is_zero d' leave_word(1) using v by (auto simp: mod_if)
  have "unat (dg_state_value (dg_state d')) + 1 = unat (dg_state_value (dg_state d))" if "?v \<noteq> 0"
    using that v unfolding value_number d' leave_word(1) by (cases "?v = 2 ^ 30 - 1") (auto simp: mod_if)
  moreover have "dg_state_gen (dg_state d') = dg_state_gen (dg_state d) + (if dg_state_value (dg_state d') = 0 then 1 else 0)"
  proof (cases "?v = 2 ^ 30 - 1")
    case True
    then have "unat (dg_state_gen (dg_state d')) = unat (dg_state_gen (dg_state d) + 1)"
      using unat_gen [of "dg_state d"] unat_gen [of "dg_state d'"] leave_word(3) [of "dg_state d"] d'
      by (simp add: unat_word_ariths)
    then show ?thesis using True zero by (simp add: word_unat_eq_iff)
  next
    case False
    then have "unat (dg_state_gen (dg_state d')) = unat (dg_state_gen (dg_state d))"
      using unat_gen [of "dg_state d"] unat_gen [of "dg_state d'"] leave_word(3) [of "dg_state d"] d' by simp
    then show ?thesis using False zero by (simp add: word_unat_eq_iff)
  qed
  ultimately show "case dispatch_group_leave d of (d', pc) \<Rightarrow>
      (if dg_state_value (dg_state d) = 0 then pc = Group_crashed
       else pc \<noteq> Group_crashed \<and> unat (dg_state_value (dg_state d')) + 1 = unat (dg_state_value (dg_state d)) \<and>
         dg_state_gen (dg_state d') = dg_state_gen (dg_state d) + (if dg_state_value (dg_state d') = 0 then 1 else 0) \<and>
         same_low (dg_state d) (dg_state d'))"
    using e crash same_low_leave [of "dg_state d"] d' by (simp add: value_is_zero)
qed

text \<open>C21: The value is the number of times the group was entered and not left: entering adds one,
  leaving takes one off and starts a new generation exactly when the group becomes empty; the flags
  are never touched, and leaving a group that is empty, or entering one too often, crashes.\<close>

theorem group_counts:
  "(case dispatch_group_enter d of (d', pc) \<Rightarrow>
      (if unat (dg_state_value (dg_state d)) = 2 ^ 30 - 1 then pc = Group_crashed
       else pc \<noteq> Group_crashed \<and> unat (dg_state_value (dg_state d')) = unat (dg_state_value (dg_state d)) + 1 \<and>
         dg_state_gen (dg_state d') = dg_state_gen (dg_state d) \<and> same_low (dg_state d) (dg_state d'))) \<and>
   (case dispatch_group_leave d of (d', pc) \<Rightarrow>
      (if dg_state_value (dg_state d) = 0 then pc = Group_crashed
       else pc \<noteq> Group_crashed \<and> unat (dg_state_value (dg_state d')) + 1 = unat (dg_state_value (dg_state d)) \<and>
         dg_state_gen (dg_state d') = dg_state_gen (dg_state d) + (if dg_state_value (dg_state d') = 0 then 1 else 0) \<and>
         same_low (dg_state d) (dg_state d')))"
  by (rule conjI [OF group_enter_counts group_leave_counts])

section \<open>Notifications\<close>

text \<open>C22: Every notification asked for is submitted exactly once and in order, or is still in the
  list; the list is never taken while it is empty; and once the group is empty a list that is not
  is about to be taken: some thread is on its way to do it.\<close>

theorem notifications_exactly_once:
  assumes "compare_and_wait U asleep" "reach (group_init asleep) (group_run U) s" "\<not> group_crashed s"
  shows "asked s = submitted s @ dg_notify (dg s) \<and>
    (\<forall>t st needs. gpcs s t = Wake st needs \<and> has_notifs st \<longrightarrow> dg_notify (dg s) \<noteq> []) \<and>
    (dg_notify (dg s) \<noteq> [] \<and> dg_state_value (dg_state (dg s)) = 0 \<longrightarrow>
      (\<exists>t. gpcs s t = Notify_first \<or> (\<exists>st needs. gpcs s t = Wake st needs \<and> has_notifs st) \<or>
        (\<exists>st. gpcs s t = Leave_loop st)))"
proof -
  have inv: "notify_inv s" using grp.inv_reach [OF assms(2)] assms(1,3) by (simp add: group_inv_def)
  have "dg_notify (dg s) \<noteq> []" if "gpcs s t = Wake st needs" "has_notifs st" for t st needs
  proof -
    have "0 < threads_in notif_waker (gpcs s)" using that by (intro threads_in_pos [of _ _ t]) (simp add: notif_waker_def)
    then show ?thesis using inv unfolding notify_inv_def by (auto split: if_splits)
  qed
  moreover have "\<exists>t. gpcs s t = Notify_first \<or> (\<exists>st needs. gpcs s t = Wake st needs \<and> has_notifs st) \<or>
      (\<exists>st. gpcs s t = Leave_loop st)"
    if l: "dg_notify (dg s) \<noteq> []" and z: "vfield (dg_state (dg s)) = 0"
  proof -
    consider t where "gpcs s t = Notify_first" | t where "notif_waker (gpcs s t)" | t where "cleaning (gpcs s t)"
      using inv l z threads_in_none [of "(=) Notify_first" "gpcs s"] threads_in_none [of notif_waker "gpcs s"]
      unfolding notify_inv_def by (cases "has_notifs (dg_state (dg s))") (auto, metis)
    then show ?thesis
      by cases (auto simp: notif_waker_def cleaning_def split: group_pc.splits)
  qed
  ultimately show ?thesis using inv unfolding notify_inv_def value_is_zero by blast
qed

theorem notifications_exactly_once_witness:
  "asked (group_start ({} :: dispatch_tid set)) = submitted (group_start ({} :: dispatch_tid set)) @ dg_notify (dg (group_start ({} :: dispatch_tid set)))"
  using notifications_exactly_once [OF set_ulock_waits group_start_reach]
  by (simp add: group_crashed_def group_start_def)

section \<open>Waiting\<close>

text \<open>C23: No wakeup is lost: a thread that sleeps in \<open>dispatch_group_wait\<close> either waits for a
  generation that has not ended, and then the group is not empty and knows that it has a waiter, or
  its generation has ended, and then another thread is on its way to wake it. This holds for the
  first 2^32 - 1 times the group becomes empty.\<close>

theorem group_wait_woken:
  assumes "compare_and_wait U asleep" "reach (group_init asleep) (group_run U) s" "\<not> group_crashed s"
    and "epochs s < 2 ^ 32" "asleep (wq s) t"
  shows "\<exists>gen timeout n. gpcs s t = Wait_kernel gen timeout n \<and>
    (if gen = dg_state_gen (dg_state (dg s))
     then 0 < dg_state_value (dg_state (dg s)) \<and> has_waiters (dg_state (dg s))
     else wake_pending s)"
proof -
  have inv: "wait_inv asleep s" using grp.inv_reach [OF assms(2)] assms(1,3,4) by (simp add: group_inv_def)
  then obtain gen timeout n where g: "gpcs s t = Wait_kernel gen timeout n" "unat gen < epochs s \<longrightarrow> wake_pending s"
    using assms(5) unfolding wait_inv_def by blast
  then have w: "waits_on (gpcs s t) gen" by simp
  then have le: "unat gen \<le> epochs s"
    "unat gen = epochs s \<Longrightarrow> 0 < vfield (dg_state (dg s)) \<and> has_waiters (dg_state (dg s))"
    using inv unfolding wait_inv_def by blast+
  have "unat (dg_state_gen (dg_state (dg s))) = epochs s"
    using inv assms(4) by (simp add: unat_gen wait_inv_def)
  then have "gen = dg_state_gen (dg_state (dg s)) \<longleftrightarrow> unat gen = epochs s" by (auto simp: word_unat_eq_iff)
  then show ?thesis using g le value_is_zero [of "dg_state (dg s)"] word_gt_0 [of "dg_state_value (dg_state (dg s))"] by (cases "unat gen = epochs s") auto
qed

text \<open>A run in which thread 1 enters the group and thread 2 goes to sleep.\<close>

definition group_asleep :: "dispatch_tid set group_sys" where
  "group_asleep = \<lparr>dg = \<lparr>dg_state = 0xfffffffd, dg_notify = [], dg_refs = 1\<rparr>,
     gpcs = (\<lambda>_. Group_done 0)(1 := Group_done 0, 2 := Wait_kernel 0 DISPATCH_TIME_FOREVER 0), wq = {2},
     asked = [], submitted = [], epochs = 0\<rparr>"

lemma group_asleep_reach: "reach (group_init (\<lambda>w t. t \<in> w)) (group_run set_ulock) group_asleep"
proof -
  let ?R = "reach (group_init (\<lambda>w t. t \<in> w)) (group_run set_ulock)"
  let ?s = "\<lambda>st refs p q w. \<lparr>dg = \<lparr>dg_state = st, dg_notify = [], dg_refs = refs\<rparr>,
     gpcs = (\<lambda>_. Group_done 0)(1 := p, 2 := q), wq = w, asked = [], submitted = [], epochs = 0\<rparr> :: dispatch_tid set group_sys"
  have alive: "\<not> group_crashed (?s st refs p q w)" if "p \<noteq> Group_crashed" "q \<noteq> Group_crashed" for st refs p q w
    using that by (auto simp: group_crashed_def split: if_splits)
  have r0: "?R (?s 0 0 (Group_done 0) (Group_done 0) {})"
    using group_start_reach
    by (simp add: group_start_def dispatch_group_create_def dispatch_group_create_with_count_def set_dg_bits_def fun_upd_idem)
  have s1: "group_step set_ulock (?s 0 0 (Group_done 0) (Group_done 0) {}) (?s 0xfffffffc 0 Enter_retain (Group_done 0) {})"
    using group_step.enter [of "?s 0 0 (Group_done 0) (Group_done 0) {}" 1 0 set_ulock]
    by (simp add: move_def dispatch_group_enter_def group_enter_bits_def set_dg_bits_def dg_bits_def fun_upd_twist)
  have s2: "group_step set_ulock (?s 0xfffffffc 0 Enter_retain (Group_done 0) {}) (?s 0xfffffffc 1 (Group_done 0) (Group_done 0) {})"
    using group_step.enter_retain [of "?s 0xfffffffc 0 Enter_retain (Group_done 0) {}" 1 set_ulock]
    by (simp add: move_def group_enter_retain_def fun_upd_twist)
  have s3: "group_step set_ulock (?s 0xfffffffc 1 (Group_done 0) (Group_done 0) {})
      (?s 0xfffffffd 1 (Group_done 0) (Wait_enter 0 DISPATCH_TIME_FOREVER) {})"
    using group_step.wait [of "?s 0xfffffffc 1 (Group_done 0) (Group_done 0) {}" 2 0 set_ulock DISPATCH_TIME_FOREVER]
    by (simp add: move_def dispatch_group_wait_def has_waiters_def dg_state_gen_def)
  have s4: "group_step set_ulock (?s 0xfffffffd 1 (Group_done 0) (Wait_enter 0 DISPATCH_TIME_FOREVER) {}) group_asleep"
    using group_step.wait_call [of "?s 0xfffffffd 1 (Group_done 0) (Wait_enter 0 DISPATCH_TIME_FOREVER) {}" 2 0
        DISPATCH_TIME_FOREVER _ 0 set_ulock "{2}"]
    by (simp add: move_def wait_on_address_enter_def dispatch_timeout_def set_ulock_def dg_state_gen_def group_asleep_def)
  have run: "?R t" if "?R s" "\<not> group_crashed s" "group_step set_ulock s t" for s t
    using that by (intro reach_step [OF that(1)]) (simp add: group_run_def)
  have r1: "?R (?s 0xfffffffc 0 Enter_retain (Group_done 0) {})" by (rule run [OF r0 alive s1]) simp_all
  have r2: "?R (?s 0xfffffffc 1 (Group_done 0) (Group_done 0) {})" by (rule run [OF r1 alive s2]) simp_all
  have r3: "?R (?s 0xfffffffd 1 (Group_done 0) (Wait_enter 0 DISPATCH_TIME_FOREVER) {})"
    by (rule run [OF r2 alive s3]) simp_all
  show ?thesis by (rule run [OF r3 alive s4]) simp_all
qed

theorem group_wait_woken_witness:
  "has_waiters (dg_state (dg group_asleep)) \<or> wake_pending group_asleep"
proof -
  have "\<not> group_crashed group_asleep" by (auto simp: group_crashed_def group_asleep_def split: if_splits)
  moreover have "epochs group_asleep < 2 ^ 32" "2 \<in> wq group_asleep" by (simp_all add: group_asleep_def)
  ultimately show ?thesis
    using group_wait_woken [OF set_ulock_waits group_asleep_reach, of 2] by (auto split: if_splits)
qed

section \<open>References\<close>

text \<open>When every call has returned, no notification is left in the list and the group is empty,
  it holds no reference on itself: each entry and each list of notifications retained it once and
  gave that up once.\<close>

theorem group_references_balanced:
  assumes "compare_and_wait U asleep" "reach (group_init asleep) (group_run U) s"
    and "\<And>t. \<exists>r. gpcs s t = Group_done r" "dg_notify (dg s) = []" "dg_state_value (dg_state (dg s)) = 0"
  shows "dg_refs (dg s) = 0"
proof -
  have "\<not> group_crashed s" using assms(3) by (auto simp: group_crashed_def) (metis group_pc.distinct(19))
  then have "refs_inv s" using grp.inv_reach [OF assms(2)] assms(1) by (simp add: group_inv_def)
  moreover have "held (gpcs s t) = 0" for t using assms(3) [of t] by (auto simp: held_def)
  ultimately show ?thesis using assms(4,5) by (simp add: refs_inv_def value_is_zero)
qed

theorem group_references_balanced_witness: "dg_refs (dg (group_start ({} :: dispatch_tid set))) = 0"
proof -
  have z: "dg_state_value (dg_state (dg (group_start w))) = 0" for w :: "dispatch_tid set"
    by (simp add: value_is_zero vfield_def group_start_def dispatch_group_create_def
        dispatch_group_create_with_count_def set_dg_bits_def)
  show ?thesis
    by (rule group_references_balanced [OF set_ulock_waits group_start_reach _ _ z])
      (simp_all add: group_start_def dispatch_group_create_def dispatch_group_create_with_count_def)
qed

end
