(* ===== verification/Lock_Word.thy ===== *)
theory Lock_Word
  imports Lock
begin

text \<open>
  Facts on lock words: a word made of a thread port and flags is owned by that thread and by no
  other.
\<close>

lemma owner_mask_bit: "bit DLOCK_OWNER_MASK n \<longleftrightarrow> 2 \<le> n \<and> n < 32"
proof -
  have "DLOCK_OWNER_MASK = push_bit 2 (mask 30)" by (simp add: mask_eq_exp_minus_1 push_bit_eq_mult)
  then show ?thesis by (simp only: bit_push_bit_iff bit_mask_iff possible_bit_word) (auto simp: possible_bit_word)
qed

lemma low_bits_u32: "bit (1 :: u32) n \<longleftrightarrow> n = 0" "bit (2 :: u32) n \<longleftrightarrow> n = 1" "bit (3 :: u32) n \<longleftrightarrow> n < 2"
proof -
  have "bit (2 ^ 1 :: u32) n \<longleftrightarrow> n = 1" unfolding bit_exp_iff by (auto simp: possible_bit_word)
  then show "bit (2 :: u32) n \<longleftrightarrow> n = 1" by simp
  have "(3 :: u32) = mask 2" by (simp add: mask_eq_exp_minus_1)
  then show "bit (3 :: u32) n \<longleftrightarrow> n < 2" by (simp only: bit_mask_iff possible_bit_word) auto
qed (simp add: bit_1_iff)

lemma thread_port_bits: "thread_port t \<Longrightarrow> bit t 0 \<and> bit t 1"
proof -
  assume "thread_port t"
  then have "\<And>n. bit (t AND 3) n = bit (3 :: u32) n" by (simp add: thread_port_def)
  then have "\<And>n. n < 2 \<Longrightarrow> bit t n" unfolding bit_and_iff low_bits_u32 by blast
  then show ?thesis by simp
qed

lemma lock_value_bit: "bit (dispatch_lock_value_from_tid t) n \<longleftrightarrow> 2 \<le> n \<and> bit t n"
  unfolding dispatch_lock_value_from_tid_def bit_and_iff owner_mask_bit
  by (auto dest: bit_imp_le_length)

text \<open>Words with the same owner part.\<close>

definition same_owner :: "dispatch_lock \<Rightarrow> dispatch_tid \<Rightarrow> bool" where
  "same_owner l t \<longleftrightarrow> (\<forall>n \<ge> 2. bit l n = bit t n)"

lemma masked_zero: "l AND DLOCK_OWNER_MASK = 0 \<longleftrightarrow> (\<forall>n \<ge> 2. \<not> bit l n)"
proof -
  have "l AND DLOCK_OWNER_MASK = 0 \<longleftrightarrow> (\<forall>n. \<not> bit (l AND DLOCK_OWNER_MASK) n)"
    by (metis bit_0_eq bit_eqI bot_apply bot_bool_def)
  then show ?thesis unfolding bit_and_iff owner_mask_bit using bit_imp_le_length [of l] by auto
qed

lemma locked_by_iff: "dispatch_lock_is_locked_by l t \<longleftrightarrow> same_owner l t"
  unfolding dispatch_lock_is_locked_by_def masked_zero same_owner_def bit_xor_iff by auto

lemma port_eqI:
  assumes "thread_port t" "thread_port u" "same_owner l t" "same_owner l u"
  shows "t = u"
proof (rule bit_eqI)
  fix n
  show "bit t n = bit u n"
  proof (cases "n < 2")
    case True
    then have "n = 0 \<or> n = 1" by auto
    then show ?thesis using thread_port_bits [OF assms(1)] thread_port_bits [OF assms(2)] by auto
  next
    case False
    then show ?thesis using assms(3,4) by (simp add: same_owner_def)
  qed
qed

lemma same_owner_value [simp]: "same_owner (dispatch_lock_value_from_tid t) t"
  by (simp add: same_owner_def lock_value_bit)

lemma same_owner_flags [simp]:
  "same_owner (l OR 1) t \<longleftrightarrow> same_owner l t" "same_owner (l OR 2) t \<longleftrightarrow> same_owner l t"
  "same_owner (l XOR 2) t \<longleftrightarrow> same_owner l t"
  unfolding same_owner_def bit_or_iff bit_xor_iff low_bits_u32 by auto

lemma is_locked_iff: "dispatch_lock_is_locked l \<longleftrightarrow> (\<exists>n \<ge> 2. bit l n)"
  unfolding dispatch_lock_is_locked_def masked_zero by auto

lemma same_owner_locked: "thread_port t \<Longrightarrow> same_owner l t \<Longrightarrow> dispatch_lock_is_locked l"
  unfolding is_locked_iff same_owner_def thread_port_def masked_zero by blast

lemma zero_not_locked: "\<not> dispatch_lock_is_locked 0"
  by (simp add: dispatch_lock_is_locked_def)

lemma not_owner_zero: "thread_port t \<Longrightarrow> \<not> same_owner 0 t"
  using same_owner_locked [of t 0] zero_not_locked by blast

lemma owner_unlocked: "thread_port t \<Longrightarrow> \<not> dispatch_lock_is_locked l \<Longrightarrow> \<not> same_owner l t"
  using same_owner_locked by blast

end
