(* ===== verification/Unfair_Lock.thy ===== *)
theory Unfair_Lock
  imports Lock_Word
begin

text \<open>
  The unfair lock of \<open>src/shims/lock.h\<close> and \<open>src/shims/lock.c\<close> on a kernel with unfair
  ulocks: locking, trying to lock, unlocking and trying to unlock by any number of threads. The
  answers of the kernel are arbitrary, so what is proved here does not rest on it.
\<close>

section \<open>Operations\<close>

datatype lock_pc =
    Lock_idle
  | Lock_slow dispatch_lock
  | Lock_wait dispatch_lock dispatch_lock
  | Lock_held
  | Unlock_slow dispatch_lock
  | Unlock_wake
  | Lock_crashed

definition dispatch_unfair_lock_lock :: "dispatch_tid \<Rightarrow> dispatch_lock \<Rightarrow> dispatch_lock \<times> lock_pc" where
  "dispatch_unfair_lock_lock self l =
     (let value_self = dispatch_lock_value_from_tid self in
      if l = DLOCK_OWNER_NULL then (value_self, Lock_held) else (l, Lock_slow value_self))"

text \<open>The atomic update of the loop of \<open>_dispatch_unfair_lock_lock_slow\<close> and the tests after it.\<close>

definition dispatch_unfair_lock_lock_slow ::
  "dispatch_tid \<Rightarrow> dispatch_lock \<Rightarrow> dispatch_lock \<Rightarrow> dispatch_lock \<times> lock_pc" where
  "dispatch_unfair_lock_lock_slow self nxt old_value =
     (let new_value = (if \<not> dispatch_lock_is_locked old_value then nxt else old_value OR DLOCK_WAITERS_BIT) in
      (new_value,
       if dispatch_lock_is_locked_by old_value (dispatch_lock_value_from_tid self) then Lock_crashed
       else if new_value = nxt then Lock_held
       else Lock_wait new_value nxt))"

definition unfair_lock_woken :: "dispatch_lock \<Rightarrow> dispatch_lock \<Rightarrow> int \<Rightarrow> lock_pc" where
  "unfair_lock_woken new_value nxt rc =
     (case dlock_wait 0 rc of
        Call_again \<Rightarrow> Lock_wait new_value nxt
      | Answer_crash \<Rightarrow> Lock_crashed
      | Answer r \<Rightarrow> Lock_slow (if r = ENOTEMPTY then nxt OR DLOCK_WAITERS_BIT else nxt))"

definition dispatch_unfair_lock_trylock ::
  "dispatch_tid \<Rightarrow> dispatch_lock \<Rightarrow> dispatch_lock \<times> dispatch_tid \<times> bool" where
  "dispatch_unfair_lock_trylock self old_value =
     (let new_value = (if \<not> dispatch_lock_is_locked old_value then dispatch_lock_value_from_tid self
                       else old_value OR DLOCK_FAILED_TRYLOCK_BIT)
      in (new_value, dispatch_lock_owner new_value, \<not> dispatch_lock_is_locked old_value))"

definition dispatch_unfair_lock_tryunlock :: "dispatch_lock \<Rightarrow> dispatch_lock \<times> lock_pc" where
  "dispatch_unfair_lock_tryunlock old_value =
     (let new_value = (if dispatch_lock_has_failed_trylock old_value then old_value XOR DLOCK_FAILED_TRYLOCK_BIT
                       else DLOCK_OWNER_NULL)
      in (new_value,
          if new_value \<noteq> 0 then Lock_held
          else if dispatch_lock_has_waiters old_value then Unlock_slow old_value
          else Lock_idle))"

definition dispatch_unfair_lock_unlock :: "dispatch_tid \<Rightarrow> dispatch_lock \<Rightarrow> dispatch_lock \<times> lock_pc \<times> bool" where
  "dispatch_unfair_lock_unlock self cur_value =
     (DLOCK_OWNER_NULL,
      if cur_value = dispatch_lock_value_from_tid self then (Lock_idle, False)
      else (Unlock_slow cur_value, dispatch_lock_has_failed_trylock cur_value))"

definition dispatch_unfair_lock_unlock_slow :: "dispatch_tid \<Rightarrow> dispatch_lock \<Rightarrow> lock_pc" where
  "dispatch_unfair_lock_unlock_slow self cur_value =
     (if \<not> dispatch_lock_is_locked_by cur_value self then Lock_crashed
      else if dispatch_lock_has_waiters cur_value then Unlock_wake
      else Lock_idle)"

definition unfair_lock_wake_answer :: "int \<Rightarrow> lock_pc" where
  "unfair_lock_wake_answer rc = (case dlock_wake rc of Answer _ \<Rightarrow> Lock_idle | _ \<Rightarrow> Lock_crashed)"

section \<open>The system\<close>

record lock_sys =
  dul_lock :: dispatch_lock
  lpcs :: "dispatch_tid \<Rightarrow> lock_pc"

definition lock_move :: "lock_sys \<Rightarrow> dispatch_tid \<Rightarrow> dispatch_lock \<times> lock_pc \<Rightarrow> lock_sys" where
  "lock_move s t r = s\<lparr>dul_lock := fst r, lpcs := (lpcs s)(t := snd r)\<rparr>"

inductive lock_step :: "lock_sys \<Rightarrow> lock_sys \<Rightarrow> bool" where
  lock: "thread_port t \<Longrightarrow> lpcs s t = Lock_idle \<Longrightarrow>
    lock_step s (lock_move s t (dispatch_unfair_lock_lock t (dul_lock s)))"
| lock_again: "thread_port t \<Longrightarrow> lpcs s t = Lock_held \<Longrightarrow>
    lock_step s (lock_move s t (dispatch_unfair_lock_lock_slow t (dispatch_lock_value_from_tid t) (dul_lock s)))"
| lock_slow: "thread_port t \<Longrightarrow> lpcs s t = Lock_slow nxt \<Longrightarrow>
    lock_step s (lock_move s t (dispatch_unfair_lock_lock_slow t nxt (dul_lock s)))"
| woken: "thread_port t \<Longrightarrow> lpcs s t = Lock_wait v nxt \<Longrightarrow>
    lock_step s (lock_move s t (dul_lock s, unfair_lock_woken v nxt rc))"
| trylock: "thread_port t \<Longrightarrow> lpcs s t = Lock_idle \<Longrightarrow>
    dispatch_unfair_lock_trylock t (dul_lock s) = (v, owner, success) \<Longrightarrow>
    lock_step s (lock_move s t (v, if success then Lock_held else Lock_idle))"
| tryunlock: "thread_port t \<Longrightarrow> lpcs s t = Lock_held \<Longrightarrow>
    lock_step s (lock_move s t (dispatch_unfair_lock_tryunlock (dul_lock s)))"
| unlock: "thread_port t \<Longrightarrow> lpcs s t = Lock_held \<Longrightarrow>
    dispatch_unfair_lock_unlock t (dul_lock s) = (v, pc, failed) \<Longrightarrow> lock_step s (lock_move s t (v, pc))"
| unlock_slow: "thread_port t \<Longrightarrow> lpcs s t = Unlock_slow v \<Longrightarrow>
    lock_step s (lock_move s t (dul_lock s, dispatch_unfair_lock_unlock_slow t v))"
| wake: "thread_port t \<Longrightarrow> lpcs s t = Unlock_wake \<Longrightarrow>
    lock_step s (lock_move s t (dul_lock s, unfair_lock_wake_answer rc))"

definition lock_init :: "lock_sys \<Rightarrow> bool" where
  "lock_init s \<longleftrightarrow> dul_lock s = 0 \<and> lpcs s = (\<lambda>_. Lock_idle)"

inductive_cases lock_stepE: "lock_step s s'"

section \<open>Mutual exclusion\<close>

text \<open>
  The owner part of the word is that of the thread in the critical section; the word a thread is
  about to put there is its own; a thread that releases the lock slowly did own it.
\<close>

definition lock_pc_ok :: "dispatch_tid \<Rightarrow> lock_pc \<Rightarrow> bool" where
  "lock_pc_ok t pc \<longleftrightarrow> thread_port t \<and> (case pc of Lock_slow nxt \<Rightarrow> same_owner nxt t | Lock_wait _ nxt \<Rightarrow> same_owner nxt t
     | Unlock_slow v \<Rightarrow> same_owner v t | Lock_crashed \<Rightarrow> False | _ \<Rightarrow> True)"

definition lock_inv :: "lock_sys \<Rightarrow> bool" where
  "lock_inv s \<longleftrightarrow>
     (\<forall>t. lpcs s t \<noteq> Lock_idle \<longrightarrow> lock_pc_ok t (lpcs s t)) \<and>
     (\<forall>t. lpcs s t = Lock_held \<longrightarrow> same_owner (dul_lock s) t) \<and>
     (dispatch_lock_is_locked (dul_lock s) \<longrightarrow> (\<exists>t. lpcs s t = Lock_held))"

definition lock_crashes :: "lock_sys \<Rightarrow> bool" where
  "lock_crashes s \<longleftrightarrow> (\<exists>t. lpcs s t = Lock_crashed)"

lemma lock_inv_move:
  assumes inv: "lock_inv s" and t: "thread_port t" and pc: "pc \<noteq> Lock_idle \<Longrightarrow> lock_pc_ok t pc"
    and held: "pc = Lock_held \<Longrightarrow> same_owner v t"
    and others: "\<And>u. u \<noteq> t \<Longrightarrow> lpcs s u = Lock_held \<Longrightarrow> same_owner v u"
    and locked: "dispatch_lock_is_locked v \<Longrightarrow> pc = Lock_held \<or> (\<exists>u. u \<noteq> t \<and> lpcs s u = Lock_held)"
  shows "lock_inv (lock_move s t (v, pc))"
  using assms unfolding lock_inv_def lock_move_def
  by (simp split: if_splits) (metis lock_pc_ok_def)

text \<open>While a thread holds the lock no other does.\<close>

lemma lock_owner_unique:
  assumes "lock_inv s" "lpcs s t = Lock_held" "lpcs s u = Lock_held"
  shows "t = u"
proof (rule port_eqI)
  show "same_owner (dul_lock s) t" "same_owner (dul_lock s) u" using assms by (simp_all add: lock_inv_def)
  have "lpcs s t \<noteq> Lock_idle" "lpcs s u \<noteq> Lock_idle" using assms by simp_all
  then have "lock_pc_ok t (lpcs s t)" "lock_pc_ok u (lpcs s u)" using assms(1) unfolding lock_inv_def by blast+
  then show "thread_port t" "thread_port u" by (simp_all add: lock_pc_ok_def)
qed

lemma lock_step_inv:
  assumes step: "lock_step s s'" and inv: "lock_inv s" and alive: "\<not> lock_crashes s'"
  shows "lock_inv s'"
proof -
  have ok: "lock_pc_ok t (lpcs s t)" if "lpcs s t \<noteq> Lock_idle" for t using inv that by (simp add: lock_inv_def)
  have own: "same_owner (dul_lock s) t" if "lpcs s t = Lock_held" for t using inv that by (simp add: lock_inv_def)
  have some: "\<exists>t. lpcs s t = Lock_held" if "dispatch_lock_is_locked (dul_lock s)" using inv that by (simp add: lock_inv_def)
  have others: "\<exists>u. u \<noteq> t \<and> lpcs s u = Lock_held"
    if "dispatch_lock_is_locked (dul_lock s)" "lpcs s t \<noteq> Lock_held" for t
    using some [OF that(1)] that(2) by metis
  have free: "lpcs s t \<noteq> Lock_held" if "\<not> dispatch_lock_is_locked (dul_lock s)" for t
    using own [of t] ok [of t] that same_owner_locked [of t] by (auto simp: lock_pc_ok_def)
  have flag: "dispatch_lock_is_locked (l OR 1) = dispatch_lock_is_locked l" "dispatch_lock_is_locked (l OR 2) = dispatch_lock_is_locked l"
    "dispatch_lock_is_locked (l XOR 2) = dispatch_lock_is_locked l" for l
    unfolding is_locked_iff bit_or_iff bit_xor_iff low_bits_u32 by auto
  have no_crash: "lpcs s' t \<noteq> Lock_crashed" for t using alive by (simp add: lock_crashes_def)
  from step show ?thesis
  proof (cases rule: lock_step.cases)
    case (lock t)
    show ?thesis
    proof (cases "dul_lock s = 0")
      case True
      then show ?thesis unfolding lock(1) using lock free zero_not_locked
        by (auto simp: dispatch_unfair_lock_lock_def lock_pc_ok_def intro!: lock_inv_move [OF inv])
    next
      case False
      have idle: "lpcs s t \<noteq> Lock_held" using lock by simp
      have res: "dispatch_unfair_lock_lock t (dul_lock s) = (dul_lock s, Lock_slow (dispatch_lock_value_from_tid t))"
        using False by (simp add: dispatch_unfair_lock_lock_def)
      show ?thesis unfolding lock(1) res using lock(2) idle others own
        by (intro lock_inv_move [OF inv]) (auto simp: lock_pc_ok_def)
    qed
  next
    case (lock_again t)
    have "dispatch_lock_is_locked_by (dul_lock s) (dispatch_lock_value_from_tid t)"
      using own [OF lock_again(3)] by (simp add: locked_by_iff same_owner_def lock_value_bit)
    then have "lpcs s' t = Lock_crashed"
      unfolding lock_again(1) by (simp add: lock_move_def dispatch_unfair_lock_lock_slow_def Let_def)
    then show ?thesis using no_crash by blast
  next
    case (lock_slow t nxt)
    have nxt: "same_owner nxt t" using ok [of t] lock_slow by (simp add: lock_pc_ok_def)
    let ?l = "dul_lock s"
    have by_iff: "dispatch_lock_is_locked_by ?l (dispatch_lock_value_from_tid t) = same_owner ?l t"
      by (auto simp: locked_by_iff same_owner_def lock_value_bit)
    have nby: "\<not> dispatch_lock_is_locked_by ?l (dispatch_lock_value_from_tid t)"
    proof
      assume "dispatch_lock_is_locked_by ?l (dispatch_lock_value_from_tid t)"
      then have "lpcs s' t = Lock_crashed"
        unfolding lock_slow(1) by (simp add: lock_move_def dispatch_unfair_lock_lock_slow_def Let_def)
      then show False using no_crash by blast
    qed
    then have notby: "\<not> same_owner ?l t" by (simp add: by_iff)
    show ?thesis
    proof (cases "dispatch_lock_is_locked ?l")
      case False
      then have "s' = lock_move s t (nxt, Lock_held)"
        using lock_slow(1) nby by (simp add: dispatch_unfair_lock_lock_slow_def Let_def)
      then show ?thesis using lock_slow nxt free [OF False]
        by (auto simp: lock_pc_ok_def intro!: lock_inv_move [OF inv])
    next
      case True
      have "?l OR 1 \<noteq> nxt" using notby nxt by (metis same_owner_flags(1))
      then have "s' = lock_move s t (?l OR 1, Lock_wait (?l OR 1) nxt)"
        using lock_slow(1) nby True by (simp add: dispatch_unfair_lock_lock_slow_def Let_def)
      moreover have "lpcs s t \<noteq> Lock_held" using lock_slow by simp
      ultimately show ?thesis using lock_slow nxt own others [OF True]
        by (auto simp: lock_pc_ok_def intro!: lock_inv_move [OF inv])
    qed
  next
    case (woken t v nxt rc)
    have "same_owner nxt t" using ok [of t] woken by (simp add: lock_pc_ok_def)
    moreover have "lpcs s' t = unfair_lock_woken v nxt rc" unfolding woken(1) by (simp add: lock_move_def)
    then have "unfair_lock_woken v nxt rc \<noteq> Lock_crashed" using no_crash [of t] by simp
    moreover have "lpcs s t \<noteq> Lock_held" using woken by simp
    ultimately show ?thesis unfolding woken(1) using woken(2) own others
      by (intro lock_inv_move [OF inv]) (auto simp: lock_pc_ok_def unfair_lock_woken_def split: kernel_answer.splits)
  next
    case (trylock t v owner success)
    have "lpcs s t \<noteq> Lock_held" using trylock by simp
    then show ?thesis unfolding trylock(1) using trylock own others free flag
      by (intro lock_inv_move [OF inv])
        (auto simp: lock_pc_ok_def dispatch_unfair_lock_trylock_def Let_def split: if_splits)
  next
    case (tryunlock t)
    have o: "same_owner (dul_lock s) t" by (rule own [OF tryunlock(3)])
    have u: "lpcs s u \<noteq> Lock_held" if "u \<noteq> t" for u using lock_owner_unique [OF inv tryunlock(3), of u] that by blast
    have "dul_lock s XOR 2 \<noteq> 0" if "dispatch_lock_has_failed_trylock (dul_lock s)"
    proof -
      have "dispatch_lock_is_locked (dul_lock s XOR 2)" using same_owner_locked [OF tryunlock(2) o] by (simp add: flag)
      then show ?thesis using zero_not_locked by auto
    qed
    then show ?thesis unfolding tryunlock(1) using tryunlock o u zero_not_locked
      by (cases "dispatch_lock_has_failed_trylock (dul_lock s)")
        (auto simp: dispatch_unfair_lock_tryunlock_def Let_def lock_pc_ok_def intro!: lock_inv_move [OF inv] split: if_splits)
  next
    case (unlock t v pc failed)
    have o: "same_owner (dul_lock s) t" by (rule own [OF unlock(3)])
    have u: "lpcs s u \<noteq> Lock_held" if "u \<noteq> t" for u using lock_owner_unique [OF inv unlock(3), of u] that by blast
    show ?thesis unfolding unlock(1) using unlock o u zero_not_locked
      by (intro lock_inv_move [OF inv]) (auto simp: dispatch_unfair_lock_unlock_def lock_pc_ok_def split: if_splits)
  next
    case (unlock_slow t v)
    have "same_owner v t" using ok [of t] unlock_slow by (simp add: lock_pc_ok_def)
    moreover have "lpcs s t \<noteq> Lock_held" using unlock_slow by simp
    ultimately show ?thesis unfolding unlock_slow(1) using unlock_slow(2) own others
      by (intro lock_inv_move [OF inv])
        (auto simp: dispatch_unfair_lock_unlock_slow_def lock_pc_ok_def locked_by_iff split: if_splits)
  next
    case (wake t rc)
    have "lpcs s' t = unfair_lock_wake_answer rc" unfolding wake(1) by (simp add: lock_move_def)
    then have "unfair_lock_wake_answer rc \<noteq> Lock_crashed" using no_crash [of t] by simp
    moreover have "lpcs s t \<noteq> Lock_held" using wake by simp
    ultimately show ?thesis unfolding wake(1) using wake(2) own others
      by (intro lock_inv_move [OF inv]) (auto simp: unfair_lock_wake_answer_def split: kernel_answer.splits)
  qed
qed

definition lock_run :: "lock_sys \<Rightarrow> lock_sys \<Rightarrow> bool" where
  "lock_run s s' \<longleftrightarrow> \<not> lock_crashes s \<and> lock_step s s'"

interpretation unfair: invariant_system lock_init lock_run "\<lambda>s. \<not> lock_crashes s \<longrightarrow> lock_inv s"
proof
  fix s assume "lock_init s"
  then show "\<not> lock_crashes s \<longrightarrow> lock_inv s" by (simp add: lock_init_def lock_inv_def zero_not_locked)
next
  fix s s' assume "lock_run s s'" "\<not> lock_crashes s \<longrightarrow> lock_inv s"
  then show "\<not> lock_crashes s' \<longrightarrow> lock_inv s'" using lock_step_inv by (auto simp: lock_run_def)
qed

end
