(* ===== verification/Once.thy ===== *)
theory Once
  imports Lock_Word
begin

text \<open>
  \<open>dispatch_once_f\<close> of \<open>src/once.c\<close> over the once gate of \<open>src/shims/lock.h\<close>, on a
  processor for which no quiescent counter is used: any number of threads call it with one
  predicate. The predicate is a 64-bit word: 0, the lock word of the thread that initialises with
  a flag for waiters, or all ones.
\<close>

section \<open>Operations\<close>

abbreviation (input) DLOCK_ONCE_UNLOCKED :: u64 where "DLOCK_ONCE_UNLOCKED \<equiv> 0"
abbreviation (input) DLOCK_ONCE_DONE :: u64 where "DLOCK_ONCE_DONE \<equiv> 0xffffffffffffffff"

datatype once_pc =
    Once_idle
  | Once_enter
  | Once_callout
  | Once_broadcast
  | Once_wake
  | Once_wait
  | Once_kernel u32
  | Once_returned
  | Once_crashed

text \<open>The load of the fast path, which the header has too, and the attempt to enter the gate.\<close>

definition dispatch_once_f :: "u64 \<Rightarrow> once_pc" where
  "dispatch_once_f v = (if v = DLOCK_ONCE_DONE then Once_returned else Once_enter)"

definition dispatch_once_gate_tryenter :: "dispatch_tid \<Rightarrow> u64 \<Rightarrow> u64 \<times> once_pc" where
  "dispatch_once_gate_tryenter self v =
     (if v = DLOCK_ONCE_UNLOCKED then (ucast (dispatch_lock_value_from_tid self), Once_callout)
      else (v, Once_wait))"

text \<open>The exchange of \<open>_dispatch_once_mark_done\<close> and the tests of the broadcast.\<close>

definition dispatch_once_gate_broadcast :: "dispatch_tid \<Rightarrow> u64 \<Rightarrow> u64 \<times> once_pc" where
  "dispatch_once_gate_broadcast self v =
     (DLOCK_ONCE_DONE,
      if ucast v = dispatch_lock_value_from_tid self then Once_returned
      else if \<not> dispatch_lock_is_locked_by (ucast v) self then Once_crashed
      else Once_wake)"

text \<open>The atomic update of the loop of \<open>_dispatch_once_wait\<close> and the test after it.\<close>

definition dispatch_once_wait :: "dispatch_tid \<Rightarrow> u64 \<Rightarrow> u64 \<times> once_pc" where
  "dispatch_once_wait self old_v =
     (if old_v = DLOCK_ONCE_DONE then (old_v, Once_returned)
      else
        let new_v = old_v OR ucast DLOCK_WAITERS_BIT in
        (new_v,
         if dispatch_lock_is_locked_by (ucast old_v) (dispatch_lock_value_from_tid self) then Once_crashed
         else Once_kernel (ucast new_v)))"

definition once_woken :: "u32 \<Rightarrow> int \<Rightarrow> once_pc" where
  "once_woken new_v rc =
     (case dlock_wait 0 rc of Call_again \<Rightarrow> Once_kernel new_v | Answer_crash \<Rightarrow> Once_crashed | Answer r \<Rightarrow> Once_wait)"

section \<open>The system\<close>

text \<open>
  \<open>in_call t\<close> tells that \<open>t\<close> has called the kernel and has not come back. \<open>runs\<close> and \<open>finished\<close>
  are not in the code: how often the function was started, and whether it has returned.
\<close>

record 'w once_sys =
  dgo_once :: u64
  opcs :: "dispatch_tid \<Rightarrow> once_pc"
  oq :: 'w
  in_call :: "dispatch_tid \<Rightarrow> bool"
  runs :: nat
  finished :: bool

definition once_move :: "'w once_sys \<Rightarrow> dispatch_tid \<Rightarrow> u64 \<times> once_pc \<Rightarrow> 'w once_sys" where
  "once_move s t r = s\<lparr>dgo_once := fst r, opcs := (opcs s)(t := snd r),
     runs := runs s + (if snd r = Once_callout then 1 else 0)\<rparr>"

inductive once_step :: "'w ulock \<Rightarrow> 'w once_sys \<Rightarrow> 'w once_sys \<Rightarrow> bool" for U where
  call: "thread_port t \<Longrightarrow> opcs s t = Once_idle \<or> opcs s t = Once_returned \<Longrightarrow>
    once_step U s (once_move s t (dgo_once s, dispatch_once_f (dgo_once s)))"
| tryenter: "thread_port t \<Longrightarrow> opcs s t = Once_enter \<Longrightarrow>
    once_step U s (once_move s t (dispatch_once_gate_tryenter t (dgo_once s)))"
| callout_returns: "thread_port t \<Longrightarrow> opcs s t = Once_callout \<Longrightarrow>
    once_step U s (s\<lparr>opcs := (opcs s)(t := Once_broadcast), finished := True\<rparr>)"
| broadcast: "thread_port t \<Longrightarrow> opcs s t = Once_broadcast \<Longrightarrow>
    once_step U s (once_move s t (dispatch_once_gate_broadcast t (dgo_once s)))"
| wake: "thread_port t \<Longrightarrow> opcs s t = Once_wake \<Longrightarrow>
    once_step U s ((once_move s t (dgo_once s, if dlock_wake rc = Answer_crash then Once_crashed else Once_returned))
      \<lparr>oq := ul_wake_all U (oq s)\<rparr>)"
| wait: "thread_port t \<Longrightarrow> opcs s t = Once_wait \<Longrightarrow>
    once_step U s ((once_move s t (dispatch_once_wait t (dgo_once s)))\<lparr>in_call := (in_call s)(t := False)\<rparr>)"
| kernel: "thread_port t \<Longrightarrow> opcs s t = Once_kernel v \<Longrightarrow> \<not> in_call s t \<Longrightarrow>
    ul_wait U (oq s) t (ucast (dgo_once s) = v) w \<Longrightarrow>
    once_step U s (s\<lparr>oq := w, in_call := (in_call s)(t := True)\<rparr>)"
| kernel_returns: "thread_port t \<Longrightarrow> opcs s t = Once_kernel v \<Longrightarrow> in_call s t \<Longrightarrow> ul_return U (oq s) t rc w \<Longrightarrow>
    once_step U s ((once_move s t (dgo_once s, once_woken v rc))\<lparr>oq := w, in_call := (in_call s)(t := False)\<rparr>)"
| recursive: "thread_port t \<Longrightarrow> opcs s t = Once_callout \<Longrightarrow>
    once_step U s (once_move s t (dispatch_once_wait t (dgo_once s)))"

text \<open>\<open>recursive\<close> is a call with the same predicate from inside the function.\<close>

definition once_init :: "('w \<Rightarrow> dispatch_tid \<Rightarrow> bool) \<Rightarrow> 'w once_sys \<Rightarrow> bool" where
  "once_init asleep s \<longleftrightarrow> dgo_once s = 0 \<and> opcs s = (\<lambda>_. Once_idle) \<and> (\<forall>t. \<not> asleep (oq s) t) \<and>
     (\<forall>t. \<not> in_call s t) \<and> \<not> finished s \<and> runs s = 0"

definition once_crashes :: "'w once_sys \<Rightarrow> bool" where
  "once_crashes s \<longleftrightarrow> (\<exists>t. opcs s t = Once_crashed)"

definition once_run :: "'w ulock \<Rightarrow> 'w once_sys \<Rightarrow> 'w once_sys \<Rightarrow> bool" where
  "once_run U s s' \<longleftrightarrow> \<not> once_crashes s \<and> once_step U s s'"

inductive_cases once_stepE: "once_step U s s'"

section \<open>Words of the gate\<close>

definition gate_of :: "u64 \<Rightarrow> dispatch_tid \<Rightarrow> bool" where
  "gate_of v t \<longleftrightarrow> (\<forall>n. bit v n \<longrightarrow> n < 32) \<and> same_owner (ucast v) t \<and> \<not> bit v 1"

lemma gate_enter: "gate_of (ucast (dispatch_lock_value_from_tid t)) t"
  unfolding gate_of_def
proof (intro conjI allI impI)
  have b: "bit (ucast (dispatch_lock_value_from_tid t) :: u64) n \<longleftrightarrow> n < 64 \<and> 2 \<le> n \<and> bit t n" for n
    by (simp add: bit_ucast_iff lock_value_bit)
  show "n < 32" if "bit (ucast (dispatch_lock_value_from_tid t) :: u64) n" for n
    using that b [of n] bit_imp_le_length [of t n] by simp
  show "\<not> bit (ucast (dispatch_lock_value_from_tid t) :: u64) 1" by (simp add: b)
  have "ucast (ucast (dispatch_lock_value_from_tid t) :: u64) = dispatch_lock_value_from_tid t"
    by (rule bit_eqI) (auto simp: bit_ucast_iff)
  then show "same_owner (ucast (ucast (dispatch_lock_value_from_tid t) :: u64)) t" by simp
qed

lemma gate_flag: "gate_of v t \<Longrightarrow> gate_of (v OR 1) t"
proof -
  assume g: "gate_of v t"
  have one: "bit (1 :: u64) n \<longleftrightarrow> n = 0" for n by (simp add: bit_1_iff)
  have "ucast (v OR 1) = (ucast v OR 1 :: u32)"
    by (rule bit_eqI) (auto simp: bit_ucast_iff bit_or_iff bit_1_iff)
  then show ?thesis using g unfolding gate_of_def by (auto simp: bit_or_iff one)
qed

lemma gate_not_done: "gate_of v t \<Longrightarrow> v \<noteq> DLOCK_ONCE_DONE"
proof
  assume g: "gate_of v t" and v: "v = DLOCK_ONCE_DONE"
  have "DLOCK_ONCE_DONE = mask 64" by (simp add: mask_eq_exp_minus_1)
  then have "bit DLOCK_ONCE_DONE 1" by (simp only: bit_mask_iff possible_bit_word) simp
  then show False using g v by (simp add: gate_of_def)
qed

lemma gate_not_zero: "thread_port t \<Longrightarrow> gate_of v t \<Longrightarrow> v \<noteq> 0"
  using not_owner_zero by (auto simp: gate_of_def)

lemma gate_locked_by: "gate_of v t \<Longrightarrow> dispatch_lock_is_locked_by (ucast v) t"
  by (simp add: gate_of_def locked_by_iff)

text \<open>A word with both flags of a waiter in the kernel is neither empty nor all ones.\<close>

definition waiter_value :: "u32 \<Rightarrow> bool" where
  "waiter_value v \<longleftrightarrow> bit v 0 \<and> \<not> bit v 1"

lemma waiter_gate: "gate_of v t \<Longrightarrow> waiter_value (ucast (v OR 1))"
  unfolding waiter_value_def gate_of_def by (simp add: bit_ucast_iff bit_or_iff bit_1_iff)

lemma done_bit: "bit DLOCK_ONCE_DONE n \<longleftrightarrow> n < 64"
proof -
  have "DLOCK_ONCE_DONE = mask 64" by (simp add: mask_eq_exp_minus_1)
  then show ?thesis by (simp only: bit_mask_iff possible_bit_word) simp
qed

lemma waiter_not_done: "waiter_value (ucast v) \<Longrightarrow> v \<noteq> DLOCK_ONCE_DONE \<and> v \<noteq> 0 \<and> bit v 0"
  unfolding waiter_value_def using done_bit [of 1] by (auto simp: bit_ucast_iff)

lemma enter_no_waiter: "ucast v = dispatch_lock_value_from_tid t \<Longrightarrow> \<not> bit (v :: u64) 0"
proof
  assume v: "ucast v = dispatch_lock_value_from_tid t" and b: "bit v 0"
  have "bit (ucast v :: u32) 0" using b by (simp add: bit_ucast_iff)
  then show False unfolding v by (simp add: lock_value_bit)
qed

section \<open>Invariant\<close>

definition once_busy :: "once_pc \<Rightarrow> bool" where
  "once_busy pc \<longleftrightarrow> pc = Once_callout \<or> pc = Once_broadcast"

definition once_pc_ok :: "u64 \<Rightarrow> dispatch_tid \<Rightarrow> once_pc \<Rightarrow> bool" where
  "once_pc_ok v t pc \<longleftrightarrow> (case pc of Once_idle \<Rightarrow> True | Once_enter \<Rightarrow> thread_port t
     | Once_callout \<Rightarrow> thread_port t \<and> v \<noteq> DLOCK_ONCE_DONE \<and> gate_of v t
     | Once_broadcast \<Rightarrow> thread_port t \<and> v \<noteq> DLOCK_ONCE_DONE \<and> gate_of v t
     | Once_wake \<Rightarrow> thread_port t \<and> v = DLOCK_ONCE_DONE
     | Once_wait \<Rightarrow> thread_port t \<and> v \<noteq> 0
     | Once_kernel x \<Rightarrow> thread_port t \<and> v \<noteq> 0 \<and> waiter_value x
     | Once_returned \<Rightarrow> thread_port t \<and> v = DLOCK_ONCE_DONE
     | Once_crashed \<Rightarrow> False)"

definition once_phase :: "'w once_sys \<Rightarrow> bool" where
  "once_phase s \<longleftrightarrow>
     (if dgo_once s = 0 then runs s = 0 \<and> \<not> finished s
      else if dgo_once s = DLOCK_ONCE_DONE then runs s = 1 \<and> finished s
      else runs s = 1 \<and> (\<exists>t. gate_of (dgo_once s) t \<and> once_busy (opcs s t) \<and> finished s = (opcs s t = Once_broadcast)))"

definition once_inv :: "('w \<Rightarrow> dispatch_tid \<Rightarrow> bool) \<Rightarrow> 'w once_sys \<Rightarrow> bool" where
  "once_inv asleep s \<longleftrightarrow>
     (\<forall>t. once_pc_ok (dgo_once s) t (opcs s t)) \<and> once_phase s \<and>
     (\<forall>t. asleep (oq s) t \<longrightarrow> bit (dgo_once s) 0 \<and> dgo_once s \<noteq> DLOCK_ONCE_DONE \<or> (\<exists>u. opcs s u = Once_wake))"

lemma once_owner_unique:
  assumes "once_inv asleep s" "once_busy (opcs s t)" "gate_of (dgo_once s) u" "thread_port u"
  shows "t = u"
proof -
  have "once_pc_ok (dgo_once s) t (opcs s t)" using assms(1) by (simp add: once_inv_def)
  then have "thread_port t" "gate_of (dgo_once s) t" using assms(2) by (auto simp: once_pc_ok_def once_busy_def)
  then show ?thesis using assms(3,4) port_eqI by (auto simp: gate_of_def)
qed

text \<open>Steps of a thread that neither initialises nor is about to, and the kernel's.\<close>

lemma once_inv_same:
  assumes inv: "once_inv asleep s" and word: "dgo_once s' = dgo_once s \<or>
      dgo_once s' = dgo_once s OR 1 \<and> dgo_once s \<noteq> DLOCK_ONCE_DONE \<and> dgo_once s \<noteq> 0"
    and pcs: "opcs s' = (opcs s)(t := pc)" and ghost: "runs s' = runs s" "finished s' = finished s"
    and pc: "once_pc_ok (dgo_once s') t pc" and quiet: "\<not> once_busy (opcs s t)"
    and sleep: "\<And>u. asleep (oq s') u \<Longrightarrow>
      asleep (oq s) u \<and> opcs s t \<noteq> Once_wake \<or> bit (dgo_once s) 0 \<and> dgo_once s \<noteq> DLOCK_ONCE_DONE"
  shows "once_inv asleep s'"
proof -
  have ok: "once_pc_ok (dgo_once s) u (opcs s u)" for u using inv by (simp add: once_inv_def)
  have phase: "once_phase s" using inv by (simp add: once_inv_def)
  have owner: "\<exists>u. gate_of (dgo_once s) u \<and> once_busy (opcs s u) \<and> finished s = (opcs s u = Once_broadcast)"
    if "dgo_once s \<noteq> 0" "dgo_once s \<noteq> DLOCK_ONCE_DONE"
    using phase that by (simp add: once_phase_def)
  have kept: "gate_of (dgo_once s) u \<Longrightarrow> gate_of (dgo_once s') u" for u
    using word gate_flag by auto
  have done_iff: "dgo_once s' = DLOCK_ONCE_DONE \<longleftrightarrow> dgo_once s = DLOCK_ONCE_DONE"
    using word owner kept gate_not_done by metis
  have zero_iff: "dgo_once s' = 0 \<longleftrightarrow> dgo_once s = 0"
    using word owner kept by (metis or_eq_0_iff)
  have "once_pc_ok (dgo_once s') u (opcs s' u)" for u
  proof (cases "u = t")
    case True
    then show ?thesis using pc pcs by simp
  next
    case False
    then show ?thesis using ok [of u] kept [of u] done_iff zero_iff pcs
      by (simp add: once_pc_ok_def split: once_pc.splits)
  qed
  moreover have "once_phase s'"
  proof (cases "dgo_once s = 0 \<or> dgo_once s = DLOCK_ONCE_DONE")
    case True
    then show ?thesis using phase ghost done_iff zero_iff by (auto simp: once_phase_def)
  next
    case False
    then obtain u where u: "gate_of (dgo_once s) u" "once_busy (opcs s u)" "finished s = (opcs s u = Once_broadcast)"
      using owner by blast
    then have "u \<noteq> t" using quiet by auto
    then have "gate_of (dgo_once s') u" "once_busy (opcs s' u)" "finished s' = (opcs s' u = Once_broadcast)"
      using u kept pcs ghost by auto
    moreover have "runs s' = 1" using phase False ghost by (simp add: once_phase_def)
    ultimately show ?thesis using False done_iff zero_iff unfolding once_phase_def by auto
  qed
  moreover have "bit (dgo_once s') 0 \<and> dgo_once s' \<noteq> DLOCK_ONCE_DONE \<or> (\<exists>u. opcs s' u = Once_wake)"
    if a: "asleep (oq s') v" for v
  proof -
    have up: "bit (dgo_once s) 0 \<Longrightarrow> bit (dgo_once s') 0" using word by (auto simp: bit_or_iff)
    consider "bit (dgo_once s) 0 \<and> dgo_once s \<noteq> DLOCK_ONCE_DONE"
      | u where "opcs s u = Once_wake" "opcs s t \<noteq> Once_wake"
      using sleep [OF a] inv unfolding once_inv_def by blast
    then show ?thesis
    proof cases
      case 1
      then show ?thesis using up done_iff by blast
    next
      case 2
      then have "u \<noteq> t" by auto
      then show ?thesis using 2 pcs by (metis fun_upd_other)
    qed
  qed
  ultimately show ?thesis by (simp add: once_inv_def)
qed

text \<open>The thread that initialises enters the gate, and opens it.\<close>

lemma once_enter_gate:
  assumes inv: "once_inv asleep s" and t: "thread_port t" and v: "dgo_once s = 0"
  shows "once_inv asleep (once_move s t (ucast (dispatch_lock_value_from_tid t), Once_callout))"
proof -
  let ?g = "ucast (dispatch_lock_value_from_tid t) :: u64"
  have g: "gate_of ?g t" "?g \<noteq> DLOCK_ONCE_DONE" "?g \<noteq> 0"
    using gate_enter gate_not_done [OF gate_enter] gate_not_zero [OF t gate_enter] by auto
  have ok: "once_pc_ok 0 u (opcs s u)" for u using inv v by (simp add: once_inv_def)
  have notz: "\<not> gate_of 0 u" if "thread_port u" for u using gate_not_zero [OF that] by blast
  have pcs: "opcs s u = Once_idle \<or> opcs s u = Once_enter" for u
    using ok [of u] notz [of u] by (auto simp: once_pc_ok_def split: once_pc.splits)
  have "once_pc_ok ?g u (((opcs s)(t := Once_callout)) u)" for u
    using ok [of u] pcs [of u] g t by (auto simp: once_pc_ok_def)
  moreover have "once_phase (once_move s t (?g, Once_callout))"
    using inv v g by (auto simp: once_phase_def once_move_def once_inv_def once_busy_def)
  moreover have "\<not> asleep (oq s) u" for u
  proof
    assume "asleep (oq s) u"
    then have "bit (0 :: u64) 0 \<or> (\<exists>w. opcs s w = Once_wake)" using inv v by (auto simp: once_inv_def)
    then obtain w where "opcs s w = Once_wake" by auto
    then show False using pcs [of w] by simp
  qed
  ultimately show ?thesis unfolding once_inv_def by (simp add: once_move_def)
qed

lemma once_open_gate:
  assumes inv: "once_inv asleep s" and pc: "opcs s t = Once_broadcast"
    and s': "dgo_once s' = DLOCK_ONCE_DONE" "opcs s' = (opcs s)(t := pc')" "runs s' = runs s" "finished s' = finished s" "oq s' = oq s"
    and pc': "pc' = Once_wake \<or> pc' = Once_returned \<and> \<not> bit (dgo_once s) 0"
  shows "once_inv asleep s'"
proof -
  have ok: "once_pc_ok (dgo_once s) u (opcs s u)" for u using inv by (simp add: once_inv_def)
  have t: "thread_port t" "dgo_once s \<noteq> DLOCK_ONCE_DONE" "gate_of (dgo_once s) t" using ok [of t] pc by (auto simp: once_pc_ok_def)
  then have nz: "dgo_once s \<noteq> 0" using gate_not_zero by blast
  have busy: "once_busy (opcs s u) \<Longrightarrow> u = t" for u using once_owner_unique [OF inv _ t(3,1)] by blast
  have "once_phase s" using inv by (simp add: once_inv_def)
  then obtain u where u: "runs s = 1" "once_busy (opcs s u)" "finished s = (opcs s u = Once_broadcast)"
    using nz t(2) by (auto simp: once_phase_def)
  then have "finished s" using busy [of u] pc by simp
  then have "once_phase s'" using s' u(1) by (simp add: once_phase_def)
  moreover have "once_pc_ok (dgo_once s') u (opcs s' u)" for u
  proof (cases "u = t")
    case True
    then show ?thesis using s' t pc' by (auto simp: once_pc_ok_def)
  next
    case False
    then have "\<not> once_busy (opcs s u)" using busy by blast
    then show ?thesis using False ok [of u] s' t(2) by (auto simp: once_pc_ok_def once_busy_def split: once_pc.splits)
  qed
  moreover have "\<exists>u. opcs s' u = Once_wake" if "asleep (oq s') v" for v
  proof -
    have no_wake: "opcs s u \<noteq> Once_wake" for u using ok [of u] t(2) by (auto simp: once_pc_ok_def)
    then have "bit (dgo_once s) 0" using inv that s' unfolding once_inv_def by auto
    then have "opcs s' t = Once_wake" using pc' s' by simp
    then show ?thesis by blast
  qed
  ultimately show ?thesis by (simp add: once_inv_def)
qed

lemma once_step_inv:
  assumes U: "compare_and_wait U asleep" and step: "once_step U s s'" and inv: "once_inv asleep s"
    and alive: "\<not> once_crashes s'"
  shows "once_inv asleep s'"
proof -
  note K = compare_and_waitD [OF U]
  have ok: "once_pc_ok (dgo_once s) t (opcs s t)" for t using inv by (simp add: once_inv_def)
  have no_crash: "opcs s' t \<noteq> Once_crashed" for t using alive by (simp add: once_crashes_def)
  from step show ?thesis
  proof (cases rule: once_step.cases)
    case (call t)
    show ?thesis unfolding call(1)
      by (rule once_inv_same [OF inv, where t = t and pc = "dispatch_once_f (dgo_once s)"])
        (use call in \<open>auto simp: once_move_def dispatch_once_f_def once_pc_ok_def once_busy_def\<close>)
  next
    case (tryenter t)
    show ?thesis
    proof (cases "dgo_once s = 0")
      case True
      then show ?thesis unfolding tryenter(1) using once_enter_gate [OF inv tryenter(2)]
        by (simp add: dispatch_once_gate_tryenter_def)
    next
      case False
      show ?thesis unfolding tryenter(1)
        by (rule once_inv_same [OF inv, where t = t and pc = Once_wait])
          (use tryenter False in \<open>auto simp: once_move_def dispatch_once_gate_tryenter_def once_pc_ok_def once_busy_def
             Let_def\<close>)
    qed
  next
    case (callout_returns t)
    have pc: "once_pc_ok (dgo_once s) t Once_callout" using ok [of t] callout_returns by simp
    then have g: "gate_of (dgo_once s) t" "dgo_once s \<noteq> DLOCK_ONCE_DONE" "dgo_once s \<noteq> 0"
      using gate_not_zero by (auto simp: once_pc_ok_def)
    have other: "opcs s' u = opcs s u" if "u \<noteq> t" for u using that callout_returns(1) by simp
    have "once_pc_ok (dgo_once s') u (opcs s' u)" for u
      using ok [of u] pc callout_returns(1) by (auto simp: once_pc_ok_def)
    moreover have "once_phase s'" using inv g callout_returns(1)
      by (auto simp: once_phase_def once_inv_def once_busy_def)
    moreover have "opcs s u \<noteq> Once_wake" for u using ok [of u] g by (auto simp: once_pc_ok_def)
    then have "asleep (oq s) u \<Longrightarrow> bit (dgo_once s) 0 \<and> dgo_once s \<noteq> DLOCK_ONCE_DONE" for u
      using inv unfolding once_inv_def by blast
    ultimately show ?thesis using callout_returns(1) unfolding once_inv_def by auto
  next
    case (broadcast t)
    have "dispatch_lock_is_locked_by (ucast (dgo_once s)) t"
      using ok [of t] broadcast gate_locked_by by (simp add: once_pc_ok_def)
    then show ?thesis unfolding broadcast(1) using enter_no_waiter
      by (intro once_open_gate [OF inv broadcast(3)]) (auto simp: once_move_def dispatch_once_gate_broadcast_def split: if_splits)
  next
    case (wake t rc)
    have d: "dgo_once s = DLOCK_ONCE_DONE" using ok [of t] wake by (simp add: once_pc_ok_def)
    have "dlock_wake rc \<noteq> Answer_crash" using no_crash [of t] unfolding wake(1) by (auto simp: once_move_def)
    then show ?thesis unfolding wake(1) using wake d K(3)
      by (intro once_inv_same [OF inv, where t = t and pc = Once_returned])
        (auto simp: once_move_def once_pc_ok_def once_busy_def)
  next
    case (wait t)
    have nz: "dgo_once s \<noteq> 0" using ok [of t] wait by (simp add: once_pc_ok_def)
    show ?thesis
    proof (cases "dgo_once s = DLOCK_ONCE_DONE")
      case True
      then show ?thesis unfolding wait(1) using wait
        by (intro once_inv_same [OF inv, where t = t and pc = Once_returned])
          (auto simp: once_move_def dispatch_once_wait_def once_pc_ok_def once_busy_def)
    next
      case False
      have "once_phase s" using inv by (simp add: once_inv_def)
      then obtain u where u: "gate_of (dgo_once s) u" using nz False by (auto simp: once_phase_def)
      have res: "dispatch_once_wait t (dgo_once s) = (dgo_once s OR 1, Once_kernel (ucast (dgo_once s OR 1)))"
      proof -
        have "snd (dispatch_once_wait t (dgo_once s)) \<noteq> Once_crashed"
          using no_crash [of t] unfolding wait(1) by (simp add: once_move_def)
        then show ?thesis using False by (simp add: dispatch_once_wait_def Let_def split: if_splits)
      qed
      show ?thesis unfolding wait(1) res
        by (rule once_inv_same [OF inv, where t = t and pc = "Once_kernel (ucast (dgo_once s OR 1))"])
          (use wait False nz waiter_gate [OF u] in
            \<open>auto simp: once_move_def once_pc_ok_def once_busy_def or_eq_0_iff\<close>)
    qed
  next
    case (kernel t v w)
    have v: "waiter_value v" using ok [of t] kernel by (simp add: once_pc_ok_def)
    show ?thesis unfolding kernel(1)
      by (rule once_inv_same [OF inv, where t = t and pc = "Once_kernel v"])
        (use kernel ok [of t] v waiter_not_done [of "dgo_once s"] K(1) [OF kernel(5)] in \<open>auto simp: once_busy_def fun_upd_idem\<close>)
  next
    case (kernel_returns t v rc w)
    have "once_woken v rc \<noteq> Once_crashed" using no_crash [of t] unfolding kernel_returns(1) by (simp add: once_move_def)
    then have "once_woken v rc = Once_kernel v \<or> once_woken v rc = Once_wait"
      by (auto simp: once_woken_def split: kernel_answer.splits)
    then show ?thesis unfolding kernel_returns(1) using kernel_returns ok [of t] K(2) [OF kernel_returns(5)]
      by (intro once_inv_same [OF inv, where t = t and pc = "once_woken v rc"])
        (auto simp: once_move_def once_pc_ok_def once_busy_def)
  next
    case (recursive t)
    have "gate_of (dgo_once s) t" "dgo_once s \<noteq> DLOCK_ONCE_DONE" using ok [of t] recursive by (auto simp: once_pc_ok_def)
    then have "opcs s' t = Once_crashed" unfolding recursive(1)
      by (simp add: once_move_def dispatch_once_wait_def gate_of_def locked_by_iff same_owner_def lock_value_bit)
    then show ?thesis using no_crash by blast
  qed
qed

definition once_sound :: "'w ulock \<Rightarrow> ('w \<Rightarrow> dispatch_tid \<Rightarrow> bool) \<Rightarrow> 'w once_sys \<Rightarrow> bool" where
  "once_sound U asleep s \<longleftrightarrow> (compare_and_wait U asleep \<and> \<not> once_crashes s \<longrightarrow> once_inv asleep s)"

interpretation once: invariant_system "once_init asleep" "once_run U" "once_sound U asleep" for U asleep
proof
  fix s :: "'a once_sys" assume "once_init asleep s"
  then show "once_sound U asleep s"
    by (simp add: once_sound_def once_init_def once_inv_def once_pc_ok_def once_phase_def)
next
  fix s s' assume "once_run U s s'" "once_sound U asleep s"
  then show "once_sound U asleep s'" using once_step_inv by (auto simp: once_sound_def once_run_def)
qed

end
