(* ===== verification/Thread_Event.thy ===== *)
theory Thread_Event
  imports Lock_Word
begin

text \<open>
  Thread events of \<open>src/shims/lock.h\<close>: one thread waits once, another signals once. The word
  is 0 at first and at the end, 1 when it is signalled before it is waited on, and all ones when it
  is waited on before it is signalled.
\<close>

section \<open>Operations\<close>

type_synonym dispatch_thread_event_s = u32

abbreviation (input) DTE_WAITED :: u32 where "DTE_WAITED \<equiv> 0xffffffff"

datatype event_wait_pc = Event_unwaited | Event_load | Event_ulock | Event_asleep | Event_returned | Event_corrupt

datatype event_signal_pc = Event_unsignalled | Event_wake | Event_signalled | Event_wake_failed

definition dispatch_thread_event_init :: dispatch_thread_event_s where
  "dispatch_thread_event_init = 0"

definition dispatch_thread_event_signal :: "u32 \<Rightarrow> u32 \<times> event_signal_pc" where
  "dispatch_thread_event_signal dte_value =
     (dte_value + 1, if dte_value = 0 then Event_signalled else Event_wake)"

definition dispatch_thread_event_signal_slow :: "int \<Rightarrow> event_signal_pc" where
  "dispatch_thread_event_signal_slow rc =
     (case dlock_wake rc of Answer_crash \<Rightarrow> Event_wake_failed | _ \<Rightarrow> Event_signalled)"

definition dispatch_thread_event_wait :: "u32 \<Rightarrow> u32 \<times> event_wait_pc" where
  "dispatch_thread_event_wait dte_value =
     (let v = dte_value - 1 in (v, if v = 0 then Event_returned else Event_load))"

text \<open>The load at the head of the loop of \<open>_dispatch_thread_event_wait_slow\<close>, and its end.\<close>

definition dispatch_thread_event_wait_slow :: "u32 \<Rightarrow> event_wait_pc" where
  "dispatch_thread_event_wait_slow value =
     (if value = 0 then Event_returned
      else if value \<noteq> DTE_WAITED then Event_corrupt
      else Event_ulock)"

definition thread_event_woken :: "int \<Rightarrow> event_wait_pc" where
  "thread_event_woken rc =
     (case dlock_wait 0 rc of Call_again \<Rightarrow> Event_ulock | Answer_crash \<Rightarrow> Event_corrupt | Answer r \<Rightarrow> Event_load)"

section \<open>The system\<close>

text \<open>The kernel as for the other locks, with the operation that wakes one thread.\<close>

record 'w ulock_one = "'w ulock" +
  ul_wake_one :: "'w \<Rightarrow> 'w \<Rightarrow> bool"

definition wakes_one :: "('w, 'x) ulock_one_scheme \<Rightarrow> ('w \<Rightarrow> dispatch_tid \<Rightarrow> bool) \<Rightarrow> bool" where
  "wakes_one U asleep \<longleftrightarrow> compare_and_wait (ulock.truncate U) asleep \<and>
     (\<forall>w w' t. ul_wake_one U w w' \<longrightarrow> (\<forall>u. asleep w u \<longrightarrow> u = t) \<longrightarrow> \<not> asleep w' t) \<and>
     (\<forall>w w' t. ul_wake_one U w w' \<longrightarrow> asleep w' t \<longrightarrow> asleep w t)"

record 'w event_sys =
  dte_value :: u32
  ewaiter :: event_wait_pc
  esignaler :: event_signal_pc
  eq_kernel :: 'w

inductive event_step :: "('w, 'x) ulock_one_scheme \<Rightarrow> dispatch_tid \<Rightarrow> 'w event_sys \<Rightarrow> 'w event_sys \<Rightarrow> bool" for U t where
  signal: "esignaler s = Event_unsignalled \<Longrightarrow> dispatch_thread_event_signal (dte_value s) = (v, pc) \<Longrightarrow>
    event_step U t s (s\<lparr>dte_value := v, esignaler := pc\<rparr>)"
| signal_slow: "esignaler s = Event_wake \<Longrightarrow> ul_wake_one U (eq_kernel s) w \<Longrightarrow>
    event_step U t s (s\<lparr>esignaler := dispatch_thread_event_signal_slow rc, eq_kernel := w\<rparr>)"
| wait: "ewaiter s = Event_unwaited \<Longrightarrow> dispatch_thread_event_wait (dte_value s) = (v, pc) \<Longrightarrow>
    event_step U t s (s\<lparr>dte_value := v, ewaiter := pc\<rparr>)"
| wait_load: "ewaiter s = Event_load \<Longrightarrow>
    event_step U t s (s\<lparr>ewaiter := dispatch_thread_event_wait_slow (dte_value s)\<rparr>)"
| wait_kernel: "ewaiter s = Event_ulock \<Longrightarrow> ul_wait U (eq_kernel s) t (dte_value s = DTE_WAITED) w \<Longrightarrow>
    event_step U t s (s\<lparr>ewaiter := Event_asleep, eq_kernel := w\<rparr>)"
| wait_returns: "ewaiter s = Event_asleep \<Longrightarrow> ul_return U (eq_kernel s) t rc w \<Longrightarrow>
    event_step U t s (s\<lparr>ewaiter := thread_event_woken rc, eq_kernel := w\<rparr>)"

definition event_init :: "('w \<Rightarrow> dispatch_tid \<Rightarrow> bool) \<Rightarrow> 'w event_sys \<Rightarrow> bool" where
  "event_init asleep s \<longleftrightarrow> dte_value s = dispatch_thread_event_init \<and> ewaiter s = Event_unwaited \<and>
     esignaler s = Event_unsignalled \<and> (\<forall>u. \<not> asleep (eq_kernel s) u)"

definition event_crashes :: "'w event_sys \<Rightarrow> bool" where
  "event_crashes s \<longleftrightarrow> ewaiter s = Event_corrupt \<or> esignaler s = Event_wake_failed"

definition event_run :: "('w, 'x) ulock_one_scheme \<Rightarrow> dispatch_tid \<Rightarrow> 'w event_sys \<Rightarrow> 'w event_sys \<Rightarrow> bool" where
  "event_run U t s s' \<longleftrightarrow> \<not> event_crashes s \<and> event_step U t s s'"

section \<open>Invariant\<close>

definition event_value :: "event_wait_pc \<Rightarrow> event_signal_pc \<Rightarrow> u32 option" where
  "event_value w sg =
     (case (w, sg) of
        (Event_unwaited, Event_unsignalled) \<Rightarrow> Some 0
      | (Event_unwaited, Event_signalled) \<Rightarrow> Some 1
      | (Event_unwaited, _) \<Rightarrow> None
      | (Event_returned, Event_unsignalled) \<Rightarrow> None
      | (_, Event_unsignalled) \<Rightarrow> Some DTE_WAITED
      | (_, _) \<Rightarrow> Some 0)"

definition event_inv :: "dispatch_tid \<Rightarrow> ('w \<Rightarrow> dispatch_tid \<Rightarrow> bool) \<Rightarrow> 'w event_sys \<Rightarrow> bool" where
  "event_inv t asleep s \<longleftrightarrow>
     event_value (ewaiter s) (esignaler s) = Some (dte_value s) \<and>
     (\<forall>u. asleep (eq_kernel s) u \<longrightarrow> u = t \<and> ewaiter s = Event_asleep \<and> esignaler s \<in> {Event_unsignalled, Event_wake})"

lemma event_step_inv:
  assumes U: "wakes_one U asleep" and step: "event_step U t s s'" and inv: "event_inv t asleep s"
    and alive: "\<not> event_crashes s'"
  shows "event_inv t asleep s'"
proof -
  have K: "compare_and_wait (ulock.truncate U) asleep" using U by (simp add: wakes_one_def)
  have W: "ul_wait U w t e w' \<Longrightarrow> asleep w' u \<Longrightarrow> asleep w u \<or> u = t \<and> e"
    and R: "ul_return U w t rc w' \<Longrightarrow> asleep w' u \<Longrightarrow> asleep w u \<and> u \<noteq> t" for w e w' u rc
    using compare_and_waitD(1,2) [OF K] by (simp_all add: ulock.truncate_def)
  from step show ?thesis
  proof (cases rule: event_step.cases)
    case (signal v pc)
    then show ?thesis using inv
      by (auto simp: event_inv_def event_value_def dispatch_thread_event_signal_def split: event_wait_pc.splits if_splits)
  next
    case (signal_slow w rc)
    have "\<not> asleep w u" for u using U inv signal_slow unfolding wakes_one_def event_inv_def by metis
    moreover have "dispatch_thread_event_signal_slow rc = Event_signalled"
      using alive signal_slow by (auto simp: event_crashes_def dispatch_thread_event_signal_slow_def split: kernel_answer.splits)
    ultimately show ?thesis using inv signal_slow
      by (auto simp: event_inv_def event_value_def split: event_wait_pc.splits)
  next
    case (wait v pc)
    then show ?thesis using inv
      by (auto simp: event_inv_def event_value_def dispatch_thread_event_wait_def Let_def split: event_signal_pc.splits if_splits)
  next
    case wait_load
    then show ?thesis using inv
      by (auto simp: event_inv_def event_value_def dispatch_thread_event_wait_slow_def split: event_signal_pc.splits)
  next
    case (wait_kernel w)
    then show ?thesis using inv W [OF wait_kernel(3)]
      by (auto simp: event_inv_def event_value_def split: event_signal_pc.splits)
  next
    case (wait_returns rc w)
    have "thread_event_woken rc = Event_load \<or> thread_event_woken rc = Event_ulock"
      using alive wait_returns by (auto simp: event_crashes_def thread_event_woken_def split: kernel_answer.splits)
    then show ?thesis using wait_returns inv R [OF wait_returns(3)]
      by (auto simp: event_inv_def event_value_def split: event_signal_pc.splits)
  qed
qed

definition event_sound where
  "event_sound U t asleep s \<longleftrightarrow> (wakes_one U asleep \<and> \<not> event_crashes s \<longrightarrow> event_inv t asleep s)"

interpretation event: invariant_system "event_init asleep" "event_run U t" "event_sound U t asleep" for U t asleep
proof
  fix s :: "'a event_sys" assume "event_init asleep s"
  then show "event_sound U t asleep s"
    by (simp add: event_sound_def event_init_def event_inv_def event_value_def dispatch_thread_event_init_def)
next
  fix s s' assume "event_run U t s s'" "event_sound U t asleep s"
  then show "event_sound U t asleep s'" using event_step_inv by (auto simp: event_sound_def event_run_def)
qed

end
