(* ===== verification/Lock_Properties.thy ===== *)
theory Lock_Properties
  imports Unfair_Lock Once Thread_Event
begin

text \<open>
  What the unfair lock, \<open>dispatch_once\<close> and thread events promise over every interleaving of any number of
  threads.
\<close>

section \<open>Unfair lock\<close>

text \<open>C24: Mutual exclusion of the unfair lock: whatever locks, try-locks, waits, try-unlocks and
  unlocks have run, two threads that hold the lock are the same thread; the lock word then names
  that thread as its owner, and while nobody holds the lock the word has no owner, so the next
  lock or try-lock takes it.\<close>

theorem unfair_lock_excludes:
  assumes "reach lock_init lock_run s" "\<not> lock_crashes s"
  shows "(\<forall>t u. lpcs s t = Lock_held \<and> lpcs s u = Lock_held \<longrightarrow> t = u) \<and>
    (\<forall>t. lpcs s t = Lock_held \<longrightarrow> dispatch_lock_is_locked_by (dul_lock s) t) \<and>
    ((\<forall>t. lpcs s t \<noteq> Lock_held) \<longrightarrow>
      (\<forall>t. snd (snd (dispatch_unfair_lock_trylock t (dul_lock s))) \<and> \<not> dispatch_lock_is_locked (dul_lock s)))"
proof -
  have inv: "lock_inv s" using unfair.inv_reach [OF assms(1)] assms(2) by blast
  have free: "\<not> dispatch_lock_is_locked (dul_lock s)" if "\<forall>t. lpcs s t \<noteq> Lock_held"
    using inv that by (auto simp: lock_inv_def)
  show ?thesis
    using lock_owner_unique [OF inv] inv free by (auto simp: lock_inv_def locked_by_iff dispatch_unfair_lock_trylock_def Let_def)
qed

definition lock_start :: lock_sys where
  "lock_start = \<lparr>dul_lock = 0, lpcs = (\<lambda>_. Lock_idle)\<rparr>"

definition lock_taken :: "dispatch_tid \<Rightarrow> lock_sys" where
  "lock_taken t = lock_move lock_start t (dispatch_unfair_lock_lock t 0)"

lemma thread_port_7: "thread_port 7"
  by (simp add: thread_port_def)

lemma lock_taken_reach: "thread_port t \<Longrightarrow> reach lock_init lock_run (lock_taken t)"
  unfolding lock_taken_def
  by (rule reach_step [of _ _ lock_start], rule reach_init)
    (use lock_step.lock [of t lock_start] in
      \<open>auto simp: lock_init_def lock_start_def lock_run_def lock_crashes_def\<close>)

theorem unfair_lock_excludes_witness:
  "lpcs (lock_taken 7) 7 = Lock_held \<and> dispatch_lock_is_locked_by (dul_lock (lock_taken 7)) 7 \<and>
   {u. lpcs (lock_taken 7) u = Lock_held} = {7}"
proof -
  have held: "lpcs (lock_taken 7) 7 = Lock_held"
    by (simp add: lock_taken_def lock_move_def dispatch_unfair_lock_lock_def)
  have "\<not> lock_crashes (lock_taken 7)"
    by (auto simp: lock_crashes_def lock_taken_def lock_move_def lock_start_def dispatch_unfair_lock_lock_def)
  from unfair_lock_excludes [OF lock_taken_reach [OF thread_port_7] this] held show ?thesis by blast
qed

section \<open>Once\<close>

text \<open>C25: \<open>dispatch_once_f\<close> runs its function exactly once: it is never started twice, a
  call that returns does so after the function has returned, so that a caller always sees its effects,
  and at most one thread is inside the function.\<close>

theorem once_exactly_once:
  assumes "compare_and_wait U asleep" "reach (once_init asleep) (once_run U) s" "\<not> once_crashes s"
  shows "runs s \<le> 1 \<and>
    (\<forall>t. opcs s t = Once_returned \<longrightarrow> runs s = 1 \<and> finished s) \<and>
    (\<forall>t u. opcs s t = Once_callout \<and> opcs s u = Once_callout \<longrightarrow> t = u) \<and>
    (\<forall>t. opcs s t = Once_callout \<longrightarrow> runs s = 1 \<and> \<not> finished s)"
proof -
  have inv: "once_inv asleep s" using once.inv_reach [OF assms(2)] assms(1,3) by (simp add: once_sound_def)
  have ok: "once_pc_ok (dgo_once s) t (opcs s t)" for t using inv by (simp add: once_inv_def)
  have phase: "once_phase s" using inv by (simp add: once_inv_def)
  have only: "t = u" if "opcs s t = Once_callout" "once_busy (opcs s u)" for t u
    using once_owner_unique [OF inv that(2), of t] ok [of t] that(1) by (simp add: once_pc_ok_def)
  have "runs s = 1 \<and> \<not> finished s" if c: "opcs s t = Once_callout" for t
  proof -
    have "dgo_once s \<noteq> 0" "dgo_once s \<noteq> DLOCK_ONCE_DONE" using ok [of t] c gate_not_zero by (auto simp: once_pc_ok_def)
    then show ?thesis using phase only [OF c] c by (auto simp: once_phase_def)
  qed
  moreover have "runs s = 1 \<and> finished s" if "opcs s t = Once_returned" for t
    using ok [of t] phase that by (simp add: once_pc_ok_def once_phase_def)
  moreover have "runs s \<le> 1" using phase by (auto simp: once_phase_def split: if_splits)
  moreover have "t = u" if "opcs s t = Once_callout" "opcs s u = Once_callout" for t u
    using only that by (simp add: once_busy_def)
  ultimately show ?thesis by blast
qed

definition once_start :: "dispatch_tid set once_sys" where
  "once_start = \<lparr>dgo_once = 0, opcs = (\<lambda>_. Once_idle), oq = {}, in_call = (\<lambda>_. False), runs = 0, finished = False\<rparr>"

definition once_entered :: "dispatch_tid set once_sys" where
  "once_entered = once_move once_start 7 (0, dispatch_once_f 0)"

definition once_running :: "dispatch_tid set once_sys" where
  "once_running = once_move once_entered 7 (dispatch_once_gate_tryenter 7 0)"

lemma once_running_pc: "opcs once_running 7 = Once_callout" "\<not> once_crashes once_running"
  by (auto simp: once_running_def once_entered_def once_start_def once_move_def dispatch_once_f_def
    dispatch_once_gate_tryenter_def once_crashes_def)

lemma once_running_reach: "reach (once_init (\<lambda>w t. t \<in> w)) (once_run set_ulock) once_running"
  unfolding once_running_def
proof (rule reach_step)
  show "reach (once_init (\<lambda>w t. t \<in> w)) (once_run set_ulock) once_entered"
    unfolding once_entered_def
    by (rule reach_step [of _ _ once_start], rule reach_init)
      (use once_step.call [OF thread_port_7, of once_start set_ulock] in
        \<open>auto simp: once_init_def once_start_def once_run_def once_crashes_def\<close>)
  show "once_run set_ulock once_entered (once_move once_entered 7 (dispatch_once_gate_tryenter 7 0))"
    using once_step.tryenter [OF thread_port_7, of once_entered set_ulock]
    by (auto simp: once_entered_def once_start_def once_run_def once_crashes_def once_move_def dispatch_once_f_def)
qed

theorem once_exactly_once_witness:
  "runs once_running = 1 \<and> \<not> finished once_running \<and> (\<forall>t. opcs once_running t \<noteq> Once_returned)"
  using once_exactly_once [OF set_ulock_waits once_running_reach once_running_pc(2)] once_running_pc(1) by blast

text \<open>C26: No wakeup of \<open>dispatch_once\<close> is lost: when the function has run and no wakeup is on
  its way, no thread sleeps in the kernel, and each that called it can return and then leave
  \<open>_dispatch_once_wait\<close>; and a thread that calls with the same predicate from inside its
  own function crashes rather than waits for itself.\<close>

theorem once_waiters_return:
  assumes "compare_and_wait U asleep" "reach (once_init asleep) (once_run U) s" "\<not> once_crashes s"
  shows "(dgo_once s = DLOCK_ONCE_DONE \<and> (\<forall>u. opcs s u \<noteq> Once_wake) \<longrightarrow>
      (\<forall>t. \<not> asleep (oq s) t) \<and>
      (\<forall>t v. opcs s t = Once_kernel v \<and> in_call s t \<longrightarrow>
        (\<exists>s'. once_run U s s' \<and> opcs s' t = Once_wait \<and> dgo_once s' = dgo_once s)) \<and>
      (\<forall>t. opcs s t = Once_wait \<longrightarrow> snd (dispatch_once_wait t (dgo_once s)) = Once_returned)) \<and>
    (\<forall>t. opcs s t = Once_callout \<longrightarrow> snd (dispatch_once_wait t (dgo_once s)) = Once_crashed)"
proof -
  have inv: "once_inv asleep s" using once.inv_reach [OF assms(2)] assms(1,3) by (simp add: once_sound_def)
  have ok: "once_pc_ok (dgo_once s) t (opcs s t)" for t using inv by (simp add: once_inv_def)
  have awake: "\<not> asleep (oq s) t" if "dgo_once s = DLOCK_ONCE_DONE" "\<forall>u. opcs s u \<noteq> Once_wake" for t
    using inv that by (auto simp: once_inv_def)
  have comes_back: "\<exists>s'. once_run U s s' \<and> opcs s' t = Once_wait \<and> dgo_once s' = dgo_once s"
    if pc: "opcs s t = Once_kernel v" "in_call s t" and up: "\<not> asleep (oq s) t" for t v
  proof -
    obtain w where "ul_return U (oq s) t 0 w" using compare_and_waitD(4) [OF assms(1) up] by blast
    moreover have "thread_port t" using ok [of t] pc(1) by (simp add: once_pc_ok_def)
    ultimately have step: "once_step U s ((once_move s t (dgo_once s, once_woken v 0))\<lparr>oq := w, in_call := (in_call s)(t := False)\<rparr>)"
      by (intro once_step.kernel_returns pc)
    then have "once_run U s ((once_move s t (dgo_once s, once_woken v 0))\<lparr>oq := w, in_call := (in_call s)(t := False)\<rparr>)"
      using assms(3) by (simp add: once_run_def)
    moreover have "once_woken v 0 = Once_wait" by (simp add: once_woken_def dlock_wait_def)
    ultimately show ?thesis by (intro exI conjI) (assumption, simp_all add: once_move_def)
  qed
  have "snd (dispatch_once_wait t (dgo_once s)) = Once_crashed" if "opcs s t = Once_callout" for t
    using ok [of t] that by (auto simp: once_pc_ok_def dispatch_once_wait_def Let_def gate_of_def
      locked_by_iff same_owner_def lock_value_bit)
  then show ?thesis using awake comes_back by (auto simp: dispatch_once_wait_def)
qed

theorem once_waiters_return_witness:
  "snd (dispatch_once_wait 7 (dgo_once once_running)) = Once_crashed"
  using once_waiters_return [OF set_ulock_waits once_running_reach once_running_pc(2)] once_running_pc(1) by blast

section \<open>Thread events\<close>

text \<open>C27: A thread event delivers its one signal: the wait returns only when the event has been
  signalled and the word is then back to its initial value, so that it can be used again; the word a
  waiter reads is never corrupt; and once the signal has been sent the waiter is not asleep: it
  returns from the kernel, reads 0 and leaves.\<close>

theorem thread_event_delivers:
  assumes "wakes_one U asleep" "reach (event_init asleep) (event_run U t) s" "\<not> event_crashes s"
  shows "(ewaiter s = Event_returned \<longrightarrow> esignaler s \<noteq> Event_unsignalled \<and> dte_value s = dispatch_thread_event_init) \<and>
    (ewaiter s = Event_load \<longrightarrow> dispatch_thread_event_wait_slow (dte_value s) \<noteq> Event_corrupt) \<and>
    (esignaler s = Event_signalled \<longrightarrow> \<not> asleep (eq_kernel s) t \<and>
      (ewaiter s = Event_asleep \<longrightarrow> (\<exists>s'. event_run U t s s' \<and> ewaiter s' = Event_load \<and> esignaler s' = Event_signalled)) \<and>
      (ewaiter s = Event_load \<longrightarrow> dispatch_thread_event_wait_slow (dte_value s) = Event_returned))"
proof -
  have inv: "event_inv t asleep s" using event.inv_reach [OF assms(2)] assms(1,3) by (simp add: event_sound_def)
  have val: "event_value (ewaiter s) (esignaler s) = Some (dte_value s)" using inv by (simp add: event_inv_def)
  have awake: "\<not> asleep (eq_kernel s) t" if "esignaler s = Event_signalled" using inv that by (auto simp: event_inv_def)
  have comes_back: "\<exists>s'. event_run U t s s' \<and> ewaiter s' = Event_load \<and> esignaler s' = Event_signalled"
    if sig: "esignaler s = Event_signalled" and w: "ewaiter s = Event_asleep"
  proof -
    have "\<exists>w'. ul_return U (eq_kernel s) t 0 w'"
      using compare_and_waitD(4) [of "ulock.truncate U" asleep] assms(1) awake [OF sig]
      by (simp add: wakes_one_def ulock.truncate_def)
    then obtain w' where "ul_return U (eq_kernel s) t 0 w'" by blast
    from event_step.wait_returns [OF w this]
    have "event_run U t s (s\<lparr>ewaiter := Event_load, eq_kernel := w'\<rparr>)"
      using assms(3) by (simp add: event_run_def thread_event_woken_def dlock_wait_def)
    then show ?thesis using sig by (intro exI conjI) (assumption, simp_all)
  qed
  show ?thesis using val awake comes_back
    by (auto simp: event_value_def dispatch_thread_event_wait_slow_def dispatch_thread_event_init_def
      split: event_signal_pc.splits)
qed

definition set_ulock_one :: "dispatch_tid set ulock_one" where
  "set_ulock_one = ulock.extend set_ulock \<lparr>ul_wake_one = (\<lambda>w w'. if w = {} then w' = {} else \<exists>u \<in> w. w' = w - {u})\<rparr>"

lemma set_ulock_one_wakes: "wakes_one set_ulock_one (\<lambda>w t. t \<in> w)"
  using set_ulock_waits
  by (auto simp: wakes_one_def set_ulock_one_def ulock.defs set_ulock_def compare_and_wait_def split: if_splits)

definition event_done :: "dispatch_tid set event_sys" where
  "event_done = \<lparr>dte_value = 0, ewaiter = Event_returned, esignaler = Event_signalled, eq_kernel = {}\<rparr>"

lemma event_done_reach: "reach (event_init (\<lambda>w t. t \<in> w)) (event_run set_ulock_one 7) event_done"
proof (rule reach_step, rule reach_step, rule reach_init)
  show "event_init (\<lambda>w t. t \<in> w) (event_done\<lparr>ewaiter := Event_unwaited, esignaler := Event_unsignalled\<rparr>)"
    by (simp add: event_init_def event_done_def dispatch_thread_event_init_def)
  show "event_run set_ulock_one 7 (event_done\<lparr>ewaiter := Event_unwaited, esignaler := Event_unsignalled\<rparr>)
      (event_done\<lparr>dte_value := 1, ewaiter := Event_unwaited\<rparr>)"
    using event_step.signal [of "event_done\<lparr>ewaiter := Event_unwaited, esignaler := Event_unsignalled\<rparr>" 1 Event_signalled set_ulock_one 7]
    by (simp add: event_run_def event_crashes_def event_done_def dispatch_thread_event_signal_def)
  show "event_run set_ulock_one 7 (event_done\<lparr>dte_value := 1, ewaiter := Event_unwaited\<rparr>) event_done"
    using event_step.wait [of "event_done\<lparr>dte_value := 1, ewaiter := Event_unwaited\<rparr>" 0 Event_returned set_ulock_one 7]
    by (simp add: event_run_def event_crashes_def event_done_def dispatch_thread_event_wait_def Let_def)
qed

theorem thread_event_delivers_witness:
  "ewaiter event_done = Event_returned \<and> esignaler event_done \<noteq> Event_unsignalled \<and>
   dte_value event_done = dispatch_thread_event_init \<and> \<not> 7 \<in> eq_kernel event_done"
proof -
  have "\<not> event_crashes event_done" by (simp add: event_crashes_def event_done_def)
  from thread_event_delivers [OF set_ulock_one_wakes event_done_reach this]
  show ?thesis by (simp add: event_done_def)
qed

end
