(* ===== verification/Queue_State.thy ===== *)
theory Queue_State
  imports Lock_Word
begin

text \<open>
  The state word \<open>dq_state\<close> of a lane (\<open>src/queue_internal.h\<close>): suspend count,
  activation state, width in use, pending barrier, role, QoS and the drain lock in 64 bits, and
  the functions of \<open>src/inline_internal.h\<close> that read it.
\<close>

section \<open>Fields\<close>

definition DISPATCH_QUEUE_SUSPEND_INTERVAL :: u64 where "DISPATCH_QUEUE_SUSPEND_INTERVAL = 0x0400000000000000"
definition DISPATCH_QUEUE_SUSPEND_HALF :: u32 where "DISPATCH_QUEUE_SUSPEND_HALF = 0x20"
definition DISPATCH_QUEUE_HAS_SIDE_SUSPEND_CNT :: u64 where "DISPATCH_QUEUE_HAS_SIDE_SUSPEND_CNT = 0x0200000000000000"
definition DISPATCH_QUEUE_INACTIVE :: u64 where "DISPATCH_QUEUE_INACTIVE = 0x0180000000000000"
definition DISPATCH_QUEUE_ACTIVATED :: u64 where "DISPATCH_QUEUE_ACTIVATED = 0x0100000000000000"
definition DISPATCH_QUEUE_ACTIVATING :: u64 where "DISPATCH_QUEUE_ACTIVATING = 0x0080000000000000"
definition DISPATCH_QUEUE_INACTIVE_BITS_MASK :: u64 where "DISPATCH_QUEUE_INACTIVE_BITS_MASK = 0x0180000000000000"
definition DISPATCH_QUEUE_SUSPEND_BITS_MASK :: u64 where "DISPATCH_QUEUE_SUSPEND_BITS_MASK = 0xff80000000000000"
definition DISPATCH_QUEUE_IN_BARRIER :: u64 where "DISPATCH_QUEUE_IN_BARRIER = 0x0040000000000000"
definition DISPATCH_QUEUE_WIDTH_FULL_BIT :: u64 where "DISPATCH_QUEUE_WIDTH_FULL_BIT = 0x0020000000000000"
definition DISPATCH_QUEUE_WIDTH_FULL :: u64 where "DISPATCH_QUEUE_WIDTH_FULL = 0x1000"
definition DISPATCH_QUEUE_WIDTH_INTERVAL :: u64 where "DISPATCH_QUEUE_WIDTH_INTERVAL = 0x0000020000000000"
definition DISPATCH_QUEUE_WIDTH_MASK :: u64 where "DISPATCH_QUEUE_WIDTH_MASK = 0x003ffe0000000000"
definition DISPATCH_QUEUE_PENDING_BARRIER :: u64 where "DISPATCH_QUEUE_PENDING_BARRIER = 0x0000010000000000"
definition DISPATCH_QUEUE_DIRTY :: u64 where "DISPATCH_QUEUE_DIRTY = 0x0000008000000000"
definition DISPATCH_QUEUE_ENQUEUED_ON_MGR :: u64 where "DISPATCH_QUEUE_ENQUEUED_ON_MGR = 0x0000004000000000"
definition DISPATCH_QUEUE_ROLE_MASK :: u64 where "DISPATCH_QUEUE_ROLE_MASK = 0x0000003000000000"
definition DISPATCH_QUEUE_ROLE_BASE_WLH :: u64 where "DISPATCH_QUEUE_ROLE_BASE_WLH = 0x0000002000000000"
definition DISPATCH_QUEUE_ROLE_BASE_ANON :: u64 where "DISPATCH_QUEUE_ROLE_BASE_ANON = 0x0000001000000000"
definition DISPATCH_QUEUE_ROLE_INNER :: u64 where "DISPATCH_QUEUE_ROLE_INNER = 0x0000000000000000"
definition DISPATCH_QUEUE_RECEIVED_OVERRIDE :: u64 where "DISPATCH_QUEUE_RECEIVED_OVERRIDE = 0x0000000800000000"
definition DISPATCH_QUEUE_RECEIVED_SYNC_WAIT :: u64 where "DISPATCH_QUEUE_RECEIVED_SYNC_WAIT = 0x0000000800000000"
definition DISPATCH_QUEUE_MAX_QOS_MASK :: u64 where "DISPATCH_QUEUE_MAX_QOS_MASK = 0x0000000700000000"
definition DISPATCH_QUEUE_DRAIN_OWNER_MASK :: u64 where "DISPATCH_QUEUE_DRAIN_OWNER_MASK = 0xfffffffc"
definition DISPATCH_QUEUE_UNCONTENDED_SYNC :: u64 where "DISPATCH_QUEUE_UNCONTENDED_SYNC = 0x2"
definition DISPATCH_QUEUE_ENQUEUED :: u64 where "DISPATCH_QUEUE_ENQUEUED = 0x1"

abbreviation (input) DISPATCH_QUEUE_WIDTH_SHIFT :: nat where "DISPATCH_QUEUE_WIDTH_SHIFT \<equiv> 41"
abbreviation (input) DISPATCH_QUEUE_MAX_QOS_SHIFT :: nat where "DISPATCH_QUEUE_MAX_QOS_SHIFT \<equiv> 32"
abbreviation (input) DISPATCH_QUEUE_WIDTH_MAX :: u16 where "DISPATCH_QUEUE_WIDTH_MAX \<equiv> 0xffe"

definition DISPATCH_QUEUE_DRAIN_PRESERVED_BITS_MASK :: u64 where
  "DISPATCH_QUEUE_DRAIN_PRESERVED_BITS_MASK =
     DISPATCH_QUEUE_ENQUEUED_ON_MGR OR DISPATCH_QUEUE_ENQUEUED OR
     DISPATCH_QUEUE_ROLE_MASK OR DISPATCH_QUEUE_MAX_QOS_MASK"

definition DISPATCH_QUEUE_DRAIN_UNLOCK_MASK :: u64 where
  "DISPATCH_QUEUE_DRAIN_UNLOCK_MASK =
     DISPATCH_QUEUE_DRAIN_OWNER_MASK OR DISPATCH_QUEUE_RECEIVED_OVERRIDE OR
     DISPATCH_QUEUE_RECEIVED_SYNC_WAIT OR DISPATCH_QUEUE_UNCONTENDED_SYNC"

definition DISPATCH_QUEUE_STATE_INIT_VALUE :: "u16 \<Rightarrow> u64" where
  "DISPATCH_QUEUE_STATE_INIT_VALUE width =
     push_bit DISPATCH_QUEUE_WIDTH_SHIFT (DISPATCH_QUEUE_WIDTH_FULL - ucast width)"

definition DISPATCH_QUEUE_SERIAL_DRAIN_OWNED :: u64 where
  "DISPATCH_QUEUE_SERIAL_DRAIN_OWNED = DISPATCH_QUEUE_IN_BARRIER OR DISPATCH_QUEUE_WIDTH_INTERVAL"

text \<open>\<open>test x m\<close> is the C test \<open>x & m\<close>.\<close>

definition test :: "'a::len word \<Rightarrow> 'a word \<Rightarrow> bool" where
  "test x m \<longleftrightarrow> x AND m \<noteq> 0"

section \<open>Reading the word\<close>

definition dq_state_suspend_cnt :: "u64 \<Rightarrow> u32" where
  "dq_state_suspend_cnt dq_state = ucast (dq_state div DISPATCH_QUEUE_SUSPEND_INTERVAL)"

definition dq_state_has_side_suspend_cnt :: "u64 \<Rightarrow> bool" where
  "dq_state_has_side_suspend_cnt dq_state \<longleftrightarrow> test dq_state DISPATCH_QUEUE_HAS_SIDE_SUSPEND_CNT"

definition dq_state_extract_width_bits :: "u64 \<Rightarrow> int" where
  "dq_state_extract_width_bits dq_state =
     uint (drop_bit DISPATCH_QUEUE_WIDTH_SHIFT (dq_state AND DISPATCH_QUEUE_WIDTH_MASK))"

definition dq_state_available_width :: "u64 \<Rightarrow> int" where
  "dq_state_available_width dq_state =
     (if \<not> test dq_state DISPATCH_QUEUE_WIDTH_FULL_BIT
      then uint DISPATCH_QUEUE_WIDTH_FULL - dq_state_extract_width_bits dq_state
      else 0)"

definition dq_state_has_pending_barrier :: "u64 \<Rightarrow> bool" where
  "dq_state_has_pending_barrier dq_state \<longleftrightarrow> test dq_state DISPATCH_QUEUE_PENDING_BARRIER"

definition dq_state_used_width :: "u64 \<Rightarrow> u16 \<Rightarrow> int" where
  "dq_state_used_width dq_state dq_width =
     (let full = uint DISPATCH_QUEUE_WIDTH_FULL; width = dq_state_extract_width_bits dq_state in
      if test dq_state DISPATCH_QUEUE_PENDING_BARRIER
      then width - (full - uint dq_width) - (uint dq_width - 1)
      else width - (full - uint dq_width))"

definition dq_state_is_suspended :: "u64 \<Rightarrow> bool" where
  "dq_state_is_suspended dq_state \<longleftrightarrow> test dq_state DISPATCH_QUEUE_SUSPEND_BITS_MASK"

definition dq_state_is_inactive :: "u64 \<Rightarrow> bool" where
  "dq_state_is_inactive dq_state \<longleftrightarrow> dq_state AND DISPATCH_QUEUE_INACTIVE_BITS_MASK = DISPATCH_QUEUE_INACTIVE"

definition dq_state_is_activated :: "u64 \<Rightarrow> bool" where
  "dq_state_is_activated dq_state \<longleftrightarrow> dq_state AND DISPATCH_QUEUE_INACTIVE_BITS_MASK = DISPATCH_QUEUE_ACTIVATED"

definition dq_state_is_activating :: "u64 \<Rightarrow> bool" where
  "dq_state_is_activating dq_state \<longleftrightarrow> dq_state AND DISPATCH_QUEUE_INACTIVE_BITS_MASK = DISPATCH_QUEUE_ACTIVATING"

definition dq_state_is_in_barrier :: "u64 \<Rightarrow> bool" where
  "dq_state_is_in_barrier dq_state \<longleftrightarrow> test dq_state DISPATCH_QUEUE_IN_BARRIER"

definition dq_state_is_dirty :: "u64 \<Rightarrow> bool" where
  "dq_state_is_dirty dq_state \<longleftrightarrow> test dq_state DISPATCH_QUEUE_DIRTY"

definition dq_state_is_base_wlh :: "u64 \<Rightarrow> bool" where
  "dq_state_is_base_wlh dq_state \<longleftrightarrow> test dq_state DISPATCH_QUEUE_ROLE_BASE_WLH"

definition dq_state_is_base_anon :: "u64 \<Rightarrow> bool" where
  "dq_state_is_base_anon dq_state \<longleftrightarrow> test dq_state DISPATCH_QUEUE_ROLE_BASE_ANON"

definition dq_state_is_enqueued :: "u64 \<Rightarrow> bool" where
  "dq_state_is_enqueued dq_state \<longleftrightarrow> test dq_state (DISPATCH_QUEUE_ENQUEUED OR DISPATCH_QUEUE_ENQUEUED_ON_MGR)"

definition dq_state_is_enqueued_on_target :: "u64 \<Rightarrow> bool" where
  "dq_state_is_enqueued_on_target dq_state \<longleftrightarrow> test dq_state DISPATCH_QUEUE_ENQUEUED"

definition dq_state_is_enqueued_on_manager :: "u64 \<Rightarrow> bool" where
  "dq_state_is_enqueued_on_manager dq_state \<longleftrightarrow> test dq_state DISPATCH_QUEUE_ENQUEUED_ON_MGR"

definition dq_state_in_uncontended_sync :: "u64 \<Rightarrow> bool" where
  "dq_state_in_uncontended_sync dq_state \<longleftrightarrow> test dq_state DISPATCH_QUEUE_UNCONTENDED_SYNC"

definition dq_state_received_override :: "u64 \<Rightarrow> bool" where
  "dq_state_received_override dq_state \<longleftrightarrow>
     dq_state_is_base_anon dq_state \<and> test dq_state DISPATCH_QUEUE_RECEIVED_OVERRIDE"

definition dq_state_needs_ensure_ownership :: "u64 \<Rightarrow> bool" where
  "dq_state_needs_ensure_ownership dq_state \<longleftrightarrow>
     dq_state_is_base_wlh dq_state \<and> dq_state_in_uncontended_sync dq_state \<and>
     test dq_state (DISPATCH_QUEUE_RECEIVED_SYNC_WAIT OR DISPATCH_QUEUE_ENQUEUED)"

definition dq_state_max_qos :: "u64 \<Rightarrow> u32" where
  "dq_state_max_qos dq_state = ucast (drop_bit DISPATCH_QUEUE_MAX_QOS_SHIFT (dq_state AND DISPATCH_QUEUE_MAX_QOS_MASK))"

definition dq_state_from_qos :: "u32 \<Rightarrow> u64" where
  "dq_state_from_qos qos = push_bit DISPATCH_QUEUE_MAX_QOS_SHIFT (ucast qos)"

definition dq_state_merge_qos :: "u64 \<Rightarrow> u32 \<Rightarrow> u64" where
  "dq_state_merge_qos dq_state qos =
     (let qos_bits = dq_state_from_qos qos in
      if dq_state AND DISPATCH_QUEUE_MAX_QOS_MASK < qos_bits
      then
        let dq_state = (dq_state AND NOT DISPATCH_QUEUE_MAX_QOS_MASK) OR qos_bits in
        if dq_state_is_base_anon dq_state then dq_state OR DISPATCH_QUEUE_RECEIVED_OVERRIDE else dq_state
      else dq_state)"

definition dq_state_drain_owner :: "u64 \<Rightarrow> dispatch_tid" where
  "dq_state_drain_owner dq_state = dispatch_lock_owner (ucast dq_state)"

definition dq_state_drain_locked_by :: "u64 \<Rightarrow> dispatch_tid \<Rightarrow> bool" where
  "dq_state_drain_locked_by dq_state tid \<longleftrightarrow> dispatch_lock_is_locked_by (ucast dq_state) tid"

definition dq_state_drain_locked :: "u64 \<Rightarrow> bool" where
  "dq_state_drain_locked dq_state \<longleftrightarrow> dispatch_lock_is_locked (ucast dq_state)"

definition dq_state_is_sync_runnable :: "u64 \<Rightarrow> bool" where
  "dq_state_is_sync_runnable dq_state \<longleftrightarrow> dq_state < DISPATCH_QUEUE_IN_BARRIER"

definition dq_state_is_runnable :: "u64 \<Rightarrow> bool" where
  "dq_state_is_runnable dq_state \<longleftrightarrow> dq_state < DISPATCH_QUEUE_WIDTH_FULL_BIT"

definition dq_state_should_override :: "u64 \<Rightarrow> bool" where
  "dq_state_should_override dq_state \<longleftrightarrow>
     (if dq_state_is_suspended dq_state \<or> dq_state_is_enqueued_on_manager dq_state then False
      else if dq_state_is_enqueued_on_target dq_state then True
      else dq_state_drain_locked dq_state)"

definition dq_state_should_override_for_waiter :: "u64 \<Rightarrow> bool" where
  "dq_state_should_override_for_waiter dq_state \<longleftrightarrow>
     (if dq_state_is_suspended dq_state \<or> dq_state_is_enqueued_on_manager dq_state then False
      else if dq_state_is_enqueued_on_target dq_state then True
      else if dq_state_is_base_wlh dq_state then False
      else dq_state_drain_locked dq_state)"

definition dq_state_needs_lock_override :: "u64 \<Rightarrow> u32 \<Rightarrow> bool" where
  "dq_state_needs_lock_override dq_state qos \<longleftrightarrow>
     dq_state_is_base_anon dq_state \<and> qos < dq_state_max_qos dq_state"

section \<open>Bits of the constants\<close>

named_theorems dq_bits \<open>bits of the constants of the state word\<close>

lemma bit_exp_u64: "bit (2 ^ k :: u64) n \<longleftrightarrow> n = k \<and> k < 64"
  by (auto simp: bit_exp_iff possible_bit_word)

lemma DQ_exp:
  "DISPATCH_QUEUE_SUSPEND_INTERVAL = 2 ^ 58"
  "DISPATCH_QUEUE_HAS_SIDE_SUSPEND_CNT = 2 ^ 57"
  "DISPATCH_QUEUE_ACTIVATED = 2 ^ 56"
  "DISPATCH_QUEUE_ACTIVATING = 2 ^ 55"
  "DISPATCH_QUEUE_IN_BARRIER = 2 ^ 54"
  "DISPATCH_QUEUE_WIDTH_FULL_BIT = 2 ^ 53"
  "DISPATCH_QUEUE_WIDTH_INTERVAL = 2 ^ 41"
  "DISPATCH_QUEUE_PENDING_BARRIER = 2 ^ 40"
  "DISPATCH_QUEUE_DIRTY = 2 ^ 39"
  "DISPATCH_QUEUE_ENQUEUED_ON_MGR = 2 ^ 38"
  "DISPATCH_QUEUE_ROLE_BASE_WLH = 2 ^ 37"
  "DISPATCH_QUEUE_ROLE_BASE_ANON = 2 ^ 36"
  "DISPATCH_QUEUE_RECEIVED_OVERRIDE = 2 ^ 35"
  "DISPATCH_QUEUE_RECEIVED_SYNC_WAIT = 2 ^ 35"
  "DISPATCH_QUEUE_UNCONTENDED_SYNC = 2 ^ 1"
  "DISPATCH_QUEUE_ENQUEUED = 2 ^ 0"
  by (simp_all add: DISPATCH_QUEUE_SUSPEND_INTERVAL_def DISPATCH_QUEUE_HAS_SIDE_SUSPEND_CNT_def DISPATCH_QUEUE_ACTIVATED_def DISPATCH_QUEUE_ACTIVATING_def DISPATCH_QUEUE_IN_BARRIER_def DISPATCH_QUEUE_WIDTH_FULL_BIT_def DISPATCH_QUEUE_WIDTH_INTERVAL_def DISPATCH_QUEUE_PENDING_BARRIER_def DISPATCH_QUEUE_DIRTY_def DISPATCH_QUEUE_ENQUEUED_ON_MGR_def DISPATCH_QUEUE_ROLE_BASE_WLH_def DISPATCH_QUEUE_ROLE_BASE_ANON_def DISPATCH_QUEUE_RECEIVED_OVERRIDE_def DISPATCH_QUEUE_RECEIVED_SYNC_WAIT_def DISPATCH_QUEUE_UNCONTENDED_SYNC_def DISPATCH_QUEUE_ENQUEUED_def)

lemma bit_DQ_single [dq_bits]:
  "bit DISPATCH_QUEUE_SUSPEND_INTERVAL n \<longleftrightarrow> n = 58"
  "bit DISPATCH_QUEUE_HAS_SIDE_SUSPEND_CNT n \<longleftrightarrow> n = 57"
  "bit DISPATCH_QUEUE_ACTIVATED n \<longleftrightarrow> n = 56"
  "bit DISPATCH_QUEUE_ACTIVATING n \<longleftrightarrow> n = 55"
  "bit DISPATCH_QUEUE_IN_BARRIER n \<longleftrightarrow> n = 54"
  "bit DISPATCH_QUEUE_WIDTH_FULL_BIT n \<longleftrightarrow> n = 53"
  "bit DISPATCH_QUEUE_WIDTH_INTERVAL n \<longleftrightarrow> n = 41"
  "bit DISPATCH_QUEUE_PENDING_BARRIER n \<longleftrightarrow> n = 40"
  "bit DISPATCH_QUEUE_DIRTY n \<longleftrightarrow> n = 39"
  "bit DISPATCH_QUEUE_ENQUEUED_ON_MGR n \<longleftrightarrow> n = 38"
  "bit DISPATCH_QUEUE_ROLE_BASE_WLH n \<longleftrightarrow> n = 37"
  "bit DISPATCH_QUEUE_ROLE_BASE_ANON n \<longleftrightarrow> n = 36"
  "bit DISPATCH_QUEUE_RECEIVED_OVERRIDE n \<longleftrightarrow> n = 35"
  "bit DISPATCH_QUEUE_RECEIVED_SYNC_WAIT n \<longleftrightarrow> n = 35"
  "bit DISPATCH_QUEUE_UNCONTENDED_SYNC n \<longleftrightarrow> n = 1"
  "bit DISPATCH_QUEUE_ENQUEUED n \<longleftrightarrow> n = 0"
  unfolding DQ_exp bit_exp_u64 by auto

lemma bit_range_u64: "bit (push_bit k (mask m) :: u64) n \<longleftrightarrow> k \<le> n \<and> n < k + m \<and> n < 64"
  by (auto simp: bit_push_bit_iff bit_mask_iff possible_bit_word)

lemma DQ_range:
  "DISPATCH_QUEUE_INACTIVE = push_bit 55 (mask 2)"
  "DISPATCH_QUEUE_INACTIVE_BITS_MASK = push_bit 55 (mask 2)"
  "DISPATCH_QUEUE_SUSPEND_BITS_MASK = push_bit 55 (mask 9)"
  "DISPATCH_QUEUE_WIDTH_MASK = push_bit 41 (mask 13)"
  "DISPATCH_QUEUE_ROLE_MASK = push_bit 36 (mask 2)"
  "DISPATCH_QUEUE_MAX_QOS_MASK = push_bit 32 (mask 3)"
  "DISPATCH_QUEUE_DRAIN_OWNER_MASK = push_bit 2 (mask 30)"
  by (simp_all add: mask_eq_exp_minus_1 push_bit_eq_mult DISPATCH_QUEUE_INACTIVE_def DISPATCH_QUEUE_INACTIVE_BITS_MASK_def DISPATCH_QUEUE_SUSPEND_BITS_MASK_def DISPATCH_QUEUE_WIDTH_MASK_def DISPATCH_QUEUE_ROLE_MASK_def DISPATCH_QUEUE_MAX_QOS_MASK_def DISPATCH_QUEUE_DRAIN_OWNER_MASK_def)

lemma bit_DQ_range [dq_bits]:
  "bit DISPATCH_QUEUE_INACTIVE n \<longleftrightarrow> 55 \<le> n \<and> n < 57"
  "bit DISPATCH_QUEUE_INACTIVE_BITS_MASK n \<longleftrightarrow> 55 \<le> n \<and> n < 57"
  "bit DISPATCH_QUEUE_SUSPEND_BITS_MASK n \<longleftrightarrow> 55 \<le> n \<and> n < 64"
  "bit DISPATCH_QUEUE_WIDTH_MASK n \<longleftrightarrow> 41 \<le> n \<and> n < 54"
  "bit DISPATCH_QUEUE_ROLE_MASK n \<longleftrightarrow> 36 \<le> n \<and> n < 38"
  "bit DISPATCH_QUEUE_MAX_QOS_MASK n \<longleftrightarrow> 32 \<le> n \<and> n < 35"
  "bit DISPATCH_QUEUE_DRAIN_OWNER_MASK n \<longleftrightarrow> 2 \<le> n \<and> n < 32"
  unfolding DQ_range bit_range_u64 by auto

lemma bit_DQ_masks [dq_bits]:
  "bit DISPATCH_QUEUE_DRAIN_PRESERVED_BITS_MASK n \<longleftrightarrow> n = 38 \<or> n = 0 \<or> 36 \<le> n \<and> n < 38 \<or> 32 \<le> n \<and> n < 35"
  "bit DISPATCH_QUEUE_DRAIN_UNLOCK_MASK n \<longleftrightarrow> 2 \<le> n \<and> n < 32 \<or> n = 35 \<or> n = 1"
  by (auto simp: DISPATCH_QUEUE_DRAIN_PRESERVED_BITS_MASK_def DISPATCH_QUEUE_DRAIN_UNLOCK_MASK_def bit_or_iff dq_bits)

lemma test_bit_iff: "test x m \<longleftrightarrow> (\<exists>n. bit x n \<and> bit m n)"
proof -
  have "x AND m \<noteq> 0 \<longleftrightarrow> (\<exists>n. bit (x AND m) n)" by (metis bit_0_eq bit_eqI bot_apply bot_bool_def)
  then show ?thesis by (simp add: test_def bit_and_iff)
qed

lemma test_single:
  "test x DISPATCH_QUEUE_HAS_SIDE_SUSPEND_CNT \<longleftrightarrow> bit x 57" "test x DISPATCH_QUEUE_IN_BARRIER \<longleftrightarrow> bit x 54"
  "test x DISPATCH_QUEUE_WIDTH_FULL_BIT \<longleftrightarrow> bit x 53" "test x DISPATCH_QUEUE_PENDING_BARRIER \<longleftrightarrow> bit x 40"
  "test x DISPATCH_QUEUE_DIRTY \<longleftrightarrow> bit x 39" "test x DISPATCH_QUEUE_ENQUEUED_ON_MGR \<longleftrightarrow> bit x 38"
  "test x DISPATCH_QUEUE_ROLE_BASE_WLH \<longleftrightarrow> bit x 37" "test x DISPATCH_QUEUE_ROLE_BASE_ANON \<longleftrightarrow> bit x 36"
  "test x DISPATCH_QUEUE_UNCONTENDED_SYNC \<longleftrightarrow> bit x 1" "test x DISPATCH_QUEUE_ENQUEUED \<longleftrightarrow> bit x 0"
  by (simp_all add: test_bit_iff dq_bits)

end
