(* ===== verification/Queue_Ops.thy ===== *)
theory Queue_Ops
  imports Queue_State
begin

text \<open>
  The operations of \<open>src/inline_internal.h\<close> and \<open>src/queue.c\<close> that change the
  state word of a lane. Each is one atomic update: a function from the old value, and what the C
  function reads besides it, to the new value and what it returns. A loop that gives up leaves the
  word as it is.
\<close>

section \<open>Creation\<close>

definition dispatch_queue_init_state :: "u16 \<Rightarrow> u64 \<Rightarrow> u64" where
  "dispatch_queue_init_state width initial_state_bits = DISPATCH_QUEUE_STATE_INIT_VALUE width OR initial_state_bits"

text \<open>\<open>do_ref_cnt\<close> of \<open>_dispatch_queue_init\<close>: what an inactive object adds.\<close>

definition dispatch_queue_init_refs :: "bool \<Rightarrow> u64 \<Rightarrow> int" where
  "dispatch_queue_init_refs is_source initial_state_bits =
     (if test initial_state_bits DISPATCH_QUEUE_INACTIVE then (if is_source then 3 else 2) else 0)"

section \<open>Taking the drain lock\<close>

abbreviation (input) DISPATCH_INVOKE_STEALING :: u32 where "DISPATCH_INVOKE_STEALING \<equiv> 0x00000001"
abbreviation (input) DISPATCH_INVOKE_MANAGER_DRAIN :: u32 where "DISPATCH_INVOKE_MANAGER_DRAIN \<equiv> 0x00040000"

text \<open>\<open>(dq_width - 1) * DISPATCH_QUEUE_WIDTH_INTERVAL\<close>\<close>

definition pending_width :: "u16 \<Rightarrow> u64" where
  "pending_width dq_width = (ucast dq_width - 1) * DISPATCH_QUEUE_WIDTH_INTERVAL"

definition lock_fail_mask :: "u32 \<Rightarrow> u64" where
  "lock_fail_mask flags =
     (let lock_fail_mask = NOT (DISPATCH_QUEUE_WIDTH_FULL_BIT - 1) OR DISPATCH_QUEUE_DRAIN_OWNER_MASK in
      if test flags DISPATCH_INVOKE_STEALING then lock_fail_mask OR DISPATCH_QUEUE_ENQUEUED_ON_MGR
      else if test flags DISPATCH_INVOKE_MANAGER_DRAIN then lock_fail_mask
      else lock_fail_mask OR DISPATCH_QUEUE_ENQUEUED_ON_MGR)"

definition dequeue_mask :: "u32 \<Rightarrow> u64" where
  "dequeue_mask flags =
     (if test flags DISPATCH_INVOKE_STEALING then 0
      else if test flags DISPATCH_INVOKE_MANAGER_DRAIN then DISPATCH_QUEUE_ENQUEUED_ON_MGR
      else DISPATCH_QUEUE_ENQUEUED)"

text \<open>\<open>Drain_override qos\<close>: the loop is retried with the override \<open>qos\<close> as the floor.\<close>

datatype drain_lock =
    Drain_override u32
  | Drain_state u64 u64

definition dispatch_queue_drain_try_lock :: "dispatch_tid \<Rightarrow> u16 \<Rightarrow> u32 \<Rightarrow> u32 \<Rightarrow> u64 \<Rightarrow> drain_lock" where
  "dispatch_queue_drain_try_lock self dq_width flags oq_floor old_state =
     (let set_owner_and_set_full_width =
            ucast (dispatch_lock_value_from_tid self) OR DISPATCH_QUEUE_WIDTH_FULL_BIT in
      if \<not> test old_state (lock_fail_mask flags)
      then
        if dq_state_needs_lock_override old_state oq_floor then Drain_override (dq_state_max_qos old_state)
        else
          let new_state = (old_state AND DISPATCH_QUEUE_DRAIN_PRESERVED_BITS_MASK) OR set_owner_and_set_full_width;
              new_state = (if dq_state_has_pending_barrier old_state \<or>
                              old_state + pending_width dq_width < DISPATCH_QUEUE_WIDTH_FULL_BIT
                           then new_state OR DISPATCH_QUEUE_IN_BARRIER else new_state)
          in Drain_state new_state
               ((new_state AND (DISPATCH_QUEUE_IN_BARRIER OR DISPATCH_QUEUE_WIDTH_FULL_BIT OR dequeue_mask flags)) -
                (old_state AND DISPATCH_QUEUE_WIDTH_MASK))
      else if dequeue_mask flags \<noteq> 0 then Drain_state (old_state XOR dequeue_mask flags) 0
      else Drain_state old_state 0)"

text \<open>The variant for workloops; \<open>None\<close> is a crash after the update.\<close>

definition dispatch_queue_drain_try_lock_wlh :: "dispatch_tid \<Rightarrow> u64 \<Rightarrow> u64 \<times> bool option" where
  "dispatch_queue_drain_try_lock_wlh self old_state =
     (let lock_bits = ucast (dispatch_lock_value_from_tid self) OR DISPATCH_QUEUE_WIDTH_FULL_BIT OR DISPATCH_QUEUE_IN_BARRIER;
          new_state =
            (if dq_state_is_suspended old_state then old_state AND NOT DISPATCH_QUEUE_ENQUEUED
             else if dq_state_drain_locked old_state
             then (if dq_state_in_uncontended_sync old_state then old_state OR DISPATCH_QUEUE_RECEIVED_SYNC_WAIT else old_state)
             else (old_state AND DISPATCH_QUEUE_DRAIN_PRESERVED_BITS_MASK) OR lock_bits)
      in (new_state,
          if \<not> dq_state_is_base_wlh old_state \<or> \<not> dq_state_is_enqueued_on_target old_state \<or>
             dq_state_is_enqueued_on_manager old_state
          then None
          else Some (\<not> dq_state_is_suspended old_state \<and> \<not> dq_state_drain_locked old_state)))"

definition dispatch_queue_try_acquire_barrier_sync_and_suspend :: "u16 \<Rightarrow> dispatch_tid \<Rightarrow> u64 \<Rightarrow> u64 \<Rightarrow> u64 option" where
  "dispatch_queue_try_acquire_barrier_sync_and_suspend dq_width tid suspend_count old_state =
     (let init = DISPATCH_QUEUE_STATE_INIT_VALUE dq_width;
          val = DISPATCH_QUEUE_WIDTH_FULL_BIT OR DISPATCH_QUEUE_IN_BARRIER OR
                ucast (dispatch_lock_value_from_tid tid) OR DISPATCH_QUEUE_UNCONTENDED_SYNC OR
                (suspend_count * DISPATCH_QUEUE_SUSPEND_INTERVAL);
          role = old_state AND DISPATCH_QUEUE_ROLE_MASK
      in if old_state \<noteq> (init OR role) then None else Some (val OR role))"

definition dispatch_queue_try_acquire_barrier_sync :: "u16 \<Rightarrow> dispatch_tid \<Rightarrow> u64 \<Rightarrow> u64 option" where
  "dispatch_queue_try_acquire_barrier_sync dq_width tid old_state =
     dispatch_queue_try_acquire_barrier_sync_and_suspend dq_width tid 0 old_state"

section \<open>Taking width\<close>

definition dispatch_queue_reserve_sync_width :: "u64 \<Rightarrow> u64" where
  "dispatch_queue_reserve_sync_width dq_state = dq_state + DISPATCH_QUEUE_WIDTH_INTERVAL"

text \<open>\<open>items\<close>: the queue has items, read before the update.\<close>

definition dispatch_queue_try_reserve_sync_width :: "bool \<Rightarrow> u64 \<Rightarrow> u64 option" where
  "dispatch_queue_try_reserve_sync_width items old_state =
     (if items then None
      else if \<not> dq_state_is_sync_runnable old_state \<or> dq_state_is_dirty old_state \<or>
              dq_state_has_pending_barrier old_state
      then None
      else Some (old_state + DISPATCH_QUEUE_WIDTH_INTERVAL))"

definition dispatch_queue_try_acquire_async :: "u64 \<Rightarrow> u64 option" where
  "dispatch_queue_try_acquire_async old_state =
     (if \<not> dq_state_is_runnable old_state \<or> dq_state_is_dirty old_state \<or>
         dq_state_has_pending_barrier old_state
      then None
      else Some (old_state + DISPATCH_QUEUE_WIDTH_INTERVAL))"

definition dispatch_queue_try_upgrade_full_width :: "u16 \<Rightarrow> u64 \<Rightarrow> u64 \<Rightarrow> u64 \<times> bool" where
  "dispatch_queue_try_upgrade_full_width dq_width owned old_state =
     (let pending_barrier_width = DISPATCH_QUEUE_PENDING_BARRIER + pending_width dq_width;
          new_state = old_state - owned;
          new_state = (if \<not> dq_state_has_pending_barrier old_state then new_state + pending_barrier_width else new_state);
          new_state = (if dq_state_is_runnable new_state
                       then new_state + DISPATCH_QUEUE_WIDTH_INTERVAL + DISPATCH_QUEUE_IN_BARRIER -
                            DISPATCH_QUEUE_PENDING_BARRIER
                       else new_state);
          new_state = new_state AND NOT DISPATCH_QUEUE_DIRTY
      in (new_state, test new_state DISPATCH_QUEUE_IN_BARRIER))"

text \<open>\<open>next_barrier\<close>: there is a next item and it is a barrier.\<close>

definition dispatch_queue_adjust_owned :: "u16 \<Rightarrow> u64 \<Rightarrow> bool \<Rightarrow> u64" where
  "dispatch_queue_adjust_owned dq_width owned next_barrier =
     (if dq_width > 1 \<and> next_barrier
      then owned - (DISPATCH_QUEUE_PENDING_BARRIER + pending_width dq_width)
      else owned)"

section \<open>Giving it back\<close>

text \<open>\<open>None\<close>: the word is dirty; the caller clears the flag and keeps the lock.\<close>

definition dispatch_queue_drain_try_unlock :: "u64 \<Rightarrow> bool \<Rightarrow> u64 \<Rightarrow> u64 option" where
  "dispatch_queue_drain_try_unlock owned done_all old_state =
     (let new_state = (old_state - owned) AND NOT DISPATCH_QUEUE_DRAIN_UNLOCK_MASK in
      if dq_state_is_suspended old_state then Some new_state
      else if dq_state_is_dirty old_state then None
      else if done_all then Some (new_state AND NOT DISPATCH_QUEUE_MAX_QOS_MASK)
      else Some (new_state OR DISPATCH_QUEUE_DIRTY))"

definition dispatch_queue_renew :: "u64 \<Rightarrow> u64" where
  "dispatch_queue_renew dq_state = dq_state XOR DISPATCH_QUEUE_DIRTY"

definition dispatch_queue_move_to_contended_sync :: "u64 \<Rightarrow> u64" where
  "dispatch_queue_move_to_contended_sync dq_state =
     dq_state AND NOT (DISPATCH_QUEUE_RECEIVED_SYNC_WAIT OR DISPATCH_QUEUE_UNCONTENDED_SYNC)"

definition dispatch_lane_non_barrier_complete_try_lock :: "u16 \<Rightarrow> u64 \<Rightarrow> u64 \<Rightarrow> u64 \<Rightarrow> u64" where
  "dispatch_lane_non_barrier_complete_try_lock dq_width old_state new_state owner_self =
     (let full_width =
            (if dq_state_has_pending_barrier new_state
             then new_state - DISPATCH_QUEUE_PENDING_BARRIER + DISPATCH_QUEUE_WIDTH_INTERVAL + DISPATCH_QUEUE_IN_BARRIER
             else new_state + ucast dq_width * DISPATCH_QUEUE_WIDTH_INTERVAL + DISPATCH_QUEUE_IN_BARRIER)
      in if full_width AND DISPATCH_QUEUE_WIDTH_MASK = DISPATCH_QUEUE_WIDTH_FULL_BIT
         then (full_width AND NOT DISPATCH_QUEUE_DIRTY) OR owner_self
         else if dq_state_is_dirty old_state then new_state OR DISPATCH_QUEUE_ENQUEUED
         else new_state)"

definition dispatch_lane_non_barrier_complete :: "dispatch_tid \<Rightarrow> u16 \<Rightarrow> u64 \<Rightarrow> u64" where
  "dispatch_lane_non_barrier_complete self dq_width old_state =
     (let owner_self = ucast (dispatch_lock_value_from_tid self);
          new_state = old_state - DISPATCH_QUEUE_WIDTH_INTERVAL
      in if dq_state_drain_locked old_state then new_state OR DISPATCH_QUEUE_DIRTY
         else if dq_state_is_runnable new_state
         then dispatch_lane_non_barrier_complete_try_lock dq_width old_state new_state owner_self
         else new_state)"

text \<open>What follows a completion.\<close>

datatype complete_action =
    Complete_barrier
  | Complete_push u32
  | Complete_done

definition dispatch_lane_non_barrier_complete_finish :: "u64 \<Rightarrow> u64 \<Rightarrow> complete_action" where
  "dispatch_lane_non_barrier_complete_finish old_state new_state =
     (if test (old_state XOR new_state) DISPATCH_QUEUE_IN_BARRIER then Complete_barrier
      else if test (old_state XOR new_state) DISPATCH_QUEUE_ENQUEUED then Complete_push (dq_state_max_qos new_state)
      else Complete_done)"

text \<open>
  The hand over of the lock to a barrier waiter, and the release of a barrier.
  \<open>Transfer_contended\<close>: ask the kernel first and try again; \<open>Transfer_renew\<close>: the word is
  dirty, the flag is cleared and the decision taken again.
\<close>

datatype transfer =
    Transfer_contended
  | Transfer_renew
  | Transfer_state u64

definition dispatch_lane_drain_barrier_waiter :: "dispatch_tid \<Rightarrow> bool \<Rightarrow> u64 \<Rightarrow> u64 \<Rightarrow> transfer" where
  "dispatch_lane_drain_barrier_waiter dsc_waiter next_dc enqueued_bits old_state =
     (let next_owner = ucast (dispatch_lock_value_from_tid dsc_waiter) in
      if dq_state_needs_ensure_ownership old_state then Transfer_contended
      else
        let new_state = (old_state AND NOT DISPATCH_QUEUE_DRAIN_UNLOCK_MASK AND NOT DISPATCH_QUEUE_DIRTY) OR next_owner in
        if dq_state_is_base_wlh old_state
        then
          if next_dc then Transfer_state new_state
          else if dq_state_is_dirty old_state then Transfer_renew
          else Transfer_state (new_state AND NOT DISPATCH_QUEUE_MAX_QOS_MASK AND NOT DISPATCH_QUEUE_ENQUEUED)
        else Transfer_state (new_state - enqueued_bits))"

definition dispatch_lane_class_barrier_complete :: "u64 \<Rightarrow> u32 \<Rightarrow> u64 \<Rightarrow> u64 \<Rightarrow> transfer" where
  "dispatch_lane_class_barrier_complete enqueue qos owned old_state =
     (if dq_state_needs_ensure_ownership old_state then Transfer_contended
      else
        let new_state = dq_state_merge_qos (old_state - owned) qos AND NOT DISPATCH_QUEUE_DRAIN_UNLOCK_MASK in
        if dq_state_is_suspended old_state
        then Transfer_state (if dq_state_is_base_wlh old_state then new_state AND NOT DISPATCH_QUEUE_ENQUEUED else new_state)
        else if enqueue \<noteq> 0
        then Transfer_state (if \<not> dq_state_is_enqueued old_state then new_state OR enqueue else new_state)
        else if dq_state_is_dirty old_state then Transfer_renew
        else Transfer_state (new_state AND NOT DISPATCH_QUEUE_MAX_QOS_MASK))"

text \<open>The owned bits of \<open>_dispatch_lane_barrier_complete\<close>.\<close>

definition barrier_owned :: "u16 \<Rightarrow> u64" where
  "barrier_owned dq_width = DISPATCH_QUEUE_IN_BARRIER + ucast dq_width * DISPATCH_QUEUE_WIDTH_INTERVAL"

text \<open>The unlock that is inlined in a barrier sync on a serial queue; \<open>None\<close>: the slow path.\<close>

definition dispatch_lane_barrier_sync_invoke_and_complete :: "u64 \<Rightarrow> u64 option" where
  "dispatch_lane_barrier_sync_invoke_and_complete old_state =
     (let fail_unlock_mask = DISPATCH_QUEUE_SUSPEND_BITS_MASK OR DISPATCH_QUEUE_ENQUEUED OR DISPATCH_QUEUE_DIRTY OR
            DISPATCH_QUEUE_RECEIVED_OVERRIDE OR DISPATCH_QUEUE_RECEIVED_SYNC_WAIT
      in if test old_state fail_unlock_mask then None
         else Some ((old_state - DISPATCH_QUEUE_SERIAL_DRAIN_OWNED) AND NOT DISPATCH_QUEUE_DRAIN_UNLOCK_MASK
                    AND NOT DISPATCH_QUEUE_MAX_QOS_MASK))"

definition dispatch_queue_invoke_finish :: "u64 \<Rightarrow> u64 \<Rightarrow> u64 \<Rightarrow> u64" where
  "dispatch_queue_invoke_finish enqueued owned old_state =
     (let new_state = ((old_state - owned) AND NOT DISPATCH_QUEUE_DRAIN_UNLOCK_MASK) OR DISPATCH_QUEUE_DIRTY in
      if dq_state_is_runnable new_state \<and> \<not> dq_state_is_enqueued new_state
      then new_state OR enqueued else new_state)"

text \<open>The last update of \<open>_dispatch_lane_drain_non_barriers\<close>; \<open>None\<close>: dirty, drain again.\<close>

definition drain_non_barriers_unlock :: "dispatch_tid \<Rightarrow> u16 \<Rightarrow> bool \<Rightarrow> u64 \<Rightarrow> u64 \<Rightarrow> u64 option" where
  "drain_non_barriers_unlock self dq_width dc owned old_state =
     (let new_state = (old_state - owned) AND NOT DISPATCH_QUEUE_DRAIN_UNLOCK_MASK AND NOT DISPATCH_QUEUE_DIRTY in
      if dc
      then Some (dispatch_lane_non_barrier_complete_try_lock dq_width old_state (new_state OR DISPATCH_QUEUE_DIRTY)
                   (ucast (dispatch_lock_value_from_tid self)))
      else if dq_state_is_dirty old_state then None
      else Some new_state)"

section \<open>Wakeups\<close>

abbreviation (input) DISPATCH_WAKEUP_MAKE_DIRTY :: u32 where "DISPATCH_WAKEUP_MAKE_DIRTY \<equiv> 0x00000002"
abbreviation (input) DISPATCH_WAKEUP_CLEAR_ACTIVATING :: u32 where "DISPATCH_WAKEUP_CLEAR_ACTIVATING \<equiv> 0x00000020"

text \<open>The update with a target, where \<open>enqueue\<close> is the flag of the target.\<close>

definition dispatch_queue_wakeup :: "u64 \<Rightarrow> u32 \<Rightarrow> u32 \<Rightarrow> u64 \<Rightarrow> u64" where
  "dispatch_queue_wakeup enqueue qos flags old_state =
     (let new_state = dq_state_merge_qos old_state qos;
          new_state = (if test flags DISPATCH_WAKEUP_CLEAR_ACTIVATING \<and> dq_state_is_activating old_state
                       then new_state AND NOT DISPATCH_QUEUE_ACTIVATING else new_state);
          new_state = (if \<not> dq_state_is_suspended new_state \<and> \<not> dq_state_is_enqueued old_state \<and>
                          (\<not> dq_state_drain_locked old_state \<or> enqueue \<noteq> DISPATCH_QUEUE_ENQUEUED_ON_MGR)
                       then new_state OR enqueue else new_state)
      in if test flags DISPATCH_WAKEUP_MAKE_DIRTY then new_state OR DISPATCH_QUEUE_DIRTY else new_state)"

text \<open>The override of the last item: no target.\<close>

definition queue_wakeup_override :: "u32 \<Rightarrow> u64 \<Rightarrow> u64" where
  "queue_wakeup_override qos old_state =
     (if \<not> dq_state_drain_locked old_state \<and> \<not> dq_state_is_enqueued old_state then old_state
      else
        let new_state = dq_state_merge_qos old_state qos in
        if dq_state_is_base_wlh old_state \<and> \<not> dq_state_is_suspended old_state \<and>
           \<not> dq_state_is_enqueued_on_manager old_state
        then new_state OR DISPATCH_QUEUE_ENQUEUED else new_state)"

definition full_width_and_in_barrier :: "dispatch_tid \<Rightarrow> u64" where
  "full_width_and_in_barrier self =
     ucast (dispatch_lock_value_from_tid self) OR DISPATCH_QUEUE_WIDTH_FULL_BIT OR
     DISPATCH_QUEUE_IN_BARRIER OR DISPATCH_QUEUE_UNCONTENDED_SYNC"

definition dispatch_lane_push_waiter :: "dispatch_tid \<Rightarrow> u16 \<Rightarrow> u32 \<Rightarrow> u64 \<Rightarrow> u64" where
  "dispatch_lane_push_waiter self dq_width qos old_state =
     (let new_state = dq_state_merge_qos old_state qos OR DISPATCH_QUEUE_DIRTY in
      if dq_state_drain_locked old_state \<or> \<not> dq_state_is_runnable old_state then new_state
      else if dq_state_is_base_wlh old_state \<and> dq_state_is_enqueued old_state then new_state
      else if dq_state_has_pending_barrier old_state \<or>
              new_state + pending_width dq_width < DISPATCH_QUEUE_WIDTH_FULL_BIT
      then (new_state AND DISPATCH_QUEUE_DRAIN_PRESERVED_BITS_MASK) OR full_width_and_in_barrier self
      else new_state)"

section \<open>Suspension and activation\<close>

definition add_overflow :: "u64 \<Rightarrow> u64 \<Rightarrow> bool" where
  "add_overflow a b \<longleftrightarrow> unat a + unat b \<ge> 2 ^ 64"

text \<open>\<open>None\<close>: the count does not fit, the slow path is taken.\<close>

definition dispatch_lane_suspend :: "u64 \<Rightarrow> u64 option" where
  "dispatch_lane_suspend old_state =
     (if add_overflow old_state DISPATCH_QUEUE_SUSPEND_INTERVAL then None
      else Some (old_state + DISPATCH_QUEUE_SUSPEND_INTERVAL))"

definition suspend_delta :: "bool \<Rightarrow> u64" where
  "suspend_delta side_bit =
     ucast DISPATCH_QUEUE_SUSPEND_HALF * DISPATCH_QUEUE_SUSPEND_INTERVAL - DISPATCH_QUEUE_SUSPEND_INTERVAL -
     (if side_bit then DISPATCH_QUEUE_HAS_SIDE_SUSPEND_CNT else 0)"

text \<open>
  The slow paths, under the side lock, with the side count; \<open>Slow_retry\<close>: nothing was changed,
  unlock and start again.
\<close>

datatype slow_result =
    Slow_retry
  | Slow_done u64 u32
  | Slow_crash

definition dispatch_lane_suspend_slow :: "u32 \<Rightarrow> u64 \<Rightarrow> slow_result" where
  "dispatch_lane_suspend_slow dq_side_suspend_cnt old_state =
     (let delta = suspend_delta (dq_side_suspend_cnt = 0) in
      if old_state < delta then Slow_retry
      else if unat dq_side_suspend_cnt + unat DISPATCH_QUEUE_SUSPEND_HALF \<ge> 2 ^ 32 then Slow_crash
      else Slow_done (old_state - delta) (dq_side_suspend_cnt + DISPATCH_QUEUE_SUSPEND_HALF))"

definition dispatch_lane_resume_slow :: "u32 \<Rightarrow> u64 \<Rightarrow> slow_result" where
  "dispatch_lane_resume_slow dq_side_suspend_cnt old_state =
     (if dq_side_suspend_cnt = 0 then Slow_retry
      else
        let delta = suspend_delta (dq_side_suspend_cnt = DISPATCH_QUEUE_SUSPEND_HALF) in
        if add_overflow old_state delta then Slow_retry
        else Slow_done (old_state + delta) (dq_side_suspend_cnt - DISPATCH_QUEUE_SUSPEND_HALF))"

text \<open>\<open>_dispatch_lane_try_inactive_suspend\<close>: \<open>None\<close> is a crash.\<close>

definition dispatch_lane_try_inactive_suspend :: "u64 \<Rightarrow> (u64 \<times> bool) option" where
  "dispatch_lane_try_inactive_suspend old_state =
     (if \<not> dq_state_is_inactive old_state then Some (old_state, False)
      else if \<not> dq_state_is_suspended old_state \<or> dq_state_has_side_suspend_cnt old_state then None
      else Some (old_state + DISPATCH_QUEUE_SUSPEND_INTERVAL, True))"

datatype resume_op = DISPATCH_RESUME | DISPATCH_ACTIVATE | DISPATCH_ACTIVATION_DONE

datatype resume_result =
    Resume_state u64
  | Resume_nothing
  | Resume_release
  | Resume_side
  | Resume_crash

text \<open>The second branch, shared by a resume and a finished activation: force a wakeup.\<close>

definition resume_forced :: "u64 \<Rightarrow> u64" where
  "resume_forced new_state =
     new_state AND NOT DISPATCH_QUEUE_DRAIN_UNLOCK_MASK AND NOT DISPATCH_QUEUE_MAX_QOS_MASK"

definition lane_activate :: "u64 \<Rightarrow> resume_result" where
  "lane_activate old_state =
     (if \<not> dq_state_is_inactive old_state then Resume_nothing
      else if dq_state_suspend_cnt old_state \<noteq> 0
      then Resume_state (old_state - DISPATCH_QUEUE_INACTIVE + DISPATCH_QUEUE_ACTIVATED)
      else Resume_state (old_state - DISPATCH_QUEUE_INACTIVE + DISPATCH_QUEUE_ACTIVATING))"

definition lane_activation_done :: "u64 \<Rightarrow> resume_result" where
  "lane_activation_done old_state =
     (if \<not> test old_state DISPATCH_QUEUE_INACTIVE_BITS_MASK then Resume_release
      else
        let new_state = old_state - DISPATCH_QUEUE_ACTIVATING;
            new_state = (if \<not> dq_state_is_runnable new_state then new_state OR DISPATCH_QUEUE_DIRTY
                         else if dq_state_drain_locked new_state then new_state OR DISPATCH_QUEUE_DIRTY
                         else resume_forced new_state)
        in if test new_state DISPATCH_QUEUE_INACTIVE_BITS_MASK then Resume_crash else Resume_state new_state)"

definition lane_resume :: "bool \<Rightarrow> dispatch_tid \<Rightarrow> u16 \<Rightarrow> u64 \<Rightarrow> resume_result" where
  "lane_resume is_source self dq_width old_state =
     (if is_source \<and> old_state AND DISPATCH_QUEUE_SUSPEND_BITS_MASK = DISPATCH_QUEUE_INACTIVE
      then Resume_state (old_state - DISPATCH_QUEUE_INACTIVE + DISPATCH_QUEUE_ACTIVATING)
      else if old_state < DISPATCH_QUEUE_SUSPEND_INTERVAL
      then (if \<not> test old_state DISPATCH_QUEUE_HAS_SIDE_SUSPEND_CNT then Resume_crash else Resume_side)
      else
        let new_state = old_state - DISPATCH_QUEUE_SUSPEND_INTERVAL in
        Resume_state
          (if dq_state_is_activated new_state
           then new_state - DISPATCH_QUEUE_ACTIVATED + DISPATCH_QUEUE_ACTIVATING
           else if \<not> dq_state_is_runnable new_state then new_state OR DISPATCH_QUEUE_DIRTY
           else if dq_state_drain_locked new_state then new_state OR DISPATCH_QUEUE_DIRTY
           else if \<not> is_source \<and> (dq_state_has_pending_barrier new_state \<or>
                     new_state + pending_width dq_width < DISPATCH_QUEUE_WIDTH_FULL_BIT)
           then (new_state AND DISPATCH_QUEUE_DRAIN_PRESERVED_BITS_MASK) OR full_width_and_in_barrier self
           else resume_forced new_state))"

definition dispatch_lane_resume :: "bool \<Rightarrow> dispatch_tid \<Rightarrow> u16 \<Rightarrow> resume_op \<Rightarrow> u64 \<Rightarrow> resume_result" where
  "dispatch_lane_resume is_source self dq_width resume old_state =
     (case resume of
        DISPATCH_ACTIVATE \<Rightarrow> lane_activate old_state
      | DISPATCH_ACTIVATION_DONE \<Rightarrow> lane_activation_done old_state
      | DISPATCH_RESUME \<Rightarrow> lane_resume is_source self dq_width old_state)"

text \<open>What \<open>_dispatch_lane_resume\<close> does after the update.\<close>

datatype resume_action =
    Resume_activates
  | Resume_waits
  | Resume_barrier_complete
  | Resume_releases
  | Resume_wakes u32

definition lane_resume_action :: "u64 \<Rightarrow> u64 \<Rightarrow> resume_action" where
  "lane_resume_action old_state new_state =
     (if dq_state_is_activating new_state then Resume_activates
      else if dq_state_is_suspended new_state then Resume_waits
      else if test (old_state XOR new_state) DISPATCH_QUEUE_IN_BARRIER then Resume_barrier_complete
      else if \<not> dq_state_is_runnable new_state then Resume_releases
      else Resume_wakes (dq_state_max_qos old_state))"

end
