(* ===== verification/Queue_Width.thy ===== *)
theory Queue_Width
  imports Queue_Ops
begin

text \<open>
  The width field and the barrier flag of the state word as one number: what the additions and
  subtractions of the operations do to it, and which bits they leave alone.
\<close>

section \<open>Arithmetic on multiples of the interval\<close>

definition width_word :: "nat \<Rightarrow> u64" where
  "width_word k = push_bit 41 (of_nat k)"

definition lane_up :: "u64 \<Rightarrow> nat" where
  "lane_up s = unat (drop_bit 41 s)"

text \<open>Width in use plus 0x2000 for the barrier flag.\<close>

definition width_field :: "u64 \<Rightarrow> nat" where
  "width_field s = lane_up s mod 0x4000"

lemma width_word_mult: "width_word k = of_nat k * DISPATCH_QUEUE_WIDTH_INTERVAL"
  unfolding width_word_def DQ_exp push_bit_eq_mult ..

lemma lane_up_div: "lane_up s = unat s div 2 ^ 41"
proof -
  have "take_bit 64 (unat s) = unat s" using unsigned_less [of s, where 'a = nat] by (simp add: take_bit_nat_eq_self_iff)
  then have "lane_up s = drop_bit 41 (unat s)" unfolding lane_up_def by (simp add: unsigned_drop_bit_eq)
  then show ?thesis by (simp only: drop_bit_eq_div)
qed

lemma lane_up_lt: "lane_up s < 2 ^ 23"
proof -
  have "unat s < 2 ^ 64" using unsigned_less [of s, where 'a = nat] by simp
  then show ?thesis unfolding lane_up_div by simp
qed

lemma unat_width_word: "unat (width_word k) = k * 2 ^ 41 mod 2 ^ 64"
proof -
  have "width_word k = of_nat (push_bit 41 k)" by (simp only: width_word_def push_bit_of_nat)
  then show ?thesis by (simp only: unat_of_nat push_bit_eq_mult) simp
qed

lemma lane_up_add: "lane_up (s + width_word k) = (lane_up s + k) mod 2 ^ 23"
proof -
  have "unat (s + width_word k) = (unat s + k * 2 ^ 41) mod 2 ^ 64"
    unfolding unat_word_ariths unat_width_word by (simp add: mod_simps)
  moreover have "m mod (2 ^ 41 * 2 ^ 23) div 2 ^ 41 = m div 2 ^ 41 mod 2 ^ 23" for m :: nat
    by (simp only: mod_mult2_eq) simp
  then have "m mod 2 ^ 64 div 2 ^ 41 = m div 2 ^ 41 mod 2 ^ 23" for m :: nat by (simp flip: power_add)
  moreover have "(unat s + k * 2 ^ 41) div 2 ^ 41 = unat s div 2 ^ 41 + k" by simp
  ultimately show ?thesis unfolding lane_up_div by (simp only:)
qed

lemma bit_add_push:
  assumes n: "n < m"
  shows "bit (s + push_bit m x :: u64) n = bit s n"
proof -
  let ?h = "push_bit m (drop_bit m s + x)" and ?l = "take_bit m s"
  have "s = push_bit m (drop_bit m s) + ?l" by (rule bits_ident [symmetric])
  then have "s + push_bit m x = push_bit m (drop_bit m s) + ?l + push_bit m x" by simp
  also have "\<dots> = ?h + ?l" by (simp add: push_bit_add)
  also have "\<dots> = ?h OR ?l"
    by (rule disjunctive_add_eq_or, rule bit_eqI) (auto simp: bit_and_iff bit_push_bit_iff bit_take_bit_iff)
  finally show ?thesis using n by (simp add: bit_or_iff bit_push_bit_iff bit_take_bit_iff)
qed

lemma bit_sub_push: "n < m \<Longrightarrow> bit (s - push_bit m x :: u64) n = bit s n"
  using bit_add_push [of n m "s - push_bit m x" x] by simp

lemma low_bits_add: "n < 41 \<Longrightarrow> bit (s + width_word k) n = bit s n"
  unfolding width_word_def by (rule bit_add_push)

lemma low_bits_sub: "n < 41 \<Longrightarrow> bit (s - width_word k) n = bit s n"
  using low_bits_add [of n "s - width_word k" k] by simp

lemma width_field_add: "width_field (s + width_word k) = (width_field s + k) mod 0x4000"
  unfolding width_field_def lane_up_add by (simp add: mod_mod_cancel mod_simps)

lemma width_field_lt: "width_field s < 0x4000"
  by (simp add: width_field_def)

lemma width_field_plus: "width_field s + k < 0x4000 \<Longrightarrow> width_field (s + width_word k) = width_field s + k"
  by (simp add: width_field_add)

lemma width_field_minus:
  assumes "k \<le> width_field s"
  shows "width_field (s - width_word k) = width_field s - k"
proof -
  let ?w = "width_field (s - width_word k)"
  have k: "k < 0x4000" using assms width_field_lt [of s] by linarith
  have eq: "width_field s = (?w + k) mod 0x4000" using width_field_add [of "s - width_word k" k] by simp
  show ?thesis
  proof (cases "?w + k < 0x4000")
    case True
    then show ?thesis using eq by simp
  next
    case False
    then have "width_field s = ?w + k - 0x4000" using eq k width_field_lt [of "s - width_word k"]
      by (simp add: le_mod_geq)
    then show ?thesis using assms width_field_lt [of "s - width_word k"] False by linarith
  qed
qed

lemma lane_up_plus: "lane_up s + k < 2 ^ 23 \<Longrightarrow> lane_up (s + width_word k) = lane_up s + k"
  by (simp add: lane_up_add)

section \<open>The field and the bits\<close>

lemma bit_lane_up: "bit (lane_up s) n \<longleftrightarrow> bit s (41 + n)"
  unfolding lane_up_def by (auto simp: bit_unsigned_iff bit_drop_bit_eq dest: bit_imp_le_length)

lemma width_field_bits: "width_field s = take_bit 14 (lane_up s)"
  by (simp add: width_field_def take_bit_eq_mod)

lemma bit_width_field: "bit (width_field s) n \<longleftrightarrow> n < 14 \<and> bit s (41 + n)"
  by (simp add: width_field_bits bit_take_bit_iff bit_lane_up)

lemma width_field_cong:
  assumes "\<And>n. 41 \<le> n \<Longrightarrow> n < 55 \<Longrightarrow> bit s n = bit s' n"
  shows "width_field s = width_field s'"
  by (rule bit_eqI) (use assms in \<open>auto simp: bit_width_field\<close>)

lemma bit_54: "bit s 54 \<longleftrightarrow> 0x2000 \<le> width_field s"
proof -
  have "bit s 54 \<longleftrightarrow> odd (width_field s div 2 ^ 13)"
    using bit_width_field [of s 13] by (simp add: bit_iff_odd)
  moreover have "width_field s div 2 ^ 13 < 2" using width_field_lt [of s] by (simp add: less_mult_imp_div_less)
  ultimately show ?thesis by (auto simp: less_2_cases_iff)
qed

lemma suspended_iff: "dq_state_is_suspended s \<longleftrightarrow> 0x4000 \<le> lane_up s"
proof -
  have "dq_state_is_suspended s \<longleftrightarrow> (\<exists>n. bit (drop_bit 14 (lane_up s)) n)"
  proof -
    have "(\<exists>n. bit s n \<and> 55 \<le> n \<and> n < 64) \<longleftrightarrow> (\<exists>m. bit s (55 + m))"
    proof
      assume "\<exists>n. bit s n \<and> 55 \<le> n \<and> n < 64"
      then obtain n where "bit s n" "55 \<le> n" by blast
      then show "\<exists>m. bit s (55 + m)" by (intro exI [of _ "n - 55"]) simp
    next
      assume "\<exists>m. bit s (55 + m)"
      then obtain m where m: "bit s (55 + m)" by blast
      then show "\<exists>n. bit s n \<and> 55 \<le> n \<and> n < 64"
        using bit_imp_le_length [OF m] by (intro exI [of _ "55 + m"]) simp
    qed
    then show ?thesis by (simp add: dq_state_is_suspended_def test_bit_iff dq_bits bit_drop_bit_eq bit_lane_up)
  qed
  also have "\<dots> \<longleftrightarrow> drop_bit 14 (lane_up s) \<noteq> 0" by (metis bit_0_eq bit_eqI bot_apply bot_bool_def)
  also have "\<dots> \<longleftrightarrow> 0x4000 \<le> lane_up s" by (simp add: drop_bit_eq_div div_eq_0_iff not_less)
  finally show ?thesis .
qed

lemma not_suspended_field: "\<not> dq_state_is_suspended s \<Longrightarrow> lane_up s = width_field s"
  by (simp add: suspended_iff width_field_def)

lemma runnable_up: "dq_state_is_runnable s \<longleftrightarrow> lane_up s < 0x1000"
proof -
  have "unat DISPATCH_QUEUE_WIDTH_FULL_BIT = 2 ^ 53" by (simp add: DISPATCH_QUEUE_WIDTH_FULL_BIT_def)
  then have "dq_state_is_runnable s \<longleftrightarrow> unat s < 2 ^ 41 * 0x1000"
    by (simp add: dq_state_is_runnable_def word_less_nat_alt)
  also have "\<dots> \<longleftrightarrow> unat s div 2 ^ 41 < 0x1000" by (simp add: div_less_iff_less_mult mult.commute)
  finally show ?thesis unfolding lane_up_div .
qed

lemma sync_runnable_up: "dq_state_is_sync_runnable s \<longleftrightarrow> lane_up s < 0x2000"
proof -
  have "unat DISPATCH_QUEUE_IN_BARRIER = 2 ^ 54" by (simp add: DISPATCH_QUEUE_IN_BARRIER_def)
  then have "dq_state_is_sync_runnable s \<longleftrightarrow> unat s < 2 ^ 41 * 0x2000"
    by (simp add: dq_state_is_sync_runnable_def word_less_nat_alt)
  also have "\<dots> \<longleftrightarrow> unat s div 2 ^ 41 < 0x2000" by (simp add: div_less_iff_less_mult mult.commute)
  finally show ?thesis unfolding lane_up_div .
qed

lemma runnable_iff: "dq_state_is_runnable s \<longleftrightarrow> \<not> dq_state_is_suspended s \<and> width_field s < 0x1000"
  unfolding runnable_up suspended_iff width_field_def by auto

lemma sync_runnable_iff: "dq_state_is_sync_runnable s \<longleftrightarrow> \<not> dq_state_is_suspended s \<and> width_field s < 0x2000"
  unfolding sync_runnable_up suspended_iff width_field_def by auto

lemma full_width_iff: "s AND DISPATCH_QUEUE_WIDTH_MASK = DISPATCH_QUEUE_WIDTH_FULL_BIT \<longleftrightarrow> width_field s mod 0x2000 = 0x1000"
proof -
  have and_bit: "bit (s AND DISPATCH_QUEUE_WIDTH_MASK) n \<longleftrightarrow> bit s n \<and> 41 \<le> n \<and> n < 54" for n
    by (simp add: bit_and_iff dq_bits)
  have low_bit: "bit (take_bit 13 (width_field s)) n \<longleftrightarrow> n < 13 \<and> bit s (41 + n)" for n
    by (auto simp: bit_take_bit_iff bit_width_field)
  have one_bit: "bit (2 ^ 12 :: nat) n \<longleftrightarrow> n = 12" for n unfolding bit_exp_iff by (auto simp: possible_bit_def)
  have "s AND DISPATCH_QUEUE_WIDTH_MASK = DISPATCH_QUEUE_WIDTH_FULL_BIT \<longleftrightarrow> take_bit 13 (width_field s) = 2 ^ 12"
  proof
    assume eq: "s AND DISPATCH_QUEUE_WIDTH_MASK = DISPATCH_QUEUE_WIDTH_FULL_BIT"
    show "take_bit 13 (width_field s) = 2 ^ 12"
    proof (rule bit_eqI)
      fix n
      have "bit s (41 + n) \<and> n < 13 \<longleftrightarrow> n = 12" using and_bit [of "41 + n"] unfolding eq by (simp add: dq_bits)
      then show "bit (take_bit 13 (width_field s)) n = bit (2 ^ 12 :: nat) n" unfolding low_bit one_bit by blast
    qed
  next
    assume eq: "take_bit 13 (width_field s) = 2 ^ 12"
    show "s AND DISPATCH_QUEUE_WIDTH_MASK = DISPATCH_QUEUE_WIDTH_FULL_BIT"
    proof (rule bit_eqI)
      fix n
      have "41 \<le> n \<Longrightarrow> bit s n \<and> n < 54 \<longleftrightarrow> n = 53" using low_bit [of "n - 41"] unfolding eq one_bit by auto
      then show "bit (s AND DISPATCH_QUEUE_WIDTH_MASK) n = bit DISPATCH_QUEUE_WIDTH_FULL_BIT n"
        unfolding and_bit dq_bits by auto
    qed
  qed
  then show ?thesis by (simp add: take_bit_eq_mod)
qed

end
