(* ===== verification/Queue_Account.thy ===== *)
theory Queue_Account
  imports Queue_Width
begin

text \<open>
  Who has the width of a lane. At any time nobody holds the drain lock, or a thread holds it in
  barrier mode, or holds it with some width units of its own; non barrier items that run have one
  unit each; and a pending barrier reserves all but one. \<open>width_ok\<close> is what the width field,
  the barrier flag and the pending flag say of it, and each operation keeps it.
\<close>

section \<open>The account\<close>

datatype lane_mode = Free | In_barrier | Shared nat

fun mode_units :: "lane_mode \<Rightarrow> nat" where
  "mode_units (Shared w) = w"
| "mode_units _ = 0"

definition width_ok :: "u16 \<Rightarrow> lane_mode \<Rightarrow> nat \<Rightarrow> u64 \<Rightarrow> bool" where
  "width_ok W m n s \<longleftrightarrow>
     (if m = In_barrier then width_field s = 0x3000 \<and> n = 0 \<and> \<not> bit s 40
      else width_field s < 0x2000 \<and>
        0x1000 + n + mode_units m + (if bit s 40 then unat W - 1 else 0) \<le> width_field s + unat W)"

definition lane_width :: "u16 \<Rightarrow> bool" where
  "lane_width W \<longleftrightarrow> 0 < unat W \<and> unat W < 0x1000"

lemma width_ok_cong:
  assumes "\<And>k. 40 \<le> k \<Longrightarrow> k < 55 \<Longrightarrow> bit s k = bit s' k"
  shows "width_ok W m n s = width_ok W m n s'"
proof -
  have "width_field s = width_field s'" by (rule width_field_cong) (use assms in auto)
  moreover have "bit s 40 = bit s' 40" using assms [of 40] by simp
  ultimately show ?thesis by (simp add: width_ok_def)
qed

section \<open>Constants as width\<close>

lemma interval_width: "DISPATCH_QUEUE_WIDTH_INTERVAL = width_word 1"
  by (simp add: width_word_mult)

lemma barrier_width: "DISPATCH_QUEUE_IN_BARRIER = width_word 0x2000"
  by (simp add: width_word_mult DISPATCH_QUEUE_IN_BARRIER_def DISPATCH_QUEUE_WIDTH_INTERVAL_def)

lemma width_word_add: "width_word a + width_word b = width_word (a + b)"
  by (simp add: width_word_mult distrib_right)

lemma width_mult: "ucast W * DISPATCH_QUEUE_WIDTH_INTERVAL = width_word (unat (W :: u16))"
  by (simp add: width_word_mult)

lemma pending_width_word: "0 < unat W \<Longrightarrow> pending_width W = width_word (unat W - 1)"
proof -
  assume "0 < unat W"
  then have "(ucast W :: u64) - 1 = of_nat (unat W - 1)" by (simp add: of_nat_diff)
  then show ?thesis by (simp add: pending_width_def width_word_mult)
qed

lemma serial_owned: "DISPATCH_QUEUE_SERIAL_DRAIN_OWNED = width_word 0x2001"
  by (simp add: DISPATCH_QUEUE_SERIAL_DRAIN_OWNED_def width_word_mult DISPATCH_QUEUE_IN_BARRIER_def DISPATCH_QUEUE_WIDTH_INTERVAL_def)

lemma barrier_owned_word: "barrier_owned W = width_word (0x2000 + unat W)"
  unfolding barrier_owned_def width_mult barrier_width width_word_add ..

lemma pending_double: "DISPATCH_QUEUE_PENDING_BARRIER + DISPATCH_QUEUE_PENDING_BARRIER = width_word 1"
  by (simp add: width_word_mult DISPATCH_QUEUE_PENDING_BARRIER_def DISPATCH_QUEUE_WIDTH_INTERVAL_def)

lemma pending_add_clear: "\<not> bit s 40 \<Longrightarrow> s + DISPATCH_QUEUE_PENDING_BARRIER = s OR DISPATCH_QUEUE_PENDING_BARRIER"
  by (rule disjunctive_add_eq_or, rule bit_eqI) (auto simp: bit_and_iff dq_bits)

lemma pending_sub_set: "bit s 40 \<Longrightarrow> s - DISPATCH_QUEUE_PENDING_BARRIER = s AND NOT DISPATCH_QUEUE_PENDING_BARRIER"
  by (rule disjunctive_diff_eq_and_not, rule bit_eqI) (auto simp: bit_and_iff bit_not_iff dq_bits)

lemma pending_add_set:
  assumes "bit s 40"
  shows "s + DISPATCH_QUEUE_PENDING_BARRIER = (s AND NOT DISPATCH_QUEUE_PENDING_BARRIER) + width_word 1"
proof -
  have "s = (s AND NOT DISPATCH_QUEUE_PENDING_BARRIER) + DISPATCH_QUEUE_PENDING_BARRIER"
    using pending_sub_set [OF assms] by (simp add: algebra_simps)
  then have "s + DISPATCH_QUEUE_PENDING_BARRIER =
      (s AND NOT DISPATCH_QUEUE_PENDING_BARRIER) + (DISPATCH_QUEUE_PENDING_BARRIER + DISPATCH_QUEUE_PENDING_BARRIER)"
    by (simp add: algebra_simps)
  then show ?thesis by (simp only: pending_double)
qed

lemma field_pending: "width_field (s OR DISPATCH_QUEUE_PENDING_BARRIER) = width_field s"
  "width_field (s AND NOT DISPATCH_QUEUE_PENDING_BARRIER) = width_field s"
  by (rule width_field_cong, auto simp: bit_or_iff bit_and_iff bit_not_iff dq_bits)+

lemma pending_bit: "bit (s OR DISPATCH_QUEUE_PENDING_BARRIER) 40" "\<not> bit (s AND NOT DISPATCH_QUEUE_PENDING_BARRIER) 40"
  by (simp_all add: bit_or_iff bit_and_iff bit_not_iff dq_bits)

lemma width_bit_40: "bit (s + width_word k) 40 = bit s 40" "bit (s - width_word k) 40 = bit s 40"
  by (simp_all add: low_bits_add low_bits_sub)

section \<open>Width units\<close>

lemma width_ok_take:
  assumes "width_ok W m n s" "m \<noteq> In_barrier" "width_field s + 1 < 0x2000"
  shows "width_ok W m (Suc n) (s + width_word 1)" "width_ok W (Shared (mode_units m + 1)) n (s + width_word 1)"
  using assms by (auto simp: width_ok_def width_field_plus width_bit_40)

lemma width_ok_give:
  assumes "width_ok W m (Suc n) s" "m \<noteq> In_barrier" "0 < unat W" "unat W < 0x1000"
  shows "width_ok W m n (s - width_word 1)"
proof -
  have "1 \<le> width_field s" using assms by (auto simp: width_ok_def split: if_splits)
  then show ?thesis using assms by (auto simp: width_ok_def width_field_minus width_bit_40)
qed

lemma width_ok_unit: "width_ok W (Shared (Suc w)) n s = width_ok W (Shared w) (Suc n) s"
  by (auto simp: width_ok_def)

lemma width_ok_release:
  assumes "width_ok W (Shared w) n s" "k \<le> w" "unat W < 0x1000"
  shows "width_ok W Free n (s - width_word k)"
proof -
  have "k \<le> width_field s" using assms by (auto simp: width_ok_def split: if_splits)
  then show ?thesis using assms by (auto simp: width_ok_def width_field_minus width_bit_40)
qed

lemma width_ok_release_barrier:
  assumes "width_ok W In_barrier n s" "k \<le> unat W" "unat W < 0x1000"
  shows "width_ok W Free 0 (s - width_word (0x2000 + k))"
  using assms by (auto simp: width_ok_def width_field_minus width_bit_40)

text \<open>Leaving barrier mode with the whole width.\<close>

lemma clear_barrier: "bit s 54 \<Longrightarrow> s AND NOT DISPATCH_QUEUE_IN_BARRIER = s - width_word 0x2000"
  "bit s 54 \<Longrightarrow> s XOR DISPATCH_QUEUE_IN_BARRIER = s - width_word 0x2000"
proof -
  assume s: "bit s 54"
  have eq: "s - DISPATCH_QUEUE_IN_BARRIER = s AND NOT DISPATCH_QUEUE_IN_BARRIER"
    by (rule disjunctive_diff_eq_and_not, rule bit_eqI) (use s in \<open>auto simp: bit_and_iff bit_not_iff dq_bits\<close>)
  then show "s AND NOT DISPATCH_QUEUE_IN_BARRIER = s - width_word 0x2000" unfolding barrier_width by simp
  have "s XOR DISPATCH_QUEUE_IN_BARRIER = s AND NOT DISPATCH_QUEUE_IN_BARRIER"
    by (rule bit_eqI) (use s in \<open>auto simp: bit_and_iff bit_xor_iff bit_not_iff dq_bits\<close>)
  then show "s XOR DISPATCH_QUEUE_IN_BARRIER = s - width_word 0x2000" using eq unfolding barrier_width by simp
qed

lemma width_ok_drop_barrier:
  assumes "width_ok W In_barrier n s"
  shows "width_ok W (Shared (unat W)) n (s - width_word 0x2000)" "bit s 54" "n = 0"
  using assms by (auto simp: width_ok_def width_field_minus width_bit_40 bit_54)

section \<open>Taking the whole width\<close>

lemma width_field_full: "width_field (DISPATCH_QUEUE_WIDTH_FULL_BIT OR DISPATCH_QUEUE_IN_BARRIER) = 0x3000"
  by (simp add: width_field_def lane_up_div DISPATCH_QUEUE_WIDTH_FULL_BIT_def DISPATCH_QUEUE_IN_BARRIER_def)

lemma full_barrier_ok:
  assumes "\<And>k. 40 \<le> k \<Longrightarrow> k < 55 \<Longrightarrow> bit s k \<longleftrightarrow> k = 53 \<or> k = 54"
  shows "width_ok W In_barrier 0 s"
proof -
  have "width_field s = width_field (DISPATCH_QUEUE_WIDTH_FULL_BIT OR DISPATCH_QUEUE_IN_BARRIER)"
    by (rule width_field_cong) (use assms in \<open>auto simp: bit_or_iff dq_bits\<close>)
  then show ?thesis using assms [of 40] by (simp add: width_ok_def width_field_full)
qed

lemma pending_fits:
  assumes "dq_state_is_runnable s" "lane_width W"
  shows "s + pending_width W < DISPATCH_QUEUE_WIDTH_FULL_BIT \<longleftrightarrow> width_field s + unat W \<le> 0x1000"
proof -
  have up: "lane_up s < 0x1000" "lane_up s = width_field s"
    using assms(1) runnable_up not_suspended_field runnable_iff by blast+
  have "s + pending_width W < DISPATCH_QUEUE_WIDTH_FULL_BIT \<longleftrightarrow> lane_up (s + width_word (unat W - 1)) < 0x1000"
    using assms(2) by (simp add: pending_width_word lane_width_def flip: runnable_up dq_state_is_runnable_def)
  moreover have W: "0 < unat W" "unat W < 0x1000" using assms(2) by (simp_all add: lane_width_def)
  then have "lane_up s + (unat W - 1) < 2 ^ 23" using up by simp
  then have "lane_up (s + width_word (unat W - 1)) = width_field s + (unat W - 1)" using up(2) by (simp add: lane_up_plus)
  ultimately show ?thesis using W by auto
qed

text \<open>A runnable word whose lock is free has no non barrier item running when a barrier may start.\<close>

lemma idle_when_full:
  assumes "width_ok W Free n s" "dq_state_is_runnable s" "lane_width W"
    and "bit s 40 \<or> width_field s + unat W \<le> 0x1000"
  shows "n = 0"
  using assms by (auto simp: width_ok_def runnable_iff lane_width_def split: if_splits)

lemma try_lock_shared:
  assumes "width_ok W Free n s" "width_field s < 0x1000" "\<not> bit s 40"
    and "width_field s' = 0x1000" "\<not> bit s' 40"
  shows "width_ok W (Shared (0x1000 - width_field s)) n s'"
  using assms by (auto simp: width_ok_def)

lemma upgrade_ok:
  assumes ok: "width_ok W (Shared w) n s" and W: "lane_width W" and room: "width_field s + unat W \<le> 0x2000"
    and up: "dispatch_queue_try_upgrade_full_width W (width_word w) s = (s', full)"
  shows "if full then width_ok W In_barrier 0 s' \<and> n = 0 else width_ok W (Shared 0) n s'"
    and "k < 39 \<Longrightarrow> bit s' k = bit s k"
proof -
  define x where "x = (if \<not> bit s 40 then s - width_word w + (DISPATCH_QUEUE_PENDING_BARRIER + width_word (unat W - 1))
    else s - width_word w)"
  define y where "y = (if dq_state_is_runnable x
    then x + DISPATCH_QUEUE_WIDTH_INTERVAL + DISPATCH_QUEUE_IN_BARRIER - DISPATCH_QUEUE_PENDING_BARRIER else x)"
  have W': "0 < unat W" "unat W < 0x1000" using W by (simp_all add: lane_width_def)
  have s': "s' = y AND NOT DISPATCH_QUEUE_DIRTY" "full = bit s' 54"
    using up W' by (auto simp: dispatch_queue_try_upgrade_full_width_def Let_def x_def y_def
      dq_state_has_pending_barrier_def test_single pending_width_word)
  have w: "w \<le> width_field s" using ok W' by (auto simp: width_ok_def split: if_splits)
  have x_alt: "x = (if \<not> bit s 40 then ((s - width_word w) OR DISPATCH_QUEUE_PENDING_BARRIER) + width_word (unat W - 1)
      else s - width_word w)"
    unfolding x_def by (simp add: width_bit_40 add.assoc [symmetric] pending_add_clear)
  have x40: "bit x 40" unfolding x_alt by (auto simp: width_bit_40 pending_bit)
  have xf: "width_field x = (if bit s 40 then width_field s - w else width_field s - w + (unat W - 1))"
    unfolding x_alt using w ok room W' by (auto simp: width_field_minus field_pending width_field_plus width_ok_def)
  have x_ok: "width_ok W Free n x"
    using ok x40 xf w room W' by (auto simp: width_ok_def split: if_splits)
  have low_x: "bit x k = bit s k" if "k < 39" for k
    unfolding x_alt using that by (auto simp: low_bits_add low_bits_sub bit_or_iff dq_bits)
  have y_alt: "y = (if dq_state_is_runnable x then (x AND NOT DISPATCH_QUEUE_PENDING_BARRIER) + width_word 0x2001 else x)"
  proof -
    have "x + width_word 1 + width_word 0x2000 - DISPATCH_QUEUE_PENDING_BARRIER =
        x - DISPATCH_QUEUE_PENDING_BARRIER + (width_word 1 + width_word 0x2000)" by (simp add: algebra_simps)
    then show ?thesis unfolding y_def interval_width barrier_width width_word_add using pending_sub_set [OF x40] by simp
  qed
  show "bit s' k = bit s k" if "k < 39"
    using that low_x [OF that] unfolding s' y_alt by (auto simp: bit_and_iff bit_not_iff dq_bits low_bits_add)
  show "if full then width_ok W In_barrier 0 s' \<and> n = 0 else width_ok W (Shared 0) n s'"
  proof (cases "dq_state_is_runnable x")
    case True
    have n: "n = 0" by (rule idle_when_full [OF x_ok True W]) (simp add: x40)
    have "width_field x = 0xfff" using x_ok x40 True W' by (auto simp: width_ok_def runnable_iff)
    then have "width_field y = 0x3000" "\<not> bit y 40"
      using True by (auto simp: y_alt width_field_plus field_pending width_bit_40 pending_bit)
    then have "width_ok W In_barrier 0 y" by (simp add: width_ok_def)
    moreover have "width_ok W In_barrier 0 s' = width_ok W In_barrier 0 y"
      unfolding s' by (rule width_ok_cong) (auto simp: bit_and_iff bit_not_iff dq_bits)
    ultimately show ?thesis using s' n by (simp add: width_ok_def bit_54)
  next
    case False
    have "width_ok W (Shared 0) n y" using x_ok False unfolding y_alt by (simp add: width_ok_def)
    moreover have "width_ok W (Shared 0) n s' = width_ok W (Shared 0) n y"
      unfolding s' by (rule width_ok_cong) (auto simp: bit_and_iff bit_not_iff dq_bits)
    ultimately show ?thesis using s' by (simp add: width_ok_def bit_54)
  qed
qed

end
