(* ===== verification/Queue_Locking.thy ===== *)
theory Queue_Locking
  imports Queue_Account
begin

text \<open>
  What each operation on the state word of a lane does to the drain lock, to the flags that say
  where the lane is enqueued, and to the account of its width.
\<close>

section \<open>Owner bits\<close>

definition lane_owner :: "u64 \<Rightarrow> dispatch_tid \<Rightarrow> bool" where
  "lane_owner s t \<longleftrightarrow> same_owner (ucast s) t"

lemma lane_owner_iff: "lane_owner s t \<longleftrightarrow> (\<forall>k. 2 \<le> k \<and> k < 32 \<longrightarrow> bit s k = bit t k)"
proof -
  have "bit (ucast s :: u32) k = (k < 32 \<and> bit s k)" for k by (auto simp: bit_ucast_iff)
  moreover have "bit t k \<Longrightarrow> k < 32" for k using bit_imp_le_length [of t k] by simp
  ultimately show ?thesis unfolding lane_owner_def same_owner_def by auto
qed

lemma drain_locked_iff: "dq_state_drain_locked s \<longleftrightarrow> (\<exists>k. 2 \<le> k \<and> k < 32 \<and> bit s k)"
  unfolding dq_state_drain_locked_def is_locked_iff by (auto simp: bit_ucast_iff)

lemma lane_owner_locked: "thread_port t \<Longrightarrow> lane_owner s t \<Longrightarrow> dq_state_drain_locked s"
  unfolding lane_owner_def dq_state_drain_locked_def by (rule same_owner_locked)

lemma lane_owner_cong: "(\<And>k. 2 \<le> k \<Longrightarrow> k < 32 \<Longrightarrow> bit s k = bit s' k) \<Longrightarrow> lane_owner s t = lane_owner s' t"
  by (auto simp: lane_owner_iff)

lemma drain_locked_cong: "(\<And>k. 2 \<le> k \<Longrightarrow> k < 32 \<Longrightarrow> bit s k = bit s' k) \<Longrightarrow> dq_state_drain_locked s = dq_state_drain_locked s'"
  by (auto simp: drain_locked_iff)

lemma lane_value_bit: "bit (ucast (dispatch_lock_value_from_tid t) :: u64) k \<longleftrightarrow> 2 \<le> k \<and> k < 32 \<and> bit t k"
  using bit_imp_le_length [of t k] by (auto simp: bit_ucast_iff lock_value_bit)

lemma runnable_bits: "dq_state_is_runnable s \<longleftrightarrow> (\<forall>k. 53 \<le> k \<longrightarrow> \<not> bit s k)"
proof -
  have "(\<forall>k. 53 \<le> k \<longrightarrow> \<not> bit s k) \<longleftrightarrow> (\<forall>k. \<not> bit (drop_bit 12 (lane_up s)) k)"
  proof
    assume a: "\<forall>k. \<not> bit (drop_bit 12 (lane_up s)) k"
    show "\<forall>k. 53 \<le> k \<longrightarrow> \<not> bit s k"
    proof (intro allI impI)
      fix k :: nat assume "53 \<le> k"
      then show "\<not> bit s k" using a [rule_format, of "k - 53"] by (simp add: bit_drop_bit_eq bit_lane_up)
    qed
  qed (simp add: bit_drop_bit_eq bit_lane_up)
  also have "\<dots> \<longleftrightarrow> drop_bit 12 (lane_up s) = 0" by (metis bit_0_eq bit_eqI bot_apply bot_bool_def)
  also have "\<dots> \<longleftrightarrow> lane_up s < 0x1000" by (simp add: drop_bit_eq_div div_eq_0_iff)
  finally show ?thesis by (simp add: runnable_up)
qed

section \<open>Taking the drain lock\<close>

definition token_mask :: u64 where
  "token_mask = DISPATCH_QUEUE_ENQUEUED OR DISPATCH_QUEUE_ENQUEUED_ON_MGR"

lemma bit_token_mask [dq_bits]: "bit token_mask k \<longleftrightarrow> k = 0 \<or> k = 38"
  by (auto simp: token_mask_def bit_or_iff dq_bits)

lemma bit_below_full: "bit (DISPATCH_QUEUE_WIDTH_FULL_BIT - 1) k \<longleftrightarrow> k < 53"
proof -
  have "DISPATCH_QUEUE_WIDTH_FULL_BIT - 1 = mask 53" by (simp add: DQ_exp mask_eq_exp_minus_1)
  then show ?thesis by (simp only: bit_mask_iff possible_bit_word) auto
qed

lemma bit_lock_fail_mask: "bit (lock_fail_mask flags) k \<longleftrightarrow>
    53 \<le> k \<and> k < 64 \<or> 2 \<le> k \<and> k < 32 \<or>
    k = 38 \<and> (test flags DISPATCH_INVOKE_STEALING \<or> \<not> test flags DISPATCH_INVOKE_MANAGER_DRAIN)"
  unfolding lock_fail_mask_def Let_def
  by (auto simp: bit_or_iff bit_not_iff bit_below_full dq_bits)

lemma lock_not_failing:
  assumes "\<not> test s (lock_fail_mask flags)"
  shows "dq_state_is_runnable s" "\<not> dq_state_drain_locked s"
proof -
  have no: "\<not> (bit s k \<and> bit (lock_fail_mask flags) k)" for k using assms by (auto simp: test_bit_iff)
  have "\<not> bit s k" if "53 \<le> k" for k
    using no [of k] that bit_imp_le_length [of s k] by (auto simp: bit_lock_fail_mask)
  then show "dq_state_is_runnable s" by (simp add: runnable_bits)
  show "\<not> dq_state_drain_locked s" using no by (auto simp: drain_locked_iff bit_lock_fail_mask)
qed

lemma bit_dequeue_mask: "bit (dequeue_mask flags) k \<Longrightarrow> k = 0 \<or> k = 38"
  by (auto simp: dequeue_mask_def dq_bits split: if_splits)

lemma width_mask_word: "width_field s < 0x2000 \<Longrightarrow> s AND DISPATCH_QUEUE_WIDTH_MASK = width_word (width_field s)"
proof -
  assume f: "width_field s < 0x2000"
  have 13: "\<not> bit s 54" using f by (simp add: bit_54)
  have small: "bit (of_nat (width_field s) :: u64) k \<longleftrightarrow> k < 14 \<and> bit s (41 + k)" for k
    using bit_width_field [of s k] bit_imp_le_length [of s "41 + k"] by (auto simp: bit_of_nat_iff)
  have w: "bit (width_word (width_field s)) k \<longleftrightarrow> 41 \<le> k \<and> k < 55 \<and> bit s k" for k
  proof (cases "41 \<le> k")
    case True
    then show ?thesis using small [of "k - 41"] bit_imp_le_length [of s k]
      by (simp add: width_word_def bit_push_bit_iff) linarith
  qed (simp add: width_word_def bit_push_bit_iff)
  show ?thesis
  proof (rule bit_eqI)
    fix k
    have "k < 55 \<longleftrightarrow> k < 54 \<or> k = (54 :: nat)" by auto
    then show "bit (s AND DISPATCH_QUEUE_WIDTH_MASK) k = bit (width_word (width_field s)) k"
      unfolding w bit_and_iff dq_bits using 13 by auto
  qed
qed

text \<open>What a thread owns: flags it dequeued the lane with, barrier mode, and width units.\<close>

definition owned_word :: "u64 \<Rightarrow> bool \<Rightarrow> nat \<Rightarrow> u64" where
  "owned_word e b w = e + width_word (w + (if b then 0x2000 else 0))"

lemma width_word_diff: "b \<le> a \<Longrightarrow> width_word a - width_word b = width_word (a - b)"
  using width_word_add [of "a - b" b] by (simp add: algebra_simps)

lemma full_width_word: "DISPATCH_QUEUE_WIDTH_FULL_BIT = width_word 0x1000"
  by (simp add: width_word_mult DISPATCH_QUEUE_WIDTH_FULL_BIT_def DISPATCH_QUEUE_WIDTH_INTERVAL_def)

lemma drain_try_lock_fails:
  assumes "test s (lock_fail_mask flags)"
    and "dispatch_queue_drain_try_lock t W flags oq s = Drain_state s' owned"
  shows "owned = 0" "s' = s XOR dequeue_mask flags"
  using assms by (auto simp: dispatch_queue_drain_try_lock_def Let_def split: if_splits)

lemma drain_try_lock_takes:
  assumes free: "width_ok W Free n s" and W: "lane_width W" and mask: "\<not> test s (lock_fail_mask flags)"
    and lock: "dispatch_queue_drain_try_lock t W flags oq s = Drain_state s' owned"
  obtains b w where "owned = owned_word (s AND dequeue_mask flags) b w" "0 < w" "w \<le> unat W" "b \<longrightarrow> n = 0"
    "width_ok W (if b then In_barrier else Shared w) n s'" "lane_owner s' t"
    "\<And>k. k \<in> {0, 36, 37, 38} \<Longrightarrow> bit s' k = bit s k" "unat W = 1 \<longrightarrow> b"
proof -
  have run: "dq_state_is_runnable s" and unl: "\<not> dq_state_drain_locked s" using lock_not_failing [OF mask] by blast+
  have f: "width_field s < 0x1000" using run by (simp add: runnable_iff)
  define b where "b \<longleftrightarrow> dq_state_has_pending_barrier s \<or> s + pending_width W < DISPATCH_QUEUE_WIDTH_FULL_BIT"
  have b: "b \<longleftrightarrow> bit s 40 \<or> width_field s + unat W \<le> 0x1000"
    unfolding b_def using pending_fits [OF run W] by (simp add: dq_state_has_pending_barrier_def test_single)
  define w where "w = 0x1000 - width_field s"
  let ?own = "ucast (dispatch_lock_value_from_tid t) OR DISPATCH_QUEUE_WIDTH_FULL_BIT"
  have s': "s' = (s AND DISPATCH_QUEUE_DRAIN_PRESERVED_BITS_MASK OR ?own) OR (if b then DISPATCH_QUEUE_IN_BARRIER else 0)"
    and owned: "owned = (s' AND (DISPATCH_QUEUE_IN_BARRIER OR DISPATCH_QUEUE_WIDTH_FULL_BIT OR dequeue_mask flags)) -
      (s AND DISPATCH_QUEUE_WIDTH_MASK)"
    using lock mask by (auto simp: dispatch_queue_drain_try_lock_def Let_def b_def split: if_splits)
  have bits: "bit s' k \<longleftrightarrow> bit s k \<and> (k = 0 \<or> k = 38 \<or> 36 \<le> k \<and> k < 38 \<or> 32 \<le> k \<and> k < 35) \<or>
      2 \<le> k \<and> k < 32 \<and> bit t k \<or> k = 53 \<or> b \<and> k = 54" for k
    unfolding s' by (auto simp: bit_or_iff bit_and_iff lane_value_bit dq_bits)
  let ?e = "s AND dequeue_mask flags"
  have "(s' AND (DISPATCH_QUEUE_IN_BARRIER OR DISPATCH_QUEUE_WIDTH_FULL_BIT OR dequeue_mask flags)) =
      ?e OR (DISPATCH_QUEUE_WIDTH_FULL_BIT OR (if b then DISPATCH_QUEUE_IN_BARRIER else 0))"
    by (rule bit_eqI) (auto simp: bit_or_iff bit_and_iff bits dq_bits dest: bit_dequeue_mask)
  also have "\<dots> = ?e + (DISPATCH_QUEUE_WIDTH_FULL_BIT OR (if b then DISPATCH_QUEUE_IN_BARRIER else 0))"
    by (rule disjunctive_add_eq_or [symmetric], rule bit_eqI)
      (auto simp: bit_or_iff bit_and_iff dq_bits dest: bit_dequeue_mask)
  also have "DISPATCH_QUEUE_WIDTH_FULL_BIT OR (if b then DISPATCH_QUEUE_IN_BARRIER else 0) =
      DISPATCH_QUEUE_WIDTH_FULL_BIT + (if b then DISPATCH_QUEUE_IN_BARRIER else 0)"
    by (rule disjunctive_add_eq_or [symmetric], rule bit_eqI) (auto simp: bit_and_iff dq_bits)
  also have "\<dots> = width_word (0x1000 + (if b then 0x2000 else 0))"
    by (auto simp: full_width_word barrier_width width_word_add)
  finally have "owned = ?e + width_word (0x1000 + (if b then 0x2000 else 0)) - width_word (width_field s)"
    using owned f by (simp add: width_mask_word)
  also have "\<dots> = ?e + (width_word (0x1000 + (if b then 0x2000 else 0)) - width_word (width_field s))"
    by (simp add: algebra_simps)
  also have "\<dots> = owned_word ?e b w"
    using f by (auto simp: owned_word_def w_def width_word_diff)
  finally have o: "owned = owned_word ?e b w" .
  have wW: "0 < w" "w \<le> unat W" using f free by (auto simp: w_def width_ok_def split: if_splits)
  have n: "b \<Longrightarrow> n = 0" using idle_when_full [OF free run W] b by blast
  have ok: "width_ok W (if b then In_barrier else Shared w) n s'"
  proof (cases b)
    case True
    then show ?thesis using n full_barrier_ok [of s' W] by (simp add: bits)
  next
    case False
    have "width_field s' = width_field DISPATCH_QUEUE_WIDTH_FULL_BIT"
      by (rule width_field_cong) (use False in \<open>auto simp: bits dq_bits\<close>)
    also have "\<dots> = 0x1000" by (simp add: width_field_def lane_up_div DISPATCH_QUEUE_WIDTH_FULL_BIT_def)
    finally show ?thesis using False b try_lock_shared [OF free f] by (simp add: w_def bits)
  qed
  have own: "lane_owner s' t" by (auto simp: lane_owner_iff bits)
  have serial: "unat W = 1 \<longrightarrow> b" using b f by auto
  show thesis
    by (rule that [OF o wW _ ok own _ serial]) (use n in \<open>auto simp: bits\<close>)
qed

section \<open>Taking the whole width of an idle lane\<close>

lemma init_value_word: "lane_width W \<Longrightarrow> DISPATCH_QUEUE_STATE_INIT_VALUE W = width_word (0x1000 - unat W)"
proof -
  assume "lane_width W"
  then have "DISPATCH_QUEUE_WIDTH_FULL - ucast W = of_nat (0x1000 - unat W)"
    by (simp add: lane_width_def DISPATCH_QUEUE_WIDTH_FULL_def of_nat_diff)
  then show ?thesis by (simp add: DISPATCH_QUEUE_STATE_INIT_VALUE_def width_word_def)
qed

lemma width_field_word: "k < 0x4000 \<Longrightarrow> width_field (width_word k) = k"
  using width_field_add [of 0 k] by (simp add: width_field_def lane_up_div)

lemma width_word_low: "k < 41 \<Longrightarrow> \<not> bit (width_word w) k"
  by (simp add: width_word_def bit_push_bit_iff)

lemma barrier_sync_takes:
  assumes free: "width_ok W Free n s" and W: "lane_width W"
    and lock: "dispatch_queue_try_acquire_barrier_sync W t s = Some s'"
  shows "n = 0" "\<not> dq_state_drain_locked s" "width_ok W In_barrier 0 s'" "lane_owner s' t"
    "k \<in> {0, 36, 37, 38} \<Longrightarrow> bit s' k = bit s k"
proof -
  let ?role = "s AND DISPATCH_QUEUE_ROLE_MASK"
  have s: "s = (DISPATCH_QUEUE_STATE_INIT_VALUE W OR ?role)"
    and s': "s' = (DISPATCH_QUEUE_WIDTH_FULL_BIT OR DISPATCH_QUEUE_IN_BARRIER OR
      ucast (dispatch_lock_value_from_tid t) OR DISPATCH_QUEUE_UNCONTENDED_SYNC) OR ?role"
    using lock by (auto simp: dispatch_queue_try_acquire_barrier_sync_def
      dispatch_queue_try_acquire_barrier_sync_and_suspend_def Let_def split: if_splits)
  have bs: "bit s k \<longleftrightarrow> bit (DISPATCH_QUEUE_STATE_INIT_VALUE W) k \<or> bit s k \<and> 36 \<le> k \<and> k < 38" for k
    using arg_cong [OF s, of "\<lambda>x. bit x k"] unfolding bit_or_iff bit_and_iff dq_bits .
  have low: "\<not> bit s k" if "k < 36 \<or> k = 38 \<or> k = 40" for k
    using bs [of k] that by (auto simp: init_value_word [OF W] width_word_low)
  have bits: "bit s' k \<longleftrightarrow> k = 53 \<or> k = 54 \<or> k = 1 \<or> 2 \<le> k \<and> k < 32 \<and> bit t k \<or> 36 \<le> k \<and> k < 38 \<and> bit s k" for k
    unfolding s' by (auto simp: bit_or_iff bit_and_iff lane_value_bit dq_bits)
  have "width_field s = width_field (DISPATCH_QUEUE_STATE_INIT_VALUE W)"
  proof (rule width_field_cong)
    show "bit s k = bit (DISPATCH_QUEUE_STATE_INIT_VALUE W) k" if "41 \<le> k" for k using bs [of k] that by auto
  qed
  also have "\<dots> = 0x1000 - unat W" unfolding init_value_word [OF W] using W by (simp add: width_field_word lane_width_def)
  finally show "n = 0" using free W by (auto simp: width_ok_def lane_width_def split: if_splits)
  show "\<not> dq_state_drain_locked s" using low by (auto simp: drain_locked_iff)
  show "width_ok W In_barrier 0 s'" by (rule full_barrier_ok) (auto simp: bits)
  show "lane_owner s' t" by (auto simp: lane_owner_iff bits)
  show "bit s' k = bit s k" if "k \<in> {0, 36, 37, 38}"
    using that low [of 0] low [of 38] by (auto simp: bits)
qed

text \<open>The word that a push of a waiter and a resume put there when they take the lane.\<close>

lemma full_width_takes:
  assumes free: "width_ok W Free n s" and W: "lane_width W" and run: "dq_state_is_runnable x"
    and same: "\<And>k. 40 \<le> k \<Longrightarrow> k < 55 \<Longrightarrow> bit x k = bit s k"
    and fits: "dq_state_has_pending_barrier x \<or> x + pending_width W < DISPATCH_QUEUE_WIDTH_FULL_BIT"
    and s': "s' = (x AND DISPATCH_QUEUE_DRAIN_PRESERVED_BITS_MASK) OR full_width_and_in_barrier t"
  shows "n = 0" "width_ok W In_barrier 0 s'" "lane_owner s' t" "k \<in> {0, 36, 37, 38} \<Longrightarrow> bit s' k = bit x k"
proof -
  have x: "width_ok W Free n x" using free width_ok_cong [of x s W Free n] same by blast
  show "n = 0"
    by (rule idle_when_full [OF x run W])
      (use fits pending_fits [OF run W] in \<open>auto simp: dq_state_has_pending_barrier_def test_single\<close>)
  have bits: "bit s' k \<longleftrightarrow> bit x k \<and> (k = 0 \<or> k = 38 \<or> 36 \<le> k \<and> k < 38 \<or> 32 \<le> k \<and> k < 35) \<or>
      2 \<le> k \<and> k < 32 \<and> bit t k \<or> k = 53 \<or> k = 54 \<or> k = 1" for k
    unfolding s' full_width_and_in_barrier_def by (auto simp: bit_or_iff bit_and_iff lane_value_bit dq_bits)
  show "width_ok W In_barrier 0 s'" by (rule full_barrier_ok) (auto simp: bits)
  show "lane_owner s' t" by (auto simp: lane_owner_iff bits)
  show "bit s' k = bit x k" if "k \<in> {0, 36, 37, 38}" using that by (auto simp: bits)
qed

section \<open>Completions\<close>

text \<open>The attempt of a completion to take the lane for the barrier at its head.\<close>

lemma try_lock_complete:
  assumes x: "width_ok W Free n x" and W: "lane_width W"
    and y: "y = dispatch_lane_non_barrier_complete_try_lock W old x (ucast (dispatch_lock_value_from_tid t))"
  shows "\<not> bit x 54"
    and "bit y 54 \<Longrightarrow> n = 0 \<and> width_ok W In_barrier 0 y \<and>
        (\<forall>k<39. bit y k \<longleftrightarrow> bit x k \<or> 2 \<le> k \<and> k < 32 \<and> bit t k)"
    and "\<not> bit y 54 \<Longrightarrow> width_ok W Free n y \<and> (\<forall>k. 0 < k \<longrightarrow> bit y k = bit x k) \<and>
        (bit x 0 \<longrightarrow> bit y 0)"
proof -
  have W': "0 < unat W" "unat W < 0x1000" using W by (simp_all add: lane_width_def)
  have f: "width_field x < 0x2000" using x by (simp add: width_ok_def)
  show x54: "\<not> bit x 54" using f by (simp add: bit_54)
  define z where "z = (if bit x 40 then (x AND NOT DISPATCH_QUEUE_PENDING_BARRIER) + width_word 0x2001
    else x + width_word (unat W + 0x2000))"
  have full: "(if dq_state_has_pending_barrier x
      then x - DISPATCH_QUEUE_PENDING_BARRIER + DISPATCH_QUEUE_WIDTH_INTERVAL + DISPATCH_QUEUE_IN_BARRIER
      else x + ucast W * DISPATCH_QUEUE_WIDTH_INTERVAL + DISPATCH_QUEUE_IN_BARRIER) = z"
    unfolding z_def dq_state_has_pending_barrier_def test_single width_mult
    unfolding interval_width barrier_width
    by (auto simp: pending_sub_set add.assoc width_word_add)
  have zf: "width_field z mod 0x2000 = 0x1000 \<longleftrightarrow> width_field x + (if bit x 40 then 1 else unat W) = 0x1000"
  proof -
    have "width_field z = (width_field x + (if bit x 40 then 1 else unat W) + 0x2000) mod 0x4000"
      by (simp add: z_def width_field_add field_pending ac_simps)
    moreover have "(a + 0x2000) mod 0x4000 mod 0x2000 = a mod 0x2000" for a :: nat by (simp add: mod_mod_cancel)
    ultimately have z: "width_field z mod 0x2000 = (width_field x + (if bit x 40 then 1 else unat W)) mod 0x2000" by simp
    have "width_field x + (if bit x 40 then 1 else unat W) < 0x2000 + 0x1000" using f W' by auto
    moreover have "a mod 0x2000 = 0x1000 \<longleftrightarrow> a = 0x1000" if "a < 0x2000 + 0x1000" for a :: nat
      using that by (cases "a < 0x2000") (auto simp: le_mod_geq)
    ultimately have "(width_field x + (if bit x 40 then 1 else unat W)) mod 0x2000 = 0x1000 \<longleftrightarrow>
        width_field x + (if bit x 40 then 1 else unat W) = 0x1000" by blast
    then show ?thesis unfolding z .
  qed
  have y_alt: "y = (if width_field z mod 0x2000 = 0x1000 then (z AND NOT DISPATCH_QUEUE_DIRTY) OR ucast (dispatch_lock_value_from_tid t)
      else if dq_state_is_dirty old then x OR DISPATCH_QUEUE_ENQUEUED else x)"
    using y unfolding dispatch_lane_non_barrier_complete_try_lock_def Let_def full full_width_iff by simp
  show "n = 0 \<and> width_ok W In_barrier 0 y \<and> (\<forall>k<39. bit y k \<longleftrightarrow> bit x k \<or> 2 \<le> k \<and> k < 32 \<and> bit t k)" if "bit y 54"
  proof -
    have full_z: "width_field z mod 0x2000 = 0x1000"
      using that x54 unfolding y_alt by (auto simp: bit_or_iff dq_bits split: if_splits)
    then have sum: "width_field x + (if bit x 40 then 1 else unat W) = 0x1000" using zf by blast
    then have zf': "width_field z = 0x3000" by (auto simp: z_def width_field_plus field_pending)
    have z40: "\<not> bit z 40" by (auto simp: z_def width_bit_40 pending_bit)
    have "n = 0" using sum x W' by (auto simp: width_ok_def split: if_splits)
    moreover have "width_ok W In_barrier 0 z" using zf' z40 by (simp add: width_ok_def)
    moreover have "width_ok W In_barrier 0 y = width_ok W In_barrier 0 z"
      using full_z unfolding y_alt
      by (auto intro!: width_ok_cong simp: bit_or_iff bit_and_iff bit_not_iff lane_value_bit dq_bits)
    moreover have "bit y k \<longleftrightarrow> bit x k \<or> 2 \<le> k \<and> k < 32 \<and> bit t k" if "k < 39" for k
      using full_z that unfolding y_alt z_def
      by (auto simp: bit_or_iff bit_and_iff bit_not_iff lane_value_bit dq_bits low_bits_add)
    ultimately show ?thesis by blast
  qed
  show "width_ok W Free n y \<and> (\<forall>k. 0 < k \<longrightarrow> bit y k = bit x k) \<and> (bit x 0 \<longrightarrow> bit y 0)" if n54: "\<not> bit y 54"
  proof -
    have "width_field z mod 0x2000 \<noteq> 0x1000"
    proof
      assume full_z: "width_field z mod 0x2000 = 0x1000"
      then have "width_field x + (if bit x 40 then 1 else unat W) = 0x1000" using zf by blast
      then have "width_field z = 0x3000" by (auto simp: z_def width_field_plus field_pending)
      then have "bit z 54" by (simp add: bit_54)
      then show False using n54 full_z unfolding y_alt by (auto simp: bit_or_iff bit_and_iff bit_not_iff dq_bits)
    qed
    then have y': "y = (if dq_state_is_dirty old then x OR DISPATCH_QUEUE_ENQUEUED else x)" unfolding y_alt by simp
    have "width_ok W Free n y = width_ok W Free n x"
      unfolding y' by (rule width_ok_cong) (auto simp: bit_or_iff dq_bits)
    then show ?thesis using x unfolding y' by (auto simp: bit_or_iff dq_bits)
  qed
qed

section \<open>Giving back what is owned\<close>

text \<open>\<open>e\<close> is a part of the flags that say where the lane is enqueued.\<close>

definition token_of :: "u64 \<Rightarrow> u64 \<Rightarrow> bool" where
  "token_of e s \<longleftrightarrow> (\<forall>k. bit e k \<longrightarrow> (k = 0 \<or> k = 38) \<and> bit s k)"

lemma token_sub:
  assumes "token_of e s"
  shows "s - (e + x) = (s AND NOT e) - x"
proof -
  have "s - e = s AND NOT e"
    by (rule disjunctive_diff_eq_and_not, rule bit_eqI)
      (use assms in \<open>auto simp: token_of_def bit_and_iff bit_not_iff\<close>)
  then show ?thesis by (simp add: algebra_simps)
qed

definition mode_owns :: "u16 \<Rightarrow> lane_mode \<Rightarrow> bool \<Rightarrow> nat \<Rightarrow> bool" where
  "mode_owns W m b w \<longleftrightarrow> (if b then m = In_barrier \<and> w \<le> unat W else m = Shared w)"

lemma release_owned:
  assumes ok: "width_ok W m n s" and owns: "mode_owns W m b w" and e: "token_of e s" and W: "lane_width W"
  shows "width_ok W Free n (s - owned_word e b w)"
    and "k < 41 \<Longrightarrow> bit (s - owned_word e b w) k \<longleftrightarrow> bit s k \<and> \<not> bit e k"
proof -
  let ?s = "s AND NOT e"
  have eq: "s - owned_word e b w = ?s - width_word (w + (if b then 0x2000 else 0))"
    unfolding owned_word_def by (rule token_sub [OF e])
  have bits: "bit ?s k \<longleftrightarrow> bit s k \<and> \<not> bit e k" for k
    using bit_imp_le_length [of s k] by (auto simp: bit_and_iff bit_not_iff)
  have "width_ok W m n ?s = width_ok W m n s"
  proof (rule width_ok_cong)
    show "bit ?s k = bit s k" if "40 \<le> k" for k using e that unfolding bits token_of_def by fastforce
  qed
  then have ok': "width_ok W m n ?s" using ok by simp
  show "width_ok W Free n (s - owned_word e b w)"
  proof (cases b)
    case True
    then have m: "m = In_barrier" "w \<le> unat W" using owns by (simp_all add: mode_owns_def)
    have "n = 0" using ok m(1) by (simp add: width_ok_def)
    then show ?thesis unfolding eq using width_ok_release_barrier [OF ok' [unfolded m(1)] m(2)] W True
      by (simp add: lane_width_def add.commute)
  next
    case False
    then have "m = Shared w" using owns by (simp add: mode_owns_def)
    then show ?thesis unfolding eq using width_ok_release [of W w n "?s" w] ok' W False by (simp add: lane_width_def)
  qed
  show "bit (s - owned_word e b w) k \<longleftrightarrow> bit s k \<and> \<not> bit e k" if "k < 41"
    unfolding eq using that by (simp add: low_bits_sub bits)
qed

text \<open>The reservation for a pending barrier that is made when a drain stops before one.\<close>

lemma bit_sub_pending: "k < 40 \<Longrightarrow> bit (x - DISPATCH_QUEUE_PENDING_BARRIER) k = bit x k"
proof -
  assume k: "k < 40"
  have "DISPATCH_QUEUE_PENDING_BARRIER = push_bit 40 1" by (simp add: DISPATCH_QUEUE_PENDING_BARRIER_def)
  then show ?thesis using bit_sub_push [OF k, of x 1] by simp
qed

lemma bit_add_pending: "k < 40 \<Longrightarrow> bit (x + DISPATCH_QUEUE_PENDING_BARRIER) k = bit x k"
  using bit_sub_pending [of k "x + DISPATCH_QUEUE_PENDING_BARRIER"] by simp

lemma reserve_pending:
  assumes x: "width_ok W Free n x" and W: "lane_width W" and room: "width_field x + unat W < 0x2000"
  shows "width_ok W Free n (x + (DISPATCH_QUEUE_PENDING_BARRIER + pending_width W))"
    and "k < 40 \<Longrightarrow> bit (x + (DISPATCH_QUEUE_PENDING_BARRIER + pending_width W)) k = bit x k"
proof -
  have W': "0 < unat W" "unat W < 0x1000" using W by (simp_all add: lane_width_def)
  let ?z = "x + (DISPATCH_QUEUE_PENDING_BARRIER + pending_width W)"
  have z: "?z = x + DISPATCH_QUEUE_PENDING_BARRIER + width_word (unat W - 1)"
    using W' by (simp add: pending_width_word algebra_simps)
  show "bit ?z k = bit x k" if "k < 40"
    unfolding z using that by (simp add: low_bits_add bit_add_pending)
  show "width_ok W Free n ?z"
  proof (cases "bit x 40")
    case True
    have "?z = (x AND NOT DISPATCH_QUEUE_PENDING_BARRIER) + width_word (unat W)"
      unfolding z using W' by (simp add: pending_add_set [OF True] add.assoc width_word_add)
    then show ?thesis using x True W' room
      by (auto simp: width_ok_def width_field_plus field_pending width_bit_40 pending_bit)
  next
    case False
    have "?z = (x OR DISPATCH_QUEUE_PENDING_BARRIER) + width_word (unat W - 1)"
      unfolding z by (simp add: pending_add_clear [OF False])
    then show ?thesis using x False W' room
      by (auto simp: width_ok_def width_field_plus field_pending width_bit_40 pending_bit)
  qed
qed

lemma adjusted_owned:
  assumes e: "token_of e s" and W: "lane_width W"
  defines "r \<equiv> DISPATCH_QUEUE_PENDING_BARRIER + pending_width W"
  shows "s - (e OR (width_word k - r)) = s - (e + width_word k) + r" "s - (e OR width_word k) = s - (e + width_word k)"
proof -
  have low: "\<not> bit (width_word k - r) i" if "i < 40" for i
  proof -
    have "width_word k - r = width_word k - width_word (unat W - 1) - DISPATCH_QUEUE_PENDING_BARRIER"
      using W by (simp add: r_def pending_width_word lane_width_def algebra_simps)
    moreover have "i < 41" using that by simp
    ultimately have "bit (width_word k - r) i = bit (width_word k) i"
      by (simp only: bit_sub_pending [OF that] low_bits_sub)
    then show ?thesis using that by (simp add: width_word_low)
  qed
  have "e OR (width_word k - r) = e + (width_word k - r)"
    by (rule disjunctive_add_eq_or [symmetric], rule bit_eqI) (use e low in \<open>auto simp: token_of_def bit_and_iff\<close>)
  then show "s - (e OR (width_word k - r)) = s - (e + width_word k) + r" by (simp add: algebra_simps)
  have "e OR width_word k = e + width_word k"
    by (rule disjunctive_add_eq_or [symmetric], rule bit_eqI)
      (use e in \<open>auto simp: token_of_def bit_and_iff width_word_low\<close>)
  then show "s - (e OR width_word k) = s - (e + width_word k)" by simp
qed

end
