(* ===== verification/Queue_Lane.thy ===== *)
theory Queue_Lane
  imports Queue_Locking
begin

text \<open>
  A lane of a fixed width whose state word any number of threads update: \<open>dispatch_sync\<close>,
  \<open>dispatch_barrier_sync\<close>, asynchronous items, drains on the target queue, completions, lock
  transfers, wakeups, suspension and activation. A step is one atomic update of the word with what
  the C function does around it. What is in the queue is not part of the state: a step that looks
  at the queue is there for each thing it can find. The lane does not target a workloop.
\<close>

section \<open>States\<close>

text \<open>
  Where a thread is: outside; in barrier mode with the whole width, running a barrier item or
  completing one; in \<open>_dispatch_queue_class_invoke\<close> with what \<open>owned\<close> says; in the loop
  of \<open>_dispatch_lane_drain\<close> with its own \<open>owned\<close> and the caller's; in the loop of
  \<open>_dispatch_lane_drain_non_barriers\<close> with \<open>owned_width\<close>.
\<close>

datatype lane_pc =
    Lane_out
  | Lane_barrier
  | Lane_invoke u64
  | Lane_drain u64 u64
  | Lane_non_barriers nat

text \<open>\<open>running\<close> is not in the code: the non barrier items that have a width unit each.\<close>

record lane_sys =
  dq_state :: u64
  lane_pcs :: "dispatch_tid \<Rightarrow> lane_pc"
  running :: nat

definition lane_move :: "lane_sys \<Rightarrow> u64 \<Rightarrow> (dispatch_tid \<Rightarrow> lane_pc) \<Rightarrow> nat \<Rightarrow> lane_sys" where
  "lane_move s st pcs n = \<lparr>dq_state = st, lane_pcs = pcs, running = n\<rparr>"

text \<open>\<open>e\<close> is set and no thread that drains the lane owns it: the lane is on its target's list.\<close>

fun lane_token :: "lane_pc \<Rightarrow> u64" where
  "lane_token (Lane_invoke owned) = owned AND token_mask"
| "lane_token (Lane_drain owned owned_ptr) = owned_ptr AND token_mask"
| "lane_token _ = 0"

definition lane_queued :: "lane_sys \<Rightarrow> u64 \<Rightarrow> bool" where
  "lane_queued s e \<longleftrightarrow> token_of e (dq_state s) \<and> (\<forall>t. lane_token (lane_pcs s t) AND e = 0)"

definition enqueue_flag :: "u64 \<Rightarrow> bool" where
  "enqueue_flag e \<longleftrightarrow> e = DISPATCH_QUEUE_ENQUEUED \<or> e = DISPATCH_QUEUE_ENQUEUED_ON_MGR"

section \<open>Pieces of the drain\<close>

text \<open>How \<open>_dispatch_lane_drain\<close> starts from the caller's \<open>owned\<close> and ends.\<close>

definition drain_owned :: "u16 \<Rightarrow> u64 \<Rightarrow> u64" where
  "drain_owned dq_width owned =
     (if dq_width = 1 \<or> dq_state_is_in_barrier owned then DISPATCH_QUEUE_IN_BARRIER
      else owned AND DISPATCH_QUEUE_WIDTH_MASK)"

definition drain_end_owned :: "u16 \<Rightarrow> u64 \<Rightarrow> u64" where
  "drain_end_owned dq_width owned =
     (if owned = DISPATCH_QUEUE_IN_BARRIER then owned + ucast dq_width * DISPATCH_QUEUE_WIDTH_INTERVAL else owned)"

definition drain_owned_ptr :: "u64 \<Rightarrow> u64 \<Rightarrow> u64" where
  "drain_owned_ptr owned_ptr owned =
     (owned_ptr AND (DISPATCH_QUEUE_ENQUEUED OR DISPATCH_QUEUE_ENQUEUED_ON_MGR)) OR owned"

definition completed_pcs :: "dispatch_tid \<Rightarrow> u64 \<Rightarrow> u64 \<Rightarrow> (dispatch_tid \<Rightarrow> lane_pc) \<Rightarrow> dispatch_tid \<Rightarrow> lane_pc" where
  "completed_pcs t old_state new_state pcs =
     (if dispatch_lane_non_barrier_complete_finish old_state new_state = Complete_barrier
      then pcs(t := Lane_barrier) else pcs)"

section \<open>Steps\<close>

inductive lane_step :: "u16 \<Rightarrow> lane_sys \<Rightarrow> lane_sys \<Rightarrow> bool" for W where
  sync_width: "1 < W \<Longrightarrow> width_field (dq_state s) + 1 < 0x2000 \<Longrightarrow>
    dispatch_queue_try_reserve_sync_width items (dq_state s) = Some st \<Longrightarrow>
    lane_step W s (lane_move s st (lane_pcs s) (Suc (running s)))"
| async_width: "1 < W \<Longrightarrow> dispatch_queue_try_acquire_async (dq_state s) = Some st \<Longrightarrow>
    lane_step W s (lane_move s st (lane_pcs s) (Suc (running s)))"
| completes: "thread_port t \<Longrightarrow> running s = Suc n \<Longrightarrow>
    dispatch_lane_non_barrier_complete t W (dq_state s) = st \<Longrightarrow>
    lane_step W s (lane_move s st (completed_pcs t (dq_state s) st (lane_pcs s)) n)"
| barrier_sync: "thread_port t \<Longrightarrow> lane_pcs s t = Lane_out \<Longrightarrow>
    dispatch_queue_try_acquire_barrier_sync W t (dq_state s) = Some st \<Longrightarrow>
    lane_step W s (lane_move s st ((lane_pcs s)(t := Lane_barrier)) (running s))"
| drain_lock: "thread_port t \<Longrightarrow> lane_pcs s t = Lane_out \<Longrightarrow> lane_queued s (dequeue_mask flags) \<Longrightarrow>
    dispatch_queue_drain_try_lock t W flags oq_floor (dq_state s) = Drain_state st owned \<Longrightarrow>
    lane_step W s (lane_move s st (if owned = 0 then lane_pcs s else (lane_pcs s)(t := Lane_invoke owned)) (running s))"
| drain_begin: "lane_pcs s t = Lane_invoke owned \<Longrightarrow>
    lane_step W s (lane_move s (dq_state s) ((lane_pcs s)(t := Lane_drain (drain_owned W owned) owned)) (running s))"
| drain_upgrade: "lane_pcs s t = Lane_drain owned ptr \<Longrightarrow> 1 < W \<Longrightarrow> owned \<noteq> DISPATCH_QUEUE_IN_BARRIER \<Longrightarrow>
    width_field (dq_state s) + unat W \<le> 0x2000 \<Longrightarrow>
    dispatch_queue_try_upgrade_full_width W owned (dq_state s) = (st, full) \<Longrightarrow>
    lane_step W s (lane_move s st ((lane_pcs s)(t := if full then Lane_drain DISPATCH_QUEUE_IN_BARRIER ptr
      else Lane_invoke (drain_owned_ptr ptr 0))) (running s))"
| drain_waiter: "lane_pcs s t = Lane_drain DISPATCH_QUEUE_IN_BARRIER ptr \<Longrightarrow> thread_port u \<Longrightarrow>
    lane_pcs s u = Lane_out \<or> u = t \<Longrightarrow>
    dispatch_lane_drain_barrier_waiter u next_dc (drain_owned_ptr ptr 0) (dq_state s) = Transfer_state st \<Longrightarrow>
    lane_step W s (lane_move s st ((lane_pcs s)(t := Lane_out, u := Lane_barrier)) (running s))"
| drain_drop_barrier: "lane_pcs s t = Lane_drain DISPATCH_QUEUE_IN_BARRIER ptr \<Longrightarrow> 1 < W \<Longrightarrow>
    lane_step W s (lane_move s (dq_state s XOR DISPATCH_QUEUE_IN_BARRIER)
      ((lane_pcs s)(t := Lane_drain (ucast W * DISPATCH_QUEUE_WIDTH_INTERVAL) ptr)) (running s))"
| drain_reserve: "lane_pcs s t = Lane_drain 0 ptr \<Longrightarrow> width_field (dq_state s) + 1 < 0x2000 \<Longrightarrow>
    lane_step W s (lane_move s (dispatch_queue_reserve_sync_width (dq_state s))
      ((lane_pcs s)(t := Lane_drain DISPATCH_QUEUE_WIDTH_INTERVAL ptr)) (running s))"
| drain_async: "lane_pcs s t = Lane_drain 0 ptr \<Longrightarrow> dispatch_queue_try_acquire_async (dq_state s) = Some st \<Longrightarrow>
    lane_step W s (lane_move s st ((lane_pcs s)(t := Lane_drain DISPATCH_QUEUE_WIDTH_INTERVAL ptr)) (running s))"
| drain_no_width: "lane_pcs s t = Lane_drain 0 ptr \<Longrightarrow> dispatch_queue_try_acquire_async (dq_state s) = None \<Longrightarrow>
    lane_step W s (lane_move s (dq_state s) ((lane_pcs s)(t := Lane_invoke (drain_owned_ptr ptr 0))) (running s))"
| drain_give: "lane_pcs s t = Lane_drain owned ptr \<Longrightarrow> owned \<noteq> DISPATCH_QUEUE_IN_BARRIER \<Longrightarrow> owned \<noteq> 0 \<Longrightarrow>
    lane_step W s (lane_move s (dq_state s)
      ((lane_pcs s)(t := Lane_drain (owned - DISPATCH_QUEUE_WIDTH_INTERVAL) ptr)) (Suc (running s)))"
| drain_ends: "lane_pcs s t = Lane_drain owned ptr \<Longrightarrow>
    lane_step W s (lane_move s (dq_state s)
      ((lane_pcs s)(t := Lane_invoke (drain_owned_ptr ptr (drain_end_owned W owned)))) (running s))"
| drain_stops: "lane_pcs s t = Lane_drain owned ptr \<Longrightarrow> enqueue_flag enqueued \<Longrightarrow>
    next_barrier \<longrightarrow> width_field (dq_state s - drain_owned_ptr ptr (drain_end_owned W owned)) + unat W < 0x2000 \<Longrightarrow>
    dispatch_queue_invoke_finish enqueued
      (drain_owned_ptr ptr (dispatch_queue_adjust_owned W (drain_end_owned W owned) next_barrier)) (dq_state s) = st \<Longrightarrow>
    lane_step W s (lane_move s st ((lane_pcs s)(t := Lane_out)) (running s))"
| unlock: "lane_pcs s t = Lane_invoke owned \<Longrightarrow>
    dispatch_queue_drain_try_unlock owned done_all (dq_state s) = Some st \<Longrightarrow>
    lane_step W s (lane_move s st ((lane_pcs s)(t := Lane_out)) (running s))"
| finish: "lane_pcs s t = Lane_invoke owned \<Longrightarrow> enqueue_flag enqueued \<Longrightarrow>
    dispatch_queue_invoke_finish enqueued owned (dq_state s) = st \<Longrightarrow>
    lane_step W s (lane_move s st ((lane_pcs s)(t := Lane_out)) (running s))"
| renew: "lane_pcs s t \<noteq> Lane_out \<Longrightarrow>
    lane_step W s (lane_move s (dispatch_queue_renew (dq_state s)) (lane_pcs s) (running s))"
| barrier_waiter: "lane_pcs s t = Lane_barrier \<Longrightarrow> thread_port u \<Longrightarrow> lane_pcs s u = Lane_out \<or> u = t \<Longrightarrow>
    dispatch_lane_drain_barrier_waiter u next_dc 0 (dq_state s) = Transfer_state st \<Longrightarrow>
    lane_step W s (lane_move s st ((lane_pcs s)(t := Lane_out, u := Lane_barrier)) (running s))"
| barrier_release: "lane_pcs s t = Lane_barrier \<Longrightarrow> enqueue = 0 \<or> enqueue_flag enqueue \<Longrightarrow> qos \<le> 6 \<Longrightarrow>
    dispatch_lane_class_barrier_complete enqueue qos (barrier_owned W) (dq_state s) = Transfer_state st \<Longrightarrow>
    lane_step W s (lane_move s st ((lane_pcs s)(t := Lane_out)) (running s))"
| barrier_sync_release: "lane_pcs s t = Lane_barrier \<Longrightarrow> W = 1 \<Longrightarrow>
    dispatch_lane_barrier_sync_invoke_and_complete (dq_state s) = Some st \<Longrightarrow>
    lane_step W s (lane_move s st ((lane_pcs s)(t := Lane_out)) (running s))"
| non_barriers: "lane_pcs s t = Lane_barrier \<Longrightarrow> 1 < W \<Longrightarrow>
    lane_step W s (lane_move s (dq_state s AND NOT DISPATCH_QUEUE_IN_BARRIER)
      ((lane_pcs s)(t := Lane_non_barriers (unat W))) (running s))"
| non_barriers_give: "lane_pcs s t = Lane_non_barriers (Suc owned_width) \<Longrightarrow>
    lane_step W s (lane_move s (dq_state s) ((lane_pcs s)(t := Lane_non_barriers owned_width)) (Suc (running s)))"
| non_barriers_reserve: "lane_pcs s t = Lane_non_barriers 0 \<Longrightarrow> width_field (dq_state s) + 1 < 0x2000 \<Longrightarrow>
    lane_step W s (lane_move s (dispatch_queue_reserve_sync_width (dq_state s)) (lane_pcs s) (Suc (running s)))"
| non_barriers_async: "lane_pcs s t = Lane_non_barriers 0 \<Longrightarrow>
    dispatch_queue_try_acquire_async (dq_state s) = Some st \<Longrightarrow>
    lane_step W s (lane_move s st (lane_pcs s) (Suc (running s)))"
| non_barriers_unlock: "lane_pcs s t = Lane_non_barriers owned_width \<Longrightarrow>
    owned = (let owned = of_nat owned_width * DISPATCH_QUEUE_WIDTH_INTERVAL in
             if dc then dispatch_queue_adjust_owned W owned next_barrier else owned) \<Longrightarrow>
    next_barrier \<longrightarrow> width_field (dq_state s - of_nat owned_width * DISPATCH_QUEUE_WIDTH_INTERVAL) + unat W < 0x2000 \<Longrightarrow>
    drain_non_barriers_unlock t W dc owned (dq_state s) = Some st \<Longrightarrow>
    lane_step W s (lane_move s st (completed_pcs t (dq_state s - owned) st ((lane_pcs s)(t := Lane_out))) (running s))"
| push_waiter: "thread_port t \<Longrightarrow> lane_pcs s t = Lane_out \<Longrightarrow> qos \<le> 6 \<Longrightarrow>
    dispatch_lane_push_waiter t W qos (dq_state s) = st \<Longrightarrow>
    lane_step W s (lane_move s st (if test (dq_state s XOR st) DISPATCH_QUEUE_IN_BARRIER
      then (lane_pcs s)(t := Lane_barrier) else lane_pcs s) (running s))"
| wakeup: "enqueue_flag enqueue \<Longrightarrow> qos \<le> 6 \<Longrightarrow>
    lane_step W s (lane_move s (dispatch_queue_wakeup enqueue qos flags (dq_state s)) (lane_pcs s) (running s))"
| wakeup_override: "qos \<le> 6 \<Longrightarrow>
    lane_step W s (lane_move s (queue_wakeup_override qos (dq_state s)) (lane_pcs s) (running s))"
| suspends: "dispatch_lane_suspend (dq_state s) = Some st \<Longrightarrow>
    lane_step W s (lane_move s st (lane_pcs s) (running s))"
| suspends_slow: "dispatch_lane_suspend_slow side (dq_state s) = Slow_done st side' \<Longrightarrow>
    lane_step W s (lane_move s st (lane_pcs s) (running s))"
| resumes_slow: "dispatch_lane_resume_slow side (dq_state s) = Slow_done st side' \<Longrightarrow>
    lane_step W s (lane_move s st (lane_pcs s) (running s))"
| resumes: "thread_port t \<Longrightarrow> dispatch_lane_resume False t W op (dq_state s) = Resume_state st \<Longrightarrow>
    lane_step W s (lane_move s st (if lane_resume_action (dq_state s) st = Resume_barrier_complete
      then (lane_pcs s)(t := Lane_barrier) else lane_pcs s) (running s))"

definition lane_init :: "u16 \<Rightarrow> lane_sys \<Rightarrow> bool" where
  "lane_init W s \<longleftrightarrow> lane_width W \<and> lane_pcs s = (\<lambda>_. Lane_out) \<and> running s = 0 \<and>
     (\<exists>inactive. dq_state s = dispatch_queue_init_state W (if inactive then DISPATCH_QUEUE_INACTIVE else 0))"

section \<open>Invariant\<close>

text \<open>What a thread that holds the lock is in the position to have.\<close>

definition lane_pc_ok :: "u16 \<Rightarrow> u64 \<Rightarrow> lane_mode \<Rightarrow> lane_pc \<Rightarrow> bool" where
  "lane_pc_ok W st m pc \<longleftrightarrow> (m = In_barrier \<or> (\<exists>w. m = Shared w) \<and> 1 < unat W) \<and>
     (case pc of
        Lane_out \<Rightarrow> False
      | Lane_barrier \<Rightarrow> m = In_barrier
      | Lane_invoke owned \<Rightarrow> (\<exists>e b w. owned = owned_word e b w \<and> token_of e st \<and> mode_owns W m b w)
      | Lane_drain owned ptr \<Rightarrow> token_of (ptr AND token_mask) st \<and>
          (owned = width_word 0x2000 \<and> m = In_barrier \<or> (\<exists>w<0x2000. owned = width_word w \<and> m = Shared w))
      | Lane_non_barriers k \<Rightarrow> m = Shared k)"

definition lane_free :: "u16 \<Rightarrow> lane_sys \<Rightarrow> bool" where
  "lane_free W s \<longleftrightarrow> (\<forall>t. lane_pcs s t = Lane_out) \<and> \<not> dq_state_drain_locked (dq_state s) \<and>
     width_ok W Free (running s) (dq_state s)"

definition lane_held :: "u16 \<Rightarrow> lane_sys \<Rightarrow> dispatch_tid \<Rightarrow> lane_mode \<Rightarrow> bool" where
  "lane_held W s t m \<longleftrightarrow> thread_port t \<and> lane_owner (dq_state s) t \<and> (\<forall>u. u \<noteq> t \<longrightarrow> lane_pcs s u = Lane_out) \<and>
     lane_pc_ok W (dq_state s) m (lane_pcs s t) \<and> width_ok W m (running s) (dq_state s)"

definition lane_inv :: "u16 \<Rightarrow> lane_sys \<Rightarrow> bool" where
  "lane_inv W s \<longleftrightarrow> lane_width W \<and> \<not> bit (dq_state s) 37 \<and> (lane_free W s \<or> (\<exists>t m. lane_held W s t m))"

end
