(* ===== verification/Queue_Lane_Steps.thy ===== *)
theory Queue_Lane_Steps
  imports Queue_Lane
begin

text \<open>Steps of a lane, first part: how the invariant is shown, and the steps of threads outside and of
  the thread that drains.\<close>

section \<open>Introduction rules\<close>

lemma lane_move_simps [simp]:
  "dq_state (lane_move s st pcs n) = st" "lane_pcs (lane_move s st pcs n) = pcs" "running (lane_move s st pcs n) = n"
  by (simp_all add: lane_move_def)

lemma lane_inv_W: "lane_inv W s \<Longrightarrow> lane_width W"
  by (simp add: lane_inv_def)

lemma token_word: "token_of e st \<Longrightarrow> owned_word e b w AND token_mask = e"
proof -
  assume e: "token_of e st"
  have low: "bit (owned_word e b w) k = bit e k" if "k < 41" for k
    unfolding owned_word_def using that by (rule low_bits_add)
  show ?thesis
  proof (rule bit_eqI)
    fix k
    show "bit (owned_word e b w AND token_mask) k = bit e k"
      using low [of k] e by (auto simp: bit_and_iff bit_token_mask token_of_def)
  qed
qed

lemma lane_pc_token:
  assumes "lane_pc_ok W st m pc"
  shows "token_of (lane_token pc) st"
proof (cases pc)
  case (Lane_invoke owned)
  then obtain e b w where "owned = owned_word e b w" "token_of e st"
    using assms by (auto simp: lane_pc_ok_def)
  then show ?thesis using Lane_invoke by (simp add: token_word)
qed (use assms in \<open>auto simp: lane_pc_ok_def token_of_def\<close>)

lemma lane_pc_ok_mono:
  assumes ok: "lane_pc_ok W st m pc"
    and kept: "\<And>k. k = 0 \<or> k = 38 \<Longrightarrow> bit st k \<Longrightarrow> bit (lane_token pc) k \<Longrightarrow> bit st' k"
  shows "lane_pc_ok W st' m pc"
proof -
  have up: "token_of (lane_token pc) st'"
    unfolding token_of_def using lane_pc_token [OF ok] kept unfolding token_of_def by blast
  show ?thesis
  proof (cases pc)
    case (Lane_invoke owned)
    then obtain e b w where o: "owned = owned_word e b w" "token_of e st" "mode_owns W m b w"
      using ok by (auto simp: lane_pc_ok_def)
    then have "e = lane_token pc" using Lane_invoke by (simp add: token_word)
    then have e: "token_of e st'" using up by simp
    have "\<exists>e b w. owned = owned_word e b w \<and> token_of e st' \<and> mode_owns W m b w"
      using o(1,3) e by blast
    then show ?thesis using ok Lane_invoke by (simp add: lane_pc_ok_def)
  next
    case (Lane_drain owned ptr)
    then show ?thesis using ok up by (simp add: lane_pc_ok_def)
  qed (use ok in \<open>auto simp: lane_pc_ok_def\<close>)
qed

lemma lane_holder:
  assumes "lane_inv W s" "lane_pcs s t \<noteq> Lane_out"
  obtains m where "lane_held W s t m"
proof -
  have "\<not> lane_free W s" using assms(2) by (auto simp: lane_free_def)
  then obtain u m where h: "lane_held W s u m" using assms(1) by (auto simp: lane_inv_def)
  then have "u = t" using assms(2) by (auto simp: lane_held_def)
  then show thesis using that h by blast
qed

lemma lane_unlocked:
  assumes "lane_inv W s" "\<not> dq_state_drain_locked (dq_state s)"
  shows "lane_free W s"
  using assms lane_owner_locked by (auto simp: lane_inv_def lane_held_def)

lemma lane_inv_foreign:
  assumes inv: "lane_inv W s"
    and width: "\<And>m. width_ok W m (running s) (dq_state s) \<Longrightarrow> width_ok W m n st"
    and owner: "\<And>k. 2 \<le> k \<Longrightarrow> k < 32 \<Longrightarrow> bit st k = bit (dq_state s) k"
    and role: "bit st 37 = bit (dq_state s) 37"
    and tokens: "\<And>k t. k = 0 \<or> k = 38 \<Longrightarrow> bit (dq_state s) k \<Longrightarrow> bit (lane_token (lane_pcs s t)) k \<Longrightarrow> bit st k"
  shows "lane_inv W (lane_move s st (lane_pcs s) n)"
proof -
  have own: "lane_owner st t = lane_owner (dq_state s) t" for t by (rule lane_owner_cong) (use owner in auto)
  have lock: "dq_state_drain_locked st = dq_state_drain_locked (dq_state s)"
    by (rule drain_locked_cong) (use owner in auto)
  have "lane_free W s \<Longrightarrow> lane_free W (lane_move s st (lane_pcs s) n)"
    using width by (simp add: lane_free_def lock)
  moreover have "lane_held W s t m \<Longrightarrow> lane_held W (lane_move s st (lane_pcs s) n) t m" for t m
    using width lane_pc_ok_mono [of W "dq_state s" m "lane_pcs s t" st] tokens by (simp add: lane_held_def own)
  ultimately show ?thesis using inv role by (auto simp: lane_inv_def)
qed

lemma lane_inv_hold:
  assumes "lane_width W" "thread_port t" "\<And>u. u \<noteq> t \<Longrightarrow> pcs u = Lane_out"
    and "lane_owner st t" "lane_pc_ok W st m (pcs t)" "width_ok W m n st" "\<not> bit st 37"
  shows "lane_inv W (lane_move s st pcs n)"
  using assms unfolding lane_inv_def lane_held_def by auto

lemma lane_inv_drop:
  assumes "lane_width W" "\<And>u. u \<noteq> t \<Longrightarrow> pcs u = Lane_out" "pcs t = Lane_out"
    and "\<And>k. 2 \<le> k \<Longrightarrow> k < 32 \<Longrightarrow> \<not> bit st k" "width_ok W Free n st" "\<not> bit st 37"
  shows "lane_inv W (lane_move s st pcs n)"
proof -
  have "\<forall>u. pcs u = Lane_out" using assms(2,3) by metis
  moreover have "\<not> dq_state_drain_locked st" using assms(4) by (auto simp: drain_locked_iff)
  ultimately show ?thesis using assms by (auto simp: lane_inv_def lane_free_def)
qed

section \<open>Steps of threads outside\<close>

lemma merge_qos_bits:
  assumes "qos \<le> 6" "k < 32 \<or> 36 \<le> k"
  shows "bit (dq_state_merge_qos s qos) k = bit s k"
proof -
  have "bit qos k' \<Longrightarrow> k' < 3" for k'
  proof -
    assume b: "bit qos k'"
    have "unat qos < 2 ^ 3" using assms(1) by (simp add: word_le_nat_alt)
    then have "take_bit 3 (unat qos) = unat qos" by (simp add: take_bit_nat_eq_self_iff)
    then have "bit (take_bit 3 (unat qos)) k'" using b by (simp add: bit_unsigned_iff)
    then show "k' < 3" by (simp add: bit_take_bit_iff)
  qed
  then have "bit (dq_state_from_qos qos) k \<Longrightarrow> 32 \<le> k \<and> k < 35"
    unfolding dq_state_from_qos_def by (auto simp: bit_push_bit_iff bit_ucast_iff; fastforce)
  then show ?thesis using assms(2) unfolding dq_state_merge_qos_def Let_def
    by (auto simp: bit_or_iff bit_and_iff bit_not_iff dq_bits dest: bit_imp_le_length)
qed

lemma bit_less_64: "bit (s :: u64) k \<Longrightarrow> k < 64"
  using bit_imp_le_length [of s k] by simp

lemma bit_clear: "bit (s AND NOT m :: u64) k \<longleftrightarrow> bit s k \<and> \<not> bit m k"
  by (auto simp: bit_and_iff bit_not_iff dest: bit_less_64)

lemma lane_not_barrier:
  assumes "width_field s < 0x2000" "width_ok W m n s"
  shows "m \<noteq> In_barrier"
  using assms by (auto simp: width_ok_def)

lemma reserve_width:
  assumes "width_field s + 1 < 0x2000" "width_ok W m n s"
  shows "width_ok W m (Suc n) (s + DISPATCH_QUEUE_WIDTH_INTERVAL)"
proof -
  have "m \<noteq> In_barrier" by (rule lane_not_barrier [OF _ assms(2)]) (use assms(1) in simp)
  then show ?thesis unfolding interval_width by (rule width_ok_take(1) [OF assms(2) _ assms(1)])
qed

lemma step_sync_width:
  assumes inv: "lane_inv W s" and room: "width_field (dq_state s) + 1 < 0x2000"
  shows "lane_inv W (lane_move s (dq_state s + DISPATCH_QUEUE_WIDTH_INTERVAL) (lane_pcs s) (Suc (running s)))"
proof (rule lane_inv_foreign [OF inv])
  show "width_ok W m (Suc (running s)) (dq_state s + DISPATCH_QUEUE_WIDTH_INTERVAL)"
    if "width_ok W m (running s) (dq_state s)" for m
    by (rule reserve_width [OF room that])
qed (auto simp: interval_width low_bits_add)

lemma try_acquire_async_room:
  "dispatch_queue_try_acquire_async s = Some st \<Longrightarrow> width_field s + 1 < 0x2000 \<and> st = s + DISPATCH_QUEUE_WIDTH_INTERVAL"
  by (auto simp: dispatch_queue_try_acquire_async_def runnable_iff split: if_splits)

lemma step_completes:
  assumes inv: "lane_inv W s" and t: "thread_port t" and n: "running s = Suc n"
    and st: "dispatch_lane_non_barrier_complete t W (dq_state s) = st"
  shows "lane_inv W (lane_move s st (completed_pcs t (dq_state s) st (lane_pcs s)) n)"
proof -
  have W: "lane_width W" using inv by (rule lane_inv_W)
  have W': "0 < unat W" "unat W < 0x1000" using W by (simp_all add: lane_width_def)
  let ?s = "dq_state s" and ?x = "dq_state s - DISPATCH_QUEUE_WIDTH_INTERVAL"
  have give: "width_ok W m n ?x" if "width_ok W m (running s) ?s" for m
  proof -
    have "m \<noteq> In_barrier" using that n by (auto simp: width_ok_def)
    then show ?thesis unfolding interval_width using width_ok_give that n W' by simp
  qed
  have low: "bit ?x k = bit ?s k" if "k < 41" for k unfolding interval_width using that by (rule low_bits_sub)
  have s54: "\<not> bit ?s 54"
  proof -
    obtain m where "width_ok W m (running s) ?s" using inv by (auto simp: lane_inv_def lane_free_def lane_held_def)
    then show ?thesis using n by (auto simp: width_ok_def bit_54 split: if_splits)
  qed
  have quiet: "lane_inv W (lane_move s st (completed_pcs t ?s st (lane_pcs s)) n)"
    if w: "\<And>m. width_ok W m (running s) ?s \<Longrightarrow> width_ok W m n st" and n54: "\<not> bit st 54"
      and b: "\<And>k. 0 < k \<Longrightarrow> k < 39 \<Longrightarrow> bit st k = bit ?s k" and b0: "bit ?s 0 \<Longrightarrow> bit st 0"
  proof -
    have "\<not> test (?s XOR st) DISPATCH_QUEUE_IN_BARRIER" unfolding test_single using s54 n54 by (simp add: bit_xor_iff)
    then have "completed_pcs t ?s st (lane_pcs s) = lane_pcs s"
      by (auto simp: completed_pcs_def dispatch_lane_non_barrier_complete_finish_def)
    moreover have "lane_inv W (lane_move s st (lane_pcs s) n)"
      by (rule lane_inv_foreign [OF inv w]) (use b b0 in auto)
    ultimately show ?thesis by simp
  qed
  show ?thesis
  proof (cases "dq_state_drain_locked ?s")
    case True
    then have st': "st = ?x OR DISPATCH_QUEUE_DIRTY" using st by (simp add: dispatch_lane_non_barrier_complete_def)
    have cong: "width_ok W m n st = width_ok W m n ?x" for m
      unfolding st' by (rule width_ok_cong) (auto simp: bit_or_iff dq_bits)
    have "\<not> bit ?x 54"
    proof -
      obtain m where m: "width_ok W m (running s) ?s" using inv by (auto simp: lane_inv_def lane_free_def lane_held_def)
      then have "m \<noteq> In_barrier" using n by (auto simp: width_ok_def)
      then show ?thesis using give [OF m] by (simp add: width_ok_def bit_54)
    qed
    then show ?thesis using give low unfolding st'
      by (intro quiet [unfolded st'] ) (auto simp: cong [unfolded st'] bit_or_iff dq_bits)
  next
    case False
    have free: "lane_free W s" by (rule lane_unlocked [OF inv False])
    have x: "width_ok W Free n ?x" using give free by (simp add: lane_free_def)
    show ?thesis
    proof (cases "dq_state_is_runnable ?x")
      case False
      then have "st = ?x" using st \<open>\<not> dq_state_drain_locked ?s\<close> by (simp add: dispatch_lane_non_barrier_complete_def Let_def)
      moreover have "\<not> bit ?x 54" using x by (simp add: width_ok_def bit_54)
      ultimately show ?thesis using give low by (intro quiet) auto
    next
      case True
      then have y: "st = dispatch_lane_non_barrier_complete_try_lock W ?s ?x (ucast (dispatch_lock_value_from_tid t))"
        using st \<open>\<not> dq_state_drain_locked ?s\<close> by (simp add: dispatch_lane_non_barrier_complete_def Let_def)
      note T = try_lock_complete [OF x W y]
      show ?thesis
      proof (cases "bit st 54")
        case False
        have "width_ok W m n st" if "width_ok W m (running s) ?s" for m
        proof -
          have "width_ok W Free n st" using T(3) [OF False] by blast
          moreover have "m \<noteq> In_barrier" using that n by (auto simp: width_ok_def)
          moreover have "width_ok W m n ?x" by (rule give [OF that])
          moreover have "width_field st = width_field ?x" "bit st 40 = bit ?x 40"
            using T(3) [OF False] by (auto intro: width_field_cong)
          ultimately show ?thesis by (simp add: width_ok_def)
        qed
        then show ?thesis using T(3) [OF False] low False by (intro quiet) auto
      next
        case True
        have "test (?s XOR st) DISPATCH_QUEUE_IN_BARRIER" unfolding test_single using s54 True by (simp add: bit_xor_iff)
        then have pcs: "completed_pcs t ?s st (lane_pcs s) = (lane_pcs s)(t := Lane_barrier)"
          by (simp add: completed_pcs_def dispatch_lane_non_barrier_complete_finish_def)
        have bits: "bit st k \<longleftrightarrow> bit ?s k \<or> 2 \<le> k \<and> k < 32 \<and> bit t k" if "k < 39" for k
          using T(2) [OF True] low that by auto
        have "\<not> bit ?s k" if "2 \<le> k" "k < 32" for k
          using \<open>\<not> dq_state_drain_locked ?s\<close> that by (auto simp: drain_locked_iff)
        then have own: "lane_owner st t" using bits by (auto simp: lane_owner_iff)
        have "\<not> bit st 37" using bits [of 37] inv by (auto simp: lane_inv_def)
        then show ?thesis unfolding pcs using T(2) [OF True] W t own free
          by (intro lane_inv_hold [of W t _ _ In_barrier]) (auto simp: lane_free_def lane_pc_ok_def)
      qed
    qed
  qed
qed

section \<open>Steps that give the lane back\<close>

lemma step_gives_back:
  assumes inv: "lane_inv W s" and held: "lane_held W s t m" and owns: "mode_owns W m b w" and e: "token_of e (dq_state s)"
    and width: "\<And>k. 40 \<le> k \<Longrightarrow> k < 55 \<Longrightarrow> bit y k = bit (dq_state s - owned_word e b w) k"
    and low: "\<And>k. 2 \<le> k \<Longrightarrow> k < 32 \<Longrightarrow> \<not> bit y k" and role: "bit y 37 \<longrightarrow> bit (dq_state s - owned_word e b w) 37"
  shows "lane_inv W (lane_move s y ((lane_pcs s)(t := Lane_out)) (running s))"
proof -
  have W: "lane_width W" using inv by (rule lane_inv_W)
  have ok: "width_ok W m (running s) (dq_state s)" and others: "\<And>u. u \<noteq> t \<Longrightarrow> lane_pcs s u = Lane_out"
    using held by (auto simp: lane_held_def)
  note R = release_owned [OF ok owns e W]
  show ?thesis
  proof (rule lane_inv_drop [OF W, of t])
    show "width_ok W Free (running s) y" using R(1) width_ok_cong [of y "dq_state s - owned_word e b w"] width by blast
    show "\<not> bit y 37" using role R(2) [of 37] inv by (auto simp: lane_inv_def)
  qed (use others low in auto)
qed

lemma step_gives_back_pending:
  assumes inv: "lane_inv W s" and held: "lane_held W s t m" and owns: "mode_owns W m b w" and e: "token_of e (dq_state s)"
    and room: "width_field (dq_state s - owned_word e b w) + unat W < 0x2000"
    and width: "\<And>k. 40 \<le> k \<Longrightarrow> k < 55 \<Longrightarrow>
      bit y k = bit (dq_state s - owned_word e b w + (DISPATCH_QUEUE_PENDING_BARRIER + pending_width W)) k"
    and low: "\<And>k. 2 \<le> k \<Longrightarrow> k < 32 \<Longrightarrow> \<not> bit y k"
    and role: "bit y 37 \<longrightarrow> bit (dq_state s - owned_word e b w + (DISPATCH_QUEUE_PENDING_BARRIER + pending_width W)) 37"
  shows "lane_inv W (lane_move s y ((lane_pcs s)(t := Lane_out)) (running s))"
proof -
  have W: "lane_width W" using inv by (rule lane_inv_W)
  have ok: "width_ok W m (running s) (dq_state s)" and others: "\<And>u. u \<noteq> t \<Longrightarrow> lane_pcs s u = Lane_out"
    using held by (auto simp: lane_held_def)
  note R = release_owned [OF ok owns e W]
  note P = reserve_pending [OF R(1) W room]
  show ?thesis
  proof (rule lane_inv_drop [OF W, of t])
    show "width_ok W Free (running s) y"
      using P(1) width_ok_cong [of y "dq_state s - owned_word e b w + (DISPATCH_QUEUE_PENDING_BARRIER + pending_width W)"] width by blast
    show "\<not> bit y 37" using role P(2) [of 37] R(2) [of 37] inv by (auto simp: lane_inv_def)
  qed (use others low in auto)
qed

lemma step_unlock:
  assumes inv: "lane_inv W s" and pc: "lane_pcs s t = Lane_invoke owned"
    and st: "dispatch_queue_drain_try_unlock owned done_all (dq_state s) = Some st"
  shows "lane_inv W (lane_move s st ((lane_pcs s)(t := Lane_out)) (running s))"
proof -
  obtain m where held: "lane_held W s t m" using lane_holder [OF inv, of t] pc by auto
  then obtain e b w where o: "owned = owned_word e b w" "token_of e (dq_state s)" "mode_owns W m b w"
    using pc by (auto simp: lane_held_def lane_pc_ok_def)
  let ?x = "dq_state s - owned_word e b w"
  have "st = ?x AND NOT DISPATCH_QUEUE_DRAIN_UNLOCK_MASK \<or>
      st = (?x AND NOT DISPATCH_QUEUE_DRAIN_UNLOCK_MASK) AND NOT DISPATCH_QUEUE_MAX_QOS_MASK \<or>
      st = (?x AND NOT DISPATCH_QUEUE_DRAIN_UNLOCK_MASK) OR DISPATCH_QUEUE_DIRTY"
    using st unfolding o(1) dispatch_queue_drain_try_unlock_def Let_def by (auto split: if_splits)
  then show ?thesis
    by (elim disjE; intro step_gives_back [OF inv held o(3,2)]; simp add: bit_clear bit_or_iff dq_bits)
qed

lemma invoke_finish_bits:
  assumes "enqueue_flag enq"
  shows "40 \<le> k \<Longrightarrow> bit (dispatch_queue_invoke_finish enq owned s) k = bit (s - owned) k"
    and "2 \<le> k \<Longrightarrow> k < 32 \<Longrightarrow> \<not> bit (dispatch_queue_invoke_finish enq owned s) k"
    and "bit (dispatch_queue_invoke_finish enq owned s) 37 \<longrightarrow> bit (s - owned) 37"
  using assms unfolding dispatch_queue_invoke_finish_def Let_def enqueue_flag_def
  by (auto simp: bit_clear bit_or_iff dq_bits)

lemma step_finish:
  assumes inv: "lane_inv W s" and pc: "lane_pcs s t = Lane_invoke owned" and enq: "enqueue_flag enq"
  shows "lane_inv W (lane_move s (dispatch_queue_invoke_finish enq owned (dq_state s)) ((lane_pcs s)(t := Lane_out)) (running s))"
proof -
  obtain m where held: "lane_held W s t m" using lane_holder [OF inv, of t] pc by auto
  then obtain e b w where o: "owned = owned_word e b w" "token_of e (dq_state s)" "mode_owns W m b w"
    using pc by (auto simp: lane_held_def lane_pc_ok_def)
  show ?thesis unfolding o(1)
    by (rule step_gives_back [OF inv held o(3,2)]) (use invoke_finish_bits [OF enq] in auto)
qed

text \<open>A drain knows what it owns.\<close>

lemma drain_end_word:
  assumes held: "lane_held W s t m" and pc: "lane_pcs s t = Lane_drain owned ptr"
  obtains b w where "drain_end_owned W owned = width_word (w + (if b then 0x2000 else 0))" "mode_owns W m b w"
    "token_of (ptr AND token_mask) (dq_state s)"
proof -
  note result = that
  have ok: "lane_pc_ok W (dq_state s) m (Lane_drain owned ptr)" using held pc by (simp add: lane_held_def)
  then consider "owned = width_word 0x2000" "m = In_barrier" | w where "w < 0x2000" "owned = width_word w" "m = Shared w"
    by (auto simp: lane_pc_ok_def)
  then show thesis
  proof cases
    case 1
    then have "drain_end_owned W owned = width_word (unat W + 0x2000)"
      unfolding drain_end_owned_def barrier_width [symmetric] width_mult
      by (simp add: barrier_width width_word_add add.commute)
    then show thesis using result [where b = True and w = "unat W"] ok 1 by (auto simp: mode_owns_def lane_pc_ok_def)
  next
    case 2
    then have "owned \<noteq> DISPATCH_QUEUE_IN_BARRIER"
      unfolding barrier_width using width_field_word [of w] width_field_word [of "0x2000"] by auto
    then have "drain_end_owned W owned = width_word w" using 2 by (simp add: drain_end_owned_def)
    then show thesis using result [where b = False and w = w] ok 2 by (auto simp: mode_owns_def lane_pc_ok_def)
  qed
qed

lemma drain_owned_ptr_alt: "drain_owned_ptr ptr owned = (ptr AND token_mask) OR owned"
  by (simp add: drain_owned_ptr_def token_mask_def)

lemma step_drain_stops:
  assumes inv: "lane_inv W s" and pc: "lane_pcs s t = Lane_drain owned ptr" and enq: "enqueue_flag enq"
    and room: "next_barrier \<longrightarrow> width_field (dq_state s - drain_owned_ptr ptr (drain_end_owned W owned)) + unat W < 0x2000"
  shows "lane_inv W (lane_move s (dispatch_queue_invoke_finish enq
      (drain_owned_ptr ptr (dispatch_queue_adjust_owned W (drain_end_owned W owned) next_barrier)) (dq_state s))
      ((lane_pcs s)(t := Lane_out)) (running s))"
proof -
  have W: "lane_width W" using inv by (rule lane_inv_W)
  obtain m where held: "lane_held W s t m" using lane_holder [OF inv, of t] pc by auto
  obtain b w where o: "drain_end_owned W owned = width_word (w + (if b then 0x2000 else 0))" and owns: "mode_owns W m b w"
    and e: "token_of (ptr AND token_mask) (dq_state s)"
    using drain_end_word [OF held pc] .
  let ?e = "ptr AND token_mask"
  note A = adjusted_owned [OF e W, of "w + (if b then 0x2000 else 0)", folded owned_word_def]
  show ?thesis
  proof (cases "W > 1 \<and> next_barrier")
    case True
    have "width_field (dq_state s - owned_word ?e b w) + unat W < 0x2000"
      using room True unfolding drain_owned_ptr_alt o A(2) by blast
    then show ?thesis using True
      by (intro step_gives_back_pending [OF inv held owns e])
        (auto simp: dispatch_queue_adjust_owned_def drain_owned_ptr_alt o A invoke_finish_bits [OF enq]
          simp flip: A(1) dest: invoke_finish_bits(3) [OF enq, rule_format])
  next
    case False
    then have "dispatch_queue_adjust_owned W (drain_end_owned W owned) next_barrier = drain_end_owned W owned"
      by (auto simp: dispatch_queue_adjust_owned_def)
    then show ?thesis
      by (intro step_gives_back [OF inv held owns e])
        (auto simp: drain_owned_ptr_alt o invoke_finish_bits [OF enq] simp flip: A(2)
          dest: invoke_finish_bits(3) [OF enq, rule_format])
  qed
qed

section \<open>Steps of the thread that drains\<close>

lemma lane_held_hold:
  assumes inv: "lane_inv W s" and held: "lane_held W s t m" and pcs: "\<And>u. u \<noteq> t \<Longrightarrow> pcs u = lane_pcs s u"
    and owner: "\<And>k. 2 \<le> k \<Longrightarrow> k < 32 \<Longrightarrow> bit st k = bit (dq_state s) k" and role: "bit st 37 \<longrightarrow> bit (dq_state s) 37"
    and pc: "lane_pc_ok W st m' (pcs t)" and width: "width_ok W m' n st"
  shows "lane_inv W (lane_move s st pcs n)"
proof (rule lane_inv_hold [where t = t and m = m'])
  show "lane_width W" using inv by (rule lane_inv_W)
  show "lane_pc_ok W st m' (pcs t)" "width_ok W m' n st" by (fact pc, fact width)
  show "thread_port t" using held by (simp add: lane_held_def)
  show "lane_owner st t" using held lane_owner_cong [of st "dq_state s" t] owner by (auto simp: lane_held_def)
  show "\<not> bit st 37" using role inv by (auto simp: lane_inv_def)
  show "pcs u = Lane_out" if "u \<noteq> t" for u using pcs [OF that] held that by (simp add: lane_held_def)
qed

lemma lane_heldD:
  assumes "lane_held W s t m"
  shows "width_ok W m (running s) (dq_state s)" "lane_pc_ok W (dq_state s) m (lane_pcs s t)" "thread_port t"
    "lane_owner (dq_state s) t" "u \<noteq> t \<Longrightarrow> lane_pcs s u = Lane_out"
  using assms by (auto simp: lane_held_def)

lemma step_drain_lock:
  assumes inv: "lane_inv W s" and t: "thread_port t" and out: "lane_pcs s t = Lane_out"
    and q: "lane_queued s (dequeue_mask flags)"
    and st: "dispatch_queue_drain_try_lock t W flags oq (dq_state s) = Drain_state st owned"
  shows "lane_inv W (lane_move s st (if owned = 0 then lane_pcs s else (lane_pcs s)(t := Lane_invoke owned)) (running s))"
proof (cases "test (dq_state s) (lock_fail_mask flags)")
  case True
  note F = drain_try_lock_fails [OF True st]
  have dq: "bit (dequeue_mask flags) k \<Longrightarrow> k = 0 \<or> k = 38" for k by (rule bit_dequeue_mask)
  have bits: "bit st k \<longleftrightarrow> bit (dq_state s) k \<noteq> bit (dequeue_mask flags) k" for k
    unfolding F(2) by (simp add: bit_xor_iff)
  have tok: "\<not> (bit (lane_token (lane_pcs s u)) k \<and> bit (dequeue_mask flags) k)" for u k
    using q unfolding lane_queued_def by (metis bit_0_eq bit_and_iff bot_apply bot_bool_def)
  have "lane_inv W (lane_move s st (lane_pcs s) (running s))"
  proof (rule lane_inv_foreign [OF inv])
    show "width_ok W m (running s) st" if "width_ok W m (running s) (dq_state s)" for m
      using that width_ok_cong [of st "dq_state s" W m "running s"] dq bits by force
    show "bit st k" if "bit (dq_state s) k" "bit (lane_token (lane_pcs s u)) k" for k u
      using that tok [of u k] bits [of k] by blast
  qed (use dq bits in force)+
  then show ?thesis using F(1) by simp
next
  case False
  have free: "lane_free W s" by (rule lane_unlocked [OF inv]) (use lock_not_failing [OF False] in blast)
  then have ok: "width_ok W Free (running s) (dq_state s)" by (simp add: lane_free_def)
  obtain b w where o: "owned = owned_word (dq_state s AND dequeue_mask flags) b w" "0 < w" "w \<le> unat W"
    and T: "b \<longrightarrow> running s = 0" "width_ok W (if b then In_barrier else Shared w) (running s) st" "lane_owner st t"
    and bits: "\<And>k. k \<in> {0, 36, 37, 38} \<Longrightarrow> bit st k = bit (dq_state s) k" and serial: "unat W = 1 \<longrightarrow> b"
    using drain_try_lock_takes [OF ok lane_inv_W [OF inv] False st] by blast
  let ?e = "dq_state s AND dequeue_mask flags"
  have e: "token_of ?e st" unfolding token_of_def bit_and_iff using bits bit_dequeue_mask by force
  have W: "lane_width W" by (rule lane_inv_W [OF inv])
  have "width_field owned = w + (if b then 0x2000 else 0)"
  proof -
    have "width_field (?e + width_word (w + (if b then 0x2000 else 0))) = (width_field ?e + (w + (if b then 0x2000 else 0))) mod 0x4000"
      by (rule width_field_add)
    moreover have "width_field ?e = width_field 0"
      by (rule width_field_cong) (auto simp: bit_and_iff dest: bit_dequeue_mask)
    moreover have "width_field 0 = 0" by (simp add: width_field_def lane_up_div)
    moreover have "w < 0x1000" using o(3) W by (simp add: lane_width_def)
    ultimately show ?thesis unfolding o(1) owned_word_def by simp
  qed
  then have "owned \<noteq> 0" using o(2) by (auto simp: width_field_def lane_up_div)
  moreover have "1 < unat W" if "\<not> b" using that serial W by (auto simp: lane_width_def)
  then have pc: "lane_pc_ok W st (if b then In_barrier else Shared w) (Lane_invoke owned)"
    using o e by (auto simp: lane_pc_ok_def mode_owns_def)
  ultimately show ?thesis using T bits [of 37] inv W t free
    by (simp, intro lane_inv_hold [of W t _ _ "if b then In_barrier else Shared w"])
      (auto simp: lane_free_def lane_inv_def)
qed

lemma drain_owned_word:
  assumes "owned = owned_word e b w" "token_of e st" "mode_owns W m b w" "m = In_barrier \<or> 1 < unat W" "w < 0x2000"
  shows "drain_owned W owned = (if b then width_word 0x2000 else width_word w)"
proof -
  have f: "width_field owned = w + (if b then 0x2000 else 0)"
  proof -
    have "width_field e = width_field 0" by (rule width_field_cong) (use assms(2) in \<open>auto simp: token_of_def\<close>)
    then show ?thesis using assms(5) unfolding assms(1) owned_word_def width_field_add
      by (simp add: width_field_def lane_up_div)
  qed
  have "dq_state_is_in_barrier owned \<longleftrightarrow> b"
    using f assms(5) by (simp add: dq_state_is_in_barrier_def test_single bit_54)
  moreover have "b" if "W = 1" using assms(3,4) that by (auto simp: mode_owns_def split: if_splits)
  moreover have "owned AND DISPATCH_QUEUE_WIDTH_MASK = width_word w" if "\<not> b"
    using width_mask_word [of owned] f that assms(5) by simp
  ultimately show ?thesis by (auto simp: drain_owned_def barrier_width)
qed

lemma mode_units_bound: "mode_owns W m b w \<Longrightarrow> width_ok W m n st \<Longrightarrow> lane_width W \<Longrightarrow> w < 0x2000"
  by (auto simp: mode_owns_def width_ok_def lane_width_def split: if_splits)

lemma step_drain_begin:
  assumes inv: "lane_inv W s" and pc: "lane_pcs s t = Lane_invoke owned"
  shows "lane_inv W (lane_move s (dq_state s) ((lane_pcs s)(t := Lane_drain (drain_owned W owned) owned)) (running s))"
proof -
  obtain m where held: "lane_held W s t m" using lane_holder [OF inv, of t] pc by auto
  note H = lane_heldD [OF held]
  obtain e b w where o: "owned = owned_word e b w" "token_of e (dq_state s)" "mode_owns W m b w"
    and m: "m = In_barrier \<or> (\<exists>w. m = Shared w) \<and> 1 < unat W"
    using H(2) pc by (auto simp: lane_pc_ok_def)
  have w: "w < 0x2000" by (rule mode_units_bound [OF o(3) H(1) lane_inv_W [OF inv]])
  have d: "drain_owned W owned = (if b then width_word 0x2000 else width_word w)"
    by (rule drain_owned_word [OF o]) (use m w in auto)
  have "lane_pc_ok W (dq_state s) m (Lane_drain (drain_owned W owned) owned)"
    using m w o d by (auto simp: lane_pc_ok_def mode_owns_def token_word split: if_splits)
  then show ?thesis by (intro lane_held_hold [OF inv held _ _ _ _ H(1)]) auto
qed

text \<open>Moves between modes while the lock is kept.\<close>

lemma lane_drain_cases:
  assumes "lane_pc_ok W st m (Lane_drain owned ptr)"
  obtains "owned = DISPATCH_QUEUE_IN_BARRIER" "m = In_barrier"
  | w where "w < 0x2000" "owned = width_word w" "owned \<noteq> DISPATCH_QUEUE_IN_BARRIER" "m = Shared w" "1 < unat W"
proof -
  note result = that
  consider "owned = width_word 0x2000" "m = In_barrier" | w where "w < 0x2000" "owned = width_word w" "m = Shared w"
    using assms by (auto simp: lane_pc_ok_def)
  then show thesis
  proof cases
    case 1
    then show thesis using result(1) by (simp add: barrier_width)
  next
    case 2
    have "width_word w \<noteq> width_word 0x2000" using 2(1) width_field_word [of w] width_field_word [of "0x2000"] by auto
    then show thesis using result(2) [OF 2(1,2)] 2 assms by (auto simp: barrier_width lane_pc_ok_def)
  qed
qed

lemma drain_ptr_token: "token_of (ptr AND token_mask) st \<Longrightarrow> drain_owned_ptr ptr 0 = owned_word (ptr AND token_mask) False 0"
  by (simp add: drain_owned_ptr_alt owned_word_def width_word_def)

lemma lane_invoke_none:
  assumes "token_of (ptr AND token_mask) st" "1 < unat W"
  shows "lane_pc_ok W st (Shared 0) (Lane_invoke (drain_owned_ptr ptr 0))"
  using assms drain_ptr_token [OF assms(1)] by (auto simp: lane_pc_ok_def mode_owns_def)

lemma step_drain_upgrade:
  assumes inv: "lane_inv W s" and pc: "lane_pcs s t = Lane_drain owned ptr" and nb: "owned \<noteq> DISPATCH_QUEUE_IN_BARRIER"
    and room: "width_field (dq_state s) + unat W \<le> 0x2000"
    and st: "dispatch_queue_try_upgrade_full_width W owned (dq_state s) = (st, full)"
  shows "lane_inv W (lane_move s st ((lane_pcs s)(t := if full then Lane_drain DISPATCH_QUEUE_IN_BARRIER ptr
      else Lane_invoke (drain_owned_ptr ptr 0))) (running s))"
proof -
  obtain m where held: "lane_held W s t m" using lane_holder [OF inv, of t] pc by auto
  note H = lane_heldD [OF held]
  have pcok: "lane_pc_ok W (dq_state s) m (Lane_drain owned ptr)" using H(2) pc by simp
  then obtain w where w: "owned = width_word w" "m = Shared w" "1 < unat W" using nb by (auto elim: lane_drain_cases)
  note U = upgrade_ok [OF H(1) [unfolded w(2)] lane_inv_W [OF inv] room st [unfolded w(1)]]
  have tok: "token_of (ptr AND token_mask) st" using pcok U(2) by (auto simp: lane_pc_ok_def token_of_def)
  define m' where "m' = (if full then In_barrier else Shared 0)"
  have "width_ok W m' (running s) st" using U(1) by (auto simp: m'_def)
  moreover have "lane_pc_ok W st m' (if full then Lane_drain DISPATCH_QUEUE_IN_BARRIER ptr else Lane_invoke (drain_owned_ptr ptr 0))"
    using tok lane_invoke_none [OF tok w(3)] by (auto simp: m'_def lane_pc_ok_def barrier_width)
  ultimately show ?thesis by (intro lane_held_hold [OF inv held, where m' = m']) (auto simp: U(2))
qed

lemma barrier_waiter_state:
  assumes "dispatch_lane_drain_barrier_waiter u next_dc e st = Transfer_state st'" "\<not> bit st 37" "token_of e st"
  shows "st' = (st AND NOT DISPATCH_QUEUE_DRAIN_UNLOCK_MASK AND NOT DISPATCH_QUEUE_DIRTY OR
    ucast (dispatch_lock_value_from_tid u)) AND NOT e"
proof -
  let ?y = "st AND NOT DISPATCH_QUEUE_DRAIN_UNLOCK_MASK AND NOT DISPATCH_QUEUE_DIRTY OR ucast (dispatch_lock_value_from_tid u)"
  have "\<not> dq_state_is_base_wlh st" using assms(2) by (simp add: dq_state_is_base_wlh_def test_single)
  then have "st' = ?y - e" using assms(1)
    by (auto simp: dispatch_lane_drain_barrier_waiter_def Let_def split: if_splits)
  moreover have "token_of e ?y"
    using assms(3) by (auto simp: token_of_def bit_or_iff bit_and_iff bit_not_iff dq_bits)
  then have "?y - e = ?y AND NOT e" using token_sub [of e ?y 0] by simp
  ultimately show ?thesis by simp
qed

lemma step_barrier_waiter:
  assumes inv: "lane_inv W s" and held: "lane_held W s t In_barrier" and u: "thread_port u" "lane_pcs s u = Lane_out \<or> u = t"
    and e: "token_of e (dq_state s)"
    and st: "dispatch_lane_drain_barrier_waiter u next_dc e (dq_state s) = Transfer_state st"
  shows "lane_inv W (lane_move s st ((lane_pcs s)(t := Lane_out, u := Lane_barrier)) (running s))"
proof -
  note H = lane_heldD [OF held]
  have role: "\<not> bit (dq_state s) 37" using inv by (simp add: lane_inv_def)
  note st' = barrier_waiter_state [OF st role e]
  have bits: "bit st k \<longleftrightarrow> (bit (dq_state s) k \<and> \<not> (2 \<le> k \<and> k < 32 \<or> k = 35 \<or> k = 1 \<or> k = 39) \<or>
      2 \<le> k \<and> k < 32 \<and> bit u k) \<and> \<not> bit e k" for k
    unfolding st' by (auto simp: bit_or_iff bit_and_iff bit_not_iff lane_value_bit dq_bits dest: bit_less_64)
  have ebit: "bit e k \<Longrightarrow> k = 0 \<or> k = 38" for k using e by (simp add: token_of_def)
  show ?thesis
  proof (rule lane_inv_hold [where t = u and m = In_barrier])
    show "lane_width W" using inv by (rule lane_inv_W)
    have "width_ok W In_barrier (running s) st = width_ok W In_barrier (running s) (dq_state s)"
      by (rule width_ok_cong) (use ebit in \<open>force simp: bits\<close>)
    then show "width_ok W In_barrier (running s) st" using H(1) by simp
    show "lane_owner st u" using ebit by (force simp: lane_owner_iff bits)
    show "\<not> bit st 37" using role by (simp add: bits)
    show "((lane_pcs s)(t := Lane_out, u := Lane_barrier)) v = Lane_out" if "v \<noteq> u" for v
      using H(5) [of v] that by auto
  qed (use u in \<open>auto simp: lane_pc_ok_def\<close>)
qed

lemma lane_barrier_mode:
  assumes inv: "lane_inv W s" and pc: "lane_pcs s t = Lane_barrier \<or> lane_pcs s t = Lane_drain DISPATCH_QUEUE_IN_BARRIER ptr"
  shows "lane_held W s t In_barrier"
proof -
  have "lane_pcs s t \<noteq> Lane_out" using pc by auto
  then obtain m where held: "lane_held W s t m" using lane_holder [OF inv] by blast
  have ok: "lane_pc_ok W (dq_state s) m (lane_pcs s t)" by (rule lane_heldD(2) [OF held])
  have "m = In_barrier"
  proof (cases "lane_pcs s t = Lane_barrier")
    case True
    then show ?thesis using ok by (simp add: lane_pc_ok_def)
  next
    case False
    then have "lane_pc_ok W (dq_state s) m (Lane_drain DISPATCH_QUEUE_IN_BARRIER ptr)" using pc ok by simp
    then show ?thesis by (auto elim: lane_drain_cases)
  qed
  then show ?thesis using held by simp
qed

lemma step_drop_barrier:
  assumes inv: "lane_inv W s" and held: "lane_held W s t In_barrier" and W: "1 < W"
    and pc: "lane_pc_ok W (dq_state s - width_word 0x2000) (Shared (unat W)) pc"
    and st: "st = dq_state s AND NOT DISPATCH_QUEUE_IN_BARRIER \<or> st = dq_state s XOR DISPATCH_QUEUE_IN_BARRIER"
  shows "lane_inv W (lane_move s st ((lane_pcs s)(t := pc)) (running s))"
proof -
  note D = width_ok_drop_barrier [OF lane_heldD(1) [OF held]]
  have st': "st = dq_state s - width_word 0x2000" using st clear_barrier [OF D(2)] by auto
  show ?thesis unfolding st'
    by (rule lane_held_hold [OF inv held, where m' = "Shared (unat W)"]) (use D(1) pc in \<open>auto simp: low_bits_sub\<close>)
qed

lemma width_ok_shared_take:
  assumes "width_ok W (Shared 0) n s" "width_field s + 1 < 0x2000"
  shows "width_ok W (Shared 1) n (s + DISPATCH_QUEUE_WIDTH_INTERVAL)"
  using width_ok_take(2) [OF assms(1) _ assms(2)] by (simp add: interval_width)

lemma step_drain_take:
  assumes inv: "lane_inv W s" and pc: "lane_pcs s t = Lane_drain 0 ptr" and room: "width_field (dq_state s) + 1 < 0x2000"
  shows "lane_inv W (lane_move s (dq_state s + DISPATCH_QUEUE_WIDTH_INTERVAL)
      ((lane_pcs s)(t := Lane_drain DISPATCH_QUEUE_WIDTH_INTERVAL ptr)) (running s))"
proof -
  obtain m where held: "lane_held W s t m" using lane_holder [OF inv, of t] pc by auto
  note H = lane_heldD [OF held]
  have ok: "lane_pc_ok W (dq_state s) m (Lane_drain 0 ptr)" using H(2) pc by simp
  then obtain w where w: "0 = width_word w" "m = Shared w" "1 < unat W" "w < 0x2000"
    by (elim lane_drain_cases) (auto simp: DISPATCH_QUEUE_IN_BARRIER_def)
  have "w = 0" using width_field_word [of w] w(1,4) by (simp add: width_field_def lane_up_div flip: w(1))
  then have m: "m = Shared 0" using w by simp
  have low: "bit (dq_state s + DISPATCH_QUEUE_WIDTH_INTERVAL) k = bit (dq_state s) k" if "k < 41" for k
    unfolding interval_width using that by (rule low_bits_add)
  have "lane_pc_ok W (dq_state s + DISPATCH_QUEUE_WIDTH_INTERVAL) (Shared 1) (Lane_drain DISPATCH_QUEUE_WIDTH_INTERVAL ptr)"
    using ok w(3) low by (auto simp: lane_pc_ok_def token_of_def interval_width intro!: exI [of _ 1])
  then show ?thesis using width_ok_shared_take [OF H(1) [unfolded m] room]
    by (intro lane_held_hold [OF inv held, where m' = "Shared 1"]) (auto simp: low)
qed

lemma step_drain_give:
  assumes inv: "lane_inv W s" and pc: "lane_pcs s t = Lane_drain owned ptr"
    and own: "owned \<noteq> DISPATCH_QUEUE_IN_BARRIER" "owned \<noteq> 0"
  shows "lane_inv W (lane_move s (dq_state s)
      ((lane_pcs s)(t := Lane_drain (owned - DISPATCH_QUEUE_WIDTH_INTERVAL) ptr)) (Suc (running s)))"
proof -
  obtain m where held: "lane_held W s t m" using lane_holder [OF inv, of t] pc by auto
  note H = lane_heldD [OF held]
  have ok: "lane_pc_ok W (dq_state s) m (Lane_drain owned ptr)" using H(2) pc by simp
  then obtain w where w: "owned = width_word w" "m = Shared w" "1 < unat W" "w < 0x2000"
    using own(1) by (auto elim: lane_drain_cases)
  obtain v where v: "w = Suc v" using own(2) w(1) by (cases w) (auto simp: width_word_def)
  have "owned - DISPATCH_QUEUE_WIDTH_INTERVAL = width_word v"
    unfolding w(1) v interval_width by (simp add: width_word_diff)
  then have "lane_pc_ok W (dq_state s) (Shared v) (Lane_drain (owned - DISPATCH_QUEUE_WIDTH_INTERVAL) ptr)"
    using ok w v by (auto simp: lane_pc_ok_def)
  moreover have "width_ok W (Shared v) (Suc (running s)) (dq_state s)"
    using H(1) unfolding w(2) v by (simp add: width_ok_unit)
  ultimately show ?thesis by (intro lane_held_hold [OF inv held, where m' = "Shared v"]) auto
qed

lemma step_drain_ends:
  assumes inv: "lane_inv W s" and pc: "lane_pcs s t = Lane_drain owned ptr"
  shows "lane_inv W (lane_move s (dq_state s)
      ((lane_pcs s)(t := Lane_invoke (drain_owned_ptr ptr (drain_end_owned W owned)))) (running s))"
proof -
  obtain m where held: "lane_held W s t m" using lane_holder [OF inv, of t] pc by auto
  note H = lane_heldD [OF held]
  obtain b w where o: "drain_end_owned W owned = width_word (w + (if b then 0x2000 else 0))" and owns: "mode_owns W m b w"
    and e: "token_of (ptr AND token_mask) (dq_state s)"
    using drain_end_word [OF held pc] .
  let ?e = "ptr AND token_mask"
  have "?e OR width_word k = ?e + width_word k" for k
  proof (rule disjunctive_add_eq_or [symmetric], rule bit_eqI)
    fix n
    have "bit ?e n \<Longrightarrow> n < 41" by (auto simp: bit_and_iff bit_token_mask)
    then show "bit (?e AND width_word k) n = bit 0 n"
      using width_word_low [of n k] by (auto simp: bit_and_iff)
  qed
  then have "drain_owned_ptr ptr (drain_end_owned W owned) = owned_word ?e b w"
    by (simp add: drain_owned_ptr_alt o owned_word_def)
  then have "lane_pc_ok W (dq_state s) m (Lane_invoke (drain_owned_ptr ptr (drain_end_owned W owned)))"
    using H(2) e owns unfolding lane_pc_ok_def by auto
  then show ?thesis by (intro lane_held_hold [OF inv held _ _ _ _ H(1)]) auto
qed

lemma step_drain_no_width:
  assumes inv: "lane_inv W s" and pc: "lane_pcs s t = Lane_drain 0 ptr"
  shows "lane_inv W (lane_move s (dq_state s) ((lane_pcs s)(t := Lane_invoke (drain_owned_ptr ptr 0))) (running s))"
proof -
  have "drain_end_owned W 0 = 0" by (simp add: drain_end_owned_def DISPATCH_QUEUE_IN_BARRIER_def)
  then show ?thesis using step_drain_ends [OF inv pc] by simp
qed

end
