(* ===== verification/Queue_Lane_Invariant.thy ===== *)
theory Queue_Lane_Invariant
  imports Queue_Lane_Steps
begin

text \<open>
  Steps of a lane, second part: wakeups, suspension, resumption, the pushes and resumes that take the
  lane, and the ends of a barrier; then that every step keeps the invariant.
\<close>

section \<open>Steps that leave lock and width alone\<close>

lemma lane_inv_same:
  assumes inv: "lane_inv W s"
    and same: "\<And>k. 2 \<le> k \<Longrightarrow> k < 32 \<or> k = 37 \<or> 40 \<le> k \<and> k < 55 \<Longrightarrow> bit st k = bit (dq_state s) k"
    and kept: "\<And>k. k = 0 \<or> k = 38 \<Longrightarrow> bit (dq_state s) k \<Longrightarrow> bit st k"
  shows "lane_inv W (lane_move s st (lane_pcs s) (running s))"
proof (rule lane_inv_foreign [OF inv])
  show "width_ok W m (running s) st" if "width_ok W m (running s) (dq_state s)" for m
    using that width_ok_cong [of st "dq_state s" W m "running s"] same by force
qed (use same kept in auto)

lemma step_renew:
  assumes "lane_inv W s"
  shows "lane_inv W (lane_move s (dispatch_queue_renew (dq_state s)) (lane_pcs s) (running s))"
  by (rule lane_inv_same [OF assms]) (auto simp: dispatch_queue_renew_def bit_xor_iff dq_bits)

lemma step_wakeup:
  assumes "lane_inv W s" "qos \<le> 6" "enqueue_flag enqueue"
  shows "lane_inv W (lane_move s (dispatch_queue_wakeup enqueue qos flags (dq_state s)) (lane_pcs s) (running s))"
  by (rule lane_inv_same [OF assms(1)]; use assms(2,3) in
    \<open>auto simp: dispatch_queue_wakeup_def Let_def enqueue_flag_def merge_qos_bits bit_or_iff bit_clear dq_bits\<close>)

lemma step_wakeup_override:
  assumes "lane_inv W s" "qos \<le> 6"
  shows "lane_inv W (lane_move s (queue_wakeup_override qos (dq_state s)) (lane_pcs s) (running s))"
  by (rule lane_inv_same [OF assms(1)]; use assms(2) in
    \<open>auto simp: queue_wakeup_override_def Let_def merge_qos_bits bit_or_iff dq_bits\<close>)

text \<open>The suspend count, its side flag and the activation state are above the width.\<close>

lemma high_words:
  "DISPATCH_QUEUE_SUSPEND_INTERVAL = push_bit 55 8" "DISPATCH_QUEUE_INACTIVE = push_bit 55 3"
  "DISPATCH_QUEUE_ACTIVATED = push_bit 55 2" "DISPATCH_QUEUE_ACTIVATING = push_bit 55 1"
  "suspend_delta b = push_bit 55 (if b then 0xf4 else 0xf8)"
  by (simp_all add: suspend_delta_def DISPATCH_QUEUE_SUSPEND_INTERVAL_def DISPATCH_QUEUE_INACTIVE_def
    DISPATCH_QUEUE_ACTIVATED_def DISPATCH_QUEUE_ACTIVATING_def DISPATCH_QUEUE_SUSPEND_HALF_def
    DISPATCH_QUEUE_HAS_SIDE_SUSPEND_CNT_def push_bit_eq_mult)

lemma high_bits:
  assumes "k < 55"
  shows "bit (s + push_bit 55 x :: u64) k = bit s k" "bit (s - push_bit 55 x :: u64) k = bit s k"
    "bit (s - push_bit 55 x + push_bit 55 y :: u64) k = bit s k"
  using assms by (simp_all add: bit_add_push bit_sub_push)

lemma lane_inv_high:
  assumes "lane_inv W s" "\<And>k. k < 55 \<Longrightarrow> bit st k = bit (dq_state s) k"
  shows "lane_inv W (lane_move s st (lane_pcs s) (running s))"
  by (rule lane_inv_same [OF assms(1)]) (use assms(2) in auto)

lemma step_suspends:
  assumes "lane_inv W s" "dispatch_lane_suspend (dq_state s) = Some st"
  shows "lane_inv W (lane_move s st (lane_pcs s) (running s))"
proof (rule lane_inv_high [OF assms(1)])
  fix k :: nat assume "k < 55"
  moreover have "st = dq_state s + DISPATCH_QUEUE_SUSPEND_INTERVAL"
    using assms(2) by (auto simp: dispatch_lane_suspend_def split: if_splits)
  ultimately show "bit st k = bit (dq_state s) k" by (simp only: high_words high_bits)
qed

lemma step_suspends_slow:
  assumes "lane_inv W s" "dispatch_lane_suspend_slow side (dq_state s) = Slow_done st side'"
  shows "lane_inv W (lane_move s st (lane_pcs s) (running s))"
proof (rule lane_inv_high [OF assms(1)])
  fix k :: nat assume "k < 55"
  moreover have "st = dq_state s - suspend_delta (side = 0)"
    using assms(2) by (auto simp: dispatch_lane_suspend_slow_def Let_def split: if_splits)
  ultimately show "bit st k = bit (dq_state s) k" by (simp only: high_words high_bits)
qed

lemma step_resumes_slow:
  assumes "lane_inv W s" "dispatch_lane_resume_slow side (dq_state s) = Slow_done st side'"
  shows "lane_inv W (lane_move s st (lane_pcs s) (running s))"
proof (rule lane_inv_high [OF assms(1)])
  fix k :: nat assume "k < 55"
  moreover have "st = dq_state s + suspend_delta (side = DISPATCH_QUEUE_SUSPEND_HALF)"
    using assms(2) by (auto simp: dispatch_lane_resume_slow_def Let_def split: if_splits)
  ultimately show "bit st k = bit (dq_state s) k" by (simp only: high_words high_bits)
qed

section \<open>Steps that take an idle lane in barrier mode\<close>

lemma step_takes_lane:
  assumes inv: "lane_inv W s" and t: "thread_port t" and free: "lane_free W s"
    and ok: "running s = 0" "width_ok W In_barrier 0 st" "lane_owner st t" "\<not> bit st 37"
  shows "lane_inv W (lane_move s st ((lane_pcs s)(t := Lane_barrier)) (running s))"
  by (rule lane_inv_hold [where t = t and m = In_barrier])
    (use assms lane_inv_W [OF inv] in \<open>auto simp: lane_free_def lane_pc_ok_def\<close>)

lemma barrier_bit: "width_ok W m n s \<Longrightarrow> bit s 54 \<longleftrightarrow> m = In_barrier"
  by (auto simp: width_ok_def bit_54 split: if_splits)

lemma barrier_sync_unlocked:
  assumes "dispatch_queue_try_acquire_barrier_sync W t s = Some s'" "lane_width W"
  shows "\<not> dq_state_drain_locked s"
proof -
  have s: "s = (DISPATCH_QUEUE_STATE_INIT_VALUE W OR (s AND DISPATCH_QUEUE_ROLE_MASK))"
    using assms(1) by (auto simp: dispatch_queue_try_acquire_barrier_sync_def
      dispatch_queue_try_acquire_barrier_sync_and_suspend_def Let_def split: if_splits)
  have "\<not> bit s k" if "k < 32" for k
    using that arg_cong [OF s, of "\<lambda>x. bit x k"] width_word_low [of k]
    unfolding bit_or_iff bit_and_iff dq_bits init_value_word [OF assms(2)] by auto
  then show ?thesis by (auto simp: drain_locked_iff)
qed

lemma step_barrier_sync:
  assumes inv: "lane_inv W s" and t: "thread_port t"
    and st: "dispatch_queue_try_acquire_barrier_sync W t (dq_state s) = Some st"
  shows "lane_inv W (lane_move s st ((lane_pcs s)(t := Lane_barrier)) (running s))"
proof -
  have locked: "\<not> dq_state_drain_locked (dq_state s)"
    using st lane_inv_W [OF inv] by (rule barrier_sync_unlocked)
  have free: "lane_free W s" by (rule lane_unlocked [OF inv locked])
  then have "width_ok W Free (running s) (dq_state s)" by (simp add: lane_free_def)
  note T = barrier_sync_takes [OF this lane_inv_W [OF inv] st]
  show ?thesis by (rule step_takes_lane [OF inv t free T(1,3,4)]) (use T(5) [of 37] inv in \<open>auto simp: lane_inv_def\<close>)
qed

lemma step_full_width:
  assumes inv: "lane_inv W s" and t: "thread_port t" and unl: "\<not> dq_state_drain_locked (dq_state s)"
    and run: "dq_state_is_runnable x" and same: "\<And>k. 36 \<le> k \<Longrightarrow> k < 55 \<Longrightarrow> k \<noteq> 39 \<Longrightarrow> bit x k = bit (dq_state s) k"
    and fits: "dq_state_has_pending_barrier x \<or> x + pending_width W < DISPATCH_QUEUE_WIDTH_FULL_BIT"
    and st: "st = (x AND DISPATCH_QUEUE_DRAIN_PRESERVED_BITS_MASK) OR full_width_and_in_barrier t"
  shows "lane_inv W (lane_move s st ((lane_pcs s)(t := Lane_barrier)) (running s))" "bit st 54" "\<not> bit (dq_state s) 54"
proof -
  have free: "lane_free W s" by (rule lane_unlocked [OF inv unl])
  then have ok: "width_ok W Free (running s) (dq_state s)" by (simp add: lane_free_def)
  note T = full_width_takes [OF ok lane_inv_W [OF inv] run _ fits st]
  show "lane_inv W (lane_move s st ((lane_pcs s)(t := Lane_barrier)) (running s))"
    by (rule step_takes_lane [OF inv t free T(1-3)]) (use T(4) [of 37] same inv in \<open>auto simp: lane_inv_def\<close>)
  show "bit st 54" using T(2) same by (auto simp: barrier_bit)
  show "\<not> bit (dq_state s) 54" using barrier_bit [OF ok] by simp
qed

lemma step_push_waiter:
  assumes inv: "lane_inv W s" and t: "thread_port t" and qos: "qos \<le> 6"
    and st: "dispatch_lane_push_waiter t W qos (dq_state s) = st"
  shows "lane_inv W (lane_move s st (if test (dq_state s XOR st) DISPATCH_QUEUE_IN_BARRIER
      then (lane_pcs s)(t := Lane_barrier) else lane_pcs s) (running s))"
proof -
  let ?s = "dq_state s"
  define x where "x = (dq_state_merge_qos ?s qos OR DISPATCH_QUEUE_DIRTY)"
  have x: "bit x k = bit ?s k" if "k < 32 \<or> 36 \<le> k" "k \<noteq> 39" for k
    using that merge_qos_bits [OF qos] by (simp add: x_def bit_or_iff dq_bits)
  have b54: "test (?s XOR st) DISPATCH_QUEUE_IN_BARRIER \<longleftrightarrow> bit ?s 54 \<noteq> bit st 54"
    by (simp add: test_single bit_xor_iff)
  show ?thesis
  proof (cases "st = x")
    case True
    then have "\<not> test (?s XOR st) DISPATCH_QUEUE_IN_BARRIER" using x [of 54] b54 by simp
    moreover have "lane_inv W (lane_move s st (lane_pcs s) (running s))"
      unfolding True by (rule lane_inv_same [OF inv]) (use x in auto)
    ultimately show ?thesis by simp
  next
    case False
    then have unl: "\<not> dq_state_drain_locked ?s" and run: "dq_state_is_runnable ?s"
      and fits: "dq_state_has_pending_barrier ?s \<or> x + pending_width W < DISPATCH_QUEUE_WIDTH_FULL_BIT"
      and st': "st = (x AND DISPATCH_QUEUE_DRAIN_PRESERVED_BITS_MASK) OR full_width_and_in_barrier t"
      using st by (auto simp: dispatch_lane_push_waiter_def Let_def x_def split: if_splits)
    have run': "dq_state_is_runnable x" using run x by (auto simp: runnable_bits)
    have fits': "dq_state_has_pending_barrier x \<or> x + pending_width W < DISPATCH_QUEUE_WIDTH_FULL_BIT"
      using fits x [of 40] by (auto simp: dq_state_has_pending_barrier_def test_single)
    note T = step_full_width [OF inv t unl run' _ fits' st']
    show ?thesis using T x b54 by auto
  qed
qed

text \<open>A resume that does not take the lane, and one that does.\<close>

definition lane_kept :: "u64 \<Rightarrow> u64 \<Rightarrow> bool" where
  "lane_kept s st \<longleftrightarrow> (\<forall>k<55. k \<noteq> 1 \<and> k \<noteq> 39 \<and> (k < 32 \<or> 36 \<le> k) \<longrightarrow> bit st k = bit s k)"

lemma lane_keptD: "lane_kept s st \<Longrightarrow> k < 55 \<Longrightarrow> k \<noteq> 1 \<Longrightarrow> k \<noteq> 39 \<Longrightarrow> k < 32 \<or> 36 \<le> k \<Longrightarrow> bit st k = bit s k"
  by (simp add: lane_kept_def)

lemma lane_kept_inv:
  assumes "lane_inv W s" "lane_kept (dq_state s) st"
  shows "lane_inv W (lane_move s st (lane_pcs s) (running s))"
  by (rule lane_inv_same [OF assms(1)]) (use lane_keptD [OF assms(2)] in auto)

lemma lane_kept_wait: "lane_kept s st \<Longrightarrow> lane_resume_action s st \<noteq> Resume_barrier_complete"
  using lane_keptD [of s st 54] by (auto simp: lane_resume_action_def test_single bit_xor_iff)

lemma lane_kept_high:
  assumes "\<And>k. k < 55 \<Longrightarrow> bit x k = bit s k"
  shows "lane_kept s x" "lane_kept s (x OR DISPATCH_QUEUE_DIRTY)"
  using assms by (simp_all add: lane_kept_def bit_or_iff dq_bits)

lemma lane_kept_forced:
  assumes "\<And>k. k < 55 \<Longrightarrow> bit x k = bit s k" "\<not> dq_state_drain_locked x"
  shows "lane_kept s (resume_forced x)"
proof -
  have "bit (resume_forced x) k = bit x k" if "k < 55" "k \<noteq> 1" "k < 32 \<or> 36 \<le> k" for k
  proof -
    have "\<not> bit x k" if "2 \<le> k" "k < 32" using assms(2) that by (auto simp: drain_locked_iff)
    then show ?thesis using that unfolding resume_forced_def bit_and_iff bit_not_iff dq_bits by auto
  qed
  then show ?thesis using assms(1) by (simp add: lane_kept_def)
qed

lemma lane_activate_kept:
  assumes "lane_activate s = Resume_state st"
  shows "lane_kept s st"
proof (rule lane_kept_high(1))
  fix k :: nat assume "k < 55"
  moreover have "st = s - DISPATCH_QUEUE_INACTIVE + DISPATCH_QUEUE_ACTIVATED \<or>
      st = s - DISPATCH_QUEUE_INACTIVE + DISPATCH_QUEUE_ACTIVATING"
    using assms by (auto simp: lane_activate_def split: if_splits)
  ultimately show "bit st k = bit s k" using high_bits(3) [of k s 3 2] high_bits(3) [of k s 3 1]
    unfolding high_words by blast
qed

lemma lane_activation_done_kept:
  assumes "lane_activation_done s = Resume_state st"
  shows "lane_kept s st"
proof -
  define x where "x = s - DISPATCH_QUEUE_ACTIVATING"
  have x: "bit x k = bit s k" if "k < 55" for k using that by (simp only: x_def high_words high_bits)
  have "st = x OR DISPATCH_QUEUE_DIRTY \<or> \<not> dq_state_drain_locked x \<and> st = resume_forced x"
    using assms by (auto simp: lane_activation_done_def Let_def x_def split: if_splits)
  then show ?thesis using lane_kept_high(2) [of x s] lane_kept_forced [of x s] x by blast
qed

lemma lane_resume_cases:
  assumes "lane_resume False t W s = Resume_state st"
  obtains "lane_kept s st"
  | x where "\<And>k. k < 55 \<Longrightarrow> bit x k = bit s k" "dq_state_is_runnable x" "\<not> dq_state_drain_locked x"
      "dq_state_has_pending_barrier x \<or> x + pending_width W < DISPATCH_QUEUE_WIDTH_FULL_BIT"
      "st = (x AND DISPATCH_QUEUE_DRAIN_PRESERVED_BITS_MASK) OR full_width_and_in_barrier t"
proof -
  note result = that
  define x where "x = s - DISPATCH_QUEUE_SUSPEND_INTERVAL"
  have x: "bit x k = bit s k" if "k < 55" for k using that by (simp only: x_def high_words high_bits)
  have y: "bit (x - DISPATCH_QUEUE_ACTIVATED + DISPATCH_QUEUE_ACTIVATING) k = bit s k" if "k < 55" for k
    using x that by (simp only: high_words high_bits)
  consider "st = x - DISPATCH_QUEUE_ACTIVATED + DISPATCH_QUEUE_ACTIVATING" | "st = x OR DISPATCH_QUEUE_DIRTY"
    | "\<not> dq_state_drain_locked x" "st = resume_forced x"
    | "dq_state_is_runnable x" "\<not> dq_state_drain_locked x"
      "dq_state_has_pending_barrier x \<or> x + pending_width W < DISPATCH_QUEUE_WIDTH_FULL_BIT"
      "st = (x AND DISPATCH_QUEUE_DRAIN_PRESERVED_BITS_MASK) OR full_width_and_in_barrier t"
    using assms unfolding lane_resume_def x_def by (auto simp: Let_def split: if_splits)
  then show thesis
  proof cases
    case 1
    then show ?thesis using result(1) lane_kept_high(1) [OF y] by blast
  next
    case 2
    then show ?thesis using result(1) lane_kept_high(2) [OF x] by blast
  next
    case 3
    then show ?thesis using result(1) lane_kept_forced [OF x] by blast
  next
    case 4
    then show ?thesis using result(2) [OF x] by blast
  qed
qed

lemma step_resumes:
  assumes inv: "lane_inv W s" and t: "thread_port t" and st: "dispatch_lane_resume False t W op (dq_state s) = Resume_state st"
  shows "lane_inv W (lane_move s st (if lane_resume_action (dq_state s) st = Resume_barrier_complete
      then (lane_pcs s)(t := Lane_barrier) else lane_pcs s) (running s))"
proof (cases "lane_kept (dq_state s) st")
  case True
  then show ?thesis using lane_kept_wait lane_kept_inv [OF inv] by simp
next
  case False
  then have "lane_resume False t W (dq_state s) = Resume_state st"
    using st lane_activate_kept lane_activation_done_kept by (auto simp: dispatch_lane_resume_def split: resume_op.splits)
  then obtain x where x: "\<And>k. k < 55 \<Longrightarrow> bit x k = bit (dq_state s) k" and run: "dq_state_is_runnable x"
    and unl: "\<not> dq_state_drain_locked x"
    and fits: "dq_state_has_pending_barrier x \<or> x + pending_width W < DISPATCH_QUEUE_WIDTH_FULL_BIT"
    and st': "st = (x AND DISPATCH_QUEUE_DRAIN_PRESERVED_BITS_MASK) OR full_width_and_in_barrier t"
    using False by (elim lane_resume_cases) auto
  have unl': "\<not> dq_state_drain_locked (dq_state s)" using unl x by (auto simp: drain_locked_iff)
  note T = step_full_width [OF inv t unl' run _ fits st']
  have high: "\<not> bit st k" if "55 \<le> k" for k
    using that unfolding st' full_width_and_in_barrier_def
    by (auto simp: bit_or_iff bit_and_iff lane_value_bit dq_bits)
  then have "\<not> dq_state_is_suspended st" by (auto simp: dq_state_is_suspended_def test_bit_iff dq_bits)
  moreover have "\<not> dq_state_is_activating st"
  proof
    assume "dq_state_is_activating st"
    then have "bit (st AND DISPATCH_QUEUE_INACTIVE_BITS_MASK) 55" by (simp add: dq_state_is_activating_def dq_bits)
    then show False using high [of 55] by (simp add: bit_and_iff)
  qed
  ultimately have "lane_resume_action (dq_state s) st = Resume_barrier_complete"
    using T(2,3) x by (simp add: lane_resume_action_def test_single bit_xor_iff)
  then show ?thesis using T(1) x by simp
qed

section \<open>Steps of a thread in barrier mode\<close>

lemma barrier_back:
  assumes inv: "lane_inv W s" and pc: "lane_pcs s t = Lane_barrier" and w: "w \<le> unat W"
    and same: "\<And>k. 37 \<le> k \<Longrightarrow> k < 55 \<Longrightarrow> k < 39 \<or> 40 \<le> k \<Longrightarrow> k \<noteq> 38 \<Longrightarrow> bit st k = bit (dq_state s - width_word (w + 0x2000)) k"
    and low: "\<And>k. 2 \<le> k \<Longrightarrow> k < 32 \<Longrightarrow> \<not> bit st k"
  shows "lane_inv W (lane_move s st ((lane_pcs s)(t := Lane_out)) (running s))"
proof -
  have held: "lane_held W s t In_barrier" by (rule lane_barrier_mode [OF inv]) (use pc in simp)
  have o: "owned_word 0 True w = width_word (w + 0x2000)" by (simp add: owned_word_def)
  show ?thesis
    by (rule step_gives_back [OF inv held, of True w 0])
      (use same low w in \<open>auto simp: o mode_owns_def token_of_def\<close>)
qed

lemma step_barrier_release:
  assumes inv: "lane_inv W s" and pc: "lane_pcs s t = Lane_barrier" and e: "enqueue = 0 \<or> enqueue_flag enqueue" and qos: "qos \<le> 6"
    and st: "dispatch_lane_class_barrier_complete enqueue qos (barrier_owned W) (dq_state s) = Transfer_state st"
  shows "lane_inv W (lane_move s st ((lane_pcs s)(t := Lane_out)) (running s))"
proof -
  let ?y = "dq_state_merge_qos (dq_state s - barrier_owned W) qos AND NOT DISPATCH_QUEUE_DRAIN_UNLOCK_MASK"
  have y: "bit ?y k \<longleftrightarrow> bit (dq_state s - barrier_owned W) k \<and> \<not> bit DISPATCH_QUEUE_DRAIN_UNLOCK_MASK k" if "k < 32 \<or> 36 \<le> k" for k
    unfolding bit_clear merge_qos_bits [OF qos that] ..
  have "st = ?y AND NOT DISPATCH_QUEUE_ENQUEUED \<or> st = ?y \<or> enqueue_flag enqueue \<and> st = ?y OR enqueue \<or>
      st = ?y AND NOT DISPATCH_QUEUE_MAX_QOS_MASK"
    using st e unfolding dispatch_lane_class_barrier_complete_def Let_def by (auto split: if_splits)
  then have bits: "k \<noteq> 38 \<Longrightarrow> 2 \<le> k \<Longrightarrow> k < 32 \<or> 36 \<le> k \<Longrightarrow> bit st k = bit ?y k" for k
    by (auto simp: bit_or_iff bit_clear dq_bits enqueue_flag_def)
  show ?thesis
  proof (rule barrier_back [OF inv pc, of "unat W"])
    show "bit st k = bit (dq_state s - width_word (unat W + 0x2000)) k" if "37 \<le> k" "k \<noteq> 38" for k
      using bits [of k] y [of k] that by (auto simp: barrier_owned_word add.commute dq_bits)
    show "\<not> bit st k" if "2 \<le> k" "k < 32" for k using bits [of k] y [of k] that by (auto simp: dq_bits)
  qed auto
qed

lemma step_barrier_sync_release:
  assumes inv: "lane_inv W s" and pc: "lane_pcs s t = Lane_barrier"
    and st: "dispatch_lane_barrier_sync_invoke_and_complete (dq_state s) = Some st"
  shows "lane_inv W (lane_move s st ((lane_pcs s)(t := Lane_out)) (running s))"
proof (rule barrier_back [OF inv pc, of 1])
  have "st = (dq_state s - width_word 0x2001) AND NOT DISPATCH_QUEUE_DRAIN_UNLOCK_MASK AND NOT DISPATCH_QUEUE_MAX_QOS_MASK"
    using st by (auto simp: dispatch_lane_barrier_sync_invoke_and_complete_def Let_def serial_owned split: if_splits)
  then have bits: "bit st k \<longleftrightarrow> bit (dq_state s - width_word 0x2001) k \<and> \<not> (2 \<le> k \<and> k < 32 \<or> k = 35 \<or> k = 1 \<or> 32 \<le> k \<and> k < 35)" for k
    by (auto simp: bit_and_iff bit_not_iff dq_bits dest: bit_less_64)
  show "bit st k = bit (dq_state s - width_word (1 + 0x2000)) k" if "37 \<le> k" for k
    using bits [of k] that by simp
  show "\<not> bit st k" if "2 \<le> k" "k < 32" for k using bits [of k] that by simp
  show "1 \<le> unat W" using lane_inv_W [OF inv] by (simp add: lane_width_def)
qed

text \<open>Leaving barrier mode for the drain of non barrier items.\<close>

lemma step_non_barriers:
  assumes inv: "lane_inv W s" and pc: "lane_pcs s t = Lane_barrier" and W: "1 < W"
  shows "lane_inv W (lane_move s (dq_state s AND NOT DISPATCH_QUEUE_IN_BARRIER)
      ((lane_pcs s)(t := Lane_non_barriers (unat W))) (running s))"
proof -
  have held: "lane_held W s t In_barrier" by (rule lane_barrier_mode [OF inv]) (use pc in simp)
  have "1 < unat W" using W by (simp add: word_less_nat_alt)
  then show ?thesis by (intro step_drop_barrier [OF inv held W]) (auto simp: lane_pc_ok_def)
qed

lemma step_drain_drop_barrier:
  assumes inv: "lane_inv W s" and pc: "lane_pcs s t = Lane_drain DISPATCH_QUEUE_IN_BARRIER ptr" and W: "1 < W"
  shows "lane_inv W (lane_move s (dq_state s XOR DISPATCH_QUEUE_IN_BARRIER)
      ((lane_pcs s)(t := Lane_drain (ucast W * DISPATCH_QUEUE_WIDTH_INTERVAL) ptr)) (running s))"
proof -
  have held: "lane_held W s t In_barrier" by (rule lane_barrier_mode [OF inv]) (use pc in simp)
  have W': "1 < unat W" "unat W < 0x2000" using W lane_inv_W [OF inv] by (simp_all add: word_less_nat_alt lane_width_def)
  have e: "token_of (ptr AND token_mask) (dq_state s)" using lane_heldD(2) [OF held] pc by (simp add: lane_pc_ok_def)
  have "token_of (ptr AND token_mask) (dq_state s - width_word 0x2000)"
    unfolding token_of_def
  proof (intro allI impI)
    fix k assume "bit (ptr AND token_mask) k"
    then have "(k = 0 \<or> k = 38) \<and> bit (dq_state s) k" using e by (simp add: token_of_def)
    then show "(k = 0 \<or> k = 38) \<and> bit (dq_state s - width_word 0x2000) k"
      using low_bits_sub [of k "dq_state s" "0x2000"] by auto
  qed
  then have "lane_pc_ok W (dq_state s - width_word 0x2000) (Shared (unat W)) (Lane_drain (ucast W * DISPATCH_QUEUE_WIDTH_INTERVAL) ptr)"
    using W' unfolding width_mult lane_pc_ok_def by auto
  then show ?thesis by (intro step_drop_barrier [OF inv held W]) auto
qed

lemma lane_non_barriers_mode:
  assumes inv: "lane_inv W s" and pc: "lane_pcs s t = Lane_non_barriers k"
  shows "lane_held W s t (Shared k)" "1 < unat W"
proof -
  obtain m where held: "lane_held W s t m" using lane_holder [OF inv, of t] pc by auto
  have "m = Shared k \<and> 1 < unat W" using lane_heldD(2) [OF held] pc by (auto simp: lane_pc_ok_def)
  then show "lane_held W s t (Shared k)" "1 < unat W" using held by simp_all
qed

lemma step_non_barriers_give:
  assumes inv: "lane_inv W s" and pc: "lane_pcs s t = Lane_non_barriers (Suc k)"
  shows "lane_inv W (lane_move s (dq_state s) ((lane_pcs s)(t := Lane_non_barriers k)) (Suc (running s)))"
proof -
  note N = lane_non_barriers_mode [OF inv pc]
  have "width_ok W (Shared k) (Suc (running s)) (dq_state s)"
    using lane_heldD(1) [OF N(1)] by (simp add: width_ok_unit)
  then show ?thesis
    by (intro lane_held_hold [OF inv N(1), where m' = "Shared k"]) (use N(2) in \<open>auto simp: lane_pc_ok_def\<close>)
qed

text \<open>The end of that drain: the units left go back, a barrier that follows is pended or taken.\<close>

lemma release_shared:
  assumes inv: "lane_inv W s" and held: "lane_held W s t (Shared k)" and W1: "1 < unat W"
    and owned: "owned = (let owned = of_nat k * DISPATCH_QUEUE_WIDTH_INTERVAL in
             if dc then dispatch_queue_adjust_owned W owned next_barrier else owned)"
    and room: "next_barrier \<longrightarrow> width_field (dq_state s - of_nat k * DISPATCH_QUEUE_WIDTH_INTERVAL) + unat W < 0x2000"
  shows "width_ok W Free (running s) (dq_state s - owned)"
    and "i < 40 \<Longrightarrow> bit (dq_state s - owned) i = bit (dq_state s) i"
proof -
  have W: "lane_width W" by (rule lane_inv_W [OF inv])
  let ?x = "dq_state s - width_word k"
  have k: "of_nat k * DISPATCH_QUEUE_WIDTH_INTERVAL = width_word k" by (simp add: width_word_mult)
  have x: "width_ok W Free (running s) ?x"
    using width_ok_release [OF lane_heldD(1) [OF held]] W by (simp add: lane_width_def)
  consider "owned = width_word k"
    | "next_barrier" "owned = width_word k - (DISPATCH_QUEUE_PENDING_BARRIER + pending_width W)"
    using owned unfolding k by (auto simp: dispatch_queue_adjust_owned_def Let_def split: if_splits)
  then have "width_ok W Free (running s) (dq_state s - owned) \<and>
      (\<forall>i<40. bit (dq_state s - owned) i = bit (dq_state s) i)"
  proof cases
    case 1
    then show ?thesis using x low_bits_sub [of _ "dq_state s" k] by simp
  next
    case 2
    have eq: "dq_state s - owned = ?x + (DISPATCH_QUEUE_PENDING_BARRIER + pending_width W)"
      by (simp add: 2(2) algebra_simps)
    show ?thesis unfolding eq
      using reserve_pending [OF x W] room [unfolded k] 2(1) low_bits_sub [of _ "dq_state s" k] by simp
  qed
  then show "width_ok W Free (running s) (dq_state s - owned)"
    "i < 40 \<Longrightarrow> bit (dq_state s - owned) i = bit (dq_state s) i" by blast+
qed

lemma step_non_barriers_unlock:
  assumes inv: "lane_inv W s" and pc: "lane_pcs s t = Lane_non_barriers k"
    and owned: "owned = (let owned = of_nat k * DISPATCH_QUEUE_WIDTH_INTERVAL in
             if dc then dispatch_queue_adjust_owned W owned next_barrier else owned)"
    and room: "next_barrier \<longrightarrow> width_field (dq_state s - of_nat k * DISPATCH_QUEUE_WIDTH_INTERVAL) + unat W < 0x2000"
    and st: "drain_non_barriers_unlock t W dc owned (dq_state s) = Some st"
  shows "lane_inv W (lane_move s st (completed_pcs t (dq_state s - owned) st ((lane_pcs s)(t := Lane_out))) (running s))"
proof -
  have W: "lane_width W" by (rule lane_inv_W [OF inv])
  note N = lane_non_barriers_mode [OF inv pc]
  note H = lane_heldD [OF N(1)]
  note R = release_shared [OF inv N owned room]
  define x where "x = (dq_state s - owned) AND NOT DISPATCH_QUEUE_DRAIN_UNLOCK_MASK AND NOT DISPATCH_QUEUE_DIRTY"
  define z where "z = (if dc then x OR DISPATCH_QUEUE_DIRTY else x)"
  have z: "bit z i \<longleftrightarrow> bit (dq_state s - owned) i \<and> \<not> (2 \<le> i \<and> i < 32 \<or> i = 35 \<or> i = 1)" if "i \<noteq> 39" for i
    using that unfolding z_def x_def by (auto simp: bit_or_iff bit_and_iff bit_not_iff dq_bits dest: bit_less_64)
  have zok: "width_ok W Free (running s) z"
    using R(1) width_ok_cong [of z "dq_state s - owned" W Free "running s"] z by simp
  have role: "\<not> bit z 37" using z [of 37] R(2) [of 37] inv by (auto simp: lane_inv_def)
  have old54: "\<not> bit (dq_state s - owned) 54" using barrier_bit [OF R(1)] by simp
  have others: "u \<noteq> t \<Longrightarrow> lane_pcs s u = Lane_out" for u by (rule H(5))
  have free: "lane_inv W (lane_move s st (completed_pcs t (dq_state s - owned) st ((lane_pcs s)(t := Lane_out))) (running s))"
    if "width_ok W Free (running s) st" "\<And>i. 2 \<le> i \<Longrightarrow> i < 32 \<Longrightarrow> \<not> bit st i" "\<not> bit st 37"
  proof -
    have "\<not> bit st 54" using barrier_bit [OF that(1)] by simp
    then have "completed_pcs t (dq_state s - owned) st ((lane_pcs s)(t := Lane_out)) = (lane_pcs s)(t := Lane_out)"
      using old54 by (simp add: completed_pcs_def dispatch_lane_non_barrier_complete_finish_def test_single bit_xor_iff)
    then show ?thesis using others that by (intro lane_inv_drop [OF W, of t]) auto
  qed
  show ?thesis
  proof (cases dc)
    case False
    then have "st = z" using st by (auto simp: drain_non_barriers_unlock_def Let_def z_def x_def split: if_splits)
    then show ?thesis using free zok role z by simp
  next
    case True
    then have y: "st = dispatch_lane_non_barrier_complete_try_lock W (dq_state s) z (ucast (dispatch_lock_value_from_tid t))"
      using st by (simp add: drain_non_barriers_unlock_def Let_def z_def x_def)
    note T = try_lock_complete [OF zok W y]
    show ?thesis
    proof (cases "bit st 54")
      case False
      then show ?thesis using T(3) z role by (intro free) auto
    next
      case True
      have bits: "bit st i \<longleftrightarrow> bit z i \<or> 2 \<le> i \<and> i < 32 \<and> bit t i" if "i < 39" for i
        using T(2) [OF True] that by blast
      have "lane_owner st t" using bits z by (auto simp: lane_owner_iff)
      moreover have "\<not> bit st 37" using bits [of 37] role by simp
      moreover have "completed_pcs t (dq_state s - owned) st ((lane_pcs s)(t := Lane_out)) = (lane_pcs s)(t := Lane_barrier)"
        using old54 True by (simp add: completed_pcs_def dispatch_lane_non_barrier_complete_finish_def test_single bit_xor_iff)
      ultimately show ?thesis using T(2) [OF True] H(3) others
        by (simp, intro lane_inv_hold [where t = t and m = In_barrier, OF W]) (auto simp: lane_pc_ok_def)
    qed
  qed
qed

section \<open>Every step keeps the invariant\<close>

lemma lane_step_inv:
  assumes "lane_step W s s'" "lane_inv W s"
  shows "lane_inv W s'"
  using assms
proof cases
  case (sync_width items st)
  then have "st = dq_state s + DISPATCH_QUEUE_WIDTH_INTERVAL"
    by (auto simp: dispatch_queue_try_reserve_sync_width_def split: if_splits)
  then show ?thesis using sync_width step_sync_width assms(2) by simp
next
  case (async_width st)
  then show ?thesis using try_acquire_async_room step_sync_width assms(2) by blast
next
  case (completes t n st)
  then show ?thesis using step_completes assms(2) by blast
next
  case (barrier_sync t st)
  then show ?thesis using step_barrier_sync assms(2) by blast
next
  case (drain_lock t flags oq_floor st owned)
  then show ?thesis using step_drain_lock assms(2) by blast
next
  case (drain_begin t owned)
  then show ?thesis using step_drain_begin assms(2) by blast
next
  case (drain_upgrade t owned ptr st full)
  then show ?thesis using step_drain_upgrade assms(2) by blast
next
  case (drain_waiter t ptr u next_dc st)
  have held: "lane_held W s t In_barrier" by (rule lane_barrier_mode [OF assms(2)]) (use drain_waiter in auto)
  have e: "token_of (ptr AND token_mask) (dq_state s)"
    using lane_heldD(2) [OF held] drain_waiter by (simp add: lane_pc_ok_def)
  have "drain_owned_ptr ptr 0 = ptr AND token_mask" by (simp add: drain_owned_ptr_alt)
  then show ?thesis using drain_waiter step_barrier_waiter [OF assms(2) held _ _ e] by simp
next
  case (drain_drop_barrier t ptr)
  then show ?thesis using step_drain_drop_barrier assms(2) by blast
next
  case (drain_reserve t ptr)
  then show ?thesis using step_drain_take assms(2) by (simp add: dispatch_queue_reserve_sync_width_def)
next
  case (drain_async t ptr st)
  then show ?thesis using step_drain_take [OF assms(2)] try_acquire_async_room by blast
next
  case (drain_no_width t ptr)
  then show ?thesis using step_drain_no_width assms(2) by blast
next
  case (drain_give t owned ptr)
  then show ?thesis using step_drain_give assms(2) by blast
next
  case (drain_ends t owned ptr)
  then show ?thesis using step_drain_ends assms(2) by blast
next
  case (drain_stops t owned ptr enqueued next_barrier st)
  then show ?thesis using step_drain_stops assms(2) by blast
next
  case (unlock t owned done_all st)
  then show ?thesis using step_unlock assms(2) by blast
next
  case (finish t owned enqueued st)
  then show ?thesis using step_finish assms(2) by blast
next
  case (renew t)
  then show ?thesis using step_renew assms(2) by blast
next
  case (barrier_waiter t u next_dc st)
  have held: "lane_held W s t In_barrier" by (rule lane_barrier_mode [OF assms(2)]) (use barrier_waiter in auto)
  have "token_of 0 (dq_state s)" by (simp add: token_of_def)
  then show ?thesis using barrier_waiter step_barrier_waiter [OF assms(2) held] by blast
next
  case (barrier_release t enqueue qos st)
  then show ?thesis using step_barrier_release assms(2) by blast
next
  case (barrier_sync_release t st)
  then show ?thesis using step_barrier_sync_release assms(2) by blast
next
  case (non_barriers t)
  then show ?thesis using step_non_barriers assms(2) by blast
next
  case (non_barriers_give t owned_width)
  then show ?thesis using step_non_barriers_give assms(2) by blast
next
  case (non_barriers_reserve t)
  then show ?thesis using step_sync_width assms(2) by (simp add: dispatch_queue_reserve_sync_width_def)
next
  case (non_barriers_async t st)
  then show ?thesis using try_acquire_async_room step_sync_width assms(2) by blast
next
  case (non_barriers_unlock t owned_width owned dc next_barrier st)
  then show ?thesis using step_non_barriers_unlock assms(2) by blast
next
  case (push_waiter t qos st)
  then show ?thesis using step_push_waiter assms(2) by blast
next
  case (wakeup enqueue qos flags)
  then show ?thesis using step_wakeup assms(2) by blast
next
  case (wakeup_override qos)
  then show ?thesis using step_wakeup_override assms(2) by blast
next
  case (suspends st)
  then show ?thesis using step_suspends assms(2) by blast
next
  case (suspends_slow side st side')
  then show ?thesis using step_suspends_slow assms(2) by blast
next
  case (resumes_slow side st side')
  then show ?thesis using step_resumes_slow assms(2) by blast
next
  case (resumes t op st)
  then show ?thesis using step_resumes assms(2) by blast
qed

lemma lane_init_inv:
  assumes "lane_init W s"
  shows "lane_inv W s"
proof -
  have W: "lane_width W" using assms by (simp add: lane_init_def)
  obtain inactive where st: "dq_state s = dispatch_queue_init_state W (if inactive then DISPATCH_QUEUE_INACTIVE else 0)"
    using assms by (auto simp: lane_init_def)
  let ?w = "width_word (0x1000 - unat W)"
  have bits: "bit (dq_state s) k = bit ?w k" if "k < 55" for k
    using that unfolding st dispatch_queue_init_state_def init_value_word [OF W] by (auto simp: bit_or_iff dq_bits)
  have low: "\<not> bit (dq_state s) k" if "k < 41" for k using bits [of k] width_word_low [of k] that by simp
  have "width_field (dq_state s) = width_field ?w" by (rule width_field_cong) (use bits in auto)
  also have "\<dots> = 0x1000 - unat W" using W by (simp add: width_field_word lane_width_def)
  finally have f: "width_field (dq_state s) = 0x1000 - unat W" .
  have "width_ok W Free 0 (dq_state s)" using f low [of 40] W by (simp add: width_ok_def lane_width_def)
  moreover have "\<not> dq_state_drain_locked (dq_state s)" using low by (auto simp: drain_locked_iff)
  ultimately show ?thesis using assms W low [of 37] by (simp add: lane_inv_def lane_free_def lane_init_def)
qed

interpretation lane: invariant_system "lane_init W" "lane_step W" "lane_inv W" for W
  by unfold_locales (rule lane_init_inv, assumption, rule lane_step_inv)

end
