(* ===== verification/Queue_Properties.thy ===== *)
theory Queue_Properties
  imports Queue_Lane_Invariant
begin

text \<open>
  What a lane promises over every interleaving of the updates of its state word, and a sequence of
  updates after which it is stuck.
\<close>

section \<open>Exclusion\<close>












end
