(* ===== verification/Queue_Stuck.thy ===== *)
theory Queue_Stuck
  imports Queue_Properties
begin

text \<open>
  A sequence of updates after which a lane of width 2 never runs anything again. The drain of a
  pending barrier fails to upgrade, so that the barrier's width stays reserved; an item completes and
  marks the word dirty, so that the unlock fails and the drain starts over; the lane is suspended
  meanwhile, and the second drain stops before the barrier and reserves its width once more.
\<close>

section \<open>Words that no update makes runnable\<close>

definition stuck_word :: "u64 \<Rightarrow> bool" where
  "stuck_word st \<longleftrightarrow> 0x1000 \<le> width_field st \<and> width_field st < 0x2000 \<and> bit st 39"

definition lane_stuck :: "lane_sys \<Rightarrow> bool" where
  "lane_stuck s \<longleftrightarrow> lane_pcs s = (\<lambda>_. Lane_out) \<and> running s = 0 \<and> stuck_word (dq_state s)"

lemma stuck_word_cong:
  assumes "stuck_word s" "\<And>k. 41 \<le> k \<Longrightarrow> k < 55 \<Longrightarrow> bit st k = bit s k" "bit st 39"
  shows "stuck_word st"
  using assms width_field_cong [of st s] by (simp add: stuck_word_def)

lemma stuck_not_runnable: "stuck_word s \<Longrightarrow> \<not> dq_state_is_runnable s" "stuck_word s \<Longrightarrow> dq_state_is_dirty s"
  by (auto simp: stuck_word_def runnable_iff dq_state_is_dirty_def test_single)

lemma stuck_barrier_sync:
  assumes "stuck_word s" "lane_width W"
  shows "dispatch_queue_try_acquire_barrier_sync W t s = None"
proof (rule ccontr)
  assume "dispatch_queue_try_acquire_barrier_sync W t s \<noteq> None"
  then have s: "s = (DISPATCH_QUEUE_STATE_INIT_VALUE W OR (s AND DISPATCH_QUEUE_ROLE_MASK))"
    by (auto simp: dispatch_queue_try_acquire_barrier_sync_def
      dispatch_queue_try_acquire_barrier_sync_and_suspend_def Let_def split: if_splits)
  have "\<not> bit s 39"
    using arg_cong [OF s, of "\<lambda>x. bit x 39"] width_word_low [of 39]
    unfolding bit_or_iff bit_and_iff dq_bits init_value_word [OF assms(2)] by auto
  then show False using assms(1) by (simp add: stuck_word_def)
qed

lemma stuck_push_waiter:
  assumes "stuck_word s" "qos \<le> 6"
  shows "stuck_word (dispatch_lane_push_waiter t W qos s)" "\<not> test (s XOR dispatch_lane_push_waiter t W qos s) DISPATCH_QUEUE_IN_BARRIER"
proof -
  have st: "dispatch_lane_push_waiter t W qos s = dq_state_merge_qos s qos OR DISPATCH_QUEUE_DIRTY"
    using stuck_not_runnable(1) [OF assms(1)] by (simp add: dispatch_lane_push_waiter_def Let_def)
  show "stuck_word (dispatch_lane_push_waiter t W qos s)"
    unfolding st by (rule stuck_word_cong [OF assms(1)]) (simp_all add: bit_or_iff merge_qos_bits [OF assms(2)] dq_bits)
  show "\<not> test (s XOR dispatch_lane_push_waiter t W qos s) DISPATCH_QUEUE_IN_BARRIER"
    unfolding st test_single by (simp add: bit_xor_iff bit_or_iff merge_qos_bits [OF assms(2)] dq_bits)
qed

lemma stuck_high:
  assumes "stuck_word s" "\<And>k. k < 55 \<Longrightarrow> bit x k = bit s k"
  shows "stuck_word x" "stuck_word (x OR DISPATCH_QUEUE_DIRTY)"
proof -
  have "bit s 39" using assms(1) by (simp add: stuck_word_def)
  then show "stuck_word x" "stuck_word (x OR DISPATCH_QUEUE_DIRTY)"
    by (rule_tac [!] stuck_word_cong [OF assms(1)]) (simp_all add: assms(2) bit_or_iff dq_bits)
qed

lemma stuck_resume:
  assumes s: "stuck_word s" and st: "dispatch_lane_resume False t W op s = Resume_state st"
  shows "stuck_word st" "lane_resume_action s st \<noteq> Resume_barrier_complete"
proof -
  have low: "bit (s - push_bit 55 x) k = bit s k" "bit (s - push_bit 55 x + push_bit 55 y) k = bit s k"
    "bit (s - push_bit 55 x - push_bit 55 y + push_bit 55 z) k = bit s k" if "k < 55" for x y z k
    using high_bits [OF that] by simp_all
  have stay: "\<not> dq_state_is_runnable x" if "\<And>k. k < 55 \<Longrightarrow> bit x k = bit s k" for x
    using stuck_not_runnable(1) [OF stuck_high(1) [OF s that]] by blast
  note N = stay [of "s - push_bit 55 1", OF low(1)] stay [of "s - push_bit 55 8", OF low(1)]
  consider "st = s - push_bit 55 3 + push_bit 55 2" | "st = s - push_bit 55 3 + push_bit 55 1"
    | "st = s - push_bit 55 1 OR DISPATCH_QUEUE_DIRTY"
    | "st = s - push_bit 55 8 - push_bit 55 2 + push_bit 55 1" | "st = s - push_bit 55 8 OR DISPATCH_QUEUE_DIRTY"
    using st N unfolding dispatch_lane_resume_def lane_activate_def lane_activation_done_def lane_resume_def high_words Let_def
    by (cases op) (auto split: if_splits simp del: push_bit_numeral push_bit_of_1)
  then have "stuck_word st \<and> bit st 54 = bit s 54"
  proof cases
    case 1 then show ?thesis using low(2) [of _ 3 2] stuck_high(1) [OF s] by simp
  next
    case 2 then show ?thesis using low(2) [of _ 3 1] stuck_high(1) [OF s] by simp
  next
    case 3 then show ?thesis using low(1) [of _ 1] stuck_high(2) [OF s] by (simp add: bit_or_iff dq_bits)
  next
    case 4 then show ?thesis using low(3) [of _ 8 2 1] stuck_high(1) [OF s] by simp
  next
    case 5 then show ?thesis using low(1) [of _ 8] stuck_high(2) [OF s] by (simp add: bit_or_iff dq_bits)
  qed
  then show "stuck_word st" "lane_resume_action s st \<noteq> Resume_barrier_complete"
    by (auto simp: lane_resume_action_def test_single bit_xor_iff)
qed

lemma stuck_drain:
  assumes "stuck_word s" "dispatch_queue_drain_try_lock t W flags oq s = Drain_state st owned"
  shows "owned = 0" "stuck_word st"
proof -
  have "test s (lock_fail_mask flags)" using lock_not_failing(1) stuck_not_runnable(1) [OF assms(1)] by blast
  note F = drain_try_lock_fails [OF this assms(2)]
  show "owned = 0" by (rule F(1))
  show "stuck_word st"
    unfolding F(2) by (rule stuck_word_cong [OF assms(1)])
      (use assms(1) in \<open>auto simp: bit_xor_iff stuck_word_def dest: bit_dequeue_mask\<close>)
qed

lemma stuck_updates:
  assumes s: "stuck_word s"
  shows "enqueue_flag e \<Longrightarrow> qos \<le> 6 \<Longrightarrow> stuck_word (dispatch_queue_wakeup e qos flags s)"
    and "qos \<le> 6 \<Longrightarrow> stuck_word (queue_wakeup_override qos s)"
    and "dispatch_lane_suspend s = Some st \<Longrightarrow> stuck_word st"
    and "dispatch_lane_suspend_slow side s = Slow_done st side' \<Longrightarrow> stuck_word st"
    and "dispatch_lane_resume_slow side s = Slow_done st side' \<Longrightarrow> stuck_word st"
proof -
  have b39: "bit s 39" using s by (simp add: stuck_word_def)
  show "stuck_word (dispatch_queue_wakeup e qos flags s)" if "enqueue_flag e" "qos \<le> 6"
    by (rule stuck_word_cong [OF s]; use that b39 in
      \<open>auto simp: dispatch_queue_wakeup_def Let_def enqueue_flag_def merge_qos_bits bit_or_iff bit_clear dq_bits\<close>)
  show "stuck_word (queue_wakeup_override qos s)" if "qos \<le> 6"
    by (rule stuck_word_cong [OF s]; use that b39 in
      \<open>auto simp: queue_wakeup_override_def Let_def merge_qos_bits bit_or_iff dq_bits\<close>)
  have high: "stuck_word (s + push_bit 55 x)" "stuck_word (s - push_bit 55 x)" for x
    using stuck_high(1) [OF s, of "s + push_bit 55 x"] stuck_high(1) [OF s, of "s - push_bit 55 x"] high_bits(1,2) by blast+
  show "stuck_word st" if "dispatch_lane_suspend s = Some st"
  proof -
    have "st = s + DISPATCH_QUEUE_SUSPEND_INTERVAL" using that by (auto simp: dispatch_lane_suspend_def split: if_splits)
    then show ?thesis unfolding high_words using high by blast
  qed
  show "stuck_word st" if "dispatch_lane_suspend_slow side s = Slow_done st side'"
  proof -
    have "st = s - suspend_delta (side = 0)" using that by (auto simp: dispatch_lane_suspend_slow_def Let_def split: if_splits)
    then show ?thesis unfolding high_words using high by blast
  qed
  show "stuck_word st" if "dispatch_lane_resume_slow side s = Slow_done st side'"
  proof -
    have "st = s + suspend_delta (side = DISPATCH_QUEUE_SUSPEND_HALF)"
      using that by (auto simp: dispatch_lane_resume_slow_def Let_def split: if_splits)
    then show ?thesis unfolding high_words using high by blast
  qed
qed

lemma stuck_step:
  assumes "lane_step W s s'" "lane_stuck s" "lane_width W"
  shows "lane_stuck s'"
proof -
  have out: "lane_pcs s t = Lane_out" and idle: "running s = 0" and s: "stuck_word (dq_state s)" for t
    using assms(2) by (simp_all add: lane_stuck_def)
  note N = stuck_not_runnable [OF s]
  show ?thesis
    using assms(1)
  proof cases
    case (sync_width items st)
    then show ?thesis using N by (simp add: dispatch_queue_try_reserve_sync_width_def split: if_splits)
  next
    case (async_width st)
    then show ?thesis using N by (simp add: dispatch_queue_try_acquire_async_def)
  next
    case (barrier_sync t st)
    then show ?thesis using stuck_barrier_sync [OF s assms(3)] by simp
  next
    case (drain_lock t flags oq_floor st owned)
    then show ?thesis using stuck_drain [OF s, of t W flags oq_floor st owned] assms(2) by (simp add: lane_stuck_def)
  next
    case (push_waiter t qos st)
    then show ?thesis using stuck_push_waiter [OF s, of qos t W] assms(2) by (auto simp: lane_stuck_def)
  next
    case (wakeup enqueue qos flags)
    then show ?thesis using stuck_updates(1) [OF s] assms(2) by (simp add: lane_stuck_def)
  next
    case (wakeup_override qos)
    then show ?thesis using stuck_updates(2) [OF s] assms(2) by (simp add: lane_stuck_def)
  next
    case (suspends st)
    then show ?thesis using stuck_updates(3) [OF s] assms(2) by (simp add: lane_stuck_def)
  next
    case (suspends_slow side st side')
    then show ?thesis using stuck_updates(4) [OF s] assms(2) by (simp add: lane_stuck_def)
  next
    case (resumes_slow side st side')
    then show ?thesis using stuck_updates(5) [OF s] assms(2) by (simp add: lane_stuck_def)
  next
    case (resumes t op st)
    then show ?thesis using stuck_resume [OF s, of t W op st] assms(2) by (simp add: lane_stuck_def)
  qed (use out idle in simp_all)
qed

lemma stuck_forever: "(lane_step W)\<^sup>*\<^sup>* s s' \<Longrightarrow> lane_stuck s \<Longrightarrow> lane_width W \<Longrightarrow> lane_stuck s'"
  by (induction rule: rtranclp_induct) (blast intro: stuck_step)+

section \<open>A lane gets stuck\<close>

text \<open>The words of the sequence: I is one width unit, the last digits are the owner and the flags.\<close>

abbreviation (input) units :: "u64 \<Rightarrow> u64" where
  "units n \<equiv> n * 0x20000000000"

abbreviation (input) all_out :: "dispatch_tid \<Rightarrow> lane_pc" where
  "all_out \<equiv> \<lambda>_. Lane_out"

definition stuck_lane :: lane_sys where
  "stuck_lane = \<lparr>dq_state = units 0x1001 + 0x8000000000, lane_pcs = all_out, running = 0\<rparr>"

lemma lane_move_record: "lane_move s st pcs n = \<lparr>dq_state = st, lane_pcs = pcs, running = n\<rparr>"
  by (simp add: lane_move_def)

lemma trace_words:
  "dispatch_queue_init_state 2 0 = units 0xffe"
  "dispatch_queue_try_acquire_async (units 0xffe) = Some (units 0xfff)"
  "dispatch_queue_wakeup 1 0 2 (units 0xfff) = units 0xfff + 0x8000000001"
  "dispatch_queue_drain_try_lock 7 2 0 0 (units 0xfff + 0x8000000001) = Drain_state (units 0x1000 + 5) 0x20000000001"
  "drain_owned 2 0x20000000001 = 0x20000000000"
  "dispatch_queue_try_upgrade_full_width 2 0x20000000000 (units 0x1000 + 5) = (units 0x1000 + 0x10000000005, False)"
  "drain_owned_ptr 0x20000000001 0 = 1"
  "dispatch_lane_non_barrier_complete 11 2 (units 0x1000 + 0x10000000005) = units 0xfff + 0x18000000005"
  "dispatch_queue_drain_try_unlock 1 False (units 0xfff + 0x18000000005) = None"
  "dispatch_queue_renew (units 0xfff + 0x18000000005) = units 0xfff + 0x10000000005"
  "drain_owned 2 1 = 0"
  "dispatch_queue_invoke_finish 1 (drain_owned_ptr 1 (dispatch_queue_adjust_owned 2 (drain_end_owned 2 0) True))
     (units 0xfff + 0x400010000000005) = units 0x1001 + 0x400008000000000"
  "dispatch_lane_resume False 7 2 DISPATCH_RESUME (units 0x1001 + 0x400008000000000) = Resume_state (units 0x1001 + 0x8000000000)"
  by code_simp+

lemma trace_suspend:
  "dispatch_lane_suspend (units 0xfff + 0x10000000005) = Some (units 0xfff + 0x400010000000005)"
  by (simp add: dispatch_lane_suspend_def add_overflow_def DISPATCH_QUEUE_SUSPEND_INTERVAL_def)

lemma trace_actions:
  "dispatch_lane_non_barrier_complete_finish (units 0x1000 + 0x10000000005) (units 0xfff + 0x18000000005) \<noteq> Complete_barrier"
  "lane_resume_action (units 0x1001 + 0x400008000000000) (units 0x1001 + 0x8000000000) \<noteq> Resume_barrier_complete"
  "token_of 1 (units 0xfff + 0x8000000001)"
  by (code_simp, code_simp, auto simp: token_of_def bit_1_iff)

lemma trace_width:
  "width_field (units 0x1000 + 5) + unat (2 :: u16) \<le> 0x2000"
  "width_field (units 0xfff + 0x400010000000005 - drain_owned_ptr 1 (drain_end_owned 2 0)) + unat (2 :: u16) < 0x2000"
  by (simp add: width_field_def lane_up_div,
    simp add: width_field_def lane_up_div drain_owned_ptr_def drain_end_owned_def DISPATCH_QUEUE_IN_BARRIER_def
      DISPATCH_QUEUE_ENQUEUED_def DISPATCH_QUEUE_ENQUEUED_ON_MGR_def)

lemma all_out_upd: "(\<lambda>_. Lane_out)(t := Lane_out) = (\<lambda>_. Lane_out)"
  by auto

lemma stuck_lane_reached: "reach (lane_init 2) (lane_step 2) stuck_lane"
proof -
  note step = reach_step [where init = "lane_init 2" and step = "lane_step 2"]
  let ?S = "\<lambda>st pcs n. \<lparr>dq_state = st, lane_pcs = pcs, running = n\<rparr>"
  have port: "thread_port 7" "thread_port 11" by (simp_all add: thread_port_def)
  have "lane_init 2 (?S (units 0xffe) all_out 0)"
    using trace_words(1) by (auto simp: lane_init_def lane_width_def intro!: exI [of _ False])
  then have "reach (lane_init 2) (lane_step 2) (?S (units 0xffe) all_out 0)" by (rule reach_init)
  then have "reach (lane_init 2) (lane_step 2) (?S (units 0xfff) all_out 1)"
    by (rule step) (use lane_step.async_width [of 2 "?S (units 0xffe) all_out 0"] trace_words(2) in \<open>simp add: lane_move_record\<close>)
  then have "reach (lane_init 2) (lane_step 2) (?S (units 0xfff + 0x8000000001) all_out 1)"
    by (rule step) (use lane_step.wakeup [of 1 0 2 "?S (units 0xfff) all_out 1" 2] trace_words(3)
      in \<open>simp add: lane_move_record enqueue_flag_def DISPATCH_QUEUE_ENQUEUED_def\<close>)
  then have "reach (lane_init 2) (lane_step 2) (?S (units 0x1000 + 5) (all_out(7 := Lane_invoke 0x20000000001)) 1)"
  proof (rule step)
    have "lane_queued (?S (units 0xfff + 0x8000000001) all_out 1) (dequeue_mask 0)"
      using trace_actions(3) by (simp add: lane_queued_def dequeue_mask_def test_def DISPATCH_QUEUE_ENQUEUED_def)
    then show "lane_step 2 (?S (units 0xfff + 0x8000000001) all_out 1)
        (?S (units 0x1000 + 5) (all_out(7 := Lane_invoke 0x20000000001)) 1)"
      using lane_step.drain_lock [of 7 "?S (units 0xfff + 0x8000000001) all_out 1" 0 2 0] port trace_words(4)
      by (simp add: lane_move_record)
  qed
  then have "reach (lane_init 2) (lane_step 2)
      (?S (units 0x1000 + 5) (all_out(7 := Lane_drain 0x20000000000 0x20000000001)) 1)"
    by (rule step) (use lane_step.drain_begin [of "?S (units 0x1000 + 5) (all_out(7 := Lane_invoke 0x20000000001)) 1" 7 "0x20000000001" 2]
      trace_words(5) in \<open>simp add: lane_move_record\<close>)
  then have "reach (lane_init 2) (lane_step 2) (?S (units 0x1000 + 0x10000000005) (all_out(7 := Lane_invoke 1)) 1)"
    by (rule step) (use lane_step.drain_upgrade [of "?S (units 0x1000 + 5) (all_out(7 := Lane_drain 0x20000000000 0x20000000001)) 1"
        7 "0x20000000000" "0x20000000001" 2 _ False] trace_words(6,7) trace_width(1)
      in \<open>simp add: lane_move_record DISPATCH_QUEUE_IN_BARRIER_def\<close>)
  then have "reach (lane_init 2) (lane_step 2) (?S (units 0xfff + 0x18000000005) (all_out(7 := Lane_invoke 1)) 0)"
    by (rule step) (use lane_step.completes [of 11 "?S (units 0x1000 + 0x10000000005) (all_out(7 := Lane_invoke 1)) 1" 0 2]
      port trace_words(8) trace_actions(1) in \<open>simp add: lane_move_record completed_pcs_def\<close>)
  then have "reach (lane_init 2) (lane_step 2) (?S (units 0xfff + 0x10000000005) (all_out(7 := Lane_invoke 1)) 0)"
    by (rule step) (use lane_step.renew [of "?S (units 0xfff + 0x18000000005) (all_out(7 := Lane_invoke 1)) 0" 7 2]
      trace_words(10) in \<open>simp add: lane_move_record\<close>)
  then have "reach (lane_init 2) (lane_step 2) (?S (units 0xfff + 0x400010000000005) (all_out(7 := Lane_invoke 1)) 0)"
    by (rule step) (use lane_step.suspends [of "?S (units 0xfff + 0x10000000005) (all_out(7 := Lane_invoke 1)) 0" _ 2]
      trace_suspend in \<open>simp add: lane_move_record\<close>)
  then have "reach (lane_init 2) (lane_step 2) (?S (units 0xfff + 0x400010000000005) (all_out(7 := Lane_drain 0 1)) 0)"
    by (rule step) (use lane_step.drain_begin [of "?S (units 0xfff + 0x400010000000005) (all_out(7 := Lane_invoke 1)) 0" 7 1 2]
      trace_words(11) in \<open>simp add: lane_move_record\<close>)
  then have "reach (lane_init 2) (lane_step 2) (?S (units 0x1001 + 0x400008000000000) all_out 0)"
    by (rule step) (use lane_step.drain_stops [of "?S (units 0xfff + 0x400010000000005) (all_out(7 := Lane_drain 0 1)) 0" 7 0 1 1 True 2]
      trace_words(12) trace_width(2) in \<open>simp add: lane_move_record all_out_upd enqueue_flag_def DISPATCH_QUEUE_ENQUEUED_def\<close>)
  then show ?thesis
    unfolding stuck_lane_def by (rule step) (use lane_step.resumes [of 7 2 DISPATCH_RESUME "?S (units 0x1001 + 0x400008000000000) all_out 0"]
      port trace_words(13) trace_actions(2) in \<open>simp add: lane_move_record\<close>)
qed

text \<open>C31: A lane can get stuck for good: there is an interleaving on a lane of width 2, with one non
  barrier item, one barrier item, a suspension and its resumption, after which no item runs, no
  thread is at work on the lane, it is not suspended and no barrier is pending, and yet no update by any
  thread lets anything run on it ever again.\<close>

theorem lane_gets_stuck:
  "reach (lane_init 2) (lane_step 2) stuck_lane \<and>
   \<not> dq_state_is_suspended (dq_state stuck_lane) \<and> \<not> dq_state_has_pending_barrier (dq_state stuck_lane) \<and>
   {s. (lane_step 2)\<^sup>*\<^sup>* stuck_lane s} \<subseteq>
     {s. lane_pcs s = (\<lambda>_. Lane_out) \<and> running s = 0 \<and> \<not> dq_state_is_runnable (dq_state s)}"
proof (intro conjI)
  show "reach (lane_init 2) (lane_step 2) stuck_lane" by (rule stuck_lane_reached)
  show "\<not> dq_state_is_suspended (dq_state stuck_lane)" unfolding stuck_lane_def by code_simp
  show "\<not> dq_state_has_pending_barrier (dq_state stuck_lane)" unfolding stuck_lane_def by code_simp
  have "lane_stuck stuck_lane"
    by (simp add: lane_stuck_def stuck_lane_def stuck_word_def width_field_def lane_up_div)
  then show "{s. (lane_step 2)\<^sup>*\<^sup>* stuck_lane s} \<subseteq>
      {s. lane_pcs s = (\<lambda>_. Lane_out) \<and> running s = 0 \<and> \<not> dq_state_is_runnable (dq_state s)}"
    using stuck_forever [of 2 stuck_lane] stuck_not_runnable(1) by (auto simp: lane_stuck_def lane_width_def)
qed

end
