(* ===== verification/Queue_Suspend.thy ===== *)
theory Queue_Suspend
  imports Queue_Locking
begin

text \<open>
  Suspension counts. Six bits of the state word hold a count, a side count takes half of its range
  when it is full and gives it back when it is empty. Together they implement one natural number.
\<close>

section \<open>Operations\<close>









section \<open>The bits above the activation state\<close>











section \<open>Each call counts one\<close>













end
