(* ===== verification/Mpsc.thy ===== *)
theory Mpsc
  imports Threads
begin

text \<open>
  The multi producer, single consumer queue of \<open>src/inline_internal.h\<close> that holds the items of
  lanes, root queues, workloops and groups: a tail that producers exchange, then a link from the
  previous tail, and a head that only the consumer moves. Producers are threads; the consumer is
  whoever holds the drain lock.
\<close>

section \<open>Words\<close>

text \<open>\<open>mq_next\<close> is the field that links the nodes, \<open>do_next\<close>.\<close>

record 'n mpsc =
  mq_head :: "'n option"
  mq_tail :: "'n option"
  mq_next :: "'n \<Rightarrow> 'n option"

section \<open>Atomic pieces of the producer's calls\<close>

definition os_mpsc_push_update_tail :: "'n \<Rightarrow> 'n mpsc \<Rightarrow> 'n mpsc \<times> 'n option" where
  "os_mpsc_push_update_tail tail q =
     (q\<lparr>mq_next := (mq_next q)(tail := None), mq_tail := Some tail\<rparr>, mq_tail q)"

definition os_mpsc_push_was_empty :: "'n option \<Rightarrow> bool" where
  "os_mpsc_push_was_empty prv \<longleftrightarrow> prv = None"

definition os_mpsc_push_update_prev :: "'n option \<Rightarrow> 'n \<Rightarrow> 'n mpsc \<Rightarrow> 'n mpsc" where
  "os_mpsc_push_update_prev prv h q =
     (case prv of
        Some p \<Rightarrow> q\<lparr>mq_next := (mq_next q)(p := Some h)\<rparr>
      | None \<Rightarrow> q\<lparr>mq_head := Some h\<rparr>)"

section \<open>Atomic pieces of the consumer's calls\<close>

definition os_mpsc_looks_empty :: "'n mpsc \<Rightarrow> bool" where
  "os_mpsc_looks_empty q \<longleftrightarrow> mq_tail q = None"

text \<open>One look of \<open>os_mpsc_get_head\<close> or \<open>os_mpsc_get_next\<close>; \<open>None\<close>: wait for the enqueuer.\<close>

definition os_mpsc_get_head :: "'n mpsc \<Rightarrow> 'n option" where
  "os_mpsc_get_head q = mq_head q"

definition os_mpsc_get_next :: "'n \<Rightarrow> 'n mpsc \<Rightarrow> 'n option" where
  "os_mpsc_get_next n q = mq_next q n"

definition mpsc_store_head :: "'n option \<Rightarrow> 'n mpsc \<Rightarrow> 'n mpsc" where
  "mpsc_store_head n q = q\<lparr>mq_head := n\<rparr>"

definition mpsc_store_next :: "'n \<Rightarrow> 'n option \<Rightarrow> 'n mpsc \<Rightarrow> 'n mpsc" where
  "mpsc_store_next tail n q = q\<lparr>mq_next := (mq_next q)(tail := n)\<rparr>"

definition mpsc_cmpxchg_tail :: "'n option \<Rightarrow> 'n option \<Rightarrow> 'n mpsc \<Rightarrow> 'n mpsc \<times> bool" where
  "mpsc_cmpxchg_tail old new q = (if mq_tail q = old then (q\<lparr>mq_tail := new\<rparr>, True) else (q, False))"

definition mpsc_xchg_tail :: "'n option \<Rightarrow> 'n mpsc \<Rightarrow> 'n mpsc \<times> 'n option" where
  "mpsc_xchg_tail new q = (q\<lparr>mq_tail := new\<rparr>, mq_tail q)"

section \<open>The system\<close>

datatype 'n push_pc =
    Push_idle
  | Push_prev "'n option" 'n

text \<open>
  Where the consumer is: in \<open>os_mpsc_pop_head\<close> (after the load of the next node, after NULL was
  stored in the head, waiting for the next node, before the last store), in
  \<open>os_mpsc_capture_snapshot\<close>, walking a snapshot with \<open>os_mpsc_pop_snapshot_head\<close>, or in
  \<open>os_mpsc_undo_pop_head\<close> (before the compare and swap, waiting for the head, before the last
  store with and without a node behind).
\<close>

datatype 'n pop_pc =
    Pop_idle
  | Pop_loaded 'n "'n option"
  | Pop_cas 'n
  | Pop_wait 'n
  | Pop_store 'n 'n
  | Capture_xchg 'n
  | Snapshot 'n 'n
  | Undo_cas 'n
  | Undo_wait 'n
  | Undo_head 'n 'n
  | Undo_alone 'n

text \<open>
  Not in the code: the nodes whose push has exchanged the tail, in that order, and where they are:
  popped, in the snapshot, or in the queue.
\<close>

record 'n mpsc_sys =
  mwords :: "'n mpsc"
  producers :: "dispatch_tid \<Rightarrow> 'n push_pc"
  consumer :: "'n pop_pc"
  pushed :: "'n list"
  popped :: "'n list"
  snapshot :: "'n list"
  queued :: "'n list"

text \<open>The node that an undo has in hand.\<close>

fun in_hand :: "'n pop_pc \<Rightarrow> 'n list" where
  "in_hand (Undo_cas h) = [h]"
| "in_hand (Undo_wait h) = [h]"
| "in_hand (Undo_head h n) = [h]"
| "in_hand _ = []"

fun adj :: "'n \<Rightarrow> 'n \<Rightarrow> 'n list \<Rightarrow> bool" where
  "adj a b (x # y # zs) \<longleftrightarrow> (x = a \<and> y = b) \<or> adj a b (y # zs)"
| "adj a b _ \<longleftrightarrow> False"

text \<open>The caller of a push owns the nodes and has linked them.\<close>

definition push_list_ok :: "'n mpsc_sys \<Rightarrow> 'n list \<Rightarrow> bool" where
  "push_list_ok s ns \<longleftrightarrow> ns \<noteq> [] \<and> distinct ns \<and>
     set ns \<inter> set (snapshot s @ in_hand (consumer s) @ queued s) = {} \<and>
     (\<forall>a b. adj a b ns \<longrightarrow> mq_next (mwords s) a = Some b)"

inductive mpsc_step :: "'n mpsc_sys \<Rightarrow> 'n mpsc_sys \<Rightarrow> bool" where
  push_update_tail: "producers s t = Push_idle \<Longrightarrow> push_list_ok s ns \<Longrightarrow>
    os_mpsc_push_update_tail (last ns) (mwords s) = (q, prv) \<Longrightarrow>
    mpsc_step s (s\<lparr>mwords := q, producers := (producers s)(t := Push_prev prv (hd ns)),
      pushed := pushed s @ ns, queued := queued s @ ns\<rparr>)"
| push_update_prev: "producers s t = Push_prev prv h \<Longrightarrow>
    mpsc_step s (s\<lparr>mwords := os_mpsc_push_update_prev prv h (mwords s), producers := (producers s)(t := Push_idle)\<rparr>)"
| pop_load: "consumer s = Pop_idle \<Longrightarrow> os_mpsc_get_head (mwords s) = Some h \<Longrightarrow>
    mpsc_step s (s\<lparr>consumer := Pop_loaded h (mq_next (mwords s) h)\<rparr>)"
| pop_store: "consumer s = Pop_loaded h (Some n) \<Longrightarrow>
    mpsc_step s (s\<lparr>mwords := mpsc_store_head (Some n) (mwords s), consumer := Pop_idle,
      popped := popped s @ [h], queued := tl (queued s)\<rparr>)"
| pop_clear: "consumer s = Pop_loaded h None \<Longrightarrow>
    mpsc_step s (s\<lparr>mwords := mpsc_store_head None (mwords s), consumer := Pop_cas h\<rparr>)"
| pop_last: "consumer s = Pop_cas h \<Longrightarrow> mpsc_cmpxchg_tail (Some h) None (mwords s) = (q, True) \<Longrightarrow>
    mpsc_step s (s\<lparr>mwords := q, consumer := Pop_idle, popped := popped s @ [h], queued := tl (queued s)\<rparr>)"
| pop_more: "consumer s = Pop_cas h \<Longrightarrow> mpsc_cmpxchg_tail (Some h) None (mwords s) = (q, False) \<Longrightarrow>
    mpsc_step s (s\<lparr>mwords := q, consumer := Pop_wait h\<rparr>)"
| pop_next: "consumer s = Pop_wait h \<Longrightarrow> os_mpsc_get_next h (mwords s) = Some n \<Longrightarrow>
    mpsc_step s (s\<lparr>consumer := Pop_store h n\<rparr>)"
| pop_done: "consumer s = Pop_store h n \<Longrightarrow>
    mpsc_step s (s\<lparr>mwords := mpsc_store_head (Some n) (mwords s), consumer := Pop_idle,
      popped := popped s @ [h], queued := tl (queued s)\<rparr>)"
| capture: "consumer s = Pop_idle \<Longrightarrow> os_mpsc_get_head (mwords s) = Some h \<Longrightarrow>
    mpsc_step s (s\<lparr>mwords := mpsc_store_head None (mwords s), consumer := Capture_xchg h\<rparr>)"
| capture_tail: "consumer s = Capture_xchg h \<Longrightarrow> mpsc_xchg_tail None (mwords s) = (q, Some tail) \<Longrightarrow>
    mpsc_step s (s\<lparr>mwords := q, consumer := Snapshot h tail, snapshot := queued s, queued := []\<rparr>)"
| snapshot_last: "consumer s = Snapshot h h \<Longrightarrow>
    mpsc_step s (s\<lparr>consumer := Pop_idle, popped := popped s @ [h], snapshot := tl (snapshot s)\<rparr>)"
| snapshot_next: "consumer s = Snapshot h t \<Longrightarrow> h \<noteq> t \<Longrightarrow> os_mpsc_get_next h (mwords s) = Some n \<Longrightarrow>
    mpsc_step s (s\<lparr>consumer := Snapshot n t, popped := popped s @ [h], snapshot := tl (snapshot s)\<rparr>)"
| undo_next: "consumer s = Pop_idle \<Longrightarrow> popped s = ps @ [h] \<Longrightarrow> h \<notin> set (queued s) \<Longrightarrow> os_mpsc_get_head (mwords s) = Some n \<Longrightarrow>
    mpsc_step s (s\<lparr>mwords := mpsc_store_next h (Some n) (mwords s), consumer := Undo_head h n, popped := ps\<rparr>)"
| undo_last: "consumer s = Pop_idle \<Longrightarrow> popped s = ps @ [h] \<Longrightarrow> h \<notin> set (queued s) \<Longrightarrow>
    mpsc_step s (s\<lparr>mwords := mpsc_store_next h None (mwords s), consumer := Undo_cas h, popped := ps\<rparr>)"
| undo_alone: "consumer s = Undo_cas h \<Longrightarrow> mpsc_cmpxchg_tail None (Some h) (mwords s) = (q, True) \<Longrightarrow>
    mpsc_step s (s\<lparr>mwords := q, consumer := Undo_alone h, queued := [h]\<rparr>)"
| undo_more: "consumer s = Undo_cas h \<Longrightarrow> mpsc_cmpxchg_tail None (Some h) (mwords s) = (q, False) \<Longrightarrow>
    mpsc_step s (s\<lparr>mwords := q, consumer := Undo_wait h\<rparr>)"
| undo_wait: "consumer s = Undo_wait h \<Longrightarrow> os_mpsc_get_head (mwords s) = Some n \<Longrightarrow>
    mpsc_step s (s\<lparr>mwords := mpsc_store_next h (Some n) (mwords s), consumer := Undo_head h n\<rparr>)"
| undo_done: "consumer s = Undo_head h n \<Longrightarrow>
    mpsc_step s (s\<lparr>mwords := mpsc_store_head (Some h) (mwords s), consumer := Pop_idle, queued := h # queued s\<rparr>)"
| undo_head: "consumer s = Undo_alone h \<Longrightarrow>
    mpsc_step s (s\<lparr>mwords := mpsc_store_head (Some h) (mwords s), consumer := Pop_idle\<rparr>)"

definition mpsc_init :: "'n mpsc_sys \<Rightarrow> bool" where
  "mpsc_init s \<longleftrightarrow> mq_head (mwords s) = None \<and> mq_tail (mwords s) = None \<and>
     producers s = (\<lambda>_. Push_idle) \<and> consumer s = Pop_idle \<and>
     pushed s = [] \<and> popped s = [] \<and> snapshot s = [] \<and> queued s = []"

section \<open>Consecutive nodes\<close>

lemma hd_first: "q \<noteq> [] \<Longrightarrow> a = hd q \<Longrightarrow> \<exists>ys. q = a # ys"
  by (cases q) auto

lemma adj_append:
  "adj a b (xs @ ys) \<longleftrightarrow> adj a b xs \<or> adj a b ys \<or> xs \<noteq> [] \<and> ys \<noteq> [] \<and> a = last xs \<and> b = hd ys"
proof (induction xs rule: induct_list012)
  case (2 x)
  then show ?case by (cases ys) auto
qed auto

lemma adj_mem: "adj a b xs \<Longrightarrow> a \<in> set xs \<and> b \<in> set xs \<and> b \<in> set (tl xs)"
  by (induction a b xs rule: adj.induct) auto

lemma adj_Cons: "adj a b (x # xs) \<longleftrightarrow> (xs \<noteq> [] \<and> a = x \<and> b = hd xs) \<or> adj a b xs"
  by (cases xs) auto

lemma adj_right: "distinct xs \<Longrightarrow> adj a b xs \<Longrightarrow> adj a c xs \<Longrightarrow> b = c"
  by (induction xs) (auto simp: adj_Cons dest: adj_mem)

lemma adj_left: "distinct xs \<Longrightarrow> adj a b xs \<Longrightarrow> adj c b xs \<Longrightarrow> a = c"
proof (induction xs)
  case (Cons x xs)
  then show ?case by (cases xs) (auto simp: adj_Cons dest: adj_mem)
qed simp

lemma adj_last: "distinct xs \<Longrightarrow> \<not> adj (last xs) b xs"
  by (induction xs) (auto simp: adj_Cons dest: adj_mem split: if_splits)

lemma adj_ex: "xs \<noteq> [] \<Longrightarrow> a \<in> set xs \<Longrightarrow> a \<noteq> last xs \<Longrightarrow> \<exists>b. adj a b xs"
  by (induction xs) (auto simp: adj_Cons split: if_splits)

section \<open>Invariant\<close>

text \<open>The consumer may find a head that a producer is still to store.\<close>

fun head_open :: "'n pop_pc \<Rightarrow> bool" where
  "head_open Pop_idle = True"
| "head_open (Snapshot h t) = True"
| "head_open (Undo_cas h) = True"
| "head_open (Undo_wait h) = True"
| "head_open _ = False"

definition linking :: "'n mpsc_sys \<Rightarrow> 'n option \<Rightarrow> 'n \<Rightarrow> bool" where
  "linking s p b \<longleftrightarrow> (\<exists>t. producers s t = Push_prev p b)"

definition follows :: "'n mpsc_sys \<Rightarrow> 'n \<Rightarrow> 'n \<Rightarrow> bool" where
  "follows s a b \<longleftrightarrow> adj a b (queued s) \<or> adj a b (snapshot s)"

definition head_ok :: "'n mpsc_sys \<Rightarrow> bool" where
  "head_ok s \<longleftrightarrow>
     (let h = mq_head (mwords s); nx = mq_next (mwords s); q = queued s in
      case consumer s of
        Pop_loaded a n \<Rightarrow> h = Some a \<and> q \<noteq> [] \<and> a = hd q \<and> (n = None \<or> n = nx a)
      | Pop_cas a \<Rightarrow> h = None \<and> q \<noteq> [] \<and> a = hd q
      | Pop_wait a \<Rightarrow> h = None \<and> tl q \<noteq> [] \<and> a = hd q
      | Pop_store a n \<Rightarrow> h = None \<and> q \<noteq> [] \<and> a = hd q \<and> nx a = Some n
      | Capture_xchg a \<Rightarrow> h = None \<and> q \<noteq> [] \<and> a = hd q
      | Undo_head a n \<Rightarrow> h = Some n \<and> q \<noteq> [] \<and> n = hd q \<and> nx a = Some n
      | Undo_alone a \<Rightarrow> h = None \<and> q \<noteq> [] \<and> a = hd q
      | Undo_wait a \<Rightarrow> q \<noteq> [] \<and> (h = Some (hd q) \<or> h = None \<and> linking s None (hd q))
      | Undo_cas a \<Rightarrow> nx a = None \<and> (if q = [] then h = None else h = Some (hd q) \<or> h = None \<and> linking s None (hd q))
      | _ \<Rightarrow> (if q = [] then h = None else h = Some (hd q) \<or> h = None \<and> linking s None (hd q)))"

definition snapshot_ok :: "'n mpsc_sys \<Rightarrow> bool" where
  "snapshot_ok s \<longleftrightarrow>
     (case consumer s of
        Snapshot h t \<Rightarrow> snapshot s \<noteq> [] \<and> h = hd (snapshot s) \<and> t = last (snapshot s)
      | _ \<Rightarrow> snapshot s = [])"

definition mpsc_inv :: "'n mpsc_sys \<Rightarrow> bool" where
  "mpsc_inv s \<longleftrightarrow>
     distinct (snapshot s @ in_hand (consumer s) @ queued s) \<and>
     popped s @ snapshot s @ in_hand (consumer s) @ queued s = pushed s \<and>
     mq_tail (mwords s) = (if queued s = [] then None else Some (last (queued s))) \<and>
     (queued s \<noteq> [] \<longrightarrow> mq_next (mwords s) (last (queued s)) = None) \<and>
     (\<forall>a b. follows s a b \<longrightarrow> mq_next (mwords s) a = Some b \<or> mq_next (mwords s) a = None \<and> linking s (Some a) b) \<and>
     (\<forall>a b. linking s (Some a) b \<longrightarrow> follows s a b \<and> mq_next (mwords s) a = None) \<and>
     (\<forall>b. linking s None b \<longrightarrow> head_open (consumer s) \<and> queued s \<noteq> [] \<and> b = hd (queued s) \<and> mq_head (mwords s) = None) \<and>
     (\<forall>t u p p' b. producers s t = Push_prev p b \<and> producers s u = Push_prev p' b \<longrightarrow> t = u) \<and>
     head_ok s \<and> snapshot_ok s"

lemma mpsc_invD:
  assumes "mpsc_inv s"
  shows "distinct (snapshot s @ in_hand (consumer s) @ queued s)"
    and "popped s @ snapshot s @ in_hand (consumer s) @ queued s = pushed s"
    and "mq_tail (mwords s) = (if queued s = [] then None else Some (last (queued s)))"
    and "queued s \<noteq> [] \<Longrightarrow> mq_next (mwords s) (last (queued s)) = None"
    and "follows s a b \<Longrightarrow> mq_next (mwords s) a = Some b \<or> mq_next (mwords s) a = None \<and> linking s (Some a) b"
    and "linking s (Some a) b \<Longrightarrow> follows s a b \<and> mq_next (mwords s) a = None"
    and "linking s None b \<Longrightarrow> head_open (consumer s) \<and> queued s \<noteq> [] \<and> b = hd (queued s) \<and> mq_head (mwords s) = None"
    and "producers s t = Push_prev p b \<Longrightarrow> producers s u = Push_prev p' b \<Longrightarrow> t = u"
    and "head_ok s" and "snapshot_ok s"
  using assms unfolding mpsc_inv_def by blast+

lemma mpsc_invI:
  assumes "distinct (snapshot s @ in_hand (consumer s) @ queued s)"
    and "popped s @ snapshot s @ in_hand (consumer s) @ queued s = pushed s"
    and "mq_tail (mwords s) = (if queued s = [] then None else Some (last (queued s)))"
    and "queued s \<noteq> [] \<Longrightarrow> mq_next (mwords s) (last (queued s)) = None"
    and "\<And>a b. follows s a b \<Longrightarrow> mq_next (mwords s) a = Some b \<or> mq_next (mwords s) a = None \<and> linking s (Some a) b"
    and "\<And>a b. linking s (Some a) b \<Longrightarrow> follows s a b \<and> mq_next (mwords s) a = None"
    and "\<And>b. linking s None b \<Longrightarrow> head_open (consumer s) \<and> queued s \<noteq> [] \<and> b = hd (queued s) \<and> mq_head (mwords s) = None"
    and "\<And>t u p p' b. producers s t = Push_prev p b \<Longrightarrow> producers s u = Push_prev p' b \<Longrightarrow> t = u"
    and "head_ok s" and "snapshot_ok s"
  shows "mpsc_inv s"
  using assms unfolding mpsc_inv_def by blast

lemma mpsc_disjoint:
  assumes "mpsc_inv s"
  shows "distinct (queued s)" "distinct (snapshot s)" "x \<in> set (queued s) \<Longrightarrow> x \<notin> set (snapshot s)"
    "x \<in> set (in_hand (consumer s)) \<Longrightarrow> x \<notin> set (queued s) \<and> x \<notin> set (snapshot s)"
  using mpsc_invD(1) [OF assms] by auto

lemma follows_mem: "follows s a b \<Longrightarrow> a \<in> set (queued s) \<union> set (snapshot s) \<and> b \<in> set (queued s) \<union> set (snapshot s)"
  by (auto simp: follows_def dest: adj_mem)

lemma linking_mem: "mpsc_inv s \<Longrightarrow> linking s p b \<Longrightarrow> b \<in> set (queued s) \<union> set (snapshot s)"
  using mpsc_invD(6,7) follows_mem by (cases p) (fastforce dest: follows_mem intro: hd_in_set)+

lemma follows_right: "mpsc_inv s \<Longrightarrow> follows s a b \<Longrightarrow> follows s a c \<Longrightarrow> b = c"
  using mpsc_disjoint [of s] adj_right unfolding follows_def by (metis adj_mem)

lemma follows_last: "mpsc_inv s \<Longrightarrow> queued s \<noteq> [] \<Longrightarrow> \<not> follows s (last (queued s)) b"
  using mpsc_disjoint [of s] adj_last [of "queued s" b] last_in_set [of "queued s"] by (auto simp: follows_def dest: adj_mem)

lemma linking_upd:
  assumes "producers s t = Push_idle"
  shows "linking (s\<lparr>mwords := q, producers := (producers s)(t := Push_prev p h), pushed := x, queued := y\<rparr>) p' b \<longleftrightarrow>
    linking s p' b \<or> p' = p \<and> b = h"
proof
  assume "linking s p' b \<or> p' = p \<and> b = h"
  then show "linking (s\<lparr>mwords := q, producers := (producers s)(t := Push_prev p h), pushed := x, queued := y\<rparr>) p' b"
  proof
    assume "linking s p' b"
    then obtain u where "producers s u = Push_prev p' b" by (auto simp: linking_def)
    then show ?thesis using assms by (auto simp: linking_def intro!: exI [of _ u])
  qed (auto simp: linking_def)
qed (auto simp: linking_def split: if_splits)

lemma linking_same [simp]:
  "linking (s\<lparr>mwords := q\<rparr>) = linking s" "linking (s\<lparr>consumer := c\<rparr>) = linking s"
  "linking (s\<lparr>popped := xs\<rparr>) = linking s" "linking (s\<lparr>queued := xs\<rparr>) = linking s"
  "linking (s\<lparr>snapshot := xs\<rparr>) = linking s"
  by (intro ext; simp add: linking_def)+

lemma follows_same [simp]:
  "follows (s\<lparr>mwords := q\<rparr>) = follows s" "follows (s\<lparr>consumer := c\<rparr>) = follows s"
  "follows (s\<lparr>popped := xs\<rparr>) = follows s"
  by (intro ext; simp add: follows_def)+

lemma push_tail_inv:
  assumes inv: "mpsc_inv s" and t: "producers s t = Push_idle" and ok: "push_list_ok s ns"
  shows "mpsc_inv (s\<lparr>mwords := (mwords s)\<lparr>mq_next := (mq_next (mwords s))(last ns := None), mq_tail := Some (last ns)\<rparr>,
      producers := (producers s)(t := Push_prev (mq_tail (mwords s)) (hd ns)), pushed := pushed s @ ns, queued := queued s @ ns\<rparr>)"
    (is "mpsc_inv ?new")
proof -
  define s' where "s' = ?new"
  have S: "mwords s' = (mwords s)\<lparr>mq_next := (mq_next (mwords s))(last ns := None), mq_tail := Some (last ns)\<rparr>"
    "producers s' = (producers s)(t := Push_prev (mq_tail (mwords s)) (hd ns))" "consumer s' = consumer s"
    "pushed s' = pushed s @ ns" "popped s' = popped s" "snapshot s' = snapshot s" "queued s' = queued s @ ns"
    by (simp_all add: s'_def)
  have ns: "ns \<noteq> []" "distinct ns" and fresh: "\<And>x. x \<in> set ns \<Longrightarrow> x \<notin> set (snapshot s) \<and> x \<notin> set (in_hand (consumer s)) \<and> x \<notin> set (queued s)"
    and pre: "\<And>a b. adj a b ns \<Longrightarrow> mq_next (mwords s) a = Some b"
    using ok by (auto simp: push_list_ok_def)
  have hdns: "hd ns \<in> set ns" "last ns \<in> set ns" using ns(1) by simp_all
  note I = mpsc_invD [OF inv] and J = mpsc_disjoint [OF inv]
  let ?p = "mq_tail (mwords s)"
  have L: "linking s' p' b \<longleftrightarrow> linking s p' b \<or> p' = ?p \<and> b = hd ns" for p' b using linking_upd [OF t] by (simp add: s'_def)
  have old: "linking s p b \<Longrightarrow> b \<notin> set ns" for p b using linking_mem [OF inv] fresh by blast
  have F: "follows s' a b \<longleftrightarrow> follows s a b \<or> adj a b ns \<or> queued s \<noteq> [] \<and> a = last (queued s) \<and> b = hd ns" for a b
    using ns by (auto simp: follows_def adj_append S)
  have new_last: "a \<noteq> last ns" if "a \<in> set (queued s) \<union> set (snapshot s) \<union> set (in_hand (consumer s))" for a
    using that fresh hdns(2) by auto
  have next_ok: "mq_next (mwords s') a = Some b \<or> mq_next (mwords s') a = None \<and> linking s' (Some a) b" if f: "follows s' a b" for a b
  proof -
    consider "follows s a b" | "adj a b ns" | "queued s \<noteq> []" "a = last (queued s)" "b = hd ns" using f F by blast
    then show ?thesis
    proof cases
      case 1
      then have "a \<noteq> last ns" using follows_mem [OF 1] by (intro new_last) blast
      then show ?thesis using I(5) [OF 1] by (auto simp: L S)
    next
      case 2
      then have "a \<noteq> last ns" using adj_last [OF ns(2)] by auto
      then show ?thesis using pre [OF 2] by (simp add: S)
    next
      case 3
      then have "a \<noteq> last ns" using new_last [of a] by simp
      then show ?thesis using 3 I(3,4) by (simp add: L S)
    qed
  qed
  have link_ok: "follows s' a b \<and> mq_next (mwords s') a = None" if lk: "linking s' (Some a) b" for a b
  proof -
    consider "linking s (Some a) b" | "queued s \<noteq> []" "a = last (queued s)" "b = hd ns"
      using lk I(3) by (auto simp: L split: if_splits)
    then show ?thesis using I(4,6) by cases (auto simp: F S)
  qed
  have link_none: "head_open (consumer s) \<and> b = hd (queued s @ ns) \<and> mq_head (mwords s) = None" if "linking s' None b" for b
  proof (cases "linking s None b")
    case True
    then show ?thesis using I(7) by (auto simp: hd_append)
  next
    case False
    then have e: "queued s = []" "b = hd ns" using that L I(3) by (auto split: if_splits)
    then show ?thesis using I(9) by (auto simp: head_ok_def Let_def split: pop_pc.splits)
  qed
  have once: "t' = u" if "producers s' t' = Push_prev p b" "producers s' u = Push_prev p' b" for t' u p p' b
  proof -
    have "producers s v \<noteq> Push_prev r (hd ns)" for v r
      using old [of r "hd ns"] hdns(1) by (auto simp: linking_def)
    then show ?thesis using that I(8) by (auto simp: S split: if_splits)
  qed
  have L': "linking s' None x \<longleftrightarrow> linking s None x \<or> queued s = [] \<and> x = hd ns" for x
    using I(3) by (auto simp: L)
  have hq: "queued s \<noteq> [] \<Longrightarrow> hd (queued s) \<noteq> last ns" using new_last [of "hd (queued s)"] by simp
  have inh: "x \<in> set (in_hand (consumer s)) \<Longrightarrow> x \<noteq> last ns" for x by (rule new_last) simp
  have head: "head_ok s'"
  proof (cases "queued s = []")
    case True
    then show ?thesis using I(9) inh ns unfolding head_ok_def Let_def L' S
      by (cases "consumer s") auto
  next
    case False
    then show ?thesis using I(9) inh hq unfolding head_ok_def Let_def L' S
      by (cases "consumer s") auto
  qed
  have "snapshot_ok s'" using I(10) unfolding snapshot_ok_def S .
  moreover have "distinct (snapshot s @ in_hand (consumer s) @ (queued s @ ns))" using I(1) fresh ns by auto
  ultimately have "mpsc_inv s'"
  proof (intro mpsc_invI)
    show "popped s' @ snapshot s' @ in_hand (consumer s') @ queued s' = pushed s'" using I(2) [symmetric] by (simp add: S)
    show "linking s' None b \<Longrightarrow> head_open (consumer s') \<and> queued s' \<noteq> [] \<and> b = hd (queued s') \<and> mq_head (mwords s') = None" for b
      using link_none ns(1) by (simp add: S)
    show "producers s' t' = Push_prev p b \<Longrightarrow> producers s' u = Push_prev p' b \<Longrightarrow> t' = u" for t' u p p' b by (rule once)
  qed (use next_ok link_ok head ns in \<open>simp_all add: S\<close>)
  then show ?thesis by (simp add: s'_def)
qed

lemma link_inv:
  assumes inv: "mpsc_inv s" and t: "producers s t = Push_prev prv h"
  shows "mpsc_inv (s\<lparr>mwords := os_mpsc_push_update_prev prv h (mwords s), producers := (producers s)(t := Push_idle)\<rparr>)"
    (is "mpsc_inv ?new")
proof -
  define s' where "s' = ?new"
  have S: "mwords s' = os_mpsc_push_update_prev prv h (mwords s)" "producers s' = (producers s)(t := Push_idle)"
    "consumer s' = consumer s" "pushed s' = pushed s" "popped s' = popped s" "snapshot s' = snapshot s" "queued s' = queued s"
    by (simp_all add: s'_def)
  note I = mpsc_invD [OF inv] and J = mpsc_disjoint [OF inv]
  have lk: "linking s prv h" using t by (auto simp: linking_def)
  have L: "linking s' p b \<longleftrightarrow> linking s p b \<and> b \<noteq> h" for p b
  proof
    assume "linking s' p b"
    then obtain u where u: "producers s u = Push_prev p b" "u \<noteq> t" by (auto simp: linking_def S split: if_splits)
    then show "linking s p b \<and> b \<noteq> h" using I(8) [OF u(1), of t prv] t by (auto simp: linking_def)
  next
    assume l: "linking s p b \<and> b \<noteq> h"
    then obtain u where "producers s u = Push_prev p b" by (auto simp: linking_def)
    moreover have "u \<noteq> t" using t l calculation by auto
    ultimately show "linking s' p b" by (auto simp: linking_def S)
  qed
  have F: "follows s' = follows s" by (intro ext) (simp add: follows_def S)
  have tail: "mq_tail (mwords s') = mq_tail (mwords s)"
    by (simp add: S os_mpsc_push_update_prev_def split: option.splits)
  have nx: "mq_next (mwords s') a = (if prv = Some a then Some h else mq_next (mwords s) a)" for a
    by (simp add: S os_mpsc_push_update_prev_def split: option.splits)
  have hd': "mq_head (mwords s') = (if prv = None then Some h else mq_head (mwords s))"
    by (simp add: S os_mpsc_push_update_prev_def split: option.splits)
  have next_ok: "mq_next (mwords s') a = Some b \<or> mq_next (mwords s') a = None \<and> linking s' (Some a) b" if f: "follows s a b" for a b
  proof (cases "prv = Some a")
    case True
    then have "follows s a h" using I(6) lk by blast
    then have "b = h" by (rule follows_right [OF inv f])
    then show ?thesis using True by (simp add: nx)
  next
    case False
    have "b \<noteq> h \<or> mq_next (mwords s) a = Some b"
    proof (rule ccontr)
      assume c: "\<not> (b \<noteq> h \<or> mq_next (mwords s) a = Some b)"
      then obtain u where "producers s u = Push_prev (Some a) h" using I(5) [OF f] by (auto simp: linking_def)
      then show False using I(8) [OF t] t False by auto
    qed
    then show ?thesis using I(5) [OF f] False by (auto simp: nx L)
  qed
  have link_ok: "follows s a b \<and> mq_next (mwords s') a = None" if l: "linking s' (Some a) b" for a b
  proof -
    have ab: "linking s (Some a) b" "b \<noteq> h" using l L by blast+
    then have f: "follows s a b" "mq_next (mwords s) a = None" using I(6) by blast+
    have "prv \<noteq> Some a"
    proof
      assume "prv = Some a"
      then have "follows s a h" using I(6) lk by blast
      then show False using follows_right [OF inv f(1)] ab(2) by blast
    qed
    then show ?thesis using f by (simp add: nx)
  qed
  have link_none: "\<not> linking s None b" if "prv = None" "b \<noteq> h" for b
    using I(7) [of b] I(7) [of h] lk that by auto
  have last_ok: "mq_next (mwords s') (last (queued s)) = None" if "queued s \<noteq> []"
    using I(4) [OF that] follows_last [OF inv that] I(6) lk by (auto simp: nx)
  have once: "t' = u" if "producers s' t' = Push_prev p b" "producers s' u = Push_prev p' b" for t' u p p' b
    using that I(8) by (auto simp: S split: if_splits)
  have head: "head_ok s'"
  proof (cases prv)
    case None
    have h: "head_open (consumer s)" "queued s \<noteq> []" "h = hd (queued s)" using I(7) lk None by blast+
    have "mq_next (mwords s') = mq_next (mwords s)" using None by (intro ext) (simp add: nx)
    then show ?thesis using I(9) h None unfolding head_ok_def Let_def S(3,7) hd' by (cases "consumer s") auto
  next
    case (Some a)
    then have nx': "mq_next (mwords s) b = Some c \<Longrightarrow> mq_next (mwords s') b = Some c" for b c
      using I(6) lk by (auto simp: nx)
    have na: "mq_next (mwords s) a = None" using I(6) lk Some by blast
    have "follows s a h" using I(6) lk Some by blast
    then have "a \<in> set (queued s) \<union> set (snapshot s)" "h \<noteq> hd (queued s) \<or> queued s = []"
      using follows_mem [of s a h] J(1,3) by (auto simp: follows_def) (cases "queued s"; auto dest: adj_mem)+
    moreover have "x \<in> set (in_hand (consumer s)) \<Longrightarrow> x \<noteq> a" for x using J(4) calculation by auto
    ultimately show ?thesis using I(9) nx' na Some unfolding head_ok_def Let_def S(3,7) hd' L
      by (cases "consumer s") (auto simp: nx)
  qed
  have "snapshot_ok s'" using I(10) unfolding snapshot_ok_def S .
  then have "mpsc_inv s'"
  proof (intro mpsc_invI)
    show "linking s' None b \<Longrightarrow> head_open (consumer s') \<and> queued s' \<noteq> [] \<and> b = hd (queued s') \<and> mq_head (mwords s') = None" for b
      using link_none [of b] I(7) [of b] by (auto simp: L S(3-7) hd')
    show "producers s' t' = Push_prev p b \<Longrightarrow> producers s' u = Push_prev p' b \<Longrightarrow> t' = u" for t' u p p' b by (rule once)
    show "follows s' a b \<Longrightarrow> mq_next (mwords s') a = Some b \<or> mq_next (mwords s') a = None \<and> linking s' (Some a) b" for a b
      unfolding F by (rule next_ok)
    show "linking s' (Some a) b \<Longrightarrow> follows s' a b \<and> mq_next (mwords s') a = None" for a b
      unfolding F by (rule link_ok)
  qed (use I(1-3) last_ok head in \<open>simp_all add: S(3-7) tail\<close>)
  then show ?thesis by (simp add: s'_def)
qed

end
