(* ===== verification/Mpsc_Invariant.thy ===== *)
theory Mpsc_Invariant
  imports Mpsc
begin

text \<open>The steps of the consumer keep the invariant of the queue.\<close>

lemma consumer_inv:
  assumes inv: "mpsc_inv s" and same: "producers s' = producers s" "pushed s' = pushed s"
    and "distinct (snapshot s' @ in_hand (consumer s') @ queued s')"
    and "popped s' @ snapshot s' @ in_hand (consumer s') @ queued s' = pushed s"
    and "mq_tail (mwords s') = (if queued s' = [] then None else Some (last (queued s')))"
    and "queued s' \<noteq> [] \<Longrightarrow> mq_next (mwords s') (last (queued s')) = None"
    and F: "\<And>a b. follows s' a b \<Longrightarrow> follows s a b \<or> mq_next (mwords s') a = Some b"
    and keep: "\<And>a b. linking s (Some a) b \<Longrightarrow> follows s' a b"
    and nx: "\<And>a b. follows s a b \<Longrightarrow> mq_next (mwords s') a = mq_next (mwords s) a"
    and "\<And>b. linking s None b \<Longrightarrow> head_open (consumer s') \<and> queued s' \<noteq> [] \<and> b = hd (queued s') \<and> mq_head (mwords s') = None"
    and "head_ok s'" "snapshot_ok s'"
  shows "mpsc_inv s'"
proof -
  note I = mpsc_invD [OF inv]
  have L: "linking s' = linking s" by (intro ext) (simp add: linking_def same)
  show ?thesis
  proof (rule mpsc_invI)
    show "follows s' a b \<Longrightarrow> mq_next (mwords s') a = Some b \<or> mq_next (mwords s') a = None \<and> linking s' (Some a) b" for a b
      using F [of a b] nx [of a b] I(5) [of a b] unfolding L by auto
    show "linking s' (Some a) b \<Longrightarrow> follows s' a b \<and> mq_next (mwords s') a = None" for a b
      using keep [of a b] nx [of a b] I(6) [of a b] unfolding L by auto
    show "producers s' t = Push_prev p b \<Longrightarrow> producers s' u = Push_prev p' b \<Longrightarrow> t = u" for t u p p' b
      unfolding same by (rule I(8))
  qed (use assms in \<open>simp_all add: L\<close>)
qed

lemma head_store_inv:
  assumes inv: "mpsc_inv s"
    and s': "s' = s\<lparr>mwords := mpsc_store_head n (mwords s), consumer := c\<rparr>"
    and hand: "in_hand c = in_hand (consumer s)"
    and none: "\<And>b. linking s None b \<Longrightarrow> head_open c \<and> n = None" and ok: "head_ok s'" "snapshot_ok s'"
  shows "mpsc_inv s'"
proof -
  note I = mpsc_invD [OF inv]
  have F: "follows s' = follows s" unfolding s' by (intro ext) (simp add: follows_def)
  show ?thesis
  proof (rule consumer_inv [OF inv])
    show "linking s None b \<Longrightarrow> head_open (consumer s') \<and> queued s' \<noteq> [] \<and> b = hd (queued s') \<and> mq_head (mwords s') = None" for b
      using none [of b] I(7) [of b] by (simp add: s' mpsc_store_head_def)
    show "linking s (Some a) b \<Longrightarrow> follows s' a b" for a b unfolding F using I(6) by blast
  qed (use I(1-4) hand ok F in \<open>simp_all add: s' mpsc_store_head_def\<close>)
qed

lemma consumer_move_inv:
  assumes inv: "mpsc_inv s" and hand: "in_hand c = in_hand (consumer s)"
    and none: "\<And>b. linking s None b \<Longrightarrow> head_open c"
    and ok: "head_ok (s\<lparr>consumer := c\<rparr>)" "snapshot_ok (s\<lparr>consumer := c\<rparr>)"
  shows "mpsc_inv (s\<lparr>consumer := c\<rparr>)"
proof -
  note I = mpsc_invD [OF inv]
  show ?thesis
  proof (rule consumer_inv [OF inv])
    show "linking s None b \<Longrightarrow> head_open (consumer (s\<lparr>consumer := c\<rparr>)) \<and> queued (s\<lparr>consumer := c\<rparr>) \<noteq> [] \<and>
        b = hd (queued (s\<lparr>consumer := c\<rparr>)) \<and> mq_head (mwords (s\<lparr>consumer := c\<rparr>)) = None" for b
      using none [of b] I(7) [of b] by simp
    show "linking s (Some a) b \<Longrightarrow> follows (s\<lparr>consumer := c\<rparr>) a b" for a b using I(6) by simp
  qed (use I(1-4) hand ok in simp_all)
qed

lemma pop_inv:
  assumes inv: "mpsc_inv s" and q: "queued s = h # ys"
    and s': "producers s' = producers s" "pushed s' = pushed s" "popped s' = popped s @ [h]" "queued s' = ys"
      "snapshot s' = snapshot s" "consumer s' = Pop_idle" "mq_next (mwords s') = mq_next (mwords s)"
    and idle: "snapshot s = []" "in_hand (consumer s) = []" and nolink: "\<And>b. \<not> linking s (Some h) b" "\<And>b. \<not> linking s None b"
    and tail: "mq_tail (mwords s') = (if ys = [] then None else mq_tail (mwords s))"
    and head: "mq_head (mwords s') = (case ys of [] \<Rightarrow> None | y # _ \<Rightarrow> Some y)"
  shows "mpsc_inv s'"
proof -
  note I = mpsc_invD [OF inv]
  have F: "follows s a b \<longleftrightarrow> follows s' a b \<or> ys \<noteq> [] \<and> a = h \<and> b = hd ys" for a b
    by (auto simp: follows_def q s' idle adj_Cons)
  show ?thesis
  proof (rule consumer_inv [OF inv s'(1,2)])
    show "linking s (Some a) b \<Longrightarrow> follows s' a b" for a b using I(6) F nolink(1) by blast
    show "head_ok s'" using head by (cases ys) (simp_all add: head_ok_def s')
    show "mq_tail (mwords s') = (if queued s' = [] then None else Some (last (queued s')))" using tail I(3) q by (simp add: s')
    show "queued s' \<noteq> [] \<Longrightarrow> mq_next (mwords s') (last (queued s')) = None" using I(4) q by (simp add: s')
  qed (use I(1,2) F nolink(2) q in \<open>simp_all add: s' idle snapshot_ok_def\<close>)
qed

lemma quiet_snapshot: "mpsc_inv s \<Longrightarrow> (\<And>h t. consumer s \<noteq> Snapshot h t) \<Longrightarrow> snapshot s = []"
  using mpsc_invD(10) [of s] by (auto simp: snapshot_ok_def split: pop_pc.splits)

text \<open>What the second node is when the first points to it.\<close>

lemma next_second:
  assumes inv: "mpsc_inv s" and q: "queued s = h # ys" and n: "mq_next (mwords s) h = Some n"
  shows "ys \<noteq> []" "hd ys = n" "\<not> linking s (Some h) b"
proof -
  note I = mpsc_invD [OF inv]
  show ys: "ys \<noteq> []" using I(4) q n by auto
  have "follows s h (hd ys)" using ys q by (simp add: follows_def adj_Cons)
  then show "hd ys = n" using I(5) n by fastforce
  show "\<not> linking s (Some h) b" using I(6) [of h b] n by auto
qed

lemma same_words: "s\<lparr>mwords := mwords s, consumer := c\<rparr> = s\<lparr>consumer := c\<rparr>"
  by simp

section \<open>Popping\<close>

lemma pop_load_inv:
  assumes inv: "mpsc_inv s" and c: "consumer s = Pop_idle" and h: "mq_head (mwords s) = Some h"
  shows "mpsc_inv (s\<lparr>consumer := Pop_loaded h (mq_next (mwords s) h)\<rparr>)"
proof (rule consumer_move_inv [OF inv])
  show "\<And>b. linking s None b \<Longrightarrow> head_open (Pop_loaded h (mq_next (mwords s) h))" using mpsc_invD(7) [OF inv] h by auto
  show "head_ok (s\<lparr>consumer := Pop_loaded h (mq_next (mwords s) h)\<rparr>)"
    using mpsc_invD(9) [OF inv] h by (auto simp: head_ok_def Let_def c split: if_splits)
  show "snapshot_ok (s\<lparr>consumer := Pop_loaded h (mq_next (mwords s) h)\<rparr>)"
    using mpsc_invD(10) [OF inv] by (simp add: snapshot_ok_def c)
qed (simp add: c)

lemma pop_first_inv:
  assumes inv: "mpsc_inv s" and q: "queued s = h # ys" and n: "mq_next (mwords s) h = Some n"
    and c: "in_hand (consumer s) = []" "\<And>a t. consumer s \<noteq> Snapshot a t" and nonone: "\<And>b. \<not> linking s None b"
  shows "mpsc_inv (s\<lparr>mwords := mpsc_store_head (Some n) (mwords s), consumer := Pop_idle,
      popped := popped s @ [h], queued := tl (queued s)\<rparr>)"
proof -
  note N = next_second [OF inv q n]
  then have "(case ys of [] \<Rightarrow> None | y # _ \<Rightarrow> Some y) = Some n" by (cases ys) auto
  then show ?thesis
    by (intro pop_inv [OF inv q]) (use N nonone c quiet_snapshot [OF inv c(2)] q in \<open>simp_all add: mpsc_store_head_def\<close>)
qed

lemma pop_last_inv:
  assumes inv: "mpsc_inv s" and c: "consumer s = Pop_cas h" and tail: "mq_tail (mwords s) = Some h"
  shows "mpsc_inv (s\<lparr>mwords := (mwords s)\<lparr>mq_tail := None\<rparr>, consumer := Pop_idle, popped := popped s @ [h], queued := tl (queued s)\<rparr>)"
proof -
  note I = mpsc_invD [OF inv]
  have h: "mq_head (mwords s) = None" "queued s \<noteq> []" "h = hd (queued s)"
    using I(9) by (simp_all add: head_ok_def Let_def c)
  moreover have "last (queued s) = h" using tail I(3) h(2) by simp
  ultimately have q: "queued s = [h]" using I(1) by (cases "queued s") (auto split: if_splits)
  have sn: "snapshot s = []" by (rule quiet_snapshot [OF inv]) (simp add: c)
  have "\<not> linking s (Some h) b" for b using I(6) [of h b] by (auto simp: follows_def q sn)
  moreover have "\<not> linking s None b" for b using I(7) [of b] c by auto
  ultimately show ?thesis by (intro pop_inv [OF inv q]) (use h(1) sn c q in simp_all)
qed

section \<open>Snapshots\<close>

lemma capture_inv:
  assumes inv: "mpsc_inv s" and c: "consumer s = Capture_xchg h" and tail: "mq_tail (mwords s) = Some t"
  shows "mpsc_inv (s\<lparr>mwords := (mwords s)\<lparr>mq_tail := None\<rparr>, consumer := Snapshot h t, snapshot := queued s, queued := []\<rparr>)"
    (is "mpsc_inv ?s'")
proof -
  note I = mpsc_invD [OF inv]
  have h: "mq_head (mwords s) = None" "queued s \<noteq> []" "h = hd (queued s)"
    using I(9) by (simp_all add: head_ok_def Let_def c)
  have sn: "snapshot s = []" by (rule quiet_snapshot [OF inv]) (simp add: c)
  have F: "follows ?s' = follows s" by (intro ext) (auto simp: follows_def sn)
  have "\<not> linking s None b" for b using I(7) [of b] c by auto
  then show ?thesis
    by (intro consumer_inv [OF inv]; (unfold F)?)
      (use I(1,2,6) h sn tail I(3) c in \<open>simp_all add: head_ok_def snapshot_ok_def\<close>)
qed

lemma snapshot_pop_inv:
  assumes inv: "mpsc_inv s" and c: "consumer s = Snapshot h t" and sn: "snapshot s = h # ys"
    and c': "if ys = [] then c' = Pop_idle else c' = Snapshot (hd ys) (last ys)" and nolink: "\<And>b. \<not> linking s (Some h) b"
  shows "mpsc_inv (s\<lparr>consumer := c', popped := popped s @ [h], snapshot := tl (snapshot s)\<rparr>)" (is "mpsc_inv ?s'")
proof -
  note I = mpsc_invD [OF inv]
  have F: "follows s a b \<longleftrightarrow> follows ?s' a b \<or> ys \<noteq> [] \<and> a = h \<and> b = hd ys" for a b
    by (auto simp: follows_def sn adj_Cons)
  have hand: "in_hand c' = []" "head_open c'" using c' by (auto split: if_splits)
  show ?thesis
  proof (rule consumer_inv [OF inv])
    show "linking s (Some a) b \<Longrightarrow> follows ?s' a b" for a b using I(6) [of a b] F [of a b] nolink [of b] by auto
    show "head_ok ?s'" using I(9) c' by (auto simp: head_ok_def Let_def c split: if_splits)
    show "snapshot_ok ?s'" using c' by (auto simp: snapshot_ok_def sn split: if_splits)
    show "linking s None b \<Longrightarrow> head_open (consumer ?s') \<and> queued ?s' \<noteq> [] \<and> b = hd (queued ?s') \<and> mq_head (mwords ?s') = None" for b
      using I(7) [of b] hand(2) by simp
  qed (use I(1-4) F hand c sn in simp_all)
qed

section \<open>Putting a node back\<close>

lemma undo_store_inv:
  assumes inv: "mpsc_inv s" and fresh: "h \<notin> set (queued s)" and sn: "snapshot s = []"
    and hand: "popped s @ in_hand (consumer s) = ps @ [h]" "in_hand c = [h]"
    and n: "(case n of None \<Rightarrow> c = Undo_cas h \<and> head_open (consumer s) \<and> (queued s = [] \<longrightarrow> mq_head (mwords s) = None) |
        Some m \<Rightarrow> c = Undo_head h m \<and> queued s \<noteq> [] \<and> hd (queued s) = m \<and> mq_head (mwords s) = Some m)"
    and open_head: "n = None \<Longrightarrow> queued s \<noteq> [] \<Longrightarrow> mq_head (mwords s) = Some (hd (queued s)) \<or> mq_head (mwords s) = None \<and> linking s None (hd (queued s))"
  shows "mpsc_inv (s\<lparr>mwords := mpsc_store_next h n (mwords s), consumer := c, popped := ps\<rparr>)" (is "mpsc_inv ?s'")
proof -
  note I = mpsc_invD [OF inv]
  have F: "follows ?s' = follows s" by (intro ext) (simp add: follows_def)
  have L: "linking ?s' = linking s" by (intro ext) (simp add: linking_def)
  have mem: "follows s a b \<Longrightarrow> a \<noteq> h" for a b using follows_mem [of s a b] fresh sn by auto
  show ?thesis
  proof (rule consumer_inv [OF inv])
    show "distinct (snapshot ?s' @ in_hand (consumer ?s') @ queued ?s')" using I(1) fresh by (simp add: sn hand)
    show "popped ?s' @ snapshot ?s' @ in_hand (consumer ?s') @ queued ?s' = pushed s"
    proof -
      have "pushed s = (popped s @ in_hand (consumer s)) @ queued s" using I(2) sn by simp
      then show ?thesis unfolding hand(1) by (simp add: sn hand(2))
    qed
    show "mq_next (mwords ?s') (last (queued ?s')) = None" if "queued ?s' \<noteq> []"
      using I(4) that fresh last_in_set [of "queued s"] by (auto simp: mpsc_store_next_def)
    show "linking s None b \<Longrightarrow> head_open (consumer ?s') \<and> queued ?s' \<noteq> [] \<and> b = hd (queued ?s') \<and> mq_head (mwords ?s') = None" for b
      using I(7) [of b] n by (cases n) (auto simp: mpsc_store_next_def)
    show "head_ok ?s'" using n open_head unfolding head_ok_def Let_def L
      by (cases n) (auto simp: mpsc_store_next_def)
    show "snapshot_ok ?s'" using n sn by (cases n) (simp_all add: snapshot_ok_def)
    show "linking s (Some a) b \<Longrightarrow> follows ?s' a b" for a b unfolding F using I(6) by blast
    show "follows ?s' a b \<Longrightarrow> follows s a b \<or> mq_next (mwords ?s') a = Some b" for a b unfolding F by blast
    show "follows s a b \<Longrightarrow> mq_next (mwords ?s') a = mq_next (mwords s) a" for a b
      using mem by (simp add: mpsc_store_next_def)
  qed (use I(3) in \<open>simp_all add: mpsc_store_next_def\<close>)
qed

lemma undo_alone_inv:
  assumes inv: "mpsc_inv s" and c: "consumer s = Undo_cas h" and tail: "mq_tail (mwords s) = None"
  shows "mpsc_inv (s\<lparr>mwords := (mwords s)\<lparr>mq_tail := Some h\<rparr>, consumer := Undo_alone h, queued := [h]\<rparr>)" (is "mpsc_inv ?s'")
proof -
  note I = mpsc_invD [OF inv]
  have q: "queued s = []" using tail I(3) by (auto split: if_splits)
  have sn: "snapshot s = []" by (rule quiet_snapshot [OF inv]) (simp add: c)
  have "\<not> follows s a b" "\<not> linking s (Some a) b" "\<not> linking s None b" for a b
    using I(6) [of a b] I(7) [of b] by (auto simp: follows_def q sn)
  moreover have "mq_head (mwords s) = None" "mq_next (mwords s) h = None" using I(9) by (simp_all add: head_ok_def Let_def c q)
  ultimately show ?thesis
    by (intro consumer_inv [OF inv]) (use I(2) q sn c in \<open>simp_all add: follows_def head_ok_def snapshot_ok_def\<close>)
qed

lemma undo_done_inv:
  assumes inv: "mpsc_inv s" and c: "consumer s = Undo_head h n"
  shows "mpsc_inv (s\<lparr>mwords := mpsc_store_head (Some h) (mwords s), consumer := Pop_idle, queued := h # queued s\<rparr>)" (is "mpsc_inv ?s'")
proof -
  note I = mpsc_invD [OF inv]
  have h: "mq_head (mwords s) = Some n" "queued s \<noteq> []" "n = hd (queued s)" "mq_next (mwords s) h = Some n"
    using I(9) by (simp_all add: head_ok_def Let_def c)
  have sn: "snapshot s = []" by (rule quiet_snapshot [OF inv]) (simp add: c)
  have F: "follows ?s' a b \<longleftrightarrow> follows s a b \<or> a = h \<and> b = n" for a b using h by (auto simp: follows_def adj_Cons sn)
  have "\<not> linking s None b" for b using I(7) [of b] c by auto
  then show ?thesis
    by (intro consumer_inv [OF inv])
      (use I(1-4,6) h sn c F in \<open>auto simp: mpsc_store_head_def head_ok_def snapshot_ok_def\<close>)
qed

text \<open>What the consumer knows of the head, place by place.\<close>

lemma head_at:
  assumes "mpsc_inv s"
  shows "consumer s = Pop_loaded a (Some n) \<Longrightarrow> queued s \<noteq> [] \<and> a = hd (queued s) \<and> mq_next (mwords s) a = Some n"
    and "consumer s = Pop_store a n \<Longrightarrow> queued s \<noteq> [] \<and> a = hd (queued s) \<and> mq_next (mwords s) a = Some n"
    and "consumer s = Pop_wait a \<Longrightarrow> mq_head (mwords s) = None \<and> tl (queued s) \<noteq> [] \<and> a = hd (queued s)"
  using mpsc_invD(9) [OF assms] unfolding head_ok_def Let_def by auto

lemma snapshot_at:
  "mpsc_inv s \<Longrightarrow> consumer s = Snapshot h t \<Longrightarrow> snapshot s \<noteq> [] \<and> h = hd (snapshot s) \<and> t = last (snapshot s)"
  using mpsc_invD(10) [of s] unfolding snapshot_ok_def by auto

section \<open>Every step\<close>

lemma mpsc_step_inv:
  assumes "mpsc_step s s'" "mpsc_inv s"
  shows "mpsc_inv s'"
proof -
  note inv = assms(2) and I = mpsc_invD [OF assms(2)]
  have idle_head: "queued s \<noteq> [] \<and> hd (queued s) = h" if "consumer s = Pop_idle" "mq_head (mwords s) = Some h" for h
    using I(9) that by (auto simp: head_ok_def Let_def split: if_splits)
  have nonone: "\<not> linking s None b" if "mq_head (mwords s) = Some h \<or> \<not> head_open (consumer s)" for b h
    using I(7) [of b] that by auto
  note quiet = quiet_snapshot [OF inv]
  from assms(1) show ?thesis
  proof cases
    case (push_update_tail t ns q prv)
    then show ?thesis using push_tail_inv [OF inv, of t ns] by (auto simp: os_mpsc_push_update_tail_def)
  next
    case (push_update_prev t prv h)
    then show ?thesis using link_inv [OF inv] by simp
  next
    case (pop_load h)
    then show ?thesis using pop_load_inv [OF inv] by (simp add: os_mpsc_get_head_def)
  next
    case (pop_store h n)
    note x = head_at(1) [OF inv pop_store(2)]
    note h = conjunct1 [OF x] conjunct1 [OF conjunct2 [OF x]] conjunct2 [OF conjunct2 [OF x]]
    obtain ys where ys: "queued s = h # ys" using hd_first [OF h(1,2)] by blast
    have "\<not> linking s None b" for b using nonone [of h b] pop_store(2) by simp
    then show ?thesis unfolding pop_store(1) using pop_store(2) by (intro pop_first_inv [OF inv ys h(3)]) simp_all
  next
    case (pop_clear h)
    have h: "queued s \<noteq> []" "h = hd (queued s)" using I(9) pop_clear(2) by (simp_all add: head_ok_def Let_def)
    show ?thesis unfolding pop_clear(1)
      by (rule head_store_inv [OF inv refl])
        (use pop_clear h nonone quiet in \<open>auto simp: head_ok_def snapshot_ok_def mpsc_store_head_def\<close>)
  next
    case (pop_last h q)
    then show ?thesis using pop_last_inv [OF inv] by (auto simp: mpsc_cmpxchg_tail_def split: if_splits)
  next
    case (pop_more h q)
    have h: "mq_head (mwords s) = None" "queued s \<noteq> []" "h = hd (queued s)" using I(9) pop_more(2) by (simp_all add: head_ok_def Let_def)
    have q: "q = mwords s" "mq_tail (mwords s) \<noteq> Some h" using pop_more(3) by (auto simp: mpsc_cmpxchg_tail_def split: if_splits)
    then have "tl (queued s) \<noteq> []" using I(3) h by (cases "queued s") auto
    then show ?thesis unfolding pop_more(1) q(1) same_words
      by (intro consumer_move_inv [OF inv])
        (use pop_more h nonone quiet in \<open>auto simp: head_ok_def snapshot_ok_def\<close>)
  next
    case (pop_next h n)
    note x = head_at(3) [OF inv pop_next(2)]
    note h = conjunct1 [OF x] conjunct1 [OF conjunct2 [OF x]] conjunct2 [OF conjunct2 [OF x]]
    then have "queued s \<noteq> []" by auto
    then show ?thesis unfolding pop_next(1)
      by (intro consumer_move_inv [OF inv])
        (use pop_next h nonone quiet in \<open>auto simp: head_ok_def snapshot_ok_def os_mpsc_get_next_def\<close>)
  next
    case (pop_done h n)
    note x = head_at(2) [OF inv pop_done(2)]
    note h = conjunct1 [OF x] conjunct1 [OF conjunct2 [OF x]] conjunct2 [OF conjunct2 [OF x]]
    obtain ys where ys: "queued s = h # ys" using hd_first [OF h(1,2)] by blast
    have "\<not> linking s None b" for b using nonone [of h b] pop_done(2) by simp
    then show ?thesis unfolding pop_done(1) using pop_done(2) by (intro pop_first_inv [OF inv ys h(3)]) simp_all
  next
    case (capture h)
    then have h: "mq_head (mwords s) = Some h" by (simp add: os_mpsc_get_head_def)
    show ?thesis unfolding capture(1)
      by (rule head_store_inv [OF inv refl])
        (use capture(2) idle_head [OF capture(2) h] nonone h quiet in \<open>auto simp: head_ok_def snapshot_ok_def mpsc_store_head_def\<close>)
  next
    case (capture_tail h q t)
    then show ?thesis using capture_inv [OF inv] by (auto simp: mpsc_xchg_tail_def)
  next
    case (snapshot_last h)
    note x = snapshot_at [OF inv snapshot_last(2)]
    note sn = conjunct1 [OF x] conjunct1 [OF conjunct2 [OF x]] conjunct2 [OF conjunct2 [OF x]]
    then have e: "snapshot s = [h]" using I(1) by (cases "snapshot s") (auto split: if_splits)
    have "\<not> linking s (Some h) b" for b
      using I(6) [of h b] mpsc_disjoint(3) [OF inv, of h] by (auto simp: follows_def e dest: adj_mem)
    then show ?thesis unfolding snapshot_last(1) by (intro snapshot_pop_inv [OF inv snapshot_last(2) e]) simp_all
  next
    case (snapshot_next h t n)
    note x = snapshot_at [OF inv snapshot_next(2)]
    note sn = conjunct1 [OF x] conjunct1 [OF conjunct2 [OF x]] conjunct2 [OF conjunct2 [OF x]]
    obtain ys where ys: "snapshot s = h # ys" using hd_first [OF sn(1,2)] by blast
    then have ne: "ys \<noteq> []" using sn(3) snapshot_next(3) by auto
    have n: "mq_next (mwords s) h = Some n" using snapshot_next(4) by (simp add: os_mpsc_get_next_def)
    have "follows s h (hd ys)" using ne by (simp add: follows_def ys adj_Cons)
    then have hn: "hd ys = n" using I(5) n by fastforce
    have t: "last ys = t" unfolding sn(3) ys using ne by simp
    have nl: "\<not> linking s (Some h) b" for b using I(6) [of h b] n by auto
    show ?thesis unfolding snapshot_next(1)
      by (rule snapshot_pop_inv [OF inv snapshot_next(2) ys _ nl]) (simp add: ne hn t)
  next
    case (undo_next ps h n)
    then have h: "mq_head (mwords s) = Some n" by (simp add: os_mpsc_get_head_def)
    show ?thesis unfolding undo_next(1)
      by (intro undo_store_inv [OF inv undo_next(4)])
        (use undo_next idle_head [OF undo_next(2) h] h quiet in simp_all)
  next
    case (undo_last ps h)
    show ?thesis unfolding undo_last(1)
      by (intro undo_store_inv [OF inv undo_last(4)])
        (use undo_last I(9) quiet in \<open>auto simp: head_ok_def Let_def split: if_splits\<close>)
  next
    case (undo_alone h q)
    then show ?thesis using undo_alone_inv [OF inv] by (auto simp: mpsc_cmpxchg_tail_def split: if_splits)
  next
    case (undo_more h q)
    have q: "q = mwords s" "mq_tail (mwords s) \<noteq> None" using undo_more(3) by (auto simp: mpsc_cmpxchg_tail_def split: if_splits)
    then have "queued s \<noteq> []" using I(3) by (auto split: if_splits)
    moreover have "head_ok s" by (rule I(9))
    ultimately show ?thesis unfolding undo_more(1) q(1) same_words
      by (intro consumer_move_inv [OF inv]) (use undo_more quiet in \<open>auto simp: head_ok_def Let_def snapshot_ok_def\<close>)
  next
    case (undo_wait h n)
    have e: "(s\<lparr>mwords := w, consumer := c, popped := popped s\<rparr>) = s\<lparr>mwords := w, consumer := c\<rparr>" for w c by simp
    have h: "mq_head (mwords s) = Some n" using undo_wait by (simp add: os_mpsc_get_head_def)
    have q: "queued s \<noteq> []" "hd (queued s) = n" using I(9) undo_wait(2) h by (auto simp: head_ok_def Let_def)
    have "h \<notin> set (queued s)" using mpsc_disjoint(4) [OF inv, of h] undo_wait(2) by simp
    then show ?thesis unfolding undo_wait(1)
      using undo_store_inv [OF inv, of h "popped s" "Undo_head h n" "Some n"] undo_wait(2) h q quiet by (simp add: e)
  next
    case (undo_done h n)
    then show ?thesis using undo_done_inv [OF inv] by blast
  next
    case (undo_head h)
    have h: "mq_head (mwords s) = None" "queued s \<noteq> []" "h = hd (queued s)" using I(9) undo_head(2) by (simp_all add: head_ok_def Let_def)
    show ?thesis unfolding undo_head(1)
      by (rule head_store_inv [OF inv refl])
        (use undo_head h nonone quiet in \<open>auto simp: head_ok_def snapshot_ok_def mpsc_store_head_def\<close>)
  qed
qed

interpretation mpsc: invariant_system mpsc_init mpsc_step mpsc_inv
proof
  fix s :: "'a mpsc_sys" assume "mpsc_init s"
  then show "mpsc_inv s"
    by (simp add: mpsc_init_def mpsc_inv_def linking_def follows_def head_ok_def snapshot_ok_def)
qed (rule mpsc_step_inv)

end
