(* ===== verification/Mpsc_Properties.thy ===== *)
theory Mpsc_Properties
  imports Mpsc_Invariant
begin

text \<open>The two promises of the multi producer queue: the order of its items and the end of its waits.\<close>

section \<open>Waiting for an enqueuer\<close>

text \<open>
  The pointer the consumer finds NULL although the queue is not empty: \<open>Some None\<close> is the
  head, \<open>Some (Some n)\<close> the next pointer of \<open>n\<close>; \<open>None\<close>: it does not wait.
\<close>

definition enqueuer_awaited :: "'n mpsc_sys \<Rightarrow> 'n option option" where
  "enqueuer_awaited s =
     (let q = mwords s;
          head = (if os_mpsc_looks_empty q \<or> os_mpsc_get_head q \<noteq> None then None else Some None);
          link = (\<lambda>n. if os_mpsc_get_next n q = None then Some (Some n) else None) in
      case consumer s of
        Pop_idle \<Rightarrow> head
      | Undo_wait h \<Rightarrow> head
      | Pop_wait h \<Rightarrow> link h
      | Snapshot h t \<Rightarrow> if h = t then None else link h
      | _ \<Rightarrow> None)"

lemma head_awaited:
  assumes inv: "mpsc_inv s" and c: "consumer s = Pop_idle \<or> consumer s = Undo_wait h"
    and n: "\<not> os_mpsc_looks_empty (mwords s)" "os_mpsc_get_head (mwords s) = None"
  shows "linking s None (hd (queued s))"
proof -
  have "queued s \<noteq> []" using mpsc_invD(3) [OF inv] n(1) by (auto simp: os_mpsc_looks_empty_def)
  then show ?thesis using mpsc_invD(9) [OF inv] c n(2) by (auto simp: head_ok_def Let_def os_mpsc_get_head_def)
qed

lemma next_awaited:
  assumes inv: "mpsc_inv s" and n: "os_mpsc_get_next h (mwords s) = None"
    and c: "consumer s = Pop_wait h \<or> (\<exists>t. consumer s = Snapshot h t \<and> h \<noteq> t)"
  shows "\<exists>b. linking s (Some h) b"
proof -
  have "\<exists>b. follows s h b" using c
  proof
    assume w: "consumer s = Pop_wait h"
    have "tl (queued s) \<noteq> []" "hd (queued s) = h" using head_at(3) [OF inv w] by simp_all
    then have "follows s h (hd (tl (queued s)))" by (cases "queued s") (auto simp: follows_def adj_Cons)
    then show ?thesis by blast
  next
    assume "\<exists>t. consumer s = Snapshot h t \<and> h \<noteq> t"
    then obtain t where t: "consumer s = Snapshot h t" "h \<noteq> t" by blast
    have sn: "snapshot s \<noteq> []" "hd (snapshot s) = h" "last (snapshot s) \<noteq> h" using snapshot_at [OF inv t(1)] t(2) by simp_all
    then have "h \<in> set (snapshot s)" using hd_in_set [OF sn(1)] by simp
    then show ?thesis using adj_ex [of "snapshot s" h] sn by (auto simp: follows_def)
  qed
  then show ?thesis using mpsc_invD(5) [OF inv] n by (fastforce simp: os_mpsc_get_next_def)
qed

lemma awaited_linking:
  assumes inv: "mpsc_inv s" and w: "enqueuer_awaited s = Some p"
  shows "\<exists>b. linking s p b"
proof (cases "consumer s")
  case Pop_idle
  then show ?thesis using head_awaited [OF inv] w by (auto simp: enqueuer_awaited_def Let_def split: if_splits)
next
  case (Undo_wait h)
  then show ?thesis using head_awaited [OF inv] w by (auto simp: enqueuer_awaited_def Let_def split: if_splits)
next
  case (Pop_wait h)
  then show ?thesis using next_awaited [OF inv, of h] w by (auto simp: enqueuer_awaited_def Let_def split: if_splits)
next
  case (Snapshot h t)
  then show ?thesis using next_awaited [OF inv, of h] w by (auto simp: enqueuer_awaited_def Let_def split: if_splits)
qed (use w in \<open>simp_all add: enqueuer_awaited_def Let_def\<close>)

lemma link_ends_wait:
  assumes "enqueuer_awaited s = Some p"
  shows "enqueuer_awaited (s\<lparr>mwords := os_mpsc_push_update_prev p b (mwords s), producers := f\<rparr>) = None"
  using assms
  by (cases "consumer s"; cases p)
    (auto simp: enqueuer_awaited_def Let_def os_mpsc_push_update_prev_def os_mpsc_get_head_def os_mpsc_get_next_def
      os_mpsc_looks_empty_def split: if_splits)

section \<open>A run\<close>

text \<open>Thread 5 pushes node 1, thread 6 exchanges the tail to node 2, and the consumer pops node 1.\<close>

definition mpsc_start :: "nat mpsc_sys" where
  "mpsc_start = \<lparr>mwords = \<lparr>mq_head = None, mq_tail = None, mq_next = \<lambda>_. None\<rparr>, producers = \<lambda>_. Push_idle,
     consumer = Pop_idle, pushed = [], popped = [], snapshot = [], queued = []\<rparr>"

definition mpsc_one :: "nat mpsc_sys" where
  "mpsc_one = mpsc_start\<lparr>mwords := \<lparr>mq_head = None, mq_tail = Some 1, mq_next = (\<lambda>_. None)(1 := None)\<rparr>,
     producers := (\<lambda>_. Push_idle)(5 := Push_prev None 1), pushed := [1], queued := [1]\<rparr>"

definition mpsc_linked :: "nat mpsc_sys" where
  "mpsc_linked = mpsc_one\<lparr>mwords := \<lparr>mq_head = Some 1, mq_tail = Some 1, mq_next = (\<lambda>_. None)(1 := None)\<rparr>,
     producers := (\<lambda>_. Push_idle)(5 := Push_prev None 1, 5 := Push_idle)\<rparr>"

definition mpsc_loaded :: "nat mpsc_sys" where
  "mpsc_loaded = mpsc_linked\<lparr>consumer := Pop_loaded 1 None\<rparr>"

definition mpsc_cleared :: "nat mpsc_sys" where
  "mpsc_cleared = mpsc_loaded\<lparr>mwords := \<lparr>mq_head = None, mq_tail = Some 1, mq_next = (\<lambda>_. None)(1 := None)\<rparr>, consumer := Pop_cas 1\<rparr>"

definition mpsc_two :: "nat mpsc_sys" where
  "mpsc_two = mpsc_cleared\<lparr>mwords := \<lparr>mq_head = None, mq_tail = Some 2, mq_next = (\<lambda>_. None)(1 := None, 2 := None)\<rparr>,
     producers := (\<lambda>_. Push_idle)(5 := Push_prev None 1, 5 := Push_idle, 6 := Push_prev (Some 1) 2), pushed := [1, 2], queued := [1, 2]\<rparr>"

definition mpsc_waits :: "nat mpsc_sys" where
  "mpsc_waits = mpsc_two\<lparr>consumer := Pop_wait 1\<rparr>"

lemmas mpsc_run_defs = mpsc_start_def mpsc_one_def mpsc_linked_def mpsc_loaded_def mpsc_cleared_def mpsc_two_def mpsc_waits_def

lemma mpsc_linked_reached: "reach mpsc_init mpsc_step mpsc_linked"
proof -
  have "reach mpsc_init mpsc_step mpsc_start" by (rule reach_init) (simp add: mpsc_init_def mpsc_start_def)
  moreover have "mpsc_step mpsc_start mpsc_one"
    using mpsc_step.push_update_tail [of mpsc_start 5 "[1]"]
    by (simp add: mpsc_run_defs push_list_ok_def os_mpsc_push_update_tail_def)
  ultimately have "reach mpsc_init mpsc_step mpsc_one" by (rule reach_step)
  moreover have "mpsc_step mpsc_one mpsc_linked"
    using mpsc_step.push_update_prev [of mpsc_one 5 None 1] by (simp add: mpsc_run_defs os_mpsc_push_update_prev_def)
  ultimately show ?thesis by (rule reach_step)
qed

lemma mpsc_waits_reached: "reach mpsc_init mpsc_step mpsc_waits"
proof -
  note mpsc_linked_reached
  moreover have "mpsc_step mpsc_linked mpsc_loaded"
    using mpsc_step.pop_load [of mpsc_linked 1] by (simp add: mpsc_run_defs os_mpsc_get_head_def)
  ultimately have "reach mpsc_init mpsc_step mpsc_loaded" by (rule reach_step)
  moreover have "mpsc_step mpsc_loaded mpsc_cleared"
    using mpsc_step.pop_clear [of mpsc_loaded 1] by (simp add: mpsc_run_defs mpsc_store_head_def)
  ultimately have "reach mpsc_init mpsc_step mpsc_cleared" by (rule reach_step)
  moreover have "mpsc_step mpsc_cleared mpsc_two"
    using mpsc_step.push_update_tail [of mpsc_cleared 6 "[2]"]
    by (simp add: mpsc_run_defs push_list_ok_def os_mpsc_push_update_tail_def)
  ultimately have "reach mpsc_init mpsc_step mpsc_two" by (rule reach_step)
  moreover have "mpsc_step mpsc_two mpsc_waits"
    using mpsc_step.pop_more [of mpsc_two 1] by (simp add: mpsc_run_defs mpsc_cmpxchg_tail_def)
  ultimately show ?thesis by (rule reach_step)
qed

section \<open>Properties\<close>

text \<open>C32: Under every interleaving of producers and consumer, the nodes the consumer has taken, then
  those it still holds (a captured snapshot, a node being put back), then those in the queue are
  exactly the pushed nodes in the order in which the producers exchanged the tail: nothing is lost,
  duplicated or reordered. The queue looks empty exactly when no node is in it, and the head is
  never another node than its first.\<close>

theorem mpsc_fifo:
  assumes "reach mpsc_init mpsc_step s"
  shows "popped s @ snapshot s @ in_hand (consumer s) @ queued s = pushed s \<and>
    distinct (snapshot s @ in_hand (consumer s) @ queued s) \<and>
    os_mpsc_looks_empty (mwords s) = (queued s = []) \<and>
    mq_head (mwords s) \<in> insert None (Some ` set (take 1 (queued s)))"
proof -
  have inv: "mpsc_inv s" by (rule mpsc.inv_reach [OF assms])
  have "mq_head (mwords s) = None \<or> queued s \<noteq> [] \<and> mq_head (mwords s) = Some (hd (queued s))"
    using mpsc_invD(9) [OF inv] by (cases "consumer s") (auto simp: head_ok_def Let_def split: if_splits)
  then have "mq_head (mwords s) \<in> insert None (Some ` set (take 1 (queued s)))" by (cases "queued s") auto
  moreover have "os_mpsc_looks_empty (mwords s) = (queued s = [])"
    using mpsc_invD(3) [OF inv] by (simp add: os_mpsc_looks_empty_def)
  ultimately show ?thesis using mpsc_invD(1,2) [OF inv] by blast
qed

theorem mpsc_fifo_witness:
  "popped mpsc_linked @ queued mpsc_linked = [1] \<and> \<not> os_mpsc_looks_empty (mwords mpsc_linked)"
proof -
  have "popped mpsc_linked = []" "pushed mpsc_linked = [1]" "queued mpsc_linked = [1]" by (simp_all add: mpsc_run_defs)
  then show ?thesis using mpsc_fifo [OF mpsc_linked_reached] by simp
qed

text \<open>C33: Whenever the consumer waits for an enqueuer, in \<open>os_mpsc_get_head\<close> or in
  \<open>os_mpsc_get_next\<close> of a pop, of a snapshot or of an undo, a thread has exchanged the tail and is
  about to store exactly that pointer, and that one store ends the wait: no link is ever lost.\<close>

theorem mpsc_wait_ends:
  assumes "reach mpsc_init mpsc_step s" "enqueuer_awaited s = Some p"
  shows "\<exists>t n s'. producers s t = Push_prev p n \<and> mpsc_step s s' \<and>
    mwords s' = os_mpsc_push_update_prev p n (mwords s) \<and> consumer s' = consumer s \<and> enqueuer_awaited s' = None"
proof -
  obtain t b where t: "producers s t = Push_prev p b"
    using awaited_linking [OF mpsc.inv_reach [OF assms(1)] assms(2)] by (auto simp: linking_def)
  let ?s' = "s\<lparr>mwords := os_mpsc_push_update_prev p b (mwords s), producers := (producers s)(t := Push_idle)\<rparr>"
  have "mpsc_step s ?s'" using t by (rule mpsc_step.push_update_prev)
  moreover have "enqueuer_awaited ?s' = None" by (rule link_ends_wait [OF assms(2)])
  ultimately show ?thesis using t by (intro exI [of _ t] exI [of _ b] exI [of _ ?s']) simp
qed

theorem mpsc_wait_ends_witness:
  "enqueuer_awaited mpsc_waits = Some (Some 1) \<and> (\<exists>t n. producers mpsc_waits t = Push_prev (Some 1) n)"
proof -
  have "enqueuer_awaited mpsc_waits = Some (Some 1)"
    by (simp add: enqueuer_awaited_def Let_def mpsc_run_defs os_mpsc_get_next_def)
  then show ?thesis using mpsc_wait_ends [OF mpsc_waits_reached] by blast
qed

end
