(* ===== verification/Object.thy ===== *)
theory Object
  imports Threads
begin

text \<open>
  Reference counts of objects, \<open>src/object.c\<close> with the inline parts in
  \<open>src/object_internal.h\<close> and \<open>src/inline_internal.h\<close>: an external count for the clients,
  an internal count for the library, both biased by one so that -1 means "no reference left", and
  one internal reference that all external ones share.
\<close>

section \<open>Counts\<close>

record os_object_s =
  os_obj_xref_cnt :: u32
  os_obj_ref_cnt :: u32

abbreviation (input) OS_OBJECT_GLOBAL_REFCNT :: u32 where "OS_OBJECT_GLOBAL_REFCNT \<equiv> 0x7fffffff"

datatype object_crash =
    Resurrection
  | Resurrection_of_over_released
  | Over_release
  | Signed_overflow

type_synonym 'a object_result = "object_crash + 'a"

text \<open>Both give the new count with the value of the expression.\<close>

definition os_atomic_refcnt_add_orig :: "u32 \<Rightarrow> u32 \<Rightarrow> u32 \<times> int" where
  "os_atomic_refcnt_add_orig c n =
     (if c = OS_OBJECT_GLOBAL_REFCNT then (c, sint c) else (c + n, sint c))"

definition os_atomic_refcnt_sub :: "u32 \<Rightarrow> u32 \<Rightarrow> u32 \<times> int" where
  "os_atomic_refcnt_sub c n =
     (if c = OS_OBJECT_GLOBAL_REFCNT then (c, sint c) else (c - n, sint (c - n)))"

definition os_object_xrefcnt_inc_orig :: "os_object_s \<Rightarrow> os_object_s \<times> int" where
  "os_object_xrefcnt_inc_orig ob =
     (let (c, r) = os_atomic_refcnt_add_orig (os_obj_xref_cnt ob) 1 in (ob\<lparr>os_obj_xref_cnt := c\<rparr>, r))"

definition os_object_xrefcnt_dec :: "os_object_s \<Rightarrow> os_object_s \<times> int" where
  "os_object_xrefcnt_dec ob =
     (let (c, r) = os_atomic_refcnt_sub (os_obj_xref_cnt ob) 1 in (ob\<lparr>os_obj_xref_cnt := c\<rparr>, r))"

definition os_object_refcnt_add_orig :: "u32 \<Rightarrow> os_object_s \<Rightarrow> os_object_s \<times> int" where
  "os_object_refcnt_add_orig n ob =
     (let (c, r) = os_atomic_refcnt_add_orig (os_obj_ref_cnt ob) n in (ob\<lparr>os_obj_ref_cnt := c\<rparr>, r))"

definition os_object_refcnt_sub :: "u32 \<Rightarrow> os_object_s \<Rightarrow> os_object_s \<times> int" where
  "os_object_refcnt_sub n ob =
     (let (c, r) = os_atomic_refcnt_sub (os_obj_ref_cnt ob) n in (ob\<lparr>os_obj_ref_cnt := c\<rparr>, r))"

section \<open>Internal references\<close>

definition os_object_retain_internal_n_inline :: "u32 \<Rightarrow> os_object_s \<Rightarrow> os_object_s object_result" where
  "os_object_retain_internal_n_inline n ob =
     (let (ob, ref_cnt) = os_object_refcnt_add_orig n ob in if ref_cnt < 0 then Inl Resurrection else Inr ob)"

text \<open>The flag: \<open>_os_object_dispose\<close> is called.\<close>

definition os_object_release_internal_n_inline :: "u32 \<Rightarrow> os_object_s \<Rightarrow> (os_object_s \<times> bool) object_result" where
  "os_object_release_internal_n_inline n ob =
     (let (ob, ref_cnt) = os_object_refcnt_sub n ob in
      if ref_cnt \<ge> 0 then Inr (ob, False)
      else if ref_cnt < -1 then Inl Over_release
      else Inr (ob, True))"

definition os_object_release_internal_n_no_dispose_inline :: "u32 \<Rightarrow> os_object_s \<Rightarrow> os_object_s object_result" where
  "os_object_release_internal_n_no_dispose_inline n ob =
     (let (ob, ref_cnt) = os_object_refcnt_sub n ob in if ref_cnt \<ge> 0 then Inr ob else Inl Over_release)"

definition os_object_retain_internal :: "os_object_s \<Rightarrow> os_object_s object_result" where
  "os_object_retain_internal ob = os_object_retain_internal_n_inline 1 ob"

definition os_object_retain_internal_n :: "u16 \<Rightarrow> os_object_s \<Rightarrow> os_object_s object_result" where
  "os_object_retain_internal_n n ob = os_object_retain_internal_n_inline (ucast n) ob"

definition os_object_release_internal :: "os_object_s \<Rightarrow> (os_object_s \<times> bool) object_result" where
  "os_object_release_internal ob = os_object_release_internal_n_inline 1 ob"

definition os_object_release_internal_n :: "u16 \<Rightarrow> os_object_s \<Rightarrow> (os_object_s \<times> bool) object_result" where
  "os_object_release_internal_n n ob = os_object_release_internal_n_inline (ucast n) ob"

section \<open>External references\<close>

text \<open>\<open>_os_object_retain_count\<close> converts to \<open>unsigned long\<close>.\<close>

definition os_object_retain_count :: "os_object_s \<Rightarrow> u64" where
  "os_object_retain_count ob =
     (if os_obj_xref_cnt ob = OS_OBJECT_GLOBAL_REFCNT then 0xffffffffffffffff
      else scast (os_obj_xref_cnt ob + 1))"

definition os_object_retain :: "os_object_s \<Rightarrow> os_object_s object_result" where
  "os_object_retain ob =
     (let (ob, xref_cnt) = os_object_xrefcnt_inc_orig ob in if xref_cnt < 0 then Inl Resurrection else Inr ob)"

text \<open>
  \<open>_os_object_retain_with_resurrect\<close> up to its internal retain; the flag: it has to call
  \<open>_os_object_retain_internal\<close>. The addition overflows for a global object.
\<close>

definition os_object_retain_with_resurrect :: "os_object_s \<Rightarrow> (os_object_s \<times> bool) object_result" where
  "os_object_retain_with_resurrect ob =
     (let (ob, orig) = os_object_xrefcnt_inc_orig ob; xref_cnt = orig + 1 in
      if xref_cnt = 2 ^ 31 then Inl Signed_overflow
      else if xref_cnt < 0 then Inl Resurrection_of_over_released
      else Inr (ob, xref_cnt = 0))"

text \<open>The flag: the last external reference is gone, \<open>_os_object_xref_dispose\<close> is called.\<close>

definition os_object_release_inline :: "os_object_s \<Rightarrow> (os_object_s \<times> bool) object_result" where
  "os_object_release_inline ob =
     (let (ob, xref_cnt) = os_object_xrefcnt_dec ob in
      if xref_cnt \<ge> 0 then Inr (ob, False)
      else if xref_cnt < -1 then Inl Over_release
      else Inr (ob, True))"

definition os_object_retain_weak :: "os_object_s \<Rightarrow> (os_object_s \<times> bool) object_result" where
  "os_object_retain_weak ob =
     (let xref_cnt = os_obj_xref_cnt ob in
      if xref_cnt = OS_OBJECT_GLOBAL_REFCNT then Inr (ob, True)
      else if sint xref_cnt = -1 then Inr (ob, False)
      else if sint xref_cnt < -1 then Inl Over_release
      else Inr (ob\<lparr>os_obj_xref_cnt := xref_cnt + 1\<rparr>, True))"

definition os_object_allows_weak_reference :: "os_object_s \<Rightarrow> bool object_result" where
  "os_object_allows_weak_reference ob =
     (let xref_cnt = sint (os_obj_xref_cnt ob) in
      if xref_cnt = -1 then Inr False
      else if xref_cnt < -1 then Inl Over_release
      else Inr True)"

section \<open>Disposal\<close>

text \<open>What \<open>_dispatch_dispose\<close> does, in this order.\<close>

datatype ('q, 'f, 'c) dispose_action =
    Dx_dispose
  | Object_finalize
  | Object_dealloc
  | Async_finalizer 'q 'c 'f
  | Release_target 'q

text \<open>
  The target queue, the finalizer and the context are taken before the object goes; \<open>enqueued\<close>
  is \<open>do_next != DISPATCH_OBJECT_LISTLESS\<close>, \<open>wlf\<close> says which queue is the workloop fallback,
  \<open>deflt\<close> is the default root queue, and \<open>allow_free\<close> is what the class' dispose leaves.
\<close>

definition dispatch_dispose ::
    "bool \<Rightarrow> 'q option \<Rightarrow> ('q \<Rightarrow> bool) \<Rightarrow> 'q \<Rightarrow> 'f option \<Rightarrow> 'c option \<Rightarrow> bool \<Rightarrow> ('q, 'f, 'c) dispose_action list result" where
  "dispatch_dispose enqueued targetq wlf deflt func ctxt allow_free =
     (if enqueued then Inl Internal_crash
      else
        let tq = map_option (\<lambda>q. if wlf q then deflt else q) targetq;
            gone = [Dx_dispose] @ (if allow_free then [Object_finalize, Object_dealloc] else []) in
        (case (func, ctxt) of
           (Some f, Some c) \<Rightarrow>
             (case tq of Some q \<Rightarrow> Inr (gone @ [Async_finalizer q c f, Release_target q]) | None \<Rightarrow> Inl Null_deref)
         | _ \<Rightarrow> Inr (gone @ (case tq of Some q \<Rightarrow> [Release_target q] | None \<Rightarrow> []))))"

section \<open>The system\<close>

text \<open>
  The references in use: \<open>externals\<close> of the clients, \<open>internals\<close> of the library;
  \<open>xref_disposing\<close> threads are between the release of the last external reference and the
  release of the internal one it shares, \<open>resurrecting\<close> threads between the two retains of a
  resurrection; \<open>disposals\<close> counts the calls of \<open>_os_object_dispose\<close>. A client only
  releases a reference it owns, and only who owns one retains.
\<close>

record object_sys =
  obj :: os_object_s
  externals :: nat
  internals :: nat
  xref_disposing :: nat
  resurrecting :: nat
  disposals :: nat
  object_crashed :: "object_crash option"

definition object_settle :: "object_sys \<Rightarrow> 'a object_result \<Rightarrow> ('a \<Rightarrow> object_sys) \<Rightarrow> object_sys" where
  "object_settle s r f = (case r of Inl c \<Rightarrow> s\<lparr>object_crashed := Some c\<rparr> | Inr x \<Rightarrow> f x)"

definition references :: "object_sys \<Rightarrow> nat" where
  "references s = externals s + internals s + xref_disposing s"

text \<open>
  An object whose external count has grown to the one of a global object is never disposed of; it
  cannot be resurrected, \<open>_os_object_retain_with_resurrect\<close> does not look for that count.
\<close>

definition immortal :: "object_sys \<Rightarrow> bool" where
  "immortal s \<longleftrightarrow> os_obj_xref_cnt (obj s) = OS_OBJECT_GLOBAL_REFCNT"

text \<open>At most this many internal references exist at a time.\<close>

abbreviation (input) internal_limit :: nat where "internal_limit \<equiv> 0x7ffffffd"

inductive object_step :: "object_sys \<Rightarrow> object_sys \<Rightarrow> bool" where
  retain: "externals s > 0 \<Longrightarrow>
    object_step s (object_settle s (os_object_retain (obj s)) (\<lambda>ob. s\<lparr>obj := ob, externals := externals s + 1\<rparr>))"
| retain_weak: "references s > 0 \<Longrightarrow>
    object_step s (object_settle s (os_object_retain_weak (obj s))
      (\<lambda>(ob, ok). s\<lparr>obj := ob, externals := externals s + (if ok then 1 else 0)\<rparr>))"
| release: "externals s > resurrecting s \<Longrightarrow>
    object_step s (object_settle s (os_object_release_inline (obj s))
      (\<lambda>(ob, last_one). s\<lparr>obj := ob, externals := externals s - 1,
         xref_disposing := xref_disposing s + (if last_one then 1 else 0)\<rparr>))"
| xref_dispose: "xref_disposing s > 0 \<Longrightarrow>
    object_step s (object_settle s (os_object_release_internal (obj s))
      (\<lambda>(ob, dispose). s\<lparr>obj := ob, xref_disposing := xref_disposing s - 1,
         disposals := disposals s + (if dispose then 1 else 0)\<rparr>))"
| retain_internal: "references s > 0 \<Longrightarrow> internals s + xref_disposing s + unat n < internal_limit \<Longrightarrow>
    object_step s (object_settle s (os_object_retain_internal_n n (obj s)) (\<lambda>ob. s\<lparr>obj := ob, internals := internals s + unat n\<rparr>))"
| release_internal: "references s > 0 \<Longrightarrow> resurrecting s + unat n \<le> internals s \<Longrightarrow>
    object_step s (object_settle s (os_object_release_internal_n n (obj s))
      (\<lambda>(ob, dispose). s\<lparr>obj := ob, internals := internals s - unat n,
         disposals := disposals s + (if dispose then 1 else 0)\<rparr>))"
| resurrect: "\<not> immortal s \<Longrightarrow> internals s > resurrecting s \<Longrightarrow> internals s + xref_disposing s < internal_limit \<Longrightarrow>
    object_step s (object_settle s (os_object_retain_with_resurrect (obj s))
      (\<lambda>(ob, first). s\<lparr>obj := ob, externals := externals s + 1, resurrecting := resurrecting s + (if first then 1 else 0)\<rparr>))"
| resurrected: "resurrecting s > 0 \<Longrightarrow>
    object_step s (object_settle s (os_object_retain_internal (obj s)) (\<lambda>ob. s\<lparr>obj := ob, resurrecting := resurrecting s - 1\<rparr>))"

definition object_alloc :: "object_sys \<Rightarrow> bool" where
  "object_alloc s \<longleftrightarrow> obj s = \<lparr>os_obj_xref_cnt = 0, os_obj_ref_cnt = 0\<rparr> \<and> externals s = 1 \<and> internals s = 0 \<and>
     xref_disposing s = 0 \<and> resurrecting s = 0 \<and> disposals s = 0 \<and> object_crashed s = None"

section \<open>Counts as integers\<close>

lemma sint_u32_bounds: "- (2 ^ 31) \<le> sint (x :: u32)" "sint x < 2 ^ 31"
  using sint_range_size [of x] by (simp_all add: word_size)

lemma sint_of_int_u32: "- (2 ^ 31) \<le> k \<Longrightarrow> k < 2 ^ 31 \<Longrightarrow> sint (word_of_int k :: u32) = k"
  by (simp add: signed_of_int signed_take_bit_int_eq_self)

lemma sint_add_u32: "- (2 ^ 31) \<le> sint a + sint b \<Longrightarrow> sint a + sint b < 2 ^ 31 \<Longrightarrow> sint (a + b :: u32) = sint a + sint b"
  by (simp add: sint_word_ariths signed_take_bit_int_eq_self)

lemma sint_sub_u32: "- (2 ^ 31) \<le> sint a - sint b \<Longrightarrow> sint a - sint b < 2 ^ 31 \<Longrightarrow> sint (a - b :: u32) = sint a - sint b"
  by (simp add: sint_word_ariths signed_take_bit_int_eq_self)

lemma sint_global: "(c = OS_OBJECT_GLOBAL_REFCNT) = (sint c = 2 ^ 31 - 1)"
proof -
  have "sint OS_OBJECT_GLOBAL_REFCNT = 2 ^ 31 - 1" by simp
  then show ?thesis by (metis signed_word_eqI)
qed

lemma sint_ucast_u16: "sint (ucast (n :: u16) :: u32) = int (unat n)"
proof -
  have "uint n < 2 ^ 16" using uint_bounded [of n] by simp
  then have "(ucast n :: u32) = word_of_int (int (unat n))" "int (unat n) < 2 ^ 31" by (simp_all add: unsigned_ucast_eq)
  then show ?thesis using sint_of_int_u32 [of "int (unat n)"] uint_ge_0 [of n] by auto
qed

section \<open>Invariant\<close>

definition shared_ref :: "object_sys \<Rightarrow> nat" where
  "shared_ref s = (if externals s > 0 \<or> immortal s then 1 else 0)"

definition object_inv :: "object_sys \<Rightarrow> bool" where
  "object_inv s \<longleftrightarrow>
     (immortal s \<or> sint (os_obj_xref_cnt (obj s)) = int (externals s) - 1) \<and>
     sint (os_obj_ref_cnt (obj s)) = int (internals s + xref_disposing s + shared_ref s) - int (resurrecting s) - 1 \<and>
     internals s + xref_disposing s + shared_ref s \<le> internal_limit + 1 \<and>
     resurrecting s \<le> 1 \<and> resurrecting s \<le> externals s \<and> resurrecting s \<le> internals s \<and>
     disposals s = (if sint (os_obj_ref_cnt (obj s)) = -1 then 1 else 0) \<and>
     object_crashed s = None"

lemma xref_inc:
  "os_object_xrefcnt_inc_orig ob =
     (if sint (os_obj_xref_cnt ob) = 2 ^ 31 - 1 then ob else ob\<lparr>os_obj_xref_cnt := os_obj_xref_cnt ob + 1\<rparr>,
      sint (os_obj_xref_cnt ob))"
  by (simp add: os_object_xrefcnt_inc_orig_def os_atomic_refcnt_add_orig_def sint_global)

lemma xref_dec:
  "sint (os_obj_xref_cnt ob) \<ge> 0 \<Longrightarrow> os_object_xrefcnt_dec ob =
     (if sint (os_obj_xref_cnt ob) = 2 ^ 31 - 1 then (ob, 2 ^ 31 - 1)
      else (ob\<lparr>os_obj_xref_cnt := os_obj_xref_cnt ob - 1\<rparr>, sint (os_obj_xref_cnt ob) - 1))"
  using sint_sub_u32 [of "os_obj_xref_cnt ob" 1] sint_u32_bounds [of "os_obj_xref_cnt ob"]
  by (simp add: os_object_xrefcnt_dec_def os_atomic_refcnt_sub_def sint_global)

lemma ref_add:
  "sint (os_obj_ref_cnt ob) < 2 ^ 31 - 1 \<Longrightarrow> os_object_refcnt_add_orig n ob =
     (ob\<lparr>os_obj_ref_cnt := os_obj_ref_cnt ob + n\<rparr>, sint (os_obj_ref_cnt ob))"
  by (simp add: os_object_refcnt_add_orig_def os_atomic_refcnt_add_orig_def sint_global)

lemma ref_sub:
  "sint (os_obj_ref_cnt ob) < 2 ^ 31 - 1 \<Longrightarrow> os_object_refcnt_sub n ob =
     (ob\<lparr>os_obj_ref_cnt := os_obj_ref_cnt ob - n\<rparr>, sint (os_obj_ref_cnt ob - n))"
  by (simp add: os_object_refcnt_sub_def os_atomic_refcnt_sub_def sint_global)

lemma object_invD:
  assumes "object_inv s"
  shows "immortal s \<or> sint (os_obj_xref_cnt (obj s)) = int (externals s) - 1"
    and "sint (os_obj_ref_cnt (obj s)) = int (internals s + xref_disposing s + shared_ref s) - int (resurrecting s) - 1"
    and "internals s + xref_disposing s + shared_ref s \<le> internal_limit + 1"
    and "resurrecting s \<le> 1" "resurrecting s \<le> externals s" "resurrecting s \<le> internals s"
    and "disposals s = (if sint (os_obj_ref_cnt (obj s)) = -1 then 1 else 0)"
    and "object_crashed s = None"
    and "sint (os_obj_ref_cnt (obj s)) < 2 ^ 31 - 2"
  using assms unfolding object_inv_def by auto

lemma immortal_sint: "immortal s \<longleftrightarrow> sint (os_obj_xref_cnt (obj s)) = 2 ^ 31 - 1"
  by (simp add: immortal_def sint_global)

lemma xref_range:
  assumes "object_inv s"
  shows "- 1 \<le> sint (os_obj_xref_cnt (obj s))" "externals s > 0 \<Longrightarrow> 0 \<le> sint (os_obj_xref_cnt (obj s))"
    "\<not> immortal s \<Longrightarrow> sint (os_obj_xref_cnt (obj s)) < 2 ^ 31 - 1"
  using object_invD(1) [OF assms] sint_u32_bounds(2) [of "os_obj_xref_cnt (obj s)"] by (auto simp: immortal_sint)

text \<open>One more external reference.\<close>

lemma one_more_external:
  assumes inv: "object_inv s" and e: "externals s > 0 \<or> immortal s"
  shows "object_inv (s\<lparr>obj := fst (os_object_xrefcnt_inc_orig (obj s)), externals := externals s + 1\<rparr>)"
proof -
  note I = object_invD [OF inv] and x = xref_range [OF inv]
  show ?thesis
  proof (cases "immortal s")
    case True
    then show ?thesis using inv e by (auto simp: object_inv_def shared_ref_def xref_inc immortal_sint)
  next
    case False
    then have "sint (os_obj_xref_cnt (obj s) + 1) = int (externals s)"
      using I(1) x sint_add_u32 [of "os_obj_xref_cnt (obj s)" 1] by simp
    then show ?thesis using inv e False by (auto simp: object_inv_def shared_ref_def xref_inc immortal_sint)
  qed
qed

text \<open>A step that changes the internal count and its owners by the same amount.\<close>

lemma internal_change:
  assumes inv: "object_inv s" and c: "sint c = sint (os_obj_ref_cnt (obj s)) + int i' + int x' - int r'
      - (int (internals s) + int (xref_disposing s) - int (resurrecting s))"
    and lim: "i' + x' + shared_ref s \<le> internal_limit + 1" and r: "r' \<le> 1" "r' \<le> externals s" "r' \<le> i'"
    and d: "d = (if sint c = -1 then 1 else 0)"
  shows "object_inv (s\<lparr>obj := (obj s)\<lparr>os_obj_ref_cnt := c\<rparr>, internals := i', xref_disposing := x', resurrecting := r', disposals := d\<rparr>)"
proof -
  note I = object_invD [OF inv]
  show ?thesis using I(1,2,8) c lim r d unfolding object_inv_def shared_ref_def immortal_def by (simp split: if_splits)
qed

lemma ref_retain:
  assumes inv: "object_inv s" and ok: "references s > 0" "k \<le> 0xffff" "internals s + xref_disposing s + k \<le> internal_limit + 1"
    and n: "sint n = int k"
  shows "os_object_retain_internal_n_inline n (obj s) = Inr ((obj s)\<lparr>os_obj_ref_cnt := os_obj_ref_cnt (obj s) + n\<rparr>)"
    "sint (os_obj_ref_cnt (obj s) + n) = sint (os_obj_ref_cnt (obj s)) + int k"
proof -
  note I = object_invD [OF inv]
  have "sint (os_obj_ref_cnt (obj s)) + int k < 2 ^ 31" using I(2) ok(3) by (auto simp: shared_ref_def split: if_splits)
  moreover have pos: "sint (os_obj_ref_cnt (obj s)) \<ge> 0" using I(2,4,5,6) ok(1) by (auto simp: shared_ref_def references_def split: if_splits)
  ultimately show "sint (os_obj_ref_cnt (obj s) + n) = sint (os_obj_ref_cnt (obj s)) + int k"
    using n sint_add_u32 [of "os_obj_ref_cnt (obj s)" n] by simp
  show "os_object_retain_internal_n_inline n (obj s) = Inr ((obj s)\<lparr>os_obj_ref_cnt := os_obj_ref_cnt (obj s) + n\<rparr>)"
    using I(9) pos by (simp add: os_object_retain_internal_n_inline_def ref_add)
qed

lemma unat_u16_le: "unat (n :: u16) \<le> 0xffff"
proof -
  have "unat n < 2 ^ LENGTH(16)" using unsigned_less [of n] by simp
  then show ?thesis by simp
qed

lemma ref_release:
  assumes inv: "object_inv s" and k: "int k \<le> sint (os_obj_ref_cnt (obj s)) + 1" and n: "sint n = int k"
  shows "os_object_release_internal_n_inline n (obj s) =
      Inr ((obj s)\<lparr>os_obj_ref_cnt := os_obj_ref_cnt (obj s) - n\<rparr>, sint (os_obj_ref_cnt (obj s)) - int k = -1)"
    "sint (os_obj_ref_cnt (obj s) - n) = sint (os_obj_ref_cnt (obj s)) - int k"
proof -
  note I = object_invD [OF inv]
  show e: "sint (os_obj_ref_cnt (obj s) - n) = sint (os_obj_ref_cnt (obj s)) - int k"
    using n k I(9) sint_sub_u32 [of "os_obj_ref_cnt (obj s)" n] by simp
  show "os_object_release_internal_n_inline n (obj s) =
      Inr ((obj s)\<lparr>os_obj_ref_cnt := os_obj_ref_cnt (obj s) - n\<rparr>, sint (os_obj_ref_cnt (obj s)) - int k = -1)"
    using I(9) k by (auto simp: os_object_release_internal_n_inline_def ref_sub e)
qed

lemma internal_release:
  assumes inv: "object_inv s" and ref: "references s > 0" and n: "sint n = int k"
    and k: "i' + x' + k = internals s + xref_disposing s" and r: "resurrecting s \<le> i'"
  shows "object_inv (object_settle s (os_object_release_internal_n_inline n (obj s))
      (\<lambda>(ob, dispose). s\<lparr>obj := ob, internals := i', xref_disposing := x', disposals := disposals s + (if dispose then 1 else 0)\<rparr>))"
proof -
  note I = object_invD [OF inv]
  let ?c = "os_obj_ref_cnt (obj s)"
  have pos: "sint ?c \<ge> 0" using I(2,4,5,6) ref by (auto simp: shared_ref_def references_def split: if_splits)
  have "int k \<le> sint ?c + 1" using I(2) k r by simp
  note R = ref_release [OF inv this n]
  have "object_inv (s\<lparr>obj := (obj s)\<lparr>os_obj_ref_cnt := ?c - n\<rparr>, internals := i', xref_disposing := x',
      resurrecting := resurrecting s, disposals := (if sint (?c - n) = -1 then 1 else 0)\<rparr>)"
    by (rule internal_change [OF inv]) (use I(3-6) R(2) k r in simp_all)
  moreover have "disposals s = 0" using I(7) pos by simp
  ultimately show ?thesis unfolding object_settle_def R(1) R(2) by simp
qed

lemma internal_retain:
  assumes inv: "object_inv s" and ref: "references s > 0" and n: "sint n = int k" "k \<le> 0xffff"
    and lim: "internals s + xref_disposing s + k \<le> internal_limit + 1" "i' + xref_disposing s + shared_ref s \<le> internal_limit + 1"
    and k: "i' + resurrecting s = internals s + k + r'" "r' \<le> 1" "r' \<le> externals s" "r' \<le> i'"
  shows "object_inv (object_settle s (os_object_retain_internal_n_inline n (obj s))
      (\<lambda>ob. s\<lparr>obj := ob, internals := i', resurrecting := r'\<rparr>))"
proof -
  note I = object_invD [OF inv] and R = ref_retain [OF inv ref n(2) lim(1) n(1)]
  let ?c = "os_obj_ref_cnt (obj s)"
  have pos: "sint ?c \<ge> 0" using I(2,4,5,6) ref by (auto simp: shared_ref_def references_def split: if_splits)
  have "object_inv (s\<lparr>obj := (obj s)\<lparr>os_obj_ref_cnt := ?c + n\<rparr>, internals := i', xref_disposing := xref_disposing s,
      resurrecting := r', disposals := disposals s\<rparr>)"
    by (rule internal_change [OF inv]) (use I(7) R(2) k lim(2) pos in simp_all)
  then show ?thesis unfolding object_settle_def R(1) by simp
qed

lemma release_inv:
  assumes inv: "object_inv s" and e: "externals s > resurrecting s"
  shows "object_inv (object_settle s (os_object_release_inline (obj s))
      (\<lambda>(ob, last_one). s\<lparr>obj := ob, externals := externals s - 1,
         xref_disposing := xref_disposing s + (if last_one then 1 else 0)\<rparr>))"
proof (cases "immortal s")
  case True
  then have "sint (os_obj_xref_cnt (obj s)) = 2 ^ 31 - 1" by (simp add: immortal_sint)
  then show ?thesis using inv e True
    by (simp add: object_settle_def os_object_release_inline_def xref_dec object_inv_def immortal_def shared_ref_def)
next
  case False
  note I = object_invD [OF inv]
  let ?x = "os_obj_xref_cnt (obj s)"
  have x: "sint ?x = int (externals s) - 1" "sint ?x < 2 ^ 31 - 1" using I(1) xref_range(3) [OF inv] False by auto
  then have pos: "0 \<le> sint ?x" using e by simp
  then have e1: "sint (?x - 1) = sint ?x - 1" using sint_sub_u32 [of ?x 1] x(2) by simp
  then have nim: "?x - 1 \<noteq> OS_OBJECT_GLOBAL_REFCNT" using x(2) by (auto simp: sint_global)
  show ?thesis
  proof (cases "externals s = 1")
    case True
    then show ?thesis using I(2-8) e x nim False e1
      by (simp add: object_settle_def os_object_release_inline_def xref_dec object_inv_def immortal_def shared_ref_def)
  next
    case more: False
    then have "1 < externals s" using e by linarith
    then show ?thesis using I(2-8) e x nim False e1
      by (auto simp: object_settle_def os_object_release_inline_def xref_dec object_inv_def immortal_def shared_ref_def)
  qed
qed

lemma resurrect_inv:
  assumes inv: "object_inv s" and i: "internals s > resurrecting s" "internals s + xref_disposing s < internal_limit" and n: "\<not> immortal s"
  shows "object_inv (object_settle s (os_object_retain_with_resurrect (obj s))
      (\<lambda>(ob, first). s\<lparr>obj := ob, externals := externals s + 1, resurrecting := resurrecting s + (if first then 1 else 0)\<rparr>))"
proof -
  note I = object_invD [OF inv]
  let ?x = "os_obj_xref_cnt (obj s)"
  have x: "sint ?x = int (externals s) - 1" "sint ?x < 2 ^ 31 - 1" using I(1) xref_range(3) [OF inv] n by auto
  then have e1: "sint (?x + 1) = sint ?x + 1" using sint_add_u32 [of ?x 1] by simp
  show ?thesis
  proof (cases "externals s = 0")
    case True
    then show ?thesis using I(2-8) x i n e1
      by (simp add: object_settle_def os_object_retain_with_resurrect_def xref_inc object_inv_def immortal_def shared_ref_def sint_global)
  next
    case False
    then have "os_object_retain_with_resurrect (obj s) = Inr (fst (os_object_xrefcnt_inc_orig (obj s)), False)"
      using x by (simp add: os_object_retain_with_resurrect_def xref_inc)
    then show ?thesis using one_more_external [OF inv] False by (simp add: object_settle_def)
  qed
qed

lemma object_step_inv:
  assumes "object_step s s'" "object_inv s"
  shows "object_inv s'"
proof -
  note inv = assms(2) and I = object_invD [OF assms(2)] and x = xref_range [OF assms(2)]
  from assms(1) show ?thesis
  proof cases
    case retain
    then have "os_object_retain (obj s) = Inr (fst (os_object_xrefcnt_inc_orig (obj s)))"
      using x(2) by (simp add: os_object_retain_def xref_inc)
    then show ?thesis using one_more_external [OF inv] retain by (simp add: object_settle_def)
  next
    case retain_weak
    consider "immortal s" | "\<not> immortal s" "externals s = 0" | "\<not> immortal s" "externals s > 0" by blast
    then show ?thesis
    proof cases
      case 1
      then show ?thesis using one_more_external [OF inv] retain_weak(1)
        by (simp add: object_settle_def os_object_retain_weak_def immortal_def xref_inc Let_def)
    next
      case 2
      then show ?thesis using inv I(1) retain_weak(1)
        by (simp add: object_settle_def os_object_retain_weak_def immortal_def shared_ref_def object_inv_def Let_def)
    next
      case 3
      then have "os_object_retain_weak (obj s) = Inr (fst (os_object_xrefcnt_inc_orig (obj s)), True)"
        using x by (simp add: os_object_retain_weak_def xref_inc sint_global immortal_def Let_def)
      then show ?thesis using one_more_external [OF inv] 3 retain_weak(1) by (simp add: object_settle_def)
    qed
  next
    case release
    then show ?thesis using release_inv [OF inv] by simp
  next
    case xref_dispose
    then show ?thesis
      using internal_release [OF inv, of 1 1 "internals s" "xref_disposing s - 1"] I(6)
      by (simp add: os_object_release_internal_def references_def)
  next
    case (retain_internal n)
    then show ?thesis
      using internal_retain [OF inv retain_internal(2) sint_ucast_u16 unat_u16_le, of n "internals s + unat n" "resurrecting s"] I(4-6)
      by (simp add: os_object_retain_internal_n_def shared_ref_def)
  next
    case (release_internal n)
    then show ?thesis
      using internal_release [OF inv release_internal(2) sint_ucast_u16, of "internals s - unat n" "xref_disposing s" n]
      by (simp add: os_object_release_internal_n_def)
  next
    case resurrect
    then show ?thesis using resurrect_inv [OF inv] by simp
  next
    case resurrected
    then show ?thesis
      using internal_retain [OF inv, of 1 1 "internals s" "resurrecting s - 1"] I(3-6)
      by (simp add: os_object_retain_internal_def references_def shared_ref_def)
  qed
qed

interpretation object: invariant_system object_alloc object_step object_inv
proof
  fix s assume "object_alloc s"
  then show "object_inv s" by (simp add: object_alloc_def object_inv_def shared_ref_def immortal_def)
qed (rule object_step_inv)

end
