(* ===== verification/Object_Properties.thy ===== *)
theory Object_Properties
  imports Object
begin









text \<open>Misuse is caught: once the external references are gone a retain and a release crash and a
  weak retain answers no and changes nothing; releasing more internal references than there are crashes, and
  so does an internal retain of an object without references.\<close>

theorem object_misuse_caught:
  assumes "os_obj_xref_cnt ob = -1" "-1 \<le> sint (os_obj_ref_cnt ob)" "sint (os_obj_ref_cnt ob) + 1 < int (unat n)"
  shows "os_object_retain ob = Inl Resurrection \<and> os_object_release_inline ob = Inl Over_release \<and>
    os_object_retain_weak ob = Inr (ob, False) \<and> os_object_allows_weak_reference ob = Inr False \<and>
    os_object_release_internal_n n ob = Inl Over_release \<and>
    os_object_retain_internal_n n (ob\<lparr>os_obj_ref_cnt := -1\<rparr>) = Inl Resurrection \<and>
    os_object_retain_with_resurrect (ob\<lparr>os_obj_xref_cnt := OS_OBJECT_GLOBAL_REFCNT\<rparr>) = Inl Signed_overflow"
proof -
  let ?c = "os_obj_ref_cnt ob"
  have n: "int (unat n) \<le> 0xffff" using unat_u16_le [of n] by linarith
  have lim: "sint ?c < 2 ^ 31 - 1" proof -
    have "sint ?c < 0x7fffffff" using assms(3) n by linarith
    then show ?thesis by simp
  qed
  have low: "- (2 ^ 31) \<le> sint ?c - int (unat n)"
  proof -
    have "- 0x80000000 \<le> sint ?c - int (unat n)" using assms(2) n by linarith
    then show ?thesis by simp
  qed
  have "sint (?c - ucast n) = sint ?c - int (unat n)"
    using sint_sub_u32 [of ?c "ucast n"] sint_ucast_u16 [of n] low lim by linarith
  then have "os_object_release_internal_n n ob = Inl Over_release"
    using assms(3) by (simp add: os_object_release_internal_n_def os_object_release_internal_n_inline_def ref_sub [OF lim])
  moreover have "sint (-2 :: u32) = -2" by simp
  ultimately show ?thesis using assms(1)
    by (simp add: os_object_retain_def xref_inc os_object_release_inline_def os_object_retain_weak_def
      os_object_allows_weak_reference_def os_object_retain_internal_n_def os_object_retain_internal_n_inline_def ref_add
      os_object_retain_with_resurrect_def os_object_xrefcnt_dec_def os_atomic_refcnt_sub_def Let_def)
qed

theorem object_misuse_caught_witness:
  "os_object_release_internal_n 3 \<lparr>os_obj_xref_cnt = -1, os_obj_ref_cnt = 1\<rparr> = Inl Over_release"
  using object_misuse_caught [of "\<lparr>os_obj_xref_cnt = -1, os_obj_ref_cnt = 1\<rparr>" 3] by simp

end
