(* ===== verification/Apply.thy ===== *)
theory Apply
  imports Thread_Event
begin

text \<open>
  \<open>dispatch_apply_f\<close> of \<open>src/apply.c\<close>: the number of threads it asks for, the serial loop,
  and the threads that share one \<open>dispatch_apply_t\<close>: the caller and the continuations it has
  pushed on a root queue, each of which takes indices until none is left.
\<close>

section \<open>Set up\<close>

text \<open>\<open>dispatch_apply_s\<close> without the continuation on the caller's stack it points to.\<close>

record dispatch_apply_s =
  da_iterations :: u64
  da_nested :: u64
  da_index :: u64
  da_todo :: u64
  da_thr_cnt :: u32
  da_event :: dispatch_thread_event_s

abbreviation (input) DISPATCH_APPLY_MAX :: u64 where "DISPATCH_APPLY_MAX \<equiv> 0xffff"

text \<open>
  Threads and nesting of one call; \<open>nesting\<close> is what the thread context of an enclosing apply
  says (0: none), \<open>width\<close> the parallelism that the kernel gives to the priority.
\<close>

definition dispatch_apply_counts :: "u64 \<Rightarrow> u64 \<Rightarrow> u32 \<Rightarrow> u32 \<times> u64" where
  "dispatch_apply_counts iterations nesting width =
     (let thr_cnt =
            (if nesting = 0 then width
             else if nesting < scast width then word_of_int (sint width div sint (ucast nesting :: u32))
             else 1);
          nested =
            (if nesting = 0 then iterations
             else if nesting < DISPATCH_APPLY_MAX \<and> iterations < DISPATCH_APPLY_MAX then nesting * iterations
             else DISPATCH_APPLY_MAX);
          thr_cnt = (if iterations < scast thr_cnt then ucast iterations else thr_cnt) in
      (thr_cnt, nested))"

definition dispatch_apply_init :: "u64 \<Rightarrow> u64 \<Rightarrow> u32 \<Rightarrow> dispatch_apply_s" where
  "dispatch_apply_init iterations nesting width =
     (let (thr_cnt, nested) = dispatch_apply_counts iterations nesting width in
      \<lparr>da_iterations = iterations, da_nested = nested, da_index = 0, da_todo = iterations, da_thr_cnt = thr_cnt,
       da_event = dispatch_thread_event_init\<rparr>)"

datatype apply_route =
    Route_return
  | Route_serial
  | Route_redirect
  | Route_root

text \<open>Which way a call takes; the targets of queues are only tested against NULL.\<close>

definition dispatch_apply_f :: "u64 \<Rightarrow> u64 \<Rightarrow> u32 \<Rightarrow> bool \<Rightarrow> bool \<Rightarrow> bool \<Rightarrow> apply_route" where
  "dispatch_apply_f iterations nesting width serial has_target on_itself =
     (if iterations = 0 then Route_return
      else if serial \<or> sint (fst (dispatch_apply_counts iterations nesting width)) \<le> 1 then Route_serial
      else if has_target then (if on_itself then Route_serial else Route_redirect)
      else Route_root)"

text \<open>\<open>_dispatch_apply_serial\<close>: the indices it calls the function with, in order.\<close>

function dispatch_apply_serial :: "u64 \<Rightarrow> u64 \<Rightarrow> u64 list" where
  "dispatch_apply_serial iter idx = idx # (if idx + 1 < iter then dispatch_apply_serial iter (idx + 1) else [])"
  by auto
termination
proof (relation "measure (\<lambda>(iter, idx). unat (iter - 1 - idx))")
  fix iter idx :: u64
  assume "idx + 1 < iter"
  then have "iter - 1 - idx \<noteq> 0" by auto
  moreover have "unat (x - 1) < unat x" if "x \<noteq> 0" for x :: u64
    using unat_minus_one [OF that] that by (simp add: unat_gt_0)
  moreover have "iter - 1 - (idx + 1) = iter - 1 - idx - 1" by (simp add: algebra_simps)
  ultimately show "((iter, idx + 1), iter, idx) \<in> measure (\<lambda>(iter, idx). unat (iter - 1 - idx))"
    by (simp only: in_measure prod.case)
qed simp

declare dispatch_apply_serial.simps [simp del]

section \<open>Threads\<close>

text \<open>
  Where a thread is in \<open>_dispatch_apply_invoke2\<close>: before the first increment of the index,
  before the load of the continuation, in the call of the function with an index, before the next
  increment, before the subtraction, before the increment of the event, waking it, before its
  decrement, in the loop of the slow wait, before the decrement of the thread count, before the free.
\<close>

datatype apply_pc =
    Apply_idle
  | Apply_index
  | Apply_load u64
  | Apply_call u64 u64
  | Apply_next u64
  | Apply_sub u64
  | Apply_signal
  | Apply_wake
  | Apply_wait
  | Apply_wait_slow
  | Apply_dec
  | Apply_free
  | Apply_returned

datatype apply_fault = Apply_use_after_free | Apply_dead_frame | Apply_event_corrupt

record apply_sys =
  apply_da :: "dispatch_apply_s option"
  apply_caller :: dispatch_tid
  apply_pending :: nat
  apply_pcs :: "dispatch_tid \<Rightarrow> apply_pc"
  apply_calls :: "u64 list"
  apply_fault :: "apply_fault option"

text \<open>The label \<open>out\<close>: only the caller waits for the event.\<close>

definition apply_out :: "apply_sys \<Rightarrow> dispatch_tid \<Rightarrow> apply_pc" where
  "apply_out s t = (if t = apply_caller s then Apply_wait else Apply_dec)"

definition apply_done :: "apply_sys \<Rightarrow> dispatch_tid \<Rightarrow> apply_pc" where
  "apply_done s t = (if t = apply_caller s then Apply_returned else Apply_idle)"

text \<open>The pieces of \<open>_dispatch_apply_invoke2\<close>, each with one atomic operation on the object.\<close>

definition apply_take_first :: "dispatch_apply_s \<Rightarrow> apply_pc \<Rightarrow> dispatch_apply_s \<times> apply_pc" where
  "apply_take_first da out =
     (let idx = da_index da in
      (da\<lparr>da_index := idx + 1\<rparr>, if idx \<ge> da_iterations da then out else Apply_load idx))"

definition apply_take_next :: "dispatch_apply_s \<Rightarrow> u64 \<Rightarrow> dispatch_apply_s \<times> apply_pc" where
  "apply_take_next da n =
     (let idx = da_index da in
      (da\<lparr>da_index := idx + 1\<rparr>, if idx < da_iterations da then Apply_call idx n else Apply_sub n))"

definition apply_subtract :: "dispatch_apply_s \<Rightarrow> u64 \<Rightarrow> apply_pc \<Rightarrow> dispatch_apply_s \<times> apply_pc" where
  "apply_subtract da n out =
     (let todo = da_todo da - n in (da\<lparr>da_todo := todo\<rparr>, if todo = 0 then Apply_signal else out))"

definition apply_leave :: "dispatch_apply_s \<Rightarrow> apply_pc \<Rightarrow> dispatch_apply_s \<times> apply_pc" where
  "apply_leave da end_pc =
     (let cnt = da_thr_cnt da - 1 in (da\<lparr>da_thr_cnt := cnt\<rparr>, if cnt = 0 then Apply_free else end_pc))"

definition apply_signal_event :: "dispatch_apply_s \<Rightarrow> apply_pc \<Rightarrow> dispatch_apply_s \<times> apply_pc" where
  "apply_signal_event da out =
     (let (v, pc) = dispatch_thread_event_signal (da_event da) in
      (da\<lparr>da_event := v\<rparr>, if pc = Event_wake then Apply_wake else out))"

definition apply_wait_event :: "dispatch_apply_s \<Rightarrow> dispatch_apply_s \<times> apply_pc" where
  "apply_wait_event da =
     (let (v, pc) = dispatch_thread_event_wait (da_event da) in
      (da\<lparr>da_event := v\<rparr>, if pc = Event_returned then Apply_dec else Apply_wait_slow))"

text \<open>The pieces that only use the object when it is there.\<close>

fun apply_piece :: "apply_sys \<Rightarrow> dispatch_tid \<Rightarrow> dispatch_apply_s \<Rightarrow> (dispatch_apply_s \<times> apply_pc) option" where
  "apply_piece s t da =
     (case apply_pcs s t of
        Apply_index \<Rightarrow> Some (apply_take_first da (apply_out s t))
      | Apply_next n \<Rightarrow> Some (apply_take_next da n)
      | Apply_sub n \<Rightarrow> Some (apply_subtract da n (apply_out s t))
      | Apply_signal \<Rightarrow> Some (apply_signal_event da (apply_out s t))
      | Apply_wake \<Rightarrow> Some (da, apply_out s t)
      | Apply_wait \<Rightarrow> Some (apply_wait_event da)
      | Apply_wait_slow \<Rightarrow>
          (if dispatch_thread_event_wait_slow (da_event da) = Event_returned then Some (da, Apply_dec) else None)
      | Apply_dec \<Rightarrow> Some (apply_leave da (apply_done s t))
      | _ \<Rightarrow> None)"

definition uses_apply :: "apply_pc \<Rightarrow> bool" where
  "uses_apply pc \<longleftrightarrow> (case pc of Apply_idle \<Rightarrow> False | Apply_returned \<Rightarrow> False | Apply_call i n \<Rightarrow> False | _ \<Rightarrow> True)"

inductive apply_step :: "apply_sys \<Rightarrow> apply_sys \<Rightarrow> bool" where
  invoke: "apply_pending s > 0 \<Longrightarrow> apply_pcs s t = Apply_idle \<Longrightarrow>
    apply_step s (s\<lparr>apply_pending := apply_pending s - 1, apply_pcs := (apply_pcs s)(t := Apply_index)\<rparr>)"
| piece: "apply_da s = Some da \<Longrightarrow> apply_piece s t da = Some (da', pc) \<Longrightarrow>
    apply_step s (s\<lparr>apply_da := Some da', apply_pcs := (apply_pcs s)(t := pc)\<rparr>)"
| load: "apply_da s = Some da \<Longrightarrow> apply_pcs s t = Apply_load idx \<Longrightarrow> apply_pcs s (apply_caller s) \<noteq> Apply_returned \<Longrightarrow>
    apply_step s (s\<lparr>apply_pcs := (apply_pcs s)(t := Apply_call idx 0)\<rparr>)"
| dead_frame: "apply_pcs s t = Apply_load idx \<Longrightarrow> apply_pcs s (apply_caller s) = Apply_returned \<Longrightarrow>
    apply_step s (s\<lparr>apply_fault := Some Apply_dead_frame\<rparr>)"
| call: "apply_pcs s t = Apply_call idx n \<Longrightarrow>
    apply_step s (s\<lparr>apply_calls := apply_calls s @ [idx], apply_pcs := (apply_pcs s)(t := Apply_next (n + 1))\<rparr>)"
| corrupt: "apply_da s = Some da \<Longrightarrow> apply_pcs s t = Apply_wait_slow \<Longrightarrow>
    dispatch_thread_event_wait_slow (da_event da) = Event_corrupt \<Longrightarrow>
    apply_step s (s\<lparr>apply_fault := Some Apply_event_corrupt\<rparr>)"
| free: "apply_da s = Some da \<Longrightarrow> apply_pcs s t = Apply_free \<Longrightarrow>
    apply_step s (s\<lparr>apply_da := None, apply_pcs := (apply_pcs s)(t := apply_done s t)\<rparr>)"
| freed: "apply_da s = None \<Longrightarrow> uses_apply (apply_pcs s t) \<Longrightarrow>
    apply_step s (s\<lparr>apply_fault := Some Apply_use_after_free\<rparr>)"

text \<open>
  \<open>_dispatch_apply_f\<close>: one continuation for every thread but the caller, which then takes part
  itself. No thread that runs a continuation is the caller.
\<close>

definition apply_start :: "dispatch_apply_s \<Rightarrow> dispatch_tid \<Rightarrow> apply_sys" where
  "apply_start da t =
     \<lparr>apply_da = Some da, apply_caller = t, apply_pending = unat (da_thr_cnt da) - 1,
      apply_pcs = (\<lambda>_. Apply_idle)(t := Apply_index), apply_calls = [], apply_fault = None\<rparr>"

text \<open>A call with \<open>iter\<close> iterations and \<open>T\<close> threads; an index is a \<open>size_t\<close>.\<close>

definition apply_init :: "u64 \<Rightarrow> nat \<Rightarrow> apply_sys \<Rightarrow> bool" where
  "apply_init iter T s \<longleftrightarrow>
     (\<exists>da t. s = apply_start da t \<and> da_iterations da = iter \<and> da_todo da = iter \<and> da_index da = 0 \<and>
        da_event da = dispatch_thread_event_init \<and> da_thr_cnt da = of_nat T) \<and>
     0 < iter \<and> 0 < T \<and> T < 2 ^ 31 \<and> unat iter + T < 2 ^ 64"

end
