(* ===== verification/Apply_Invariant.thy ===== *)
theory Apply_Invariant
  imports Apply
begin

text \<open>The invariant of the threads of an apply, one predicate per field of the object.\<close>

section \<open>Threads by place\<close>

fun apply_working :: "apply_pc \<Rightarrow> bool" where
  "apply_working Apply_index = True"
| "apply_working (Apply_load i) = True"
| "apply_working (Apply_call i n) = True"
| "apply_working (Apply_next n) = True"
| "apply_working _ = False"

fun apply_holds :: "apply_pc \<Rightarrow> bool" where
  "apply_holds Apply_idle = False"
| "apply_holds Apply_returned = False"
| "apply_holds Apply_free = False"
| "apply_holds _ = True"

text \<open>The index a thread has taken and not called yet, and the calls it has not subtracted yet.\<close>

fun apply_flight :: "apply_pc \<Rightarrow> u64 option" where
  "apply_flight (Apply_load i) = Some i"
| "apply_flight (Apply_call i n) = Some i"
| "apply_flight _ = None"

fun apply_unsettled :: "apply_pc \<Rightarrow> nat" where
  "apply_unsettled (Apply_call i n) = unat n"
| "apply_unsettled (Apply_next n) = unat n"
| "apply_unsettled (Apply_sub n) = unat n"
| "apply_unsettled _ = 0"

fun apply_past_wait :: "apply_pc \<Rightarrow> bool" where
  "apply_past_wait Apply_dec = True"
| "apply_past_wait Apply_free = True"
| "apply_past_wait Apply_returned = True"
| "apply_past_wait _ = False"

text \<open>Where a thread only gets once the indices are used up.\<close>

fun apply_beyond :: "apply_pc \<Rightarrow> bool" where
  "apply_beyond Apply_idle = False"
| "apply_beyond Apply_index = False"
| "apply_beyond (Apply_load i) = False"
| "apply_beyond (Apply_call i n) = False"
| "apply_beyond (Apply_next n) = False"
| "apply_beyond _ = True"

definition unsettled :: "(dispatch_tid \<Rightarrow> apply_pc) \<Rightarrow> nat" where
  "unsettled pcs = (\<Sum>t\<in>UNIV. apply_unsettled (pcs t))"

lemma unsettled_update: "unsettled (pcs(t := pc)) + apply_unsettled (pcs t) = unsettled pcs + apply_unsettled pc"
proof -
  have "unsettled f = apply_unsettled (f t) + (\<Sum>u\<in>UNIV - {t}. apply_unsettled (f u))" for f
    unfolding unsettled_def by (rule sum.remove) simp_all
  moreover have "(\<Sum>u\<in>UNIV - {t}. apply_unsettled ((pcs(t := pc)) u)) = (\<Sum>u\<in>UNIV - {t}. apply_unsettled (pcs u))"
    by (rule sum.cong) auto
  ultimately show ?thesis by simp
qed

lemma unsettled_ge: "apply_unsettled (pcs t) \<le> unsettled pcs"
  unfolding unsettled_def by (rule member_le_sum) simp_all

lemma unat_less_u64: "unat (n :: u64) < 2 ^ 64"
proof -
  have "unat n < 2 ^ LENGTH(64)" using unsigned_less [of n] by simp
  then show ?thesis by simp
qed

lemma card_less_u64: "card {i :: u64. i < n} = unat n"
proof -
  have "bij_betw unat {i. i < n} {..<unat n}"
  proof (rule bij_betw_imageI)
    show "inj_on unat {i. i < n}" by (auto intro!: inj_onI word_unat_eq_iff [THEN iffD2])
    show "unat ` {i. i < n} = {..<unat n}"
    proof
      show "{..<unat n} \<subseteq> unat ` {i. i < n}"
      proof
        fix k assume k: "k \<in> {..<unat n}"
        then have "k < 2 ^ 64" using unat_less_u64 [of n] by simp
        then have "unat (of_nat k :: u64) = k" by (simp add: unat_of_nat take_bit_nat_eq_self)
        then show "k \<in> unat ` {i. i < n}" using k by (intro image_eqI [of _ _ "of_nat k"]) (simp_all add: word_less_nat_alt)
      qed
    qed (auto simp: word_less_nat_alt)
  qed
  then show ?thesis by (simp add: bij_betw_same_card)
qed

section \<open>Predicates\<close>

definition thr_ok :: "dispatch_apply_s \<Rightarrow> nat \<Rightarrow> (dispatch_tid \<Rightarrow> apply_pc) \<Rightarrow> bool" where
  "thr_ok da pend pcs \<longleftrightarrow>
     unat (da_thr_cnt da) = pend + threads_in apply_holds pcs \<and>
     threads_in (\<lambda>pc. pc = Apply_free) pcs = (if da_thr_cnt da = 0 then 1 else 0)"

definition index_ok :: "u64 \<Rightarrow> nat \<Rightarrow> dispatch_apply_s \<Rightarrow> nat \<Rightarrow> (dispatch_tid \<Rightarrow> apply_pc) \<Rightarrow> bool" where
  "index_ok iter T da pend pcs \<longleftrightarrow>
     da_iterations da = iter \<and> unat iter + T < 2 ^ 64 \<and> pend + threads_in apply_working pcs \<le> T \<and>
     unat (da_index da) + pend + threads_in apply_working pcs \<le> unat iter + T \<and>
     (\<forall>t. apply_beyond (pcs t) \<longrightarrow> iter \<le> da_index da)"

definition calls_ok :: "u64 \<Rightarrow> u64 \<Rightarrow> (dispatch_tid \<Rightarrow> apply_pc) \<Rightarrow> u64 list \<Rightarrow> bool" where
  "calls_ok iter idx pcs calls \<longleftrightarrow>
     distinct calls \<and> (\<forall>t i. apply_flight (pcs t) = Some i \<longrightarrow> i \<notin> set calls) \<and>
     (\<forall>t u i. apply_flight (pcs t) = Some i \<longrightarrow> apply_flight (pcs u) = Some i \<longrightarrow> t = u) \<and>
     (\<forall>i. i < iter \<and> i < idx \<longleftrightarrow> i \<in> set calls \<or> (\<exists>t. apply_flight (pcs t) = Some i))"

definition todo_ok :: "u64 \<Rightarrow> u64 \<Rightarrow> (dispatch_tid \<Rightarrow> apply_pc) \<Rightarrow> nat \<Rightarrow> bool" where
  "todo_ok iter todo pcs k \<longleftrightarrow>
     unat todo + k = unat iter + unsettled pcs \<and> k \<le> unat iter \<and>
     (\<forall>t. pcs t \<noteq> Apply_next 0 \<and> pcs t \<noteq> Apply_sub 0)"

definition apply_signalled :: "dispatch_apply_s \<Rightarrow> (dispatch_tid \<Rightarrow> apply_pc) \<Rightarrow> bool" where
  "apply_signalled da pcs \<longleftrightarrow> da_todo da = 0 \<and> (\<forall>t. pcs t \<noteq> Apply_signal)"

definition event_ok :: "dispatch_apply_s \<Rightarrow> (dispatch_tid \<Rightarrow> apply_pc) \<Rightarrow> dispatch_tid \<Rightarrow> bool" where
  "event_ok da pcs c \<longleftrightarrow>
     (\<forall>t u. pcs t = Apply_signal \<longrightarrow> pcs u = Apply_signal \<longrightarrow> t = u) \<and>
     (\<forall>t. pcs t = Apply_signal \<longrightarrow> da_todo da = 0) \<and>
     (\<forall>t. pcs t \<in> {Apply_wait, Apply_wait_slow, Apply_returned} \<longrightarrow> t = c) \<and> pcs c \<noteq> Apply_idle \<and>
     (if apply_signalled da pcs
      then apply_past_wait (pcs c) \<or> da_event da = (if pcs c = Apply_wait_slow then 0 else 1)
      else \<not> apply_past_wait (pcs c) \<and> da_event da = (if pcs c = Apply_wait_slow then DTE_WAITED else 0))"

definition apply_live :: "u64 \<Rightarrow> nat \<Rightarrow> apply_sys \<Rightarrow> dispatch_apply_s \<Rightarrow> bool" where
  "apply_live iter T s da \<longleftrightarrow>
     thr_ok da (apply_pending s) (apply_pcs s) \<and> index_ok iter T da (apply_pending s) (apply_pcs s) \<and>
     calls_ok iter (da_index da) (apply_pcs s) (apply_calls s) \<and>
     todo_ok iter (da_todo da) (apply_pcs s) (length (apply_calls s)) \<and>
     event_ok da (apply_pcs s) (apply_caller s)"

definition apply_gone :: "u64 \<Rightarrow> apply_sys \<Rightarrow> bool" where
  "apply_gone iter s \<longleftrightarrow> apply_pending s = 0 \<and> distinct (apply_calls s) \<and> set (apply_calls s) = {i. i < iter} \<and>
     (\<forall>t. apply_pcs s t = (if t = apply_caller s then Apply_returned else Apply_idle))"

definition apply_inv :: "u64 \<Rightarrow> nat \<Rightarrow> apply_sys \<Rightarrow> bool" where
  "apply_inv iter T s \<longleftrightarrow> apply_fault s = None \<and>
     (case apply_da s of Some da \<Rightarrow> apply_live iter T s da | None \<Rightarrow> apply_gone iter s)"

section \<open>Changing one thread\<close>

lemma thr_move:
  assumes "thr_ok da pend pcs" "apply_holds (pcs t) = apply_holds pc" "pcs t \<noteq> Apply_free" "pc \<noteq> Apply_free"
    "da_thr_cnt da' = da_thr_cnt da"
  shows "thr_ok da' pend (pcs(t := pc))"
  using assms threads_in_update [of apply_holds pcs t pc] threads_in_update [of "\<lambda>pc. pc = Apply_free" pcs t pc]
  by (auto simp: thr_ok_def split: if_splits)

lemma index_move:
  assumes ok: "index_ok iter T da pend pcs" and le: "apply_working pc \<le> apply_working (pcs t)" "apply_beyond pc \<le> apply_beyond (pcs t)"
    and da: "da_iterations da' = da_iterations da" "da_index da' = da_index da"
  shows "index_ok iter T da' pend (pcs(t := pc))"
proof -
  have "threads_in apply_working (pcs(t := pc)) \<le> threads_in apply_working pcs"
    using threads_in_update [of apply_working pcs t pc] le(1) by (auto simp: le_bool_def split: if_splits)
  moreover have "iter \<le> da_index da" if "apply_beyond ((pcs(t := pc)) u)" for u
  proof -
    have "apply_beyond (pcs u)" using that le(2) by (cases "u = t") (simp_all add: le_bool_def)
    then show ?thesis using ok unfolding index_ok_def by blast
  qed
  ultimately show ?thesis using ok unfolding index_ok_def da by auto
qed

lemma calls_move:
  assumes "calls_ok iter idx pcs calls" "apply_flight (pcs t) = apply_flight pc"
  shows "calls_ok iter idx (pcs(t := pc)) calls"
proof -
  have "apply_flight ((pcs(t := pc)) u) = apply_flight (pcs u)" for u using assms(2) by simp
  then show ?thesis using assms(1) unfolding calls_ok_def by simp
qed

lemma todo_move:
  assumes "todo_ok iter todo pcs k" "apply_unsettled (pcs t) = apply_unsettled pc" "pc \<noteq> Apply_next 0" "pc \<noteq> Apply_sub 0"
  shows "todo_ok iter todo (pcs(t := pc)) k"
  using assms unsettled_update [of pcs t pc] by (auto simp: todo_ok_def)

text \<open>A thread whose part in the event does not change.\<close>

definition event_quiet :: "dispatch_tid \<Rightarrow> dispatch_tid \<Rightarrow> apply_pc \<Rightarrow> apply_pc \<Rightarrow> bool" where
  "event_quiet t c pc pc' \<longleftrightarrow> pc \<noteq> Apply_signal \<and> pc' \<noteq> Apply_signal \<and>
     (if t = c then apply_past_wait pc' = apply_past_wait pc \<and> (pc' = Apply_wait_slow) = (pc = Apply_wait_slow) \<and> pc' \<noteq> Apply_idle
      else pc' \<noteq> Apply_wait \<and> pc' \<noteq> Apply_wait_slow \<and> pc' \<noteq> Apply_returned)"

lemma event_okD:
  assumes "event_ok da pcs c"
  shows "pcs t = Apply_signal \<Longrightarrow> pcs u = Apply_signal \<Longrightarrow> t = u" "pcs t = Apply_signal \<Longrightarrow> da_todo da = 0"
    "pcs t = Apply_wait \<or> pcs t = Apply_wait_slow \<or> pcs t = Apply_returned \<Longrightarrow> t = c" "pcs c \<noteq> Apply_idle"
    "if apply_signalled da pcs
      then apply_past_wait (pcs c) \<or> da_event da = (if pcs c = Apply_wait_slow then 0 else 1)
      else \<not> apply_past_wait (pcs c) \<and> da_event da = (if pcs c = Apply_wait_slow then DTE_WAITED else 0)"
  using assms unfolding event_ok_def by blast+

lemma event_okI:
  assumes "\<And>t u. pcs t = Apply_signal \<Longrightarrow> pcs u = Apply_signal \<Longrightarrow> t = u" "\<And>t. pcs t = Apply_signal \<Longrightarrow> da_todo da = 0"
    "\<And>t. pcs t = Apply_wait \<or> pcs t = Apply_wait_slow \<or> pcs t = Apply_returned \<Longrightarrow> t = c" "pcs c \<noteq> Apply_idle"
    "if apply_signalled da pcs
      then apply_past_wait (pcs c) \<or> da_event da = (if pcs c = Apply_wait_slow then 0 else 1)
      else \<not> apply_past_wait (pcs c) \<and> da_event da = (if pcs c = Apply_wait_slow then DTE_WAITED else 0)"
  shows "event_ok da pcs c"
  using assms unfolding event_ok_def by blast

lemma event_move:
  assumes ok: "event_ok da pcs c" and q: "event_quiet t c (pcs t) pc" and da: "da_todo da' = da_todo da" "da_event da' = da_event da"
  shows "event_ok da' (pcs(t := pc)) c"
proof -
  note E = event_okD [OF ok]
  have nosig: "pc \<noteq> Apply_signal" "pcs t \<noteq> Apply_signal" using q unfolding event_quiet_def by blast+
  have sig: "(pcs(t := pc)) u = Apply_signal \<longleftrightarrow> pcs u = Apply_signal" for u using nosig by (cases "u = t") simp_all
  have same: "apply_signalled da' (pcs(t := pc)) = apply_signalled da pcs" unfolding apply_signalled_def sig da(1) by (rule refl)
  have own: "u = c" if "(pcs(t := pc)) u = Apply_wait \<or> (pcs(t := pc)) u = Apply_wait_slow \<or> (pcs(t := pc)) u = Apply_returned" for u
  proof (cases "u = t")
    case True
    then show ?thesis using that q unfolding event_quiet_def by (cases "t = c") simp_all
  next
    case False
    then show ?thesis using that E(3) by simp
  qed
  have past: "apply_past_wait ((pcs(t := pc)) c) = apply_past_wait (pcs c)"
    "((pcs(t := pc)) c = Apply_wait_slow) = (pcs c = Apply_wait_slow)" "(pcs(t := pc)) c \<noteq> Apply_idle"
    using q E(4) unfolding event_quiet_def by (cases "t = c"; simp)+
  show ?thesis
  proof (rule event_okI)
    show "(pcs(t := pc)) u = Apply_signal \<Longrightarrow> (pcs(t := pc)) v = Apply_signal \<Longrightarrow> u = v" for u v
      unfolding sig by (rule E(1))
    show "(pcs(t := pc)) u = Apply_signal \<Longrightarrow> da_todo da' = 0" for u unfolding sig da(1) by (rule E(2))
    show "if apply_signalled da' (pcs(t := pc))
      then apply_past_wait ((pcs(t := pc)) c) \<or> da_event da' = (if (pcs(t := pc)) c = Apply_wait_slow then 0 else 1)
      else \<not> apply_past_wait ((pcs(t := pc)) c) \<and> da_event da' = (if (pcs(t := pc)) c = Apply_wait_slow then DTE_WAITED else 0)"
      unfolding same past(1,2) da(2) by (rule E(5))
  qed (use own past(3) in blast)+
qed

section \<open>Taking an index\<close>

lemma index_room:
  assumes "index_ok iter T da pend pcs" "apply_working (pcs t)"
  shows "unat (da_index da + 1) = unat (da_index da) + 1" "da_index da + 1 \<noteq> 0"
proof -
  have "threads_in apply_working pcs > 0" using assms(2) by (rule threads_in_pos)
  then have "unat (da_index da) + 1 < 2 ^ 64" using assms(1) unfolding index_ok_def by linarith
  then show e: "unat (da_index da + 1) = unat (da_index da) + 1" by (simp add: unat_word_ariths)
  show "da_index da + 1 \<noteq> 0" using e by (metis add_eq_0_iff_both_eq_0 unat_0 zero_neq_one)
qed

lemma index_take:
  assumes ok: "index_ok iter T da pend pcs" and w: "apply_working (pcs t)"
    and pc: "da_index da < iter \<or> \<not> apply_working pc" "apply_beyond pc \<le> (iter \<le> da_index da)"
  shows "index_ok iter T (da\<lparr>da_index := da_index da + 1\<rparr>) pend (pcs(t := pc))"
proof -
  have w': "threads_in apply_working (pcs(t := pc)) + 1 = threads_in apply_working pcs + (if apply_working pc then 1 else 0)"
    using threads_in_update [of apply_working pcs t pc] w by simp
  note room = index_room [OF ok w]
  have up: "da_index da \<le> da_index da + 1" using room(1) by (simp add: word_le_nat_alt)
  have "iter \<le> da_index da + 1" if "apply_beyond ((pcs(t := pc)) u)" for u
  proof -
    have "iter \<le> da_index da"
    proof (cases "u = t")
      case True
      then show ?thesis using that pc(2) by (simp add: le_bool_def)
    next
      case False
      then show ?thesis using that ok unfolding index_ok_def by auto
    qed
    then show ?thesis using up by (rule order_trans)
  qed
  moreover have "da_index da < iter \<Longrightarrow> unat (da_index da) < unat iter" by (simp add: word_less_nat_alt)
  ultimately show ?thesis using ok pc(1) w' room(1) unfolding index_ok_def
    by (cases "apply_working pc") auto
qed

lemma less_plus_one: "i + 1 \<noteq> 0 \<Longrightarrow> j < i + 1 \<longleftrightarrow> j < i \<or> j = (i :: u64)"
  using unatSuc [of i] by (auto simp: word_less_nat_alt word_unat_eq_iff add.commute)

lemma calls_take:
  assumes ok: "calls_ok iter idx pcs calls" and t: "apply_flight (pcs t) = None" "apply_flight pc = Some idx" and idx: "idx < iter" "idx + 1 \<noteq> 0"
  shows "calls_ok iter (idx + 1) (pcs(t := pc)) calls"
proof -
  have n: "idx \<notin> set calls" "\<And>u. apply_flight (pcs u) \<noteq> Some idx" using ok unfolding calls_ok_def by blast+
  have f: "apply_flight ((pcs(t := pc)) u) = (if u = t then Some idx else apply_flight (pcs u))" for u using t(2) by simp
  have ex: "(\<exists>u. apply_flight ((pcs(t := pc)) u) = Some i) \<longleftrightarrow> i = idx \<or> (\<exists>u. apply_flight (pcs u) = Some i)" for i
    unfolding f using t(1) by (metis option.distinct(1) option.inject)
  have "i < iter \<and> i < idx + 1 \<longleftrightarrow> i \<in> set calls \<or> (\<exists>u. apply_flight ((pcs(t := pc)) u) = Some i)" for i
    unfolding ex less_plus_one [OF idx(2)] using ok idx(1) unfolding calls_ok_def by blast
  moreover have "apply_flight ((pcs(t := pc)) u) = Some i \<Longrightarrow> apply_flight ((pcs(t := pc)) v) = Some i \<Longrightarrow> u = v" for u v i
    unfolding f using n ok unfolding calls_ok_def by (auto split: if_splits)
  moreover have "apply_flight ((pcs(t := pc)) u) = Some i \<Longrightarrow> i \<notin> set calls" for u i
    unfolding f using n ok unfolding calls_ok_def by (auto split: if_splits)
  ultimately show ?thesis using ok unfolding calls_ok_def by blast
qed

lemma calls_skip:
  assumes "calls_ok iter idx pcs calls" "iter \<le> idx" "idx + 1 \<noteq> 0"
  shows "calls_ok iter (idx + 1) pcs calls"
proof -
  have "i < iter \<and> i < idx + 1 \<longleftrightarrow> i < iter \<and> i < idx" for i using assms(2) less_plus_one [OF assms(3), of i] by auto
  then show ?thesis using assms(1) unfolding calls_ok_def by simp
qed

lemma calls_call:
  assumes ok: "calls_ok iter idx pcs calls" and t: "apply_flight (pcs t) = Some i" "apply_flight pc = None"
  shows "calls_ok iter idx (pcs(t := pc)) (calls @ [i])"
proof -
  have f: "apply_flight ((pcs(t := pc)) u) = Some j \<longleftrightarrow> u \<noteq> t \<and> apply_flight (pcs u) = Some j" for u j using t(2) by simp
  have i: "i \<notin> set calls" "\<And>u. apply_flight (pcs u) = Some i \<Longrightarrow> u = t" using ok t(1) unfolding calls_ok_def by blast+
  have "(\<exists>u. apply_flight (pcs u) = Some j) \<longleftrightarrow> j = i \<or> (\<exists>u. apply_flight ((pcs(t := pc)) u) = Some j)" for j
    unfolding f using t(1) i(2) by (metis option.inject)
  then show ?thesis using ok i unfolding calls_ok_def f by auto
qed

lemma calls_length:
  assumes "calls_ok iter idx pcs calls"
  shows "length calls \<le> unat iter" "apply_flight (pcs t) = Some i \<Longrightarrow> length calls < unat iter"
    "length calls = unat iter \<Longrightarrow> set calls = {i. i < iter}"
proof -
  have card: "card {i :: u64. i < iter} = unat iter" by (rule card_less_u64)
  have d: "distinct calls" and sub: "set calls \<subseteq> {i. i < iter}" using assms unfolding calls_ok_def by blast+
  have l: "length calls = card (set calls)" using d by (simp add: distinct_card)
  show "length calls \<le> unat iter" unfolding l card [symmetric] by (rule card_mono) (use sub in simp_all)
  show "length calls < unat iter" if "apply_flight (pcs t) = Some i"
  proof -
    have "i < iter" "i \<notin> set calls" using assms that unfolding calls_ok_def by blast+
    then have "set calls \<subset> {i. i < iter}" using sub by blast
    then show ?thesis unfolding l card [symmetric] by (intro psubset_card_mono) simp_all
  qed
  show "set calls = {i. i < iter}" if "length calls = unat iter"
    by (rule card_subset_eq) (use sub that l card in simp_all)
qed

section \<open>Settling calls\<close>

lemma todo_call:
  assumes ok: "todo_ok iter todo pcs k" and pc: "pcs t = Apply_call i n" and k: "k < unat iter"
  shows "todo_ok iter todo (pcs(t := Apply_next (n + 1))) (Suc k)"
proof -
  have "unat n \<le> unsettled pcs" using unsettled_ge [of pcs t] pc by simp
  moreover have "unsettled pcs \<le> k + unat todo" using ok k unfolding todo_ok_def by simp
  moreover have "unat todo + k = unat iter + unsettled pcs" using ok unfolding todo_ok_def by blast
  ultimately have "unat n + 1 < 2 ^ 64" using k unat_less_u64 [of todo] unat_less_u64 [of iter] by linarith
  then have n: "unat (n + 1) = unat n + 1" by (simp add: unat_word_ariths)
  then have "n + 1 \<noteq> 0" by (metis unat_0 add_is_0 one_neq_zero)
  then show ?thesis using ok pc k n unsettled_update [of pcs t "Apply_next (n + 1)"] unfolding todo_ok_def by auto
qed

lemma todo_sub:
  assumes ok: "todo_ok iter todo pcs k" and pc: "pcs t = Apply_sub n"
    and out: "apply_unsettled pc = 0" "pc \<noteq> Apply_next 0" "pc \<noteq> Apply_sub 0"
  shows "todo_ok iter (todo - n) (pcs(t := pc)) k" "n \<noteq> 0" "unat n \<le> unat todo" "todo \<noteq> 0"
proof -
  have le: "unat n \<le> unsettled pcs" using unsettled_ge [of pcs t] pc by simp
  show n: "n \<noteq> 0" using ok pc unfolding todo_ok_def by metis
  show t: "unat n \<le> unat todo" using le ok unfolding todo_ok_def by linarith
  then show "todo \<noteq> 0" using n by (auto simp: unat_eq_0)
  have "unat (todo - n) = unat todo - unat n" using t by (simp add: unat_sub word_le_nat_alt)
  then show "todo_ok iter (todo - n) (pcs(t := pc)) k"
    using ok pc t le out unsettled_update [of pcs t pc] unfolding todo_ok_def by auto
qed

text \<open>Once nothing is to do every index has been called and no thread is in a call.\<close>

lemma todo_zero:
  assumes "todo_ok iter 0 pcs (length calls)" "calls_ok iter idx pcs calls"
  shows "set calls = {i. i < iter}" "apply_flight (pcs t) = None" "apply_unsettled (pcs t) = 0"
proof -
  have l: "length calls = unat iter" "unsettled pcs = 0" using assms(1) unfolding todo_ok_def by auto
  show "set calls = {i. i < iter}" by (rule calls_length(3) [OF assms(2) l(1)])
  show "apply_flight (pcs t) = None" using calls_length(2) [OF assms(2)] l(1) by (cases "apply_flight (pcs t)") auto
  show "apply_unsettled (pcs t) = 0" using unsettled_ge [of pcs t] l(2) by simp
qed

section \<open>The event\<close>

lemma event_sub:
  assumes ok: "event_ok da pcs c" and pc: "pcs t = Apply_sub n" and todo: "da_todo da \<noteq> 0"
    and out: "pc = (if todo = 0 then Apply_signal else if t = c then Apply_wait else Apply_dec)"
  shows "event_ok (da\<lparr>da_todo := todo\<rparr>) (pcs(t := pc)) c"
proof -
  note E = event_okD [OF ok]
  have nosig: "pcs u \<noteq> Apply_signal" for u using E(2) todo by blast
  have v: "\<not> apply_past_wait (pcs c) \<and> da_event da = (if pcs c = Apply_wait_slow then DTE_WAITED else 0)"
    using E(5) todo by (simp add: apply_signalled_def)
  have own: "u = c" if "(pcs(t := pc)) u = Apply_wait \<or> (pcs(t := pc)) u = Apply_wait_slow \<or> (pcs(t := pc)) u = Apply_returned" for u
  proof (cases "u = t")
    case True
    then show ?thesis using that out by (simp split: if_splits)
  next
    case False
    then show ?thesis using that by (intro E(3)) simp
  qed
  have sig: "(pcs(t := pc)) u = Apply_signal \<longleftrightarrow> u = t \<and> todo = 0" for u using nosig out by auto
  have same: "\<not> apply_signalled (da\<lparr>da_todo := todo\<rparr>) (pcs(t := pc))" unfolding apply_signalled_def sig by auto
  have past: "\<not> apply_past_wait ((pcs(t := pc)) c)" "((pcs(t := pc)) c = Apply_wait_slow) = (pcs c = Apply_wait_slow)" "(pcs(t := pc)) c \<noteq> Apply_idle"
    using v pc out E(4) by (cases "t = c"; auto)+
  show ?thesis
  proof (rule event_okI)
    show "if apply_signalled (da\<lparr>da_todo := todo\<rparr>) (pcs(t := pc))
      then apply_past_wait ((pcs(t := pc)) c) \<or> da_event (da\<lparr>da_todo := todo\<rparr>) = (if (pcs(t := pc)) c = Apply_wait_slow then 0 else 1)
      else \<not> apply_past_wait ((pcs(t := pc)) c) \<and> da_event (da\<lparr>da_todo := todo\<rparr>) = (if (pcs(t := pc)) c = Apply_wait_slow then DTE_WAITED else 0)"
      unfolding past(2) using same past(1) v by simp
  qed (use sig own past(3) in auto)
qed

lemma event_signal:
  assumes ok: "event_ok da pcs c" and pc: "pcs t = Apply_signal"
    and out: "(da', pc) = apply_signal_event da (if t = c then Apply_wait else Apply_dec)"
  shows "event_ok da' (pcs(t := pc)) c"
proof -
  note E = event_okD [OF ok]
  have todo: "da_todo da = 0" using E(2) pc by blast
  have "\<not> apply_signalled da pcs" unfolding apply_signalled_def using pc by blast
  then have v: "\<not> apply_past_wait (pcs c)" "da_event da = (if pcs c = Apply_wait_slow then DTE_WAITED else 0)"
    using E(5) by simp_all
  have da': "da_todo da' = 0" "da_event da' = da_event da + 1"
    "pc = (if da_event da = 0 then (if t = c then Apply_wait else Apply_dec) else Apply_wake)"
    using out todo by (auto simp: apply_signal_event_def dispatch_thread_event_signal_def split: if_splits)
  have sig: "(pcs(t := pc)) u \<noteq> Apply_signal" for u using E(1) [OF pc, of u] da'(3) by auto
  have same: "apply_signalled da' (pcs(t := pc))" unfolding apply_signalled_def using sig da'(1) by blast
  have slow: "((pcs(t := pc)) c = Apply_wait_slow) = (pcs c = Apply_wait_slow)" using pc da'(3) by auto
  have own: "u = c" if "(pcs(t := pc)) u = Apply_wait \<or> (pcs(t := pc)) u = Apply_wait_slow \<or> (pcs(t := pc)) u = Apply_returned" for u
  proof (cases "u = t")
    case True
    then show ?thesis using that da'(3) by (simp split: if_splits)
  next
    case False
    then show ?thesis using that by (intro E(3)) simp
  qed
  show ?thesis
  proof (rule event_okI)
    show "if apply_signalled da' (pcs(t := pc))
      then apply_past_wait ((pcs(t := pc)) c) \<or> da_event da' = (if (pcs(t := pc)) c = Apply_wait_slow then 0 else 1)
      else \<not> apply_past_wait ((pcs(t := pc)) c) \<and> da_event da' = (if (pcs(t := pc)) c = Apply_wait_slow then DTE_WAITED else 0)"
      unfolding slow da'(2) using same v(2) by simp
    show "(pcs(t := pc)) c \<noteq> Apply_idle" using E(4) da'(3) by auto
  qed (use sig own da'(1) in blast)+
qed

lemma event_wait:
  assumes ok: "event_ok da pcs c" and pc: "pcs t = Apply_wait" and out: "(da', pc) = apply_wait_event da"
  shows "event_ok da' (pcs(t := pc)) c" "da_todo da' = da_todo da"
proof -
  note E = event_okD [OF ok]
  have t: "t = c" using E(3) pc by blast
  have v: "da_event da = (if apply_signalled da pcs then 1 else 0)"
    using E(5) pc t by (auto split: if_splits)
  have da': "da_todo da' = da_todo da" "da_event da' = da_event da - 1" "pc = (if da_event da = 1 then Apply_dec else Apply_wait_slow)"
    using out by (auto simp: apply_wait_event_def dispatch_thread_event_wait_def Let_def split: if_splits)
  show "da_todo da' = da_todo da" by (rule da'(1))
  have sig: "(pcs(t := pc)) u = Apply_signal \<longleftrightarrow> pcs u = Apply_signal" for u using pc da'(3) by auto
  have same: "apply_signalled da' (pcs(t := pc)) = apply_signalled da pcs" unfolding apply_signalled_def sig da'(1) by (rule refl)
  show "event_ok da' (pcs(t := pc)) c"
  proof (rule event_okI)
    show "(pcs(t := pc)) u = Apply_signal \<Longrightarrow> (pcs(t := pc)) w = Apply_signal \<Longrightarrow> u = w" for u w unfolding sig by (rule E(1))
    show "(pcs(t := pc)) u = Apply_signal \<Longrightarrow> da_todo da' = 0" for u unfolding sig da'(1) by (rule E(2))
    show "u = c" if "(pcs(t := pc)) u = Apply_wait \<or> (pcs(t := pc)) u = Apply_wait_slow \<or> (pcs(t := pc)) u = Apply_returned" for u
    proof (cases "u = t")
      case False
      then show ?thesis using that by (intro E(3)) simp
    qed (simp add: t)
    show "(pcs(t := pc)) c \<noteq> Apply_idle" using t da'(3) by simp
    show "if apply_signalled da' (pcs(t := pc))
      then apply_past_wait ((pcs(t := pc)) c) \<or> da_event da' = (if (pcs(t := pc)) c = Apply_wait_slow then 0 else 1)
      else \<not> apply_past_wait ((pcs(t := pc)) c) \<and> da_event da' = (if (pcs(t := pc)) c = Apply_wait_slow then DTE_WAITED else 0)"
      unfolding same da'(2) using v t da'(3) by simp
  qed
qed

lemma event_slow:
  assumes ok: "event_ok da pcs c" and pc: "pcs t = Apply_wait_slow"
  shows "dispatch_thread_event_wait_slow (da_event da) \<noteq> Event_corrupt"
    "dispatch_thread_event_wait_slow (da_event da) = Event_returned \<Longrightarrow> event_ok da (pcs(t := Apply_dec)) c"
proof -
  note E = event_okD [OF ok]
  have t: "t = c" using E(3) pc by blast
  have v: "da_event da = (if apply_signalled da pcs then 0 else DTE_WAITED)"
    using E(5) pc t by (auto split: if_splits)
  then show "dispatch_thread_event_wait_slow (da_event da) \<noteq> Event_corrupt" by (simp add: dispatch_thread_event_wait_slow_def)
  assume "dispatch_thread_event_wait_slow (da_event da) = Event_returned"
  then have sg: "apply_signalled da pcs" using v by (simp add: dispatch_thread_event_wait_slow_def split: if_splits)
  then have z: "da_todo da = 0" "\<And>u. pcs u \<noteq> Apply_signal" unfolding apply_signalled_def by blast+
  have sig: "(pcs(t := Apply_dec)) u \<noteq> Apply_signal" for u using z(2) by simp
  have same: "apply_signalled da (pcs(t := Apply_dec))" unfolding apply_signalled_def using sig z(1) by blast
  show "event_ok da (pcs(t := Apply_dec)) c"
  proof (rule event_okI)
    show "u = c" if "(pcs(t := Apply_dec)) u = Apply_wait \<or> (pcs(t := Apply_dec)) u = Apply_wait_slow \<or> (pcs(t := Apply_dec)) u = Apply_returned" for u
    proof (cases "u = t")
      case False
      then show ?thesis using that by (intro E(3)) simp
    qed (simp add: t)
    show "if apply_signalled da (pcs(t := Apply_dec))
      then apply_past_wait ((pcs(t := Apply_dec)) c) \<or> da_event da = (if (pcs(t := Apply_dec)) c = Apply_wait_slow then 0 else 1)
      else \<not> apply_past_wait ((pcs(t := Apply_dec)) c) \<and> da_event da = (if (pcs(t := Apply_dec)) c = Apply_wait_slow then DTE_WAITED else 0)"
      using same t by simp
    show "(pcs(t := Apply_dec)) c \<noteq> Apply_idle" using t by simp
  qed (use sig in blast)+
qed

section \<open>Every step\<close>

lemma apply_liveD:
  assumes "apply_live iter T s da"
  shows "thr_ok da (apply_pending s) (apply_pcs s)" "index_ok iter T da (apply_pending s) (apply_pcs s)"
    "calls_ok iter (da_index da) (apply_pcs s) (apply_calls s)" "todo_ok iter (da_todo da) (apply_pcs s) (length (apply_calls s))"
    "event_ok da (apply_pcs s) (apply_caller s)"
  using assms unfolding apply_live_def by blast+

text \<open>Behind the last subtraction only the thread count and the event change.\<close>

fun apply_late :: "apply_pc \<Rightarrow> bool" where
  "apply_late (Apply_load i) = False"
| "apply_late (Apply_call i n) = False"
| "apply_late (Apply_next n) = False"
| "apply_late (Apply_sub n) = False"
| "apply_late Apply_index = False"
| "apply_late _ = True"

lemma apply_lateD:
  "apply_late pc \<Longrightarrow> \<not> apply_working pc" "apply_late pc \<Longrightarrow> apply_flight pc = None"
  "apply_late pc \<Longrightarrow> apply_unsettled pc = 0" "apply_late pc \<Longrightarrow> pc \<noteq> Apply_next n \<and> pc \<noteq> Apply_sub n"
  by (cases pc; simp)+

lemma late_move:
  assumes live: "apply_live iter T s da" and late: "apply_late (apply_pcs s t)" "apply_late pc" "apply_beyond (apply_pcs s t)"
    and da: "da_iterations da' = da_iterations da" "da_index da' = da_index da" "da_todo da' = da_todo da"
    and ok: "thr_ok da' (apply_pending s) ((apply_pcs s)(t := pc))" "event_ok da' ((apply_pcs s)(t := pc)) (apply_caller s)"
  shows "apply_live iter T (s\<lparr>apply_da := Some da', apply_pcs := (apply_pcs s)(t := pc)\<rparr>) da'"
proof -
  note L = apply_liveD [OF live]
  have "index_ok iter T da' (apply_pending s) ((apply_pcs s)(t := pc))"
    by (rule index_move [OF L(2)]) (simp_all add: da apply_lateD(1) [OF late(2)] late(3))
  moreover have "calls_ok iter (da_index da) ((apply_pcs s)(t := pc)) (apply_calls s)"
    by (rule calls_move [OF L(3)]) (simp add: apply_lateD(2) [OF late(1)] apply_lateD(2) [OF late(2)])
  moreover have "todo_ok iter (da_todo da) ((apply_pcs s)(t := pc)) (length (apply_calls s))"
    by (rule todo_move [OF L(4)])
      (simp_all add: apply_lateD(3) [OF late(1)] apply_lateD(3) [OF late(2)] apply_lateD(4) [OF late(2)])
  ultimately show ?thesis using ok da by (simp add: apply_live_def)
qed

lemma thr_leave:
  assumes ok: "thr_ok da pend pcs" and pc: "pcs t = Apply_dec" and leave: "\<not> apply_holds pc'" "pc' \<noteq> Apply_free"
    and cnt: "cnt = da_thr_cnt da - 1" and out: "pc = (if cnt = 0 then Apply_free else pc')"
  shows "thr_ok (da\<lparr>da_thr_cnt := cnt\<rparr>) pend (pcs(t := pc))"
proof -
  have "threads_in apply_holds pcs > 0" by (rule threads_in_pos [of _ _ t]) (simp add: pc)
  then have pos: "unat (da_thr_cnt da) > 0" using ok unfolding thr_ok_def by linarith
  then have nz: "da_thr_cnt da \<noteq> 0" by (auto simp: unat_eq_0)
  have one: "unat cnt = unat (da_thr_cnt da) - 1" unfolding cnt using unat_minus_one [OF nz] .
  have "\<not> apply_holds pc" using leave out by simp
  then have "threads_in apply_holds (pcs(t := pc)) + 1 = threads_in apply_holds pcs"
    using threads_in_update [of apply_holds pcs t pc] pc by simp
  moreover have "threads_in (\<lambda>pc. pc = Apply_free) (pcs(t := pc)) = (if cnt = 0 then 1 else 0)"
    using threads_in_update [of "\<lambda>pc. pc = Apply_free" pcs t pc] pc out leave ok nz by (simp add: thr_ok_def)
  ultimately show ?thesis using ok one pos unfolding thr_ok_def by simp
qed

lemma piece_inv:
  assumes live: "apply_live iter T s da" and p: "apply_piece s t da = Some (da', pc)"
  shows "apply_live iter T (s\<lparr>apply_da := Some da', apply_pcs := (apply_pcs s)(t := pc)\<rparr>) da'"
proof -
  note L = apply_liveD [OF live]
  let ?out = "apply_out s t"
  have out: "apply_late ?out" "apply_holds ?out" "?out \<noteq> Apply_free" "?out \<noteq> Apply_signal"
    "?out = (if t = apply_caller s then Apply_wait else Apply_dec)"
    by (simp_all add: apply_out_def)
  show ?thesis
  proof (cases "apply_pcs s t")
    case Apply_index
    then have da': "da' = da\<lparr>da_index := da_index da + 1\<rparr>" "pc = (if da_index da \<ge> iter then ?out else Apply_load (da_index da))"
      using p L(2) by (auto simp: apply_take_first_def Let_def index_ok_def)
    have w: "apply_working (apply_pcs s t)" using Apply_index by simp
    have "thr_ok da' (apply_pending s) ((apply_pcs s)(t := pc))"
      by (rule thr_move [OF L(1)]) (use Apply_index da' out in simp_all)
    moreover have "index_ok iter T da' (apply_pending s) ((apply_pcs s)(t := pc))"
      unfolding da'(1) by (rule index_take [OF L(2) w]) (use da'(2) apply_lateD(1) [OF out(1)] in \<open>auto simp: le_bool_def\<close>)
    moreover have "calls_ok iter (da_index da + 1) ((apply_pcs s)(t := pc)) (apply_calls s)"
    proof (cases "da_index da \<ge> iter")
      case True
      then have "calls_ok iter (da_index da) ((apply_pcs s)(t := pc)) (apply_calls s)"
        using calls_move [OF L(3), of t pc] Apply_index da'(2) apply_lateD(2) [OF out(1)] by simp
      then show ?thesis using True index_room(2) [OF L(2) w] by (intro calls_skip) simp_all
    next
      case False
      then show ?thesis using Apply_index da'(2) index_room(2) [OF L(2) w] by (intro calls_take [OF L(3)]) simp_all
    qed
    moreover have "todo_ok iter (da_todo da') ((apply_pcs s)(t := pc)) (length (apply_calls s))"
      using todo_move [OF L(4), of t pc] Apply_index da' apply_lateD(3,4) [OF out(1)] by auto
    moreover have "event_ok da' ((apply_pcs s)(t := pc)) (apply_caller s)"
      by (rule event_move [OF L(5)]) (use Apply_index da' out in \<open>auto simp: event_quiet_def\<close>)
    ultimately show ?thesis using da' by (simp add: apply_live_def)
  next
    case (Apply_next n)
    then have da': "da' = da\<lparr>da_index := da_index da + 1\<rparr>" "pc = (if da_index da < iter then Apply_call (da_index da) n else Apply_sub n)"
      using p L(2) by (auto simp: apply_take_next_def Let_def index_ok_def)
    have w: "apply_working (apply_pcs s t)" using Apply_next by simp
    have "thr_ok da' (apply_pending s) ((apply_pcs s)(t := pc))"
      by (rule thr_move [OF L(1)]) (use Apply_next da' in simp_all)
    moreover have "index_ok iter T da' (apply_pending s) ((apply_pcs s)(t := pc))"
      unfolding da'(1) by (rule index_take [OF L(2) w]) (use da'(2) in \<open>auto simp: le_bool_def\<close>)
    moreover have "calls_ok iter (da_index da + 1) ((apply_pcs s)(t := pc)) (apply_calls s)"
    proof (cases "da_index da < iter")
      case False
      then have "calls_ok iter (da_index da) ((apply_pcs s)(t := pc)) (apply_calls s)"
        using calls_move [OF L(3), of t pc] Apply_next da'(2) by simp
      then show ?thesis using False index_room(2) [OF L(2) w] by (intro calls_skip) simp_all
    next
      case True
      then show ?thesis using Apply_next da'(2) index_room(2) [OF L(2) w] by (intro calls_take [OF L(3)]) simp_all
    qed
    moreover have "n \<noteq> 0" using L(4) Apply_next unfolding todo_ok_def by metis
    then have "todo_ok iter (da_todo da') ((apply_pcs s)(t := pc)) (length (apply_calls s))"
      using todo_move [OF L(4), of t pc] Apply_next da' by auto
    moreover have "event_ok da' ((apply_pcs s)(t := pc)) (apply_caller s)"
      by (rule event_move [OF L(5)]) (use Apply_next da' in \<open>auto simp: event_quiet_def\<close>)
    ultimately show ?thesis using da' by (simp add: apply_live_def)
  next
    case (Apply_sub n)
    then have da': "da' = da\<lparr>da_todo := da_todo da - n\<rparr>" "pc = (if da_todo da - n = 0 then Apply_signal else ?out)"
      using p by (auto simp: apply_subtract_def Let_def)
    have late: "apply_late pc" using da'(2) out(1) by simp
    note S = todo_sub [OF L(4) Apply_sub apply_lateD(3) [OF late]]
    have pcs: "pc \<noteq> Apply_next 0" "pc \<noteq> Apply_sub 0" using apply_lateD(4) [OF late] by blast+
    have "thr_ok da' (apply_pending s) ((apply_pcs s)(t := pc))"
      by (rule thr_move [OF L(1)]) (use Apply_sub da' out in simp_all)
    moreover have "index_ok iter T da' (apply_pending s) ((apply_pcs s)(t := pc))"
      by (rule index_move [OF L(2)]) (simp_all add: da'(1) apply_lateD(1) [OF late] Apply_sub)
    moreover have "calls_ok iter (da_index da) ((apply_pcs s)(t := pc)) (apply_calls s)"
      by (rule calls_move [OF L(3)]) (simp add: Apply_sub apply_lateD(2) [OF late])
    moreover have "event_ok da' ((apply_pcs s)(t := pc)) (apply_caller s)"
      unfolding da'(1) by (rule event_sub [OF L(5) Apply_sub S(4) [OF pcs]]) (use da'(2) out(5) in simp)
    ultimately show ?thesis using da'(1) S(1) [OF pcs] by (simp add: apply_live_def)
  next
    case Apply_signal
    have sg: "(da', pc) = apply_signal_event da (if t = apply_caller s then Apply_wait else Apply_dec)"
      using p Apply_signal out(5) by simp
    then have da': "da' = da\<lparr>da_event := da_event da + 1\<rparr>" "pc = ?out \<or> pc = Apply_wake"
      using out(5) by (auto simp: apply_signal_event_def dispatch_thread_event_signal_def split: if_splits)
    then have pc: "apply_late pc" "apply_holds pc" "pc \<noteq> Apply_free" using out by auto
    show ?thesis
    proof (rule late_move [OF live])
      show "thr_ok da' (apply_pending s) ((apply_pcs s)(t := pc))"
        by (rule thr_move [OF L(1)]) (use Apply_signal da'(1) pc in simp_all)
      show "event_ok da' ((apply_pcs s)(t := pc)) (apply_caller s)" by (rule event_signal [OF L(5) Apply_signal sg])
    qed (use Apply_signal da'(1) pc in simp_all)
  next
    case Apply_wake
    then have da': "da' = da" "pc = ?out" using p by simp_all
    show ?thesis unfolding da'
    proof (rule late_move [OF live])
      show "thr_ok da (apply_pending s) ((apply_pcs s)(t := ?out))"
        by (rule thr_move [OF L(1)]) (use Apply_wake out in simp_all)
      show "event_ok da ((apply_pcs s)(t := ?out)) (apply_caller s)"
        by (rule event_move [OF L(5)]) (use Apply_wake out in \<open>auto simp: event_quiet_def\<close>)
    qed (use Apply_wake out in simp_all)
  next
    case Apply_wait
    then have w: "(da', pc) = apply_wait_event da" using p by simp
    then have da': "da' = da\<lparr>da_event := da_event da - 1\<rparr>" "pc = Apply_dec \<or> pc = Apply_wait_slow"
      by (auto simp: apply_wait_event_def dispatch_thread_event_wait_def Let_def split: if_splits)
    then have pc: "apply_late pc" "apply_holds pc" "pc \<noteq> Apply_free" by auto
    show ?thesis
    proof (rule late_move [OF live])
      show "thr_ok da' (apply_pending s) ((apply_pcs s)(t := pc))"
        by (rule thr_move [OF L(1)]) (use Apply_wait da'(1) pc in simp_all)
      show "event_ok da' ((apply_pcs s)(t := pc)) (apply_caller s)" by (rule event_wait(1) [OF L(5) Apply_wait w])
    qed (use Apply_wait da'(1) pc in simp_all)
  next
    case Apply_wait_slow
    then have w: "dispatch_thread_event_wait_slow (da_event da) = Event_returned" "da' = da" "pc = Apply_dec"
      using p by (auto split: if_splits)
    show ?thesis unfolding w(2,3)
    proof (rule late_move [OF live])
      show "thr_ok da (apply_pending s) ((apply_pcs s)(t := Apply_dec))"
        by (rule thr_move [OF L(1)]) (use Apply_wait_slow in simp_all)
      show "event_ok da ((apply_pcs s)(t := Apply_dec)) (apply_caller s)" by (rule event_slow(2) [OF L(5) Apply_wait_slow w(1)])
    qed (use Apply_wait_slow in simp_all)
  next
    case Apply_dec
    then have da': "da' = da\<lparr>da_thr_cnt := da_thr_cnt da - 1\<rparr>" "pc = (if da_thr_cnt da - 1 = 0 then Apply_free else apply_done s t)"
      using p by (auto simp: apply_leave_def Let_def)
    have d: "\<not> apply_holds (apply_done s t)" "apply_done s t \<noteq> Apply_free" "apply_late (apply_done s t)" by (simp_all add: apply_done_def)
    have pc: "apply_late pc" using da'(2) d(3) by simp
    show ?thesis
    proof (rule late_move [OF live])
      show "thr_ok da' (apply_pending s) ((apply_pcs s)(t := pc))"
        unfolding da'(1) by (rule thr_leave [OF L(1) Apply_dec d(1,2) refl da'(2)])
      show "event_ok da' ((apply_pcs s)(t := pc)) (apply_caller s)"
        by (rule event_move [OF L(5)]) (use Apply_dec da' in \<open>auto simp: event_quiet_def apply_done_def\<close>)
    qed (use Apply_dec da'(1) pc in simp_all)
  qed (use p in simp_all)
qed

lemma free_inv:
  assumes live: "apply_live iter T s da" and pc: "apply_pcs s t = Apply_free"
  shows "apply_gone iter (s\<lparr>apply_da := None, apply_pcs := (apply_pcs s)(t := apply_done s t)\<rparr>)"
proof -
  note L = apply_liveD [OF live] and E = event_okD [OF apply_liveD(5) [OF live]]
  let ?c = "apply_caller s"
  have "threads_in (\<lambda>pc. pc = Apply_free) (apply_pcs s) > 0" by (rule threads_in_pos [of _ _ t]) (rule pc)
  then have z: "da_thr_cnt da = 0" and one: "threads_in (\<lambda>pc. pc = Apply_free) (apply_pcs s) = 1"
    using L(1) unfolding thr_ok_def by (auto split: if_splits)
  then have none: "apply_pending s = 0" "threads_in apply_holds (apply_pcs s) = 0" using L(1) unfolding thr_ok_def by auto
  have nohold: "\<not> apply_holds (apply_pcs s u)" for u using threads_in_pos [of apply_holds "apply_pcs s" u] none(2) by auto
  have only: "u = t" if "apply_pcs s u = Apply_free" for u
  proof -
    obtain x where "{v. apply_pcs s v = Apply_free} = {x}" using one by (auto simp: threads_in_def card_1_singleton_iff)
    moreover have "u \<in> {v. apply_pcs s v = Apply_free}" "t \<in> {v. apply_pcs s v = Apply_free}" using that pc by simp_all
    ultimately show ?thesis by (simp only: singleton_iff)
  qed
  have rest: "apply_pcs s u = Apply_idle \<or> apply_pcs s u = Apply_returned" if "u \<noteq> t" for u
    using nohold [of u] only [of u] that by (cases "apply_pcs s u") auto
  have "apply_past_wait (apply_pcs s ?c)"
    using rest [of ?c] pc E(4) by (cases "?c = t") auto
  then have "apply_signalled da (apply_pcs s)" using E(5) by (auto split: if_splits)
  then have "todo_ok iter 0 (apply_pcs s) (length (apply_calls s))" using L(4) by (simp add: apply_signalled_def)
  then have all: "set (apply_calls s) = {i. i < iter}" by (rule todo_zero(1) [OF _ L(3)])
  have "((apply_pcs s)(t := apply_done s t)) u = (if u = ?c then Apply_returned else Apply_idle)" for u
  proof (cases "u = t")
    case True
    then show ?thesis by (simp add: apply_done_def)
  next
    case False
    then have "apply_pcs s u = Apply_idle \<or> apply_pcs s u = Apply_returned" by (rule rest)
    moreover have "apply_pcs s u = Apply_returned \<Longrightarrow> u = ?c" by (rule E(3)) simp
    ultimately show ?thesis using False E(4) by auto
  qed
  then show ?thesis using none(1) all L(3) by (simp add: apply_gone_def calls_ok_def)
qed

lemma invoke_inv:
  assumes live: "apply_live iter T s da" and p: "apply_pending s > 0" and pc: "apply_pcs s t = Apply_idle"
  shows "apply_live iter T (s\<lparr>apply_pending := apply_pending s - 1, apply_pcs := (apply_pcs s)(t := Apply_index)\<rparr>) da"
proof -
  note L = apply_liveD [OF live]
  have c: "t \<noteq> apply_caller s" using event_okD(4) [OF L(5)] pc by auto
  have "thr_ok da (apply_pending s - 1) ((apply_pcs s)(t := Apply_index))"
    using L(1) p pc threads_in_update [of apply_holds "apply_pcs s" t Apply_index]
      threads_in_update [of "\<lambda>pc. pc = Apply_free" "apply_pcs s" t Apply_index] by (simp add: thr_ok_def)
  moreover have "index_ok iter T da (apply_pending s - 1) ((apply_pcs s)(t := Apply_index))"
    using L(2) p pc threads_in_update [of apply_working "apply_pcs s" t Apply_index] by (auto simp: index_ok_def)
  moreover have "calls_ok iter (da_index da) ((apply_pcs s)(t := Apply_index)) (apply_calls s)"
    by (rule calls_move [OF L(3)]) (simp add: pc)
  moreover have "todo_ok iter (da_todo da) ((apply_pcs s)(t := Apply_index)) (length (apply_calls s))"
    by (rule todo_move [OF L(4)]) (simp_all add: pc)
  moreover have "event_ok da ((apply_pcs s)(t := Apply_index)) (apply_caller s)"
    by (rule event_move [OF L(5)]) (use pc c in \<open>simp_all add: event_quiet_def\<close>)
  ultimately show ?thesis by (simp add: apply_live_def)
qed

lemma load_inv:
  assumes live: "apply_live iter T s da" and pc: "apply_pcs s t = Apply_load i"
  shows "apply_live iter T (s\<lparr>apply_pcs := (apply_pcs s)(t := Apply_call i 0)\<rparr>) da"
proof -
  note L = apply_liveD [OF live]
  have "thr_ok da (apply_pending s) ((apply_pcs s)(t := Apply_call i 0))" by (rule thr_move [OF L(1)]) (simp_all add: pc)
  moreover have "index_ok iter T da (apply_pending s) ((apply_pcs s)(t := Apply_call i 0))" by (rule index_move [OF L(2)]) (simp_all add: pc)
  moreover have "calls_ok iter (da_index da) ((apply_pcs s)(t := Apply_call i 0)) (apply_calls s)" by (rule calls_move [OF L(3)]) (simp add: pc)
  moreover have "todo_ok iter (da_todo da) ((apply_pcs s)(t := Apply_call i 0)) (length (apply_calls s))" by (rule todo_move [OF L(4)]) (simp_all add: pc)
  moreover have "event_ok da ((apply_pcs s)(t := Apply_call i 0)) (apply_caller s)"
    by (rule event_move [OF L(5)]) (simp_all add: event_quiet_def pc)
  ultimately show ?thesis by (simp add: apply_live_def)
qed

lemma call_inv:
  assumes live: "apply_live iter T s da" and pc: "apply_pcs s t = Apply_call i n"
  shows "apply_live iter T (s\<lparr>apply_calls := apply_calls s @ [i], apply_pcs := (apply_pcs s)(t := Apply_next (n + 1))\<rparr>) da"
proof -
  note L = apply_liveD [OF live]
  let ?pcs = "(apply_pcs s)(t := Apply_next (n + 1))"
  have k: "length (apply_calls s) < unat iter" by (rule calls_length(2) [OF L(3), of t i]) (simp add: pc)
  have "thr_ok da (apply_pending s) ?pcs" by (rule thr_move [OF L(1)]) (simp_all add: pc)
  moreover have "index_ok iter T da (apply_pending s) ?pcs" by (rule index_move [OF L(2)]) (simp_all add: pc)
  moreover have "calls_ok iter (da_index da) ?pcs (apply_calls s @ [i])" by (rule calls_call [OF L(3)]) (simp_all add: pc)
  moreover have "todo_ok iter (da_todo da) ?pcs (length (apply_calls s @ [i]))" using todo_call [OF L(4) pc k] by simp
  moreover have "event_ok da ?pcs (apply_caller s)" by (rule event_move [OF L(5)]) (simp_all add: event_quiet_def pc)
  ultimately show ?thesis by (simp add: apply_live_def)
qed

text \<open>The caller's frame is only left when nobody reads it any more.\<close>

lemma frame_alive:
  assumes live: "apply_live iter T s da" and c: "apply_past_wait (apply_pcs s (apply_caller s))"
  shows "set (apply_calls s) = {i. i < iter}" "apply_flight (apply_pcs s t) = None"
proof -
  note L = apply_liveD [OF live]
  have "apply_signalled da (apply_pcs s)" using event_okD(5) [OF L(5)] c by (auto split: if_splits)
  then have z: "todo_ok iter 0 (apply_pcs s) (length (apply_calls s))" using L(4) by (simp add: apply_signalled_def)
  show "set (apply_calls s) = {i. i < iter}" "apply_flight (apply_pcs s t) = None" using todo_zero [OF z L(3)] by blast+
qed

lemma apply_step_inv:
  assumes "apply_step s s'" "apply_inv iter T s"
  shows "apply_inv iter T s'"
proof -
  have ok: "apply_fault s = None" and some: "\<And>da. apply_da s = Some da \<Longrightarrow> apply_live iter T s da"
    and none: "apply_da s = None \<Longrightarrow> apply_gone iter s" using assms(2) unfolding apply_inv_def by auto
  have busy: "\<exists>da. apply_da s = Some da" if "apply_pending s > 0 \<or> apply_pcs s t \<noteq> Apply_idle \<and> apply_pcs s t \<noteq> Apply_returned" for t
  proof (cases "apply_da s")
    case None
    then show ?thesis using none [OF None] that by (auto simp: apply_gone_def split: if_splits)
  qed blast
  from assms(1) show ?thesis
  proof cases
    case (invoke t)
    then obtain da where da: "apply_da s = Some da" using busy by blast
    then show ?thesis using invoke_inv [OF some [OF da] invoke(2,3)] ok invoke(1) by (simp add: apply_inv_def)
  next
    case (piece da t da' pc)
    then show ?thesis using piece_inv [OF some [OF piece(2)] piece(3)] ok by (simp add: apply_inv_def)
  next
    case (load da t i)
    then show ?thesis using load_inv [OF some [OF load(2)] load(3)] ok by (simp add: apply_inv_def)
  next
    case (dead_frame t i)
    then obtain da where da: "apply_da s = Some da" using busy [of t] by auto
    then show ?thesis using frame_alive(2) [OF some [OF da], of t] dead_frame(2,3) by simp
  next
    case (call t i n)
    then obtain da where da: "apply_da s = Some da" using busy [of t] by auto
    then show ?thesis using call_inv [OF some [OF da] call(2)] ok call(1) by (simp add: apply_inv_def)
  next
    case (corrupt da t)
    then show ?thesis using event_slow(1) [OF apply_liveD(5) [OF some [OF corrupt(2)]] corrupt(3)] by simp
  next
    case (free da t)
    then show ?thesis using free_inv [OF some [OF free(2)] free(3)] ok by (simp add: apply_inv_def)
  next
    case (freed t)
    then show ?thesis using none [OF freed(2)] freed(3) by (auto simp: apply_gone_def uses_apply_def split: if_splits)
  qed
qed

lemma apply_init_inv:
  assumes "apply_init iter T s"
  shows "apply_inv iter T s"
proof -
  obtain da t where s: "s = apply_start da t" and da: "da_iterations da = iter" "da_todo da = iter" "da_index da = 0"
      "da_event da = dispatch_thread_event_init" "da_thr_cnt da = of_nat T"
    and lim: "0 < iter" "0 < T" "T < 2 ^ 31" "unat iter + T < 2 ^ 64" using assms unfolding apply_init_def by blast
  have cnt: "unat (da_thr_cnt da) = T" using da(5) lim(3) by (simp add: unat_of_nat take_bit_nat_eq_self)
  have nz: "da_thr_cnt da \<noteq> 0" using cnt lim(2) by (auto simp: unat_eq_0)
  let ?pcs = "(\<lambda>_. Apply_idle)(t := Apply_index)"
  have n0: "threads_in P (\<lambda>_. Apply_idle) = 0" if "\<not> P Apply_idle" for P using that by (simp add: threads_in_def)
  have h: "threads_in apply_holds ?pcs = 1" "threads_in apply_working ?pcs = 1" "threads_in (\<lambda>pc. pc = Apply_free) ?pcs = 0"
    using threads_in_update [of apply_holds "\<lambda>_. Apply_idle" t Apply_index] threads_in_update [of apply_working "\<lambda>_. Apply_idle" t Apply_index]
      threads_in_update [of "\<lambda>pc. pc = Apply_free" "\<lambda>_. Apply_idle" t Apply_index] n0 by simp_all
  have fl: "apply_flight (?pcs u) = None" "?pcs u \<noteq> Apply_signal" "apply_unsettled (?pcs u) = 0" for u by simp_all
  have "thr_ok da (T - 1) ?pcs" using cnt h nz lim(2) by (simp add: thr_ok_def)
  moreover have "index_ok iter T da (T - 1) ?pcs" using da h lim by (simp add: index_ok_def)
  moreover have "calls_ok iter 0 ?pcs []" unfolding calls_ok_def fl by simp
  moreover have "todo_ok iter iter ?pcs 0" using fl(3) by (simp add: todo_ok_def unsettled_def)
  moreover have "event_ok da ?pcs t"
    by (rule event_okI) (use da lim(1) in \<open>auto simp: apply_signalled_def dispatch_thread_event_init_def split: if_splits\<close>)
  ultimately show ?thesis by (simp add: s apply_start_def apply_inv_def apply_live_def da(2,3) cnt)
qed

interpretation apply_threads: invariant_system "apply_init iter T" apply_step "apply_inv iter T" for iter T
  by unfold_locales (blast intro: apply_init_inv apply_step_inv)+

end
