(* ===== verification/Apply_Properties.thy ===== *)
theory Apply_Properties
  imports Apply_Invariant
begin

text \<open>What \<open>dispatch_apply_f\<close> promises: every index once, no use of dead memory, no deadlock.\<close>

section \<open>Progress\<close>

lemma some_idle:
  assumes live: "apply_live iter T s da" and p: "apply_pending s > 0"
  shows "\<exists>t. apply_pcs s t = Apply_idle"
proof (rule ccontr)
  note L = apply_liveD [OF live]
  assume "\<nexists>t. apply_pcs s t = Apply_idle"
  then have "apply_holds (apply_pcs s t) \<or> apply_pcs s t = Apply_free \<or> apply_pcs s t = Apply_returned" for t
    by (cases "apply_pcs s t") auto
  moreover have "apply_pcs s t = Apply_returned \<Longrightarrow> t = apply_caller s" for t by (rule event_okD(3) [OF L(5)]) simp
  moreover have "da_thr_cnt da \<noteq> 0" using L(1) p by (auto simp: thr_ok_def)
  then have "threads_in (\<lambda>pc. pc = Apply_free) (apply_pcs s) = 0" using L(1) by (simp add: thr_ok_def)
  then have "apply_pcs s t \<noteq> Apply_free" for t using threads_in_pos [of "\<lambda>pc. pc = Apply_free" "apply_pcs s" t] by auto
  ultimately have "UNIV = insert (apply_caller s) {t. apply_holds (apply_pcs s t)}" by blast
  then have "card (UNIV :: dispatch_tid set) = card (insert (apply_caller s) {t. apply_holds (apply_pcs s t)})" by (rule arg_cong)
  also have "\<dots> \<le> Suc (threads_in apply_holds (apply_pcs s))" unfolding threads_in_def by (rule card_insert_le_m1) simp_all
  finally have "2 ^ 32 \<le> Suc (threads_in apply_holds (apply_pcs s))" by (simp add: card_word)
  moreover have "unat (da_thr_cnt da) < 2 ^ 32" using unsigned_less [of "da_thr_cnt da"] by simp
  ultimately show False using L(1) p by (simp add: thr_ok_def)
qed

lemma slow_or_step:
  assumes "apply_da s = Some da" "apply_holds (apply_pcs s t) \<or> apply_pcs s t = Apply_free" "apply_pcs s t \<noteq> Apply_wait_slow"
  shows "\<exists>s'. apply_step s s'"
proof (cases "apply_pcs s t")
  case (Apply_load i)
  then show ?thesis using apply_step.load [OF assms(1) Apply_load] apply_step.dead_frame [OF Apply_load] by blast
next
  case (Apply_call i n)
  then show ?thesis using apply_step.call [OF Apply_call] by blast
next
  case Apply_free
  then show ?thesis using apply_step.free [OF assms(1) Apply_free] by blast
qed (use assms apply_step.piece [OF assms(1), of t] in \<open>fastforce simp: prod_eq_iff\<close>)+

lemma apply_progress:
  assumes live: "apply_live iter T s da" and da: "apply_da s = Some da"
  shows "\<exists>s'. apply_step s s'"
proof (rule ccontr)
  note L = apply_liveD [OF live]
  let ?c = "apply_caller s"
  assume stuck: "\<nexists>s'. apply_step s s'"
  have p: "apply_pending s = 0" using some_idle [OF live] stuck apply_step.invoke by blast
  have rest: "\<not> apply_holds (apply_pcs s t) \<and> apply_pcs s t \<noteq> Apply_free \<or> apply_pcs s t = Apply_wait_slow" for t
    using slow_or_step [OF da] stuck by blast
  have "apply_pcs s t \<noteq> Apply_free" for t using rest [of t] by auto
  then have nofree: "threads_in (\<lambda>pc. pc = Apply_free) (apply_pcs s) = 0" by (simp add: threads_in_def)
  then have "da_thr_cnt da \<noteq> 0" using L(1) by (auto simp: thr_ok_def)
  then have "threads_in apply_holds (apply_pcs s) \<noteq> 0" using L(1) p unat_gt_0 [of "da_thr_cnt da"] by (simp add: thr_ok_def)
  then obtain t where "apply_holds (apply_pcs s t)" by (auto simp: threads_in_def card_eq_0_iff)
  then have slow: "apply_pcs s t = Apply_wait_slow" using rest by blast
  have t: "t = ?c" by (rule event_okD(3) [OF L(5)]) (simp add: slow)
  have ev: "dispatch_thread_event_wait_slow (da_event da) \<noteq> Event_returned"
    using apply_step.piece [OF da, of t] slow stuck by auto
  have nosig: "\<not> apply_signalled da (apply_pcs s)"
    using event_okD(5) [OF L(5)] ev slow t by (auto simp: dispatch_thread_event_wait_slow_def)
  have late: "apply_unsettled (apply_pcs s u) = 0" "apply_flight (apply_pcs s u) = None" "apply_pcs s u \<noteq> Apply_signal" for u
    using rest [of u] by (cases "apply_pcs s u"; simp)+
  have "unsettled (apply_pcs s) = 0" by (simp add: unsettled_def late(1))
  moreover have "da_todo da \<noteq> 0" using nosig late(3) by (auto simp: apply_signalled_def)
  ultimately have less: "length (apply_calls s) < unat iter"
    using L(4) unat_gt_0 [of "da_todo da"] by (simp add: todo_ok_def)
  have "apply_beyond (apply_pcs s t)" by (simp add: slow)
  then have "iter \<le> da_index da" using L(2) unfolding index_ok_def by blast
  then have "set (apply_calls s) = {i. i < iter}" using L(3) late(2) unfolding calls_ok_def by auto
  then have "length (apply_calls s) = unat iter"
    using L(3) distinct_card [of "apply_calls s"] card_less_u64 [of iter] unfolding calls_ok_def by simp
  then show False using less by simp
qed

section \<open>A run\<close>

text \<open>
  Two iterations for two threads, caller 7 and a worker 8: the caller makes both calls and returns,
  then the worker starts, finds no index left and frees the object.
\<close>

definition apply_two :: "apply_pc \<Rightarrow> apply_pc \<Rightarrow> dispatch_tid \<Rightarrow> apply_pc" where
  "apply_two p q = (\<lambda>t. if t = 7 then p else if t = 8 then q else Apply_idle)"

definition apply_at :: "u64 \<Rightarrow> u64 \<Rightarrow> u32 \<Rightarrow> u32 \<Rightarrow> nat \<Rightarrow> apply_pc \<Rightarrow> apply_pc \<Rightarrow> u64 list \<Rightarrow> apply_sys" where
  "apply_at idx todo thr ev pend p q calls =
     \<lparr>apply_da = Some \<lparr>da_iterations = 2, da_nested = 2, da_index = idx, da_todo = todo, da_thr_cnt = thr, da_event = ev\<rparr>,
      apply_caller = 7, apply_pending = pend, apply_pcs = apply_two p q, apply_calls = calls, apply_fault = None\<rparr>"

definition apply_over :: apply_sys where
  "apply_over = \<lparr>apply_da = None, apply_caller = 7, apply_pending = 0, apply_pcs = apply_two Apply_returned Apply_idle,
     apply_calls = [0, 1], apply_fault = None\<rparr>"

lemma apply_two_upd: "(apply_two p q)(7 := r) = apply_two r q" "(apply_two p q)(8 := r) = apply_two p r"
  "apply_two p q 7 = p" "apply_two p q 8 = q"
  by (auto simp: apply_two_def fun_eq_iff)

lemmas apply_run_simps = apply_at_def apply_two_upd apply_out_def apply_done_def apply_take_first_def apply_take_next_def
  apply_subtract_def apply_leave_def apply_signal_event_def apply_wait_event_def dispatch_thread_event_signal_def
  dispatch_thread_event_wait_def Let_def

abbreviation apply_reached :: "apply_sys \<Rightarrow> bool" where
  "apply_reached \<equiv> reach (apply_init 2 2) apply_step"

definition apply_do :: "apply_sys \<Rightarrow> dispatch_tid \<Rightarrow> apply_sys" where
  "apply_do s t =
     (case apply_da s of Some da \<Rightarrow>
        (case apply_piece s t da of
           Some (da', pc) \<Rightarrow> s\<lparr>apply_da := Some da', apply_pcs := (apply_pcs s)(t := pc)\<rparr>
         | None \<Rightarrow> s)
      | None \<Rightarrow> s)"

lemma do_reached: "apply_reached s \<Longrightarrow> apply_reached (apply_do s t)"
  unfolding apply_do_def
  by (cases "apply_da s") (auto split: option.split simp del: apply_piece.simps intro: reach_step apply_step.piece)

lemma apply_started: "apply_reached (apply_at 0 2 2 0 1 Apply_index Apply_idle [])"
proof (rule reach_init)
  have "apply_at 0 2 2 0 1 Apply_index Apply_idle [] = apply_start
      \<lparr>da_iterations = 2, da_nested = 2, da_index = 0, da_todo = 2, da_thr_cnt = 2, da_event = 0\<rparr> 7"
    by (simp add: apply_at_def apply_start_def apply_two_def fun_eq_iff)
  then show "apply_init 2 2 (apply_at 0 2 2 0 1 Apply_index Apply_idle [])"
    by (force simp: apply_init_def dispatch_thread_event_init_def)
qed

lemma apply_called: "apply_reached (apply_at 3 0 2 0 1 Apply_signal Apply_idle [0, 1])"
proof -
  from do_reached [OF apply_started, of 7] have "apply_reached (apply_at 1 2 2 0 1 (Apply_load 0) Apply_idle [])"
    by (simp add: apply_do_def apply_run_simps)
  then have "apply_reached (apply_at 1 2 2 0 1 (Apply_call 0 0) Apply_idle [])"
    using apply_step.load [of "apply_at 1 2 2 0 1 (Apply_load 0) Apply_idle []" _ 7 0] by (auto simp: apply_run_simps intro: reach_step)
  then have "apply_reached (apply_at 1 2 2 0 1 (Apply_next 1) Apply_idle [0])"
    using apply_step.call [of "apply_at 1 2 2 0 1 (Apply_call 0 0) Apply_idle []" 7 0 0] by (auto simp: apply_run_simps intro: reach_step)
  from do_reached [OF this, of 7] have "apply_reached (apply_at 2 2 2 0 1 (Apply_call 1 1) Apply_idle [0])"
    by (simp add: apply_do_def apply_run_simps)
  then have "apply_reached (apply_at 2 2 2 0 1 (Apply_next 2) Apply_idle [0, 1])"
    using apply_step.call [of "apply_at 2 2 2 0 1 (Apply_call 1 1) Apply_idle [0]" 7 1 1] by (auto simp: apply_run_simps intro: reach_step)
  from do_reached [OF this, of 7] have "apply_reached (apply_at 3 2 2 0 1 (Apply_sub 2) Apply_idle [0, 1])"
    by (simp add: apply_do_def apply_run_simps)
  from do_reached [OF this, of 7] show ?thesis by (simp add: apply_do_def apply_run_simps)
qed

lemma apply_caller_returned: "apply_reached (apply_at 3 0 1 0 1 Apply_returned Apply_idle [0, 1])"
proof -
  from do_reached [OF apply_called, of 7] have "apply_reached (apply_at 3 0 2 1 1 Apply_wait Apply_idle [0, 1])"
    by (simp add: apply_do_def apply_run_simps)
  from do_reached [OF this, of 7] have "apply_reached (apply_at 3 0 2 0 1 Apply_dec Apply_idle [0, 1])"
    by (simp add: apply_do_def apply_run_simps)
  from do_reached [OF this, of 7] show ?thesis by (simp add: apply_do_def apply_run_simps)
qed

lemma apply_over_reached: "apply_reached apply_over"
proof -
  have "apply_reached (apply_at 3 0 1 0 0 Apply_returned Apply_index [0, 1])"
    using apply_caller_returned apply_step.invoke [of "apply_at 3 0 1 0 1 Apply_returned Apply_idle [0, 1]" 8] by (auto simp: apply_run_simps intro: reach_step)
  from do_reached [OF this, of 8] have "apply_reached (apply_at 4 0 1 0 0 Apply_returned Apply_dec [0, 1])"
    by (simp add: apply_do_def apply_run_simps)
  from do_reached [OF this, of 8] have "apply_reached (apply_at 4 0 0 0 0 Apply_returned Apply_free [0, 1])"
    by (simp add: apply_do_def apply_run_simps)
  then show ?thesis
    using apply_step.free [of "apply_at 4 0 0 0 0 Apply_returned Apply_free [0, 1]" _ 8]
    by (auto simp: apply_run_simps apply_over_def intro: reach_step)
qed

section \<open>Properties\<close>

text \<open>C37: Whatever the threads do in between, \<open>dispatch_apply_f\<close> never calls the function with
  an index twice or with one outside the range, and when the caller gets past its wait the function has
  returned for every index of the range.\<close>

theorem apply_calls_each_once:
  assumes "reach (apply_init iter T) apply_step s"
  shows "distinct (apply_calls s) \<and> set (apply_calls s) \<subseteq> {i. i < iter} \<and>
    (apply_past_wait (apply_pcs s (apply_caller s)) \<longrightarrow> set (apply_calls s) = {i. i < iter})"
proof -
  have inv: "apply_inv iter T s" by (rule apply_threads.inv_reach [OF assms])
  show ?thesis
  proof (cases "apply_da s")
    case None
    then show ?thesis using inv by (simp add: apply_inv_def apply_gone_def)
  next
    case (Some da)
    then have live: "apply_live iter T s da" using inv by (simp add: apply_inv_def)
    then have "distinct (apply_calls s)" "set (apply_calls s) \<subseteq> {i. i < iter}"
      using apply_liveD(3) [OF live] unfolding calls_ok_def by blast+
    then show ?thesis using frame_alive(1) [OF live] by blast
  qed
qed

theorem apply_calls_each_once_witness:
  "set (apply_calls (apply_at 3 0 1 0 1 Apply_returned Apply_idle [0, 1])) = {i. i < 2}"
  using apply_calls_each_once [OF apply_caller_returned] by (simp add: apply_run_simps)

text \<open>C38: No thread of an apply touches the shared object after it has been freed or the caller's frame
  after the caller has left it, the event never takes a value that makes the wait crash, and the object is
  freed exactly when the caller has returned and every continuation has run to its end.\<close>

theorem apply_memory_safe:
  assumes "reach (apply_init iter T) apply_step s"
  shows "apply_fault s = None \<and>
    (apply_da s = None) = (apply_pending s = 0 \<and> (\<forall>t. apply_pcs s t = apply_done s t))"
proof -
  have inv: "apply_inv iter T s" by (rule apply_threads.inv_reach [OF assms])
  show ?thesis
  proof (cases "apply_da s")
    case None
    then show ?thesis using inv by (simp add: apply_inv_def apply_gone_def apply_done_def)
  next
    case (Some da)
    then have live: "apply_live iter T s da" using inv by (simp add: apply_inv_def)
    have "\<not> (apply_pending s = 0 \<and> (\<forall>t. apply_pcs s t = apply_done s t))"
    proof
      assume q: "apply_pending s = 0 \<and> (\<forall>t. apply_pcs s t = apply_done s t)"
      then have "\<not> apply_holds (apply_pcs s t) \<and> apply_pcs s t \<noteq> Apply_free" for t by (simp add: apply_done_def)
      then have "threads_in apply_holds (apply_pcs s) = 0" "threads_in (\<lambda>pc. pc = Apply_free) (apply_pcs s) = 0"
        by (simp_all add: threads_in_def)
      then show False using apply_liveD(1) [OF live] q by (auto simp: thr_ok_def unat_eq_0 split: if_splits)
    qed
    then show ?thesis using Some inv by (simp add: apply_inv_def)
  qed
qed

theorem apply_memory_safe_witness:
  "apply_fault apply_over = None \<and> apply_pending apply_over = 0 \<and> apply_pcs apply_over 7 = Apply_returned"
proof -
  have "apply_da apply_over = None" by (simp add: apply_over_def)
  then show ?thesis using apply_memory_safe [OF apply_over_reached] by (simp add: apply_done_def apply_over_def)
qed

text \<open>C39: An apply cannot get stuck: as long as its object exists some thread can take a step, so a
  caller that waits for the event always has a thread or a continuation to wait for.\<close>

theorem apply_never_stuck:
  assumes "reach (apply_init iter T) apply_step s" "apply_da s = Some da"
  shows "\<exists>s'. apply_step s s' \<and> apply_fault s' = None"
proof -
  have inv: "apply_inv iter T s" by (rule apply_threads.inv_reach [OF assms(1)])
  then have "apply_live iter T s da" using assms(2) by (simp add: apply_inv_def)
  then obtain s' where "apply_step s s'" using apply_progress assms(2) by blast
  then show ?thesis using apply_step_inv [OF _ inv] by (auto simp: apply_inv_def)
qed

theorem apply_never_stuck_witness:
  "\<exists>s'. apply_step (apply_at 3 0 1 0 1 Apply_returned Apply_idle [0, 1]) s'"
  using apply_never_stuck [OF apply_caller_returned] by (fastforce simp: apply_at_def)

end
