(* ===== verification/Apply_Width.thy ===== *)
theory Apply_Width
  imports Apply_Properties Queue_Width
begin

text \<open>
  The ways of \<open>src/apply.c\<close> that do not push on a root queue directly:
  the serial loop, and the redirection that reserves width on every queue between the one passed in
  and the root queue.
\<close>

section \<open>Reserving and giving back width\<close>

record apply_queue =
  aq_width :: u16
  aq_state :: u64

definition dispatch_queue_try_reserve_apply_width :: "apply_queue \<Rightarrow> int \<Rightarrow> apply_queue \<times> int" where
  "dispatch_queue_try_reserve_apply_width dq da_width =
     (if aq_width dq = 1 then (dq, 0)
      else
        let width = dq_state_available_width (aq_state dq) in
        if width = 0 then (dq, 0)
        else
          let width = (if width > da_width then da_width else width) in
          (dq\<lparr>aq_state := aq_state dq + of_int width * DISPATCH_QUEUE_WIDTH_INTERVAL\<rparr>, width))"

text \<open>The queues from the top one up to the stop queue, which is not among them.\<close>

definition dispatch_queue_relinquish_width :: "int \<Rightarrow> apply_queue list \<Rightarrow> apply_queue list" where
  "dispatch_queue_relinquish_width da_width =
     map (\<lambda>dq. dq\<lparr>aq_state := aq_state dq - of_int da_width * DISPATCH_QUEUE_WIDTH_INTERVAL\<rparr>)"

text \<open>
  The loop of \<open>_dispatch_apply_redirect\<close> over the queues that have a target, behind those it has
  passed; it answers with them, \<open>da_width\<close> and \<open>da_thr_cnt\<close>. Width 0: the serial way.
\<close>

fun apply_redirect_loop :: "apply_queue list \<Rightarrow> apply_queue list \<Rightarrow> int \<Rightarrow> int \<Rightarrow> apply_queue list \<times> int \<times> int" where
  "apply_redirect_loop passed [] da_width thr_cnt = (passed, da_width, thr_cnt)"
| "apply_redirect_loop passed (dq # dqs) da_width thr_cnt =
     (let (dq, width) = dispatch_queue_try_reserve_apply_width dq da_width in
      if da_width > width then
        let excess = da_width - width; passed = dispatch_queue_relinquish_width excess passed in
        if width = 0 then (passed @ dq # dqs, 0, thr_cnt)
        else apply_redirect_loop (passed @ [dq]) dqs width (thr_cnt - excess)
      else apply_redirect_loop (passed @ [dq]) dqs da_width thr_cnt)"

text \<open>
  The whole: what the queues are while the threads run, with how many threads (\<open>None\<close>: the
  caller alone, in the serial loop), and what they are at the end.
\<close>

definition dispatch_apply_redirect :: "apply_queue list \<Rightarrow> int \<Rightarrow> apply_queue list \<times> int option \<times> apply_queue list" where
  "dispatch_apply_redirect dqs thr_cnt =
     (case apply_redirect_loop [] dqs (thr_cnt - 1) thr_cnt of
        (reserved, da_width, cnt) \<Rightarrow>
          if da_width = 0 then (reserved, None, reserved)
          else (reserved, Some cnt, dispatch_queue_relinquish_width da_width reserved))"

section \<open>Lemmas\<close>

definition with_width :: "int \<Rightarrow> apply_queue \<Rightarrow> apply_queue" where
  "with_width w dq = dq\<lparr>aq_state := aq_state dq + of_int w * DISPATCH_QUEUE_WIDTH_INTERVAL\<rparr>"

lemma with_width_0 [simp]: "with_width 0 dq = dq"
  by (simp add: with_width_def)

lemma map_with_width_0 [simp]: "map (with_width 0) dqs = dqs"
  by (induction dqs) simp_all

lemma relinquish_with_width:
  "dispatch_queue_relinquish_width e (map (with_width w) dqs) = map (with_width (w - e)) dqs"
proof -
  have "(s + of_int w * i) - of_int e * i = s + of_int (w - e) * (i :: u64)" for s i
    by (simp only: of_int_diff left_diff_distrib) simp
  then show ?thesis by (simp add: dispatch_queue_relinquish_width_def with_width_def)
qed

text \<open>What a queue has left for an apply.\<close>

definition apply_room :: "apply_queue \<Rightarrow> int" where
  "apply_room dq = (if aq_width dq = 1 then 0 else dq_state_available_width (aq_state dq))"

lemma available_nonneg: "0 \<le> dq_state_available_width s"
proof (cases "test s DISPATCH_QUEUE_WIDTH_FULL_BIT")
  case True
  then show ?thesis by (simp add: dq_state_available_width_def)
next
  case False
  then have nb: "\<not> bit s 53" by (auto simp: test_bit_iff dq_bits)
  let ?x = "drop_bit 41 (s AND DISPATCH_QUEUE_WIDTH_MASK)"
  have "take_bit 12 ?x = ?x"
  proof (rule bit_eqI)
    fix n
    have "n < 12" if b: "bit ?x n"
    proof -
      have "bit s (41 + n)" "41 + n < 54" using b by (auto simp: bit_drop_bit_eq bit_and_iff dq_bits)
      then have "41 + n \<noteq> 53" using nb by metis
      then show ?thesis using \<open>41 + n < 54\<close> by linarith
    qed
    then show "bit (take_bit 12 ?x) n = bit ?x n" unfolding bit_take_bit_iff by blast
  qed
  then have "uint ?x = take_bit 12 (uint ?x)" by (metis unsigned_take_bit_eq)
  then have "uint ?x < 2 ^ 12" by (metis take_bit_int_less_exp)
  then show ?thesis by (simp add: dq_state_available_width_def dq_state_extract_width_bits_def DISPATCH_QUEUE_WIDTH_FULL_def)
qed

lemma reserve_room:
  assumes "0 < w"
  shows "dispatch_queue_try_reserve_apply_width dq w = (with_width (min w (apply_room dq)) dq, min w (apply_room dq))"
  using available_nonneg [of "aq_state dq"] assms
  by (auto simp: dispatch_queue_try_reserve_apply_width_def apply_room_def with_width_def Let_def min_def)

lemma redirect_loop:
  assumes "0 < w"
  shows "\<exists>w'. 0 \<le> w' \<and> w' \<le> w \<and> (\<forall>dq\<in>set dqs. w' \<le> apply_room dq) \<and>
    (\<exists>c. apply_redirect_loop (map (with_width w) passed) dqs w thr = (map (with_width w') (passed @ dqs), w', c) \<and>
      (w' = 0 \<or> c = thr - (w - w')))"
  using assms
proof (induction dqs arbitrary: passed w thr)
  case Nil
  then show ?case by (intro exI [of _ w]) simp
next
  case (Cons dq dqs)
  define k where "k = min w (apply_room dq)"
  have room: "0 \<le> apply_room dq" using available_nonneg by (simp add: apply_room_def)
  have k: "0 \<le> k" "k \<le> w" "k \<le> apply_room dq" using room Cons.prems by (simp_all add: k_def)
  have r: "dispatch_queue_try_reserve_apply_width dq w = (with_width k dq, k)" using reserve_room [OF Cons.prems] by (simp add: k_def)
  have e: "dispatch_queue_relinquish_width (w - k) (map (with_width w) passed) = map (with_width k) passed"
    by (simp add: relinquish_with_width)
  show ?case
  proof (cases "k = 0")
    case True
    then have l: "apply_redirect_loop (map (with_width w) passed) (dq # dqs) w thr = (passed @ dq # dqs, 0, thr)"
      using Cons.prems r e by (simp add: Let_def)
    have nn: "\<forall>q\<in>set (dq # dqs). 0 \<le> apply_room q" using available_nonneg by (simp add: apply_room_def)
    show ?thesis unfolding l using nn Cons.prems by (intro exI [of _ 0]) simp
  next
    case False
    then have pos: "0 < k" using k(1) by simp
    have "apply_redirect_loop (map (with_width w) passed) (dq # dqs) w thr =
        apply_redirect_loop (map (with_width k) (passed @ [dq])) dqs k (thr - (w - k))"
      using k r e False by (simp add: Let_def)
    moreover obtain w' c where "0 \<le> w'" "w' \<le> k" "\<forall>q\<in>set dqs. w' \<le> apply_room q"
      "apply_redirect_loop (map (with_width k) (passed @ [dq])) dqs k (thr - (w - k)) = (map (with_width w') ((passed @ [dq]) @ dqs), w', c)"
      "w' = 0 \<or> c = thr - (w - k) - (k - w')"
      using Cons.IH [OF pos, of "passed @ [dq]" "thr - (w - k)"] by blast
    ultimately show ?thesis using k by (intro exI [of _ w'] conjI exI [of _ c]) auto
  qed
qed

lemma apply_serial_from:
  "idx < iter \<Longrightarrow> dispatch_apply_serial iter idx = map of_nat [unat idx..<unat iter]"
proof (induction iter idx rule: dispatch_apply_serial.induct)
  case (1 iter idx)
  have less: "unat idx < unat iter" using 1(2) by (simp add: word_less_nat_alt)
  then have next_idx: "unat (idx + 1) = unat idx + 1" using unat_less_u64 [of iter] by (simp add: unat_word_ariths)
  then have "idx + 1 < iter \<longleftrightarrow> Suc (unat idx) < unat iter" by (simp add: word_less_nat_alt)
  then have "dispatch_apply_serial iter idx = idx # (if Suc (unat idx) < unat iter then map of_nat [unat idx + 1..<unat iter] else [])"
    using 1(1) next_idx by (subst dispatch_apply_serial.simps) simp
  then show ?case using less by (simp add: upt_conv_Cons)
qed

section \<open>Properties\<close>

text \<open>The serial way calls the function with every index of the range, in order.\<close>

theorem apply_serial_in_order:
  assumes "0 < iter"
  shows "map unat (dispatch_apply_serial iter 0) = [0..<unat iter]"
proof -
  have k: "unat (of_nat k :: u64) = k" if "k < unat iter" for k
    using that unat_less_u64 [of iter] by (simp add: unat_of_nat take_bit_nat_eq_self)
  have "map (\<lambda>k. unat (of_nat k :: u64)) [0..<unat iter] = [0..<unat iter]" by (rule map_idI) (use k in simp)
  then show ?thesis using apply_serial_from [OF assms] by (simp add: comp_def)
qed

theorem apply_serial_in_order_witness:
  "map unat (dispatch_apply_serial 3 0) = [0, 1, 2]"
  using apply_serial_in_order [of 3] by (simp add: upt_rec)

text \<open>C40: An apply that is redirected reserves one and the same width on every queue between the
  one passed in and the root queue, never more than any of them has available, runs with one thread more
  than that width, and leaves every queue's state word as it was; when a queue has no width to give, it
  gives back what it has reserved so far and the serial way is taken.\<close>

theorem apply_redirect_balanced:
  assumes "1 < thr_cnt" "dispatch_apply_redirect dqs thr_cnt = (reserved, cnt, after)"
  shows "after = dqs \<and>
    (case cnt of
       Some c \<Rightarrow> 1 < c \<and> c \<le> thr_cnt \<and> (\<forall>dq\<in>set dqs. c - 1 \<le> apply_room dq) \<and> reserved = map (with_width (c - 1)) dqs
     | None \<Rightarrow> reserved = dqs)"
proof -
  have "0 < thr_cnt - 1" using assms(1) by simp
  from redirect_loop [OF this, of dqs "[]" thr_cnt] obtain w' c where l: "0 \<le> w'" "w' \<le> thr_cnt - 1"
    "\<forall>dq\<in>set dqs. w' \<le> apply_room dq" "apply_redirect_loop [] dqs (thr_cnt - 1) thr_cnt = (map (with_width w') dqs, w', c)"
    "w' = 0 \<or> c = thr_cnt - (thr_cnt - 1 - w')" by auto
  show ?thesis
  proof (cases "w' = 0")
    case True
    then show ?thesis using assms(2) l(4) by (auto simp: dispatch_apply_redirect_def)
  next
    case False
    then have c: "c = w' + 1" using l(5) by simp
    then show ?thesis using assms(2) l False relinquish_with_width [of w' w' dqs]
      by (auto simp: dispatch_apply_redirect_def)
  qed
qed

text \<open>A queue of width 4 with one item in flight, which targets an idle queue of width 6; an apply for 8 threads.\<close>

theorem apply_redirect_balanced_witness:
  "case dispatch_apply_redirect
      [\<lparr>aq_width = 4, aq_state = width_word 0xffd\<rparr>, \<lparr>aq_width = 6, aq_state = width_word 0xffa\<rparr>] 8 of
     (reserved, cnt, after) \<Rightarrow>
       cnt = Some 4 \<and> after = [\<lparr>aq_width = 4, aq_state = width_word 0xffd\<rparr>, \<lparr>aq_width = 6, aq_state = width_word 0xffa\<rparr>]"
proof -
  let ?dqs = "[\<lparr>aq_width = 4, aq_state = width_word 0xffd\<rparr>, \<lparr>aq_width = 6, aq_state = width_word 0xffa\<rparr>]"
  obtain reserved cnt after where r: "dispatch_apply_redirect ?dqs 8 = (reserved, cnt, after)" by (metis prod_cases3)
  have "fst (snd (dispatch_apply_redirect ?dqs 8)) = Some 4" by code_simp
  then have "cnt = Some 4" using r by simp
  moreover have "after = ?dqs" using apply_redirect_balanced [OF _ r] by simp
  ultimately show ?thesis using r by simp
qed

end
