(* ===== verification/Root_Queue.thy ===== *)
theory Root_Queue
  imports Mpsc
begin

text \<open>
  How many threads take items from a root queue at the same time: \<open>_dispatch_root_queue_drain_one\<close>
  of \<open>src/queue.c\<close>. The list is the multi producer queue of \<open>src/inline_internal.h\<close>, and a
  pointer that is no node, the mediator, stands in its head while a thread owns the consumer's side.
\<close>

section \<open>Operations\<close>

text \<open>The mediator, \<open>~0ul\<close>, is a parameter: a pointer that is never pushed.\<close>

text \<open>
  Where a thread is in \<open>_dispatch_root_queue_drain_one\<close>: at \<open>start\<close>; with NULL from the exchange;
  before the look at the tail; in the contended wait for the mediator to go; in that for head and tail to
  agree (before the load of the head, and of the tail); owning the list: before the load of the next
  item, after it, before the compare and swap of the tail, in \<open>os_mpsc_get_next\<close>, before the last store.
\<close>

datatype 'n drain_pc =
    Drain_idle
  | Drain_start
  | Drain_null
  | Drain_empty
  | Drain_contended
  | Drain_quiesce
  | Drain_quiesce_tail bool
  | Drain_owner 'n
  | Drain_loaded 'n "'n option"
  | Drain_cas 'n
  | Drain_next 'n
  | Drain_store 'n 'n

datatype drain_status = Drain_wait | Drain_ready | Drain_abort

definition root_queue_xchg_head :: "'n \<Rightarrow> 'n mpsc \<Rightarrow> 'n mpsc \<times> 'n drain_pc" where
  "root_queue_xchg_head mediator q =
     (q\<lparr>mq_head := Some mediator\<rparr>,
      case mq_head q of
        None \<Rightarrow> Drain_null
      | Some head \<Rightarrow> if head = mediator then Drain_contended else Drain_owner head)"

definition root_queue_reset_head :: "'n \<Rightarrow> 'n mpsc \<Rightarrow> 'n mpsc \<times> 'n drain_pc" where
  "root_queue_reset_head mediator q =
     (if mq_head q = Some mediator then (q\<lparr>mq_head := None\<rparr>, Drain_empty) else (q, Drain_start))"

definition root_queue_mediator_is_gone :: "'n \<Rightarrow> 'n mpsc \<Rightarrow> drain_status" where
  "root_queue_mediator_is_gone mediator q = (if mq_head q \<noteq> Some mediator then Drain_ready else Drain_wait)"

text \<open>With the head as it was loaded before the tail.\<close>

definition root_queue_head_tail_quiesced :: "bool \<Rightarrow> 'n mpsc \<Rightarrow> drain_status" where
  "root_queue_head_tail_quiesced head_is_null q =
     (if head_is_null = (mq_tail q = None)
      then (if mq_tail q = None then Drain_abort else Drain_ready)
      else Drain_wait)"

text \<open>
  One turn of \<open>__DISPATCH_ROOT_QUEUE_CONTENDED_WAIT__\<close>: start again, give up, wait on, and, when
  \<open>tired\<close> after too long a wait, ask for another thread and give up.
\<close>

definition contended_wait :: "bool \<Rightarrow> drain_status \<Rightarrow> 'n drain_pc \<Rightarrow> 'n drain_pc" where
  "contended_wait tired status again =
     (case status of
        Drain_ready \<Rightarrow> Drain_start
      | Drain_abort \<Rightarrow> Drain_idle
      | Drain_wait \<Rightarrow> if tired then Drain_idle else again)"

definition contended_poke :: "bool \<Rightarrow> drain_status \<Rightarrow> nat" where
  "contended_poke tired status = (if tired \<and> status = Drain_wait then 1 else 0)"

section \<open>The system\<close>

text \<open>
  \<open>rq_queued\<close> holds the item of an owner until its call is past its last store; \<open>rq_pokes\<close> counts the
  calls of \<open>_dispatch_root_queue_poke\<close>.
\<close>

record 'n root_sys =
  rq_words :: "'n mpsc"
  rq_producers :: "dispatch_tid \<Rightarrow> 'n push_pc"
  rq_drainers :: "dispatch_tid \<Rightarrow> 'n drain_pc"
  rq_pushed :: "'n list"
  rq_popped :: "'n list"
  rq_queued :: "'n list"
  rq_pokes :: nat

definition root_push_ok :: "'n \<Rightarrow> 'n root_sys \<Rightarrow> 'n list \<Rightarrow> bool" where
  "root_push_ok mediator s ns \<longleftrightarrow> ns \<noteq> [] \<and> distinct ns \<and> mediator \<notin> set ns \<and> set ns \<inter> set (rq_queued s) = {} \<and>
     (\<forall>a b. adj a b ns \<longrightarrow> mq_next (rq_words s) a = Some b)"

abbreviation (input) at_drain :: "'n root_sys \<Rightarrow> dispatch_tid \<Rightarrow> 'n drain_pc \<Rightarrow> 'n root_sys" where
  "at_drain s t pc \<equiv> s\<lparr>rq_drainers := (rq_drainers s)(t := pc)\<rparr>"

abbreviation (input) more_pokes :: "'n root_sys \<Rightarrow> nat \<Rightarrow> 'n root_sys" where
  "more_pokes s k \<equiv> s\<lparr>rq_pokes := rq_pokes s + k\<rparr>"

inductive root_step :: "'n \<Rightarrow> 'n root_sys \<Rightarrow> 'n root_sys \<Rightarrow> bool" for mediator where
  push_update_tail: "rq_producers s t = Push_idle \<Longrightarrow> root_push_ok mediator s ns \<Longrightarrow>
    os_mpsc_push_update_tail (last ns) (rq_words s) = (q, prv) \<Longrightarrow>
    root_step mediator s (s\<lparr>rq_words := q, rq_producers := (rq_producers s)(t := Push_prev prv (hd ns)),
      rq_pushed := rq_pushed s @ ns, rq_queued := rq_queued s @ ns\<rparr>)"
| push_update_prev: "rq_producers s t = Push_prev prv h \<Longrightarrow>
    root_step mediator s (s\<lparr>rq_words := os_mpsc_push_update_prev prv h (rq_words s), rq_producers := (rq_producers s)(t := Push_idle),
      rq_pokes := rq_pokes s + (if os_mpsc_push_was_empty prv then 1 else 0)\<rparr>)"
| xchg_head: "rq_drainers s t \<in> {Drain_idle, Drain_start} \<Longrightarrow> root_queue_xchg_head mediator (rq_words s) = (q, pc) \<Longrightarrow>
    root_step mediator s ((at_drain s t pc)\<lparr>rq_words := q\<rparr>)"
| reset_head: "rq_drainers s t = Drain_null \<Longrightarrow> root_queue_reset_head mediator (rq_words s) = (q, pc) \<Longrightarrow>
    root_step mediator s ((at_drain s t pc)\<lparr>rq_words := q\<rparr>)"
| look_tail: "rq_drainers s t = Drain_empty \<Longrightarrow>
    root_step mediator s (at_drain s t (if mq_tail (rq_words s) = None then Drain_idle else Drain_quiesce))"
| contended: "rq_drainers s t = Drain_contended \<Longrightarrow>
    root_step mediator s (more_pokes (at_drain s t (contended_wait tired (root_queue_mediator_is_gone mediator (rq_words s)) Drain_contended))
      (contended_poke tired (root_queue_mediator_is_gone mediator (rq_words s))))"
| quiesce_head: "rq_drainers s t = Drain_quiesce \<Longrightarrow>
    root_step mediator s (at_drain s t (Drain_quiesce_tail (mq_head (rq_words s) = None)))"
| quiesce_tail: "rq_drainers s t = Drain_quiesce_tail nul \<Longrightarrow>
    root_step mediator s (more_pokes (at_drain s t (contended_wait tired (root_queue_head_tail_quiesced nul (rq_words s)) Drain_quiesce))
      (contended_poke tired (root_queue_head_tail_quiesced nul (rq_words s))))"
| load_next: "rq_drainers s t = Drain_owner h \<Longrightarrow>
    root_step mediator s (at_drain s t (Drain_loaded h (mq_next (rq_words s) h)))"
| store_next: "rq_drainers s t = Drain_loaded h (Some n) \<Longrightarrow>
    root_step mediator s ((at_drain s t Drain_idle)\<lparr>rq_words := mpsc_store_head (Some n) (rq_words s),
      rq_popped := rq_popped s @ [h], rq_queued := tl (rq_queued s), rq_pokes := rq_pokes s + 1\<rparr>)"
| store_null: "rq_drainers s t = Drain_loaded h None \<Longrightarrow>
    root_step mediator s ((at_drain s t (Drain_cas h))\<lparr>rq_words := mpsc_store_head None (rq_words s)\<rparr>)"
| take_last: "rq_drainers s t = Drain_cas h \<Longrightarrow> mpsc_cmpxchg_tail (Some h) None (rq_words s) = (q, True) \<Longrightarrow>
    root_step mediator s ((at_drain s t Drain_idle)\<lparr>rq_words := q, rq_popped := rq_popped s @ [h], rq_queued := tl (rq_queued s)\<rparr>)"
| not_last: "rq_drainers s t = Drain_cas h \<Longrightarrow> mpsc_cmpxchg_tail (Some h) None (rq_words s) = (q, False) \<Longrightarrow>
    root_step mediator s ((at_drain s t (Drain_next h))\<lparr>rq_words := q\<rparr>)"
| get_next: "rq_drainers s t = Drain_next h \<Longrightarrow> os_mpsc_get_next h (rq_words s) = Some n \<Longrightarrow>
    root_step mediator s (at_drain s t (Drain_store h n))"
| store_last: "rq_drainers s t = Drain_store h n \<Longrightarrow>
    root_step mediator s ((at_drain s t Drain_idle)\<lparr>rq_words := mpsc_store_head (Some n) (rq_words s),
      rq_popped := rq_popped s @ [h], rq_queued := tl (rq_queued s), rq_pokes := rq_pokes s + 1\<rparr>)"

definition root_init :: "'n root_sys \<Rightarrow> bool" where
  "root_init s \<longleftrightarrow> mq_head (rq_words s) = None \<and> mq_tail (rq_words s) = None \<and>
     rq_producers s = (\<lambda>_. Push_idle) \<and> rq_drainers s = (\<lambda>_. Drain_idle) \<and>
     rq_pushed s = [] \<and> rq_popped s = [] \<and> rq_queued s = []"

section \<open>Invariant\<close>

fun owned_item :: "'n drain_pc \<Rightarrow> 'n option" where
  "owned_item (Drain_owner h) = Some h"
| "owned_item (Drain_loaded h n) = Some h"
| "owned_item (Drain_cas h) = Some h"
| "owned_item (Drain_next h) = Some h"
| "owned_item (Drain_store h n) = Some h"
| "owned_item _ = None"

text \<open>Who is going to take the mediator out of the head.\<close>

fun removes_mediator :: "'n drain_pc \<Rightarrow> bool" where
  "removes_mediator Drain_null = True"
| "removes_mediator (Drain_owner h) = True"
| "removes_mediator (Drain_loaded h n) = True"
| "removes_mediator _ = False"

definition pushing :: "'n root_sys \<Rightarrow> 'n option \<Rightarrow> 'n \<Rightarrow> bool" where
  "pushing s p b \<longleftrightarrow> (\<exists>t. rq_producers s t = Push_prev p b)"

definition root_owned :: "'n root_sys \<Rightarrow> bool" where
  "root_owned s \<longleftrightarrow> (\<exists>t. owned_item (rq_drainers s t) \<noteq> None)"

definition head_free :: "'n \<Rightarrow> 'n root_sys \<Rightarrow> bool" where
  "head_free mediator s \<longleftrightarrow> mq_head (rq_words s) = None \<or> mq_head (rq_words s) = Some mediator"

text \<open>What an owner knows at each place.\<close>

definition owner_ok :: "'n root_sys \<Rightarrow> 'n drain_pc \<Rightarrow> bool" where
  "owner_ok s pc \<longleftrightarrow>
     (case pc of
        Drain_loaded h n \<Rightarrow> n = None \<or> n = mq_next (rq_words s) h
      | Drain_next h \<Rightarrow> tl (rq_queued s) \<noteq> []
      | Drain_store h n \<Rightarrow> mq_next (rq_words s) h = Some n
      | _ \<Rightarrow> True)"

definition links_ok :: "'n root_sys \<Rightarrow> bool" where
  "links_ok s \<longleftrightarrow>
     mq_tail (rq_words s) = (if rq_queued s = [] then None else Some (last (rq_queued s))) \<and>
     (rq_queued s \<noteq> [] \<longrightarrow> mq_next (rq_words s) (last (rq_queued s)) = None) \<and>
     (\<forall>a b. adj a b (rq_queued s) \<longrightarrow> mq_next (rq_words s) a = Some b \<or> mq_next (rq_words s) a = None \<and> pushing s (Some a) b) \<and>
     (\<forall>a b. pushing s (Some a) b \<longrightarrow> adj a b (rq_queued s) \<and> mq_next (rq_words s) a = None)"

definition root_head_ok :: "'n \<Rightarrow> 'n root_sys \<Rightarrow> bool" where
  "root_head_ok mediator s \<longleftrightarrow>
     (\<forall>b. pushing s None b \<longrightarrow> rq_queued s \<noteq> [] \<and> b = hd (rq_queued s) \<and> \<not> root_owned s \<and> head_free mediator s) \<and>
     (if root_owned s \<or> rq_queued s = [] then head_free mediator s
      else mq_head (rq_words s) = Some (hd (rq_queued s)) \<or> head_free mediator s \<and> pushing s None (hd (rq_queued s))) \<and>
     (mq_head (rq_words s) = Some mediator \<longrightarrow> (\<exists>t. removes_mediator (rq_drainers s t)))"

definition root_owner_ok :: "'n root_sys \<Rightarrow> bool" where
  "root_owner_ok s \<longleftrightarrow>
     (\<forall>t u. owned_item (rq_drainers s t) \<noteq> None \<longrightarrow> owned_item (rq_drainers s u) \<noteq> None \<longrightarrow> t = u) \<and>
     (\<forall>t h. owned_item (rq_drainers s t) = Some h \<longrightarrow> rq_queued s \<noteq> [] \<and> h = hd (rq_queued s)) \<and>
     (\<forall>t. owner_ok s (rq_drainers s t))"

definition root_inv :: "'n \<Rightarrow> 'n root_sys \<Rightarrow> bool" where
  "root_inv mediator s \<longleftrightarrow>
     distinct (rq_queued s) \<and> mediator \<notin> set (rq_queued s) \<and> rq_popped s @ rq_queued s = rq_pushed s \<and>
     (\<forall>t u p p' b. rq_producers s t = Push_prev p b \<longrightarrow> rq_producers s u = Push_prev p' b \<longrightarrow> t = u) \<and>
     links_ok s \<and> root_head_ok mediator s \<and> root_owner_ok s"

end
