(* ===== verification/Root_Queue_Invariant.thy ===== *)
theory Root_Queue_Invariant
  imports Root_Queue
begin

text \<open>Every step of a root queue keeps the invariant.\<close>

lemma root_invD:
  assumes "root_inv m s"
  shows "distinct (rq_queued s)" "m \<notin> set (rq_queued s)" "rq_popped s @ rq_queued s = rq_pushed s"
    "rq_producers s t = Push_prev p b \<Longrightarrow> rq_producers s u = Push_prev p' b \<Longrightarrow> t = u"
    "links_ok s" "root_head_ok m s" "root_owner_ok s"
  using assms unfolding root_inv_def by blast+

lemma root_invI:
  assumes "distinct (rq_queued s)" "m \<notin> set (rq_queued s)" "rq_popped s @ rq_queued s = rq_pushed s"
    "\<And>t u p p' b. rq_producers s t = Push_prev p b \<Longrightarrow> rq_producers s u = Push_prev p' b \<Longrightarrow> t = u"
    "links_ok s" "root_head_ok m s" "root_owner_ok s"
  shows "root_inv m s"
  using assms unfolding root_inv_def by blast

lemma links_okD:
  assumes "links_ok s"
  shows "mq_tail (rq_words s) = (if rq_queued s = [] then None else Some (last (rq_queued s)))"
    "rq_queued s \<noteq> [] \<Longrightarrow> mq_next (rq_words s) (last (rq_queued s)) = None"
    "adj a b (rq_queued s) \<Longrightarrow> mq_next (rq_words s) a = Some b \<or> mq_next (rq_words s) a = None \<and> pushing s (Some a) b"
    "pushing s (Some a) b \<Longrightarrow> adj a b (rq_queued s) \<and> mq_next (rq_words s) a = None"
  using assms unfolding links_ok_def by blast+

lemma links_okI:
  assumes "mq_tail (rq_words s) = (if rq_queued s = [] then None else Some (last (rq_queued s)))"
    "rq_queued s \<noteq> [] \<Longrightarrow> mq_next (rq_words s) (last (rq_queued s)) = None"
    "\<And>a b. adj a b (rq_queued s) \<Longrightarrow> mq_next (rq_words s) a = Some b \<or> mq_next (rq_words s) a = None \<and> pushing s (Some a) b"
    "\<And>a b. pushing s (Some a) b \<Longrightarrow> adj a b (rq_queued s) \<and> mq_next (rq_words s) a = None"
  shows "links_ok s"
  using assms unfolding links_ok_def by blast

lemma root_head_okD:
  assumes "root_head_ok m s"
  shows "pushing s None b \<Longrightarrow> rq_queued s \<noteq> [] \<and> b = hd (rq_queued s) \<and> \<not> root_owned s \<and> head_free m s"
    "root_owned s \<or> rq_queued s = [] \<Longrightarrow> head_free m s"
    "\<not> root_owned s \<Longrightarrow> rq_queued s \<noteq> [] \<Longrightarrow>
      mq_head (rq_words s) = Some (hd (rq_queued s)) \<or> head_free m s \<and> pushing s None (hd (rq_queued s))"
    "mq_head (rq_words s) = Some m \<Longrightarrow> \<exists>t. removes_mediator (rq_drainers s t)"
  using assms unfolding root_head_ok_def by (auto split: if_splits)

lemma root_head_okI:
  assumes "\<And>b. pushing s None b \<Longrightarrow> rq_queued s \<noteq> [] \<and> b = hd (rq_queued s) \<and> \<not> root_owned s \<and> head_free m s"
    "root_owned s \<or> rq_queued s = [] \<Longrightarrow> head_free m s"
    "\<not> root_owned s \<Longrightarrow> rq_queued s \<noteq> [] \<Longrightarrow>
      mq_head (rq_words s) = Some (hd (rq_queued s)) \<or> head_free m s \<and> pushing s None (hd (rq_queued s))"
    "mq_head (rq_words s) = Some m \<Longrightarrow> \<exists>t. removes_mediator (rq_drainers s t)"
  shows "root_head_ok m s"
  using assms unfolding root_head_ok_def by simp

lemma root_owner_okD:
  assumes "root_owner_ok s"
  shows "owned_item (rq_drainers s t) \<noteq> None \<Longrightarrow> owned_item (rq_drainers s u) \<noteq> None \<Longrightarrow> t = u"
    "owned_item (rq_drainers s t) = Some h \<Longrightarrow> rq_queued s \<noteq> [] \<and> h = hd (rq_queued s)" "owner_ok s (rq_drainers s t)"
  using assms unfolding root_owner_ok_def by blast+

lemma root_owner_okI:
  assumes "\<And>t u. owned_item (rq_drainers s t) \<noteq> None \<Longrightarrow> owned_item (rq_drainers s u) \<noteq> None \<Longrightarrow> t = u"
    "\<And>t h. owned_item (rq_drainers s t) = Some h \<Longrightarrow> rq_queued s \<noteq> [] \<and> h = hd (rq_queued s)" "\<And>t. owner_ok s (rq_drainers s t)"
  shows "root_owner_ok s"
  using assms unfolding root_owner_ok_def by blast

section \<open>Steps that move one drainer and at most the head\<close>

lemma head_only:
  assumes inv: "root_inv m s" and s': "s' = (at_drain s t pc)\<lparr>rq_words := (rq_words s)\<lparr>mq_head := x\<rparr>\<rparr>"
    and head: "root_head_ok m s'"
    and own: "owned_item pc = owned_item (rq_drainers s t) \<or> owned_item pc = Some (hd (rq_queued s)) \<and> rq_queued s \<noteq> [] \<and> \<not> root_owned s"
    and ok: "owner_ok s pc"
  shows "root_inv m s'"
proof -
  note I = root_invD [OF inv] and W = root_owner_okD [OF root_invD(7) [OF inv]]
  have P: "pushing s' = pushing s" by (intro ext) (simp add: pushing_def s')
  have O: "owner_ok s' = owner_ok s" by (intro ext) (simp add: owner_ok_def s' split: drain_pc.splits)
  have d: "rq_drainers s' u = (if u = t then pc else rq_drainers s u)" for u by (simp add: s')
  show ?thesis
  proof (rule root_invI)
    show "links_ok s'" using I(5) unfolding links_ok_def P by (simp add: s')
    show "root_owner_ok s'"
    proof (rule root_owner_okI)
      show "owner_ok s' (rq_drainers s' u)" for u unfolding O d using ok W(3) by simp
      show "rq_queued s' \<noteq> [] \<and> h = hd (rq_queued s')" if "owned_item (rq_drainers s' u) = Some h" for u h
      proof (cases "u = t")
        case True
        then show ?thesis using that own W(2) [of t h] by (auto simp: s')
      next
        case False
        then show ?thesis using that W(2) [of u h] by (simp add: s')
      qed
      show "u = v" if "owned_item (rq_drainers s' u) \<noteq> None" "owned_item (rq_drainers s' v) \<noteq> None" for u v
      proof (rule disjE [OF own])
        assume "owned_item pc = owned_item (rq_drainers s t)"
        then have "owned_item (rq_drainers s' w) = owned_item (rq_drainers s w)" for w by (simp add: d)
        then show ?thesis using that W(1) by simp
      next
        assume "owned_item pc = Some (hd (rq_queued s)) \<and> rq_queued s \<noteq> [] \<and> \<not> root_owned s"
        then have "owned_item (rq_drainers s w) = None" for w unfolding root_owned_def by blast
        then show ?thesis using that by (auto simp: d split: if_splits)
      qed
    qed
    show "distinct (rq_queued s')" "m \<notin> set (rq_queued s')" "rq_popped s' @ rq_queued s' = rq_pushed s'" using I(1-3) by (simp_all add: s')
    show "rq_producers s' v = Push_prev p b \<Longrightarrow> rq_producers s' u = Push_prev p' b \<Longrightarrow> v = u" for v u p p' b
      using I(4) by (simp add: s')
  qed (rule head)
qed

lemma root_same_words: "(at_drain s t pc)\<lparr>rq_words := (rq_words s)\<lparr>mq_head := mq_head (rq_words s)\<rparr>\<rparr> = at_drain s t pc"
  by simp

lemma owned_upd:
  "root_owned ((at_drain s t pc)\<lparr>rq_words := q\<rparr>) \<longleftrightarrow> owned_item pc \<noteq> None \<or> (\<exists>u. u \<noteq> t \<and> owned_item (rq_drainers s u) \<noteq> None)"
  by (auto simp: root_owned_def)

lemma owned_same: "owned_item pc = owned_item (rq_drainers s t) \<Longrightarrow> root_owned ((at_drain s t pc)\<lparr>rq_words := q\<rparr>) = root_owned s"
  unfolding root_owned_def by (metis (no_types, lifting) fun_upd_apply root_sys.select_convs(3) root_sys.surjective root_sys.update_convs(1,3))

text \<open>Moves that leave the words alone.\<close>

lemma move_inv:
  assumes inv: "root_inv m s" and own: "owned_item pc = owned_item (rq_drainers s t)"
    and rem: "removes_mediator (rq_drainers s t) \<le> removes_mediator pc" and ok: "owner_ok s pc"
  shows "root_inv m (at_drain s t pc)"
proof -
  note H = root_head_okD [OF root_invD(6) [OF inv]]
  let ?s = "(at_drain s t pc)\<lparr>rq_words := (rq_words s)\<lparr>mq_head := mq_head (rq_words s)\<rparr>\<rparr>"
  have P: "pushing ?s = pushing s" by (intro ext) (simp add: pushing_def)
  have F: "head_free m ?s = head_free m s" by (simp add: head_free_def)
  have R: "root_owned ?s = root_owned s" by (rule owned_same [OF own])
  have rm: "\<exists>u. removes_mediator (rq_drainers ?s u)" if "mq_head (rq_words ?s) = Some m"
  proof -
    have "mq_head (rq_words s) = Some m" using that by simp
    then obtain u where "removes_mediator (rq_drainers s u)" using H(4) by blast
    then show ?thesis using rem by (intro exI [of _ u]) (auto simp: le_bool_def)
  qed
  have "root_head_ok m ?s"
    by (rule root_head_okI; (unfold P F R)?) (use H rm in simp_all)
  from head_only [OF inv refl this _ ok] own show ?thesis unfolding root_same_words by blast
qed

section \<open>Steps that change the head\<close>

lemma xchg_inv:
  assumes inv: "root_inv m s" and t: "rq_drainers s t \<in> {Drain_idle, Drain_start}"
    and q: "root_queue_xchg_head m (rq_words s) = (q, pc)"
  shows "root_inv m ((at_drain s t pc)\<lparr>rq_words := q\<rparr>)" (is "root_inv m ?s")
proof -
  note I = root_invD [OF inv] and H = root_head_okD [OF root_invD(6) [OF inv]]
  have none: "owned_item (rq_drainers s t) = None" "\<not> removes_mediator (rq_drainers s t)" using t by auto
  have qe: "q = (rq_words s)\<lparr>mq_head := Some m\<rparr>" using q by (simp add: root_queue_xchg_head_def)
  have P: "pushing ?s = pushing s" by (intro ext) (simp add: pushing_def)
  have F: "head_free m ?s" by (simp add: head_free_def qe)
  consider (null) "mq_head (rq_words s) = None" "pc = Drain_null"
    | (med) "mq_head (rq_words s) = Some m" "pc = Drain_contended"
    | (item) h where "mq_head (rq_words s) = Some h" "h \<noteq> m" "pc = Drain_owner h"
    using q by (auto simp: root_queue_xchg_head_def split: option.splits if_splits)
  then show ?thesis
  proof cases
    case item
    have nf: "\<not> head_free m s" using item by (simp add: head_free_def)
    have free: "\<not> root_owned s" "rq_queued s \<noteq> []" using H(2) nf by blast+
    then have h: "h = hd (rq_queued s)" using H(3) nf item(1) by auto
    have np: "\<not> pushing s None b" for b using H(1) nf by blast
    have R: "root_owned ?s" unfolding root_owned_def by (intro exI [of _ t]) (simp add: item(3))
    have rm: "\<exists>u. removes_mediator (rq_drainers ?s u)" by (intro exI [of _ t]) (simp add: item(3))
    have "root_head_ok m ?s" by (rule root_head_okI; (unfold P)?) (use np F R rm in simp_all)
    then show ?thesis unfolding qe
      by (intro head_only [OF inv refl]) (use item(3) h free in \<open>simp_all add: owner_ok_def\<close>)
  next
    case null
    have R: "root_owned ?s = root_owned s" by (rule owned_same) (use null none in simp)
    have f: "head_free m s" using null by (simp add: head_free_def)
    have "root_head_ok m ?s"
    proof (rule root_head_okI; (unfold P R)?)
      show "\<exists>u. removes_mediator (rq_drainers ?s u)" by (intro exI [of _ t]) (simp add: null(2))
      show "mq_head (rq_words ?s) = Some (hd (rq_queued ?s)) \<or> head_free m ?s \<and> pushing s None (hd (rq_queued ?s))"
        if "\<not> root_owned s" "rq_queued ?s \<noteq> []" using H(3) that F null(1) by simp
    qed (use H(1) F in simp_all)
    then show ?thesis unfolding qe
      by (intro head_only [OF inv refl]) (use null none in \<open>simp_all add: owner_ok_def\<close>)
  next
    case med
    have e: "q = rq_words s" unfolding qe using med(1) by simp
    have "root_inv m (at_drain s t pc)" by (rule move_inv [OF inv]) (use med none in \<open>simp_all add: owner_ok_def le_bool_def\<close>)
    then show ?thesis unfolding e by simp
  qed
qed

lemma reset_inv:
  assumes inv: "root_inv m s" and t: "rq_drainers s t = Drain_null"
    and q: "root_queue_reset_head m (rq_words s) = (q, pc)"
  shows "root_inv m ((at_drain s t pc)\<lparr>rq_words := q\<rparr>)" (is "root_inv m ?s")
proof -
  note I = root_invD [OF inv] and H = root_head_okD [OF root_invD(6) [OF inv]]
  have P: "pushing ?s = pushing s" by (intro ext) (simp add: pushing_def)
  have pc: "pc = (if mq_head (rq_words s) = Some m then Drain_empty else Drain_start)"
    and qe: "q = (rq_words s)\<lparr>mq_head := if mq_head (rq_words s) = Some m then None else mq_head (rq_words s)\<rparr>"
    using q by (auto simp: root_queue_reset_head_def split: if_splits)
  have own: "owned_item pc = owned_item (rq_drainers s t)" using pc t by simp
  have R: "root_owned ?s = root_owned s" by (rule owned_same [OF own])
  have F: "head_free m ?s = head_free m s" by (auto simp: head_free_def qe)
  have "root_head_ok m ?s"
  proof (rule root_head_okI; (unfold P R F)?)
    show "mq_head (rq_words ?s) = Some (hd (rq_queued ?s)) \<or> head_free m s \<and> pushing s None (hd (rq_queued ?s))"
      if "\<not> root_owned s" "rq_queued ?s \<noteq> []"
    proof -
      have "hd (rq_queued s) \<noteq> m" using I(2) that(2) by (metis hd_in_set root_sys.select_convs(6) root_sys.surjective root_sys.update_convs(1,3))
      then show ?thesis using H(3) that by (auto simp: qe)
    qed
    show "mq_head (rq_words ?s) = Some m \<Longrightarrow> \<exists>u. removes_mediator (rq_drainers ?s u)" by (simp add: qe split: if_splits)
  qed (use H(1,2) in simp_all)
  then show ?thesis unfolding qe
    by (intro head_only [OF inv refl]) (use own pc in \<open>simp_all add: owner_ok_def\<close>)
qed

lemma store_null_inv:
  assumes inv: "root_inv m s" and t: "rq_drainers s t = Drain_loaded h None"
  shows "root_inv m ((at_drain s t (Drain_cas h))\<lparr>rq_words := mpsc_store_head None (rq_words s)\<rparr>)" (is "root_inv m ?s")
proof -
  note H = root_head_okD [OF root_invD(6) [OF inv]]
  have o: "root_owned s" unfolding root_owned_def by (intro exI [of _ t]) (simp add: t)
  have R: "root_owned ?s" unfolding root_owned_def by (intro exI [of _ t]) simp
  have P: "pushing ?s = pushing s" by (intro ext) (simp add: pushing_def)
  have "root_head_ok m ?s"
    by (rule root_head_okI; (unfold P)?) (use H(1) o R in \<open>auto simp: head_free_def mpsc_store_head_def\<close>)
  then show ?thesis unfolding mpsc_store_head_def
    by (intro head_only [OF inv refl]) (simp_all add: t owner_ok_def)
qed

section \<open>Taking an item\<close>

text \<open>The second item when the first one points to it.\<close>

lemma next_item:
  assumes inv: "root_inv m s" and q: "rq_queued s = h # ys" and n: "mq_next (rq_words s) h = Some n"
  shows "ys \<noteq> []" "hd ys = n" "\<not> pushing s (Some h) b"
proof -
  note L = links_okD [OF root_invD(5) [OF inv]]
  show ys: "ys \<noteq> []" using L(2) q n by auto
  have "adj h (hd ys) (rq_queued s)" using ys q by (simp add: adj_Cons)
  then show "hd ys = n" using L(3) n by fastforce
  show "\<not> pushing s (Some h) b" using L(4) [of h b] n by auto
qed

lemma take_inv:
  assumes inv: "root_inv m s" and q: "rq_queued s = h # ys" and t: "owned_item (rq_drainers s t) = Some h"
    and s': "s' = (at_drain s t Drain_idle)\<lparr>rq_words := w, rq_popped := rq_popped s @ [h], rq_queued := tl (rq_queued s)\<rparr>"
    and nolink: "\<And>b. \<not> pushing s (Some h) b"
    and w: "mq_next w = mq_next (rq_words s)" "mq_tail w = (if ys = [] then None else mq_tail (rq_words s))"
    and head: "if ys = [] then mq_head w = mq_head (rq_words s) \<and> \<not> removes_mediator (rq_drainers s t) else mq_head w = Some (hd ys)"
  shows "root_inv m s'"
proof -
  note I = root_invD [OF inv] and L = links_okD [OF root_invD(5) [OF inv]]
    and H = root_head_okD [OF root_invD(6) [OF inv]] and W = root_owner_okD [OF root_invD(7) [OF inv]]
  have o: "root_owned s" unfolding root_owned_def using t by blast
  have np: "\<not> pushing s None b" for b using H(1) o by blast
  have P: "pushing s' = pushing s" by (intro ext) (simp add: pushing_def s')
  have S: "rq_words s' = w" "rq_queued s' = ys" "rq_drainers s' = (rq_drainers s)(t := Drain_idle)" by (simp_all add: s' q)
  have idle: "owned_item (rq_drainers s' u) = None" for u
  proof (cases "u = t")
    case False
    then show ?thesis using W(1) [of t u] t by (cases "owned_item (rq_drainers s u)") (auto simp: S)
  qed (simp add: S)
  have R: "\<not> root_owned s'" by (simp add: root_owned_def idle)
  show ?thesis
  proof (rule root_invI)
    show "links_ok s'"
    proof (rule links_okI; (unfold P S)?)
      show "mq_tail w = (if ys = [] then None else Some (last ys))" using w(2) L(1) q by simp
      show "ys \<noteq> [] \<Longrightarrow> mq_next w (last ys) = None" using w(1) L(2) q by simp
      show "adj a b ys \<Longrightarrow> mq_next w a = Some b \<or> mq_next w a = None \<and> pushing s (Some a) b" for a b
        using L(3) [of a b] q w(1) by (simp add: adj_Cons)
      show "pushing s (Some a) b \<Longrightarrow> adj a b ys \<and> mq_next w a = None" for a b
        using L(4) [of a b] q w(1) nolink by (auto simp: adj_Cons)
    qed
    have free: "head_free m s" using H(2) o by blast
    show "root_head_ok m s'"
    proof (rule root_head_okI; (unfold P S(1,2))?)
      show "pushing s None b \<Longrightarrow> ys \<noteq> [] \<and> b = hd ys \<and> \<not> root_owned s' \<and> head_free m s'" for b using np by blast
      show "root_owned s' \<or> ys = [] \<Longrightarrow> head_free m s'" using R head free by (auto simp: head_free_def S)
      show "\<not> root_owned s' \<Longrightarrow> ys \<noteq> [] \<Longrightarrow> mq_head w = Some (hd ys) \<or> head_free m s' \<and> pushing s None (hd ys)" using head by simp
      show "\<exists>u. removes_mediator (rq_drainers s' u)" if "mq_head w = Some m"
      proof (cases "ys = []")
        case True
        then have h: "mq_head (rq_words s) = Some m" "\<not> removes_mediator (rq_drainers s t)" using head that by simp_all
        obtain u where "removes_mediator (rq_drainers s u)" using H(4) [OF h(1)] by blast
        then show ?thesis using h(2) by (intro exI [of _ u]) (auto simp: S)
      next
        case False
        then show ?thesis using head that I(2) q hd_in_set [OF False] by auto
      qed
    qed
    show "root_owner_ok s'"
    proof (rule root_owner_okI)
      show "owner_ok s' (rq_drainers s' u)" for u
        using idle [of u] by (cases "rq_drainers s' u") (simp_all add: owner_ok_def)
    qed (simp_all add: idle)
    show "rq_producers s' v = Push_prev p b \<Longrightarrow> rq_producers s' u = Push_prev p' b \<Longrightarrow> v = u" for v u p p' b
      using I(4) by (simp add: s')
  qed (use I(1-3) q in \<open>simp_all add: s'\<close>)
qed

section \<open>Pushing\<close>

lemma root_push_tail_inv:
  assumes inv: "root_inv m s" and t: "rq_producers s t = Push_idle" and ok: "root_push_ok m s ns"
    and q: "os_mpsc_push_update_tail (last ns) (rq_words s) = (q, prv)"
  shows "root_inv m (s\<lparr>rq_words := q, rq_producers := (rq_producers s)(t := Push_prev prv (hd ns)),
      rq_pushed := rq_pushed s @ ns, rq_queued := rq_queued s @ ns\<rparr>)" (is "root_inv m ?new")
proof -
  define s' where "s' = ?new"
  let ?p = "mq_tail (rq_words s)" and ?nx = "mq_next (rq_words s)"
  have S: "rq_words s' = (rq_words s)\<lparr>mq_next := ?nx(last ns := None), mq_tail := Some (last ns)\<rparr>"
    "rq_producers s' = (rq_producers s)(t := Push_prev ?p (hd ns))" "rq_drainers s' = rq_drainers s"
    "rq_pushed s' = rq_pushed s @ ns" "rq_popped s' = rq_popped s" "rq_queued s' = rq_queued s @ ns"
    using q by (auto simp: s'_def os_mpsc_push_update_tail_def)
  note I = root_invD [OF inv] and L = links_okD [OF root_invD(5) [OF inv]]
    and H = root_head_okD [OF root_invD(6) [OF inv]] and W = root_owner_okD [OF root_invD(7) [OF inv]]
  have ns: "ns \<noteq> []" "distinct ns" "m \<notin> set ns" and fresh: "\<And>x. x \<in> set ns \<Longrightarrow> x \<notin> set (rq_queued s)"
    and pre: "\<And>a b. adj a b ns \<Longrightarrow> ?nx a = Some b"
    using ok by (auto simp: root_push_ok_def)
  have old_last: "x \<noteq> last ns" if "x \<in> set (rq_queued s)" for x using that fresh ns(1) by auto
  have P: "pushing s' p b \<longleftrightarrow> pushing s p b \<or> p = ?p \<and> b = hd ns" for p b
  proof
    assume "pushing s' p b"
    then show "pushing s p b \<or> p = ?p \<and> b = hd ns" by (auto simp: pushing_def S split: if_splits)
  next
    assume "pushing s p b \<or> p = ?p \<and> b = hd ns"
    then show "pushing s' p b"
    proof
      assume "pushing s p b"
      then obtain u where u: "rq_producers s u = Push_prev p b" by (auto simp: pushing_def)
      then have "u \<noteq> t" using t by auto
      then show ?thesis using u unfolding pushing_def S by (intro exI [of _ u]) simp
    qed (auto simp: pushing_def S intro!: exI [of _ t])
  qed
  have mem: "b \<in> set (rq_queued s)" if "pushing s p b" for p b
  proof (cases p)
    case None
    then have "rq_queued s \<noteq> []" "b = hd (rq_queued s)" using H(1) [of b] that by blast+
    then show ?thesis by simp
  next
    case (Some a)
    then show ?thesis using L(4) that adj_mem by metis
  qed
  have R: "root_owned s' = root_owned s" by (simp add: root_owned_def S)
  have hf: "head_free m s' = head_free m s" by (simp add: head_free_def S)
  have hdq: "rq_queued s \<noteq> [] \<Longrightarrow> hd (rq_queued s @ ns) = hd (rq_queued s)" by simp
  have owned_ne: "root_owned s \<Longrightarrow> rq_queued s \<noteq> []" using W(2) unfolding root_owned_def by blast
  have links: "links_ok s'"
  proof (rule links_okI)
    show "mq_next (rq_words s') a = Some b \<or> mq_next (rq_words s') a = None \<and> pushing s' (Some a) b" if f: "adj a b (rq_queued s')" for a b
    proof -
      consider "adj a b (rq_queued s)" | "adj a b ns" | "rq_queued s \<noteq> []" "a = last (rq_queued s)" "b = hd ns"
        using f unfolding S adj_append by blast
      then show ?thesis
      proof cases
        case 1
        then have "a \<noteq> last ns" using adj_mem [OF 1] by (intro old_last) blast
        then show ?thesis using L(3) [OF 1] by (auto simp: P S)
      next
        case 2
        then have "a \<noteq> last ns" using adj_last [OF ns(2)] by auto
        then show ?thesis using pre [OF 2] by (simp add: S)
      next
        case 3
        then have "a \<noteq> last ns" using old_last [of a] by simp
        then show ?thesis using 3 L(1,2) by (simp add: P S)
      qed
    qed
    show "adj a b (rq_queued s') \<and> mq_next (rq_words s') a = None" if l: "pushing s' (Some a) b" for a b
    proof (cases "pushing s (Some a) b")
      case True
      then show ?thesis using L(4) [OF True] by (simp add: S adj_append)
    next
      case False
      then have e: "rq_queued s \<noteq> []" "a = last (rq_queued s)" "b = hd ns" using l L(1) unfolding P by (auto split: if_splits)
      then show ?thesis using L(2) ns(1) by (simp add: S adj_append)
    qed
  qed (use ns in \<open>simp_all add: S\<close>)
  have head: "root_head_ok m s'"
  proof (rule root_head_okI; (unfold R hf)?)
    show "rq_queued s' \<noteq> [] \<and> b = hd (rq_queued s') \<and> \<not> root_owned s \<and> head_free m s" if "pushing s' None b" for b
    proof (cases "pushing s None b")
      case True
      then show ?thesis using H(1) [OF True] by (simp add: S)
    next
      case False
      then have e: "rq_queued s = []" "b = hd ns" using that L(1) unfolding P by (auto split: if_splits)
      then show ?thesis using H(2) owned_ne ns(1) by (auto simp: S)
    qed
    show "root_owned s \<or> rq_queued s' = [] \<Longrightarrow> head_free m s" using H(2) ns(1) by (auto simp: S)
    show "mq_head (rq_words s') = Some (hd (rq_queued s')) \<or> head_free m s \<and> pushing s' None (hd (rq_queued s'))" if "\<not> root_owned s"
    proof (cases "rq_queued s = []")
      case True
      then show ?thesis using H(2) L(1) by (simp add: S P)
    next
      case False
      then show ?thesis using H(3) [OF that False] by (auto simp: S P)
    qed
    show "mq_head (rq_words s') = Some m \<Longrightarrow> \<exists>u. removes_mediator (rq_drainers s' u)" using H(4) by (simp add: S)
  qed
  have owner: "root_owner_ok s'"
  proof (rule root_owner_okI; (unfold S(3))?)
    show "owned_item (rq_drainers s u) \<noteq> None \<Longrightarrow> owned_item (rq_drainers s v) \<noteq> None \<Longrightarrow> u = v" for u v by (rule W(1))
    show "rq_queued s' \<noteq> [] \<and> h = hd (rq_queued s')" if "owned_item (rq_drainers s u) = Some h" for u h
      using W(2) [OF that] by (simp add: S)
    show "owner_ok s' (rq_drainers s u)" for u
    proof -
      have "mq_next (rq_words s') h = ?nx h" if "owned_item (rq_drainers s u) = Some h" for h
        using W(2) [OF that] old_last [of h] by (simp add: S)
      then show ?thesis using W(3) [of u] by (cases "rq_drainers s u") (auto simp: owner_ok_def S tl_append split: list.splits)
    qed
  qed
  have "root_inv m s'"
  proof (rule root_invI)
    show "distinct (rq_queued s')" "m \<notin> set (rq_queued s')" using I(1,2) ns fresh by (auto simp: S)
    show "rq_popped s' @ rq_queued s' = rq_pushed s'" using I(3) [symmetric] by (simp add: S)
    show "v = u" if e: "rq_producers s' v = Push_prev p b" "rq_producers s' u = Push_prev p' b" for v u p p' b
    proof -
      have "rq_producers s w \<noteq> Push_prev r (hd ns)" for w r
        using mem [of r "hd ns"] fresh [of "hd ns"] ns(1) by (auto simp: pushing_def)
      then show ?thesis using e I(4) by (auto simp: S split: if_splits)
    qed
  qed (rule links head owner)+
  then show ?thesis by (simp add: s'_def)
qed

lemma push_prev_inv:
  assumes inv: "root_inv m s" and t: "rq_producers s t = Push_prev prv h"
  shows "root_inv m (s\<lparr>rq_words := os_mpsc_push_update_prev prv h (rq_words s), rq_producers := (rq_producers s)(t := Push_idle)\<rparr>)"
    (is "root_inv m ?new")
proof -
  define s' where "s' = ?new"
  have S: "rq_words s' = os_mpsc_push_update_prev prv h (rq_words s)" "rq_producers s' = (rq_producers s)(t := Push_idle)"
    "rq_drainers s' = rq_drainers s" "rq_pushed s' = rq_pushed s" "rq_popped s' = rq_popped s" "rq_queued s' = rq_queued s"
    by (simp_all add: s'_def)
  note I = root_invD [OF inv] and L = links_okD [OF root_invD(5) [OF inv]]
    and H = root_head_okD [OF root_invD(6) [OF inv]] and W = root_owner_okD [OF root_invD(7) [OF inv]]
  have lk: "pushing s prv h" using t by (auto simp: pushing_def)
  have only: "p = prv" if l: "pushing s p h" for p
  proof -
    obtain u where u: "rq_producers s u = Push_prev p h" using l by (auto simp: pushing_def)
    then have "u = t" using I(4) t by blast
    then show ?thesis using u t by simp
  qed
  have P: "pushing s' p b \<longleftrightarrow> pushing s p b \<and> b \<noteq> h" for p b
  proof
    assume "pushing s' p b"
    then obtain u where u: "rq_producers s u = Push_prev p b" "u \<noteq> t" by (auto simp: pushing_def S split: if_splits)
    then show "pushing s p b \<and> b \<noteq> h" using I(4) [OF u(1), of t prv] t by (auto simp: pushing_def)
  next
    assume l: "pushing s p b \<and> b \<noteq> h"
    then obtain u where u: "rq_producers s u = Push_prev p b" by (auto simp: pushing_def)
    moreover have "u \<noteq> t" using t l u by auto
    ultimately show "pushing s' p b" by (auto simp: pushing_def S)
  qed
  have tail: "mq_tail (rq_words s') = mq_tail (rq_words s)"
    and nx: "\<And>a. mq_next (rq_words s') a = (if prv = Some a then Some h else mq_next (rq_words s) a)"
    and hd': "mq_head (rq_words s') = (if prv = None then Some h else mq_head (rq_words s))"
    by (simp_all add: S os_mpsc_push_update_prev_def split: option.splits)
  have R: "root_owned s' = root_owned s" by (simp add: root_owned_def S)
  have links: "links_ok s'"
  proof (rule links_okI; (unfold tail S(6))?)
    show "mq_tail (rq_words s) = (if rq_queued s = [] then None else Some (last (rq_queued s)))" by (rule L(1))
    show "mq_next (rq_words s') (last (rq_queued s)) = None" if "rq_queued s \<noteq> []"
      using L(2) [OF that] L(4) lk adj_last [OF I(1)] by (auto simp: nx)
    show "mq_next (rq_words s') a = Some b \<or> mq_next (rq_words s') a = None \<and> pushing s' (Some a) b" if f: "adj a b (rq_queued s)" for a b
    proof (cases "prv = Some a")
      case True
      then have "adj a h (rq_queued s)" using L(4) lk by blast
      then have "b = h" by (rule adj_right [OF I(1) f])
      then show ?thesis using True by (simp add: nx)
    next
      case False
      then have "\<not> pushing s (Some a) h" using only by auto
      then show ?thesis using L(3) [OF f] False by (auto simp: nx P)
    qed
    show "adj a b (rq_queued s) \<and> mq_next (rq_words s') a = None" if l: "pushing s' (Some a) b" for a b
    proof -
      have ab: "pushing s (Some a) b" "b \<noteq> h" using l P by blast+
      have "prv \<noteq> Some a"
      proof
        assume "prv = Some a"
        then have "adj a h (rq_queued s)" using L(4) lk by blast
        then show False using adj_right [OF I(1)] L(4) [OF ab(1)] ab(2) by blast
      qed
      then show ?thesis using L(4) [OF ab(1)] by (simp add: nx)
    qed
  qed
  have not_first: "h \<noteq> hd (rq_queued s)" if a: "prv = Some a" for a
  proof -
    have "adj a h (rq_queued s)" using L(4) lk a by blast
    then have "h \<in> set (tl (rq_queued s))" using adj_mem by metis
    then show ?thesis using I(1) by (cases "rq_queued s") auto
  qed
  have head: "root_head_ok m s'"
  proof (cases prv)
    case None
    have n: "rq_queued s \<noteq> []" "h = hd (rq_queued s)" "\<not> root_owned s" using H(1) lk None by blast+
    have hn: "mq_head (rq_words s') = Some h" using hd' None by simp
    have "\<not> pushing s' None b" for b using H(1) [of b] n(2) P by blast
    moreover have "h \<noteq> m" using n(1,2) I(2) by auto
    ultimately show ?thesis by (intro root_head_okI; (unfold R S(6))?) (use n hn in simp_all)
  next
    case (Some a)
    have same: "mq_head (rq_words s') = mq_head (rq_words s)" using hd' Some by simp
    have hf: "head_free m s' = head_free m s" by (simp add: head_free_def same)
    show ?thesis
    proof (rule root_head_okI; (unfold R S(3,6) hf same)?)
      show "pushing s' None b \<Longrightarrow> rq_queued s \<noteq> [] \<and> b = hd (rq_queued s) \<and> \<not> root_owned s \<and> head_free m s" for b
        using H(1) P by blast
      show "\<not> root_owned s \<Longrightarrow> rq_queued s \<noteq> [] \<Longrightarrow> mq_head (rq_words s) = Some (hd (rq_queued s)) \<or> head_free m s \<and> pushing s' None (hd (rq_queued s))"
        using H(3) not_first [OF Some] by (auto simp: P)
    qed (rule H(2,4); assumption)+
  qed
  have owner: "root_owner_ok s'"
  proof (rule root_owner_okI; (unfold S(3,6))?)
    show "owned_item (rq_drainers s u) \<noteq> None \<Longrightarrow> owned_item (rq_drainers s v) \<noteq> None \<Longrightarrow> u = v" for u v by (rule W(1))
    show "owned_item (rq_drainers s u) = Some x \<Longrightarrow> rq_queued s \<noteq> [] \<and> x = hd (rq_queued s)" for u x by (rule W(2))
    show "owner_ok s' (rq_drainers s u)" for u
    proof -
      have "mq_next (rq_words s) a = None" if "prv = Some a" for a using L(4) lk that by blast
      then have "mq_next (rq_words s') x = mq_next (rq_words s) x \<or> mq_next (rq_words s) x = None" for x by (auto simp: nx)
      then show ?thesis using W(3) [of u] unfolding owner_ok_def S(6)
        by (cases "rq_drainers s u") (simp_all, (metis option.distinct(1))+)
    qed
  qed
  have "root_inv m s'"
  proof (rule root_invI)
    show "v = u" if e: "rq_producers s' v = Push_prev p b" "rq_producers s' u = Push_prev p' b" for v u p p' b
      using e I(4) by (auto simp: S split: if_splits)
  qed (use I(1-3) links head owner in \<open>simp_all add: S\<close>)
  then show ?thesis by (simp add: s'_def)
qed

section \<open>Every step\<close>

text \<open>Pokes do not matter.\<close>

lemma pokes_inv: "root_inv m (s\<lparr>rq_pokes := k\<rparr>) = root_inv m s"
proof -
  have P: "pushing (s\<lparr>rq_pokes := k\<rparr>) = pushing s" by (intro ext) (simp add: pushing_def)
  have O: "owner_ok (s\<lparr>rq_pokes := k\<rparr>) = owner_ok s" by (intro ext) (simp add: owner_ok_def split: drain_pc.splits)
  have R: "root_owned (s\<lparr>rq_pokes := k\<rparr>) = root_owned s" by (simp add: root_owned_def)
  have F: "head_free m (s\<lparr>rq_pokes := k\<rparr>) = head_free m s" by (simp add: head_free_def)
  show ?thesis unfolding root_inv_def links_ok_def root_head_ok_def root_owner_ok_def P O R F by simp
qed

lemma store_inv:
  assumes inv: "root_inv m s" and t: "owned_item (rq_drainers s t) = Some h" and n: "mq_next (rq_words s) h = Some n"
  shows "root_inv m ((at_drain s t Drain_idle)\<lparr>rq_words := mpsc_store_head (Some n) (rq_words s),
      rq_popped := rq_popped s @ [h], rq_queued := tl (rq_queued s)\<rparr>)"
proof -
  have h: "rq_queued s \<noteq> []" "h = hd (rq_queued s)" using root_owner_okD(2) [OF root_invD(7) [OF inv] t] by blast+
  obtain ys where ys: "rq_queued s = h # ys" using hd_first [OF h] by blast
  note N = next_item [OF inv ys n]
  show ?thesis by (rule take_inv [OF inv ys t refl]) (use N in \<open>simp_all add: mpsc_store_head_def\<close>)
qed

lemma take_last_inv:
  assumes inv: "root_inv m s" and t: "rq_drainers s t = Drain_cas h" and tail: "mq_tail (rq_words s) = Some h"
  shows "root_inv m ((at_drain s t Drain_idle)\<lparr>rq_words := (rq_words s)\<lparr>mq_tail := None\<rparr>,
      rq_popped := rq_popped s @ [h], rq_queued := tl (rq_queued s)\<rparr>)"
proof -
  note I = root_invD [OF inv] and L = links_okD [OF root_invD(5) [OF inv]]
  have o: "owned_item (rq_drainers s t) = Some h" by (simp add: t)
  have h: "rq_queued s \<noteq> []" "h = hd (rq_queued s)" using root_owner_okD(2) [OF I(7) o] by blast+
  have l: "last (rq_queued s) = h" using tail L(1) h(1) by simp
  obtain ys where ys: "rq_queued s = h # ys" using hd_first [OF h] by blast
  have e: "ys = []"
  proof (rule ccontr)
    assume "ys \<noteq> []"
    then have "h \<in> set ys" using l ys last_in_set [of ys] by simp
    then show False using I(1) ys by simp
  qed
  have "\<not> pushing s (Some h) b" for b using L(4) [of h b] by (auto simp: ys e)
  then show ?thesis by (intro take_inv [OF inv ys o refl]) (simp_all add: e t)
qed

lemma root_step_inv:
  assumes "root_step m s s'" "root_inv m s"
  shows "root_inv m s'"
proof -
  note inv = assms(2)
  note I = root_invD [OF inv] and L = links_okD [OF root_invD(5) [OF inv]] and W = root_owner_okD [OF root_invD(7) [OF inv]]
  from assms(1) show ?thesis
  proof cases
    case (push_update_tail t ns q prv)
    show ?thesis unfolding push_update_tail(1) by (rule root_push_tail_inv [OF inv push_update_tail(2-4)])
  next
    case (push_update_prev t prv h)
    show ?thesis unfolding push_update_prev(1) pokes_inv by (rule push_prev_inv [OF inv push_update_prev(2)])
  next
    case (xchg_head t q pc)
    show ?thesis unfolding xchg_head(1) by (rule xchg_inv [OF inv xchg_head(2,3)])
  next
    case (reset_head t q pc)
    show ?thesis unfolding reset_head(1) by (rule reset_inv [OF inv reset_head(2,3)])
  next
    case (look_tail t)
    show ?thesis unfolding look_tail(1) by (rule move_inv [OF inv]) (simp_all add: look_tail(2) owner_ok_def le_bool_def)
  next
    case (contended t tired)
    show ?thesis unfolding contended(1) pokes_inv
      by (rule move_inv [OF inv]) (simp_all add: contended(2) owner_ok_def le_bool_def contended_wait_def split: drain_status.splits)
  next
    case (quiesce_head t)
    show ?thesis unfolding quiesce_head(1) by (rule move_inv [OF inv]) (simp_all add: quiesce_head(2) owner_ok_def le_bool_def)
  next
    case (quiesce_tail t nul tired)
    show ?thesis unfolding quiesce_tail(1) pokes_inv
      by (rule move_inv [OF inv]) (simp_all add: quiesce_tail(2) owner_ok_def le_bool_def contended_wait_def split: drain_status.splits)
  next
    case (load_next t h)
    show ?thesis unfolding load_next(1) by (rule move_inv [OF inv]) (simp_all add: load_next(2) owner_ok_def le_bool_def)
  next
    case (store_next t h n)
    have "owner_ok s (Drain_loaded h (Some n))" using W(3) [of t] store_next(2) by simp
    then have "mq_next (rq_words s) h = Some n" by (simp add: owner_ok_def)
    then show ?thesis unfolding store_next(1) pokes_inv by (intro store_inv [OF inv]) (simp_all add: store_next(2))
  next
    case (store_null t h)
    show ?thesis unfolding store_null(1) by (rule store_null_inv [OF inv store_null(2)])
  next
    case (take_last t h q)
    have e: "mq_tail (rq_words s) = Some h" "q = (rq_words s)\<lparr>mq_tail := None\<rparr>"
      using take_last(3) by (auto simp: mpsc_cmpxchg_tail_def split: if_splits)
    show ?thesis unfolding take_last(1) e(2) by (rule take_last_inv [OF inv take_last(2) e(1)])
  next
    case (not_last t h q)
    have e: "q = rq_words s" "mq_tail (rq_words s) \<noteq> Some h"
      using not_last(3) by (auto simp: mpsc_cmpxchg_tail_def split: if_splits)
    have o: "owned_item (rq_drainers s t) = Some h" by (simp add: not_last(2))
    have h: "rq_queued s \<noteq> []" "h = hd (rq_queued s)" using W(2) [OF o] by blast+
    obtain ys where ys: "rq_queued s = h # ys" using hd_first [OF h] by blast
    have "tl (rq_queued s) \<noteq> []" using e(2) L(1) by (auto simp: ys)
    then have "root_inv m (at_drain s t (Drain_next h))"
      by (intro move_inv [OF inv]) (simp_all add: not_last(2) owner_ok_def le_bool_def)
    then show ?thesis unfolding not_last(1) e(1) by simp
  next
    case (get_next t h n)
    show ?thesis unfolding get_next(1)
      by (rule move_inv [OF inv]) (use get_next(2,3) in \<open>simp_all add: owner_ok_def le_bool_def os_mpsc_get_next_def\<close>)
  next
    case (store_last t h n)
    have "owner_ok s (Drain_store h n)" using W(3) [of t] store_last(2) by simp
    then have "mq_next (rq_words s) h = Some n" by (simp add: owner_ok_def)
    then show ?thesis unfolding store_last(1) pokes_inv by (intro store_inv [OF inv]) (simp_all add: store_last(2))
  qed
qed

interpretation root_queue: invariant_system root_init "root_step m" "root_inv m" for m
proof
  fix s :: "'a root_sys" assume "root_init s"
  then show "root_inv m s"
    by (simp add: root_init_def root_inv_def links_ok_def root_head_ok_def root_owner_ok_def pushing_def root_owned_def
      head_free_def owner_ok_def)
qed (rule root_step_inv)

end
