(* ===== verification/Root_Queue_Properties.thy ===== *)
theory Root_Queue_Properties
  imports Root_Queue_Invariant
begin

text \<open>What threads that drain a root queue at the same time can rely on.\<close>

section \<open>Waiting\<close>

text \<open>
  The waits of \<open>_dispatch_root_queue_drain_one\<close>: for the mediator to go, for the link behind the last
  item, and for head and tail to agree.
\<close>

definition root_waits :: "'n \<Rightarrow> 'n root_sys \<Rightarrow> dispatch_tid \<Rightarrow> bool" where
  "root_waits mediator s t \<longleftrightarrow>
     (case rq_drainers s t of
        Drain_contended \<Rightarrow> root_queue_mediator_is_gone mediator (rq_words s) = Drain_wait
      | Drain_next h \<Rightarrow> os_mpsc_get_next h (rq_words s) = None
      | Drain_quiesce \<Rightarrow> root_queue_head_tail_quiesced (mq_head (rq_words s) = None) (rq_words s) = Drain_wait
      | Drain_quiesce_tail nul \<Rightarrow> root_queue_head_tail_quiesced (mq_head (rq_words s) = None) (rq_words s) = Drain_wait
      | _ \<Rightarrow> False)"

text \<open>A thread in the middle of its work whose next step does not depend on any other thread.\<close>

definition root_busy :: "'n root_sys \<Rightarrow> dispatch_tid \<Rightarrow> bool" where
  "root_busy s u \<longleftrightarrow>
     (\<exists>p n. rq_producers s u = Push_prev p n) \<or>
     (case rq_drainers s u of
        Drain_null \<Rightarrow> True
      | Drain_owner h \<Rightarrow> True
      | Drain_loaded h n \<Rightarrow> True
      | Drain_cas h \<Rightarrow> True
      | Drain_next h \<Rightarrow> os_mpsc_get_next h (rq_words s) \<noteq> None
      | Drain_store h n \<Rightarrow> True
      | _ \<Rightarrow> False)"

text \<open>Its step moves itself and no other drainer.\<close>

definition moves :: "'n root_sys \<Rightarrow> dispatch_tid \<Rightarrow> 'n root_sys \<Rightarrow> bool" where
  "moves s u s' \<longleftrightarrow> (\<forall>t. t \<noteq> u \<longrightarrow> rq_drainers s' t = rq_drainers s t) \<and>
     (rq_drainers s' u \<noteq> rq_drainers s u \<or> rq_producers s' u \<noteq> rq_producers s u \<and> rq_drainers s' u = rq_drainers s u)"

lemma pusher_steps:
  assumes "rq_producers s u = Push_prev p n"
  shows "\<exists>s'. root_step m s s' \<and> moves s u s' \<and> rq_drainers s' = rq_drainers s"
  using root_step.push_update_prev [OF assms, of m] assms
  by (intro exI [of _ "s\<lparr>rq_words := os_mpsc_push_update_prev p n (rq_words s), rq_producers := (rq_producers s)(u := Push_idle),
        rq_pokes := rq_pokes s + (if os_mpsc_push_was_empty p then 1 else 0)\<rparr>"])
    (simp add: moves_def)

lemma step_moves:
  assumes "root_step m s s'" "rq_drainers s' = (rq_drainers s)(u := pc)" "pc \<noteq> rq_drainers s u"
  shows "\<exists>s'. root_step m s s' \<and> moves s u s'"
proof -
  have "moves s u s'" using assms(3) by (simp add: moves_def assms(2))
  then show ?thesis using assms(1) by blast
qed

lemma drainer_steps:
  assumes "root_busy s u" "\<nexists>p n. rq_producers s u = Push_prev p n"
  shows "\<exists>s'. root_step m s s' \<and> moves s u s'"
proof (cases "rq_drainers s u")
  case Drain_null
  obtain q pc where q: "root_queue_reset_head m (rq_words s) = (q, pc)" by (metis surj_pair)
  then have "pc \<noteq> Drain_null" by (auto simp: root_queue_reset_head_def split: if_splits)
  then show ?thesis
    by (intro step_moves [where pc = pc, OF root_step.reset_head [OF Drain_null q]]) (simp_all add: Drain_null)
next
  case (Drain_owner h)
  show ?thesis
    by (rule step_moves [where pc = "Drain_loaded h (mq_next (rq_words s) h)", OF root_step.load_next [OF Drain_owner]])
      (simp_all add: Drain_owner)
next
  case (Drain_loaded h x)
  show ?thesis
  proof (cases x)
    case None
    then have l: "rq_drainers s u = Drain_loaded h None" using Drain_loaded by simp
    show ?thesis by (rule step_moves [where pc = "Drain_cas h", OF root_step.store_null [OF l]]) (simp_all add: l)
  next
    case (Some n)
    then have l: "rq_drainers s u = Drain_loaded h (Some n)" using Drain_loaded by simp
    show ?thesis by (rule step_moves [where pc = Drain_idle, OF root_step.store_next [OF l]]) (simp_all add: l)
  qed
next
  case (Drain_cas h)
  obtain q ok where q: "mpsc_cmpxchg_tail (Some h) None (rq_words s) = (q, ok)" by (metis surj_pair)
  show ?thesis
  proof (cases ok)
    case True
    then have c: "mpsc_cmpxchg_tail (Some h) None (rq_words s) = (q, True)" using q by simp
    show ?thesis by (rule step_moves [where pc = Drain_idle, OF root_step.take_last [OF Drain_cas c]]) (simp_all add: Drain_cas)
  next
    case False
    then have c: "mpsc_cmpxchg_tail (Some h) None (rq_words s) = (q, False)" using q by simp
    show ?thesis by (rule step_moves [where pc = "Drain_next h", OF root_step.not_last [OF Drain_cas c]]) (simp_all add: Drain_cas)
  qed
next
  case (Drain_next h)
  then obtain n where n: "os_mpsc_get_next h (rq_words s) = Some n" using assms unfolding root_busy_def by auto
  show ?thesis by (rule step_moves [where pc = "Drain_store h n", OF root_step.get_next [OF Drain_next n]]) (simp_all add: Drain_next)
next
  case (Drain_store h n)
  show ?thesis by (rule step_moves [where pc = Drain_idle, OF root_step.store_last [OF Drain_store]]) (simp_all add: Drain_store)
qed (use assms in \<open>simp_all add: root_busy_def\<close>)

lemma mediator_busy:
  assumes inv: "root_inv m s" and h: "mq_head (rq_words s) = Some m"
  shows "\<exists>u. root_busy s u"
proof -
  obtain u where "removes_mediator (rq_drainers s u)" using root_head_okD(4) [OF root_invD(6) [OF inv] h] by blast
  then have "root_busy s u" by (cases "rq_drainers s u") (simp_all add: root_busy_def)
  then show ?thesis by blast
qed

lemma owner_busy:
  assumes inv: "root_inv m s" and o: "owned_item (rq_drainers s u) = Some h"
  shows "\<exists>v. root_busy s v"
proof (cases "root_busy s u")
  case False
  then have n: "rq_drainers s u = Drain_next h" "mq_next (rq_words s) h = None"
    using o by (cases "rq_drainers s u"; simp add: root_busy_def os_mpsc_get_next_def)+
  note W = root_owner_okD [OF root_invD(7) [OF inv]]
  have h: "rq_queued s \<noteq> []" "h = hd (rq_queued s)" using W(2) [OF o] by blast+
  obtain ys where ys: "rq_queued s = h # ys" using hd_first [OF h] by blast
  have "owner_ok s (Drain_next h)" using W(3) [of u] n(1) by simp
  then have "ys \<noteq> []" by (simp add: owner_ok_def ys)
  then have "adj h (hd ys) (rq_queued s)" by (simp add: ys adj_Cons)
  then have "pushing s (Some h) (hd ys)" using links_okD(3) [OF root_invD(5) [OF inv]] n(2) by fastforce
  then show ?thesis by (auto simp: pushing_def root_busy_def)
qed blast

lemma waits_busy:
  assumes inv: "root_inv m s" and w: "root_waits m s t"
  shows "\<exists>u. root_busy s u"
proof -
  note L = links_okD [OF root_invD(5) [OF inv]] and H = root_head_okD [OF root_invD(6) [OF inv]]
  have disagree: "\<exists>u. root_busy s u" if w': "root_queue_head_tail_quiesced (mq_head (rq_words s) = None) (rq_words s) = Drain_wait"
  proof (cases "mq_tail (rq_words s) = None")
    case True
    then have "mq_head (rq_words s) \<noteq> None" using w' by (simp add: root_queue_head_tail_quiesced_def split: if_splits)
    moreover have "rq_queued s = []" using True L(1) by (auto split: if_splits)
    ultimately have "mq_head (rq_words s) = Some m" using H(2) by (auto simp: head_free_def)
    then show ?thesis by (rule mediator_busy [OF inv])
  next
    case False
    then have hn: "mq_head (rq_words s) = None" using w' by (simp add: root_queue_head_tail_quiesced_def split: if_splits)
    have q: "rq_queued s \<noteq> []" using False L(1) by (auto split: if_splits)
    show ?thesis
    proof (cases "root_owned s")
      case True
      then obtain u h where "owned_item (rq_drainers s u) = Some h" unfolding root_owned_def by blast
      then show ?thesis by (rule owner_busy [OF inv])
    next
      case False
      then have "pushing s None (hd (rq_queued s))" using H(3) q hn by auto
      then show ?thesis by (auto simp: pushing_def root_busy_def)
    qed
  qed
  show ?thesis
  proof (cases "rq_drainers s t")
    case Drain_contended
    then have "mq_head (rq_words s) = Some m" using w by (auto simp: root_waits_def root_queue_mediator_is_gone_def split: if_splits)
    then show ?thesis by (rule mediator_busy [OF inv])
  next
    case (Drain_next h)
    then show ?thesis by (intro owner_busy [OF inv, of t h]) simp
  qed (use w disagree in \<open>simp_all add: root_waits_def\<close>)
qed

section \<open>A run\<close>

text \<open>
  The mediator is 0. Thread 5 pushes item 1; thread 7 exchanges the head and owns the list; thread 8
  exchanges it too, finds the mediator and waits; thread 7 takes the item.
\<close>

definition root_at :: "nat option \<Rightarrow> nat option \<Rightarrow> nat push_pc \<Rightarrow> nat drain_pc \<Rightarrow> nat drain_pc \<Rightarrow> nat list \<Rightarrow> nat list \<Rightarrow> nat root_sys" where
  "root_at hd_node tl_node p5 d7 d8 taken queue =
     \<lparr>rq_words = \<lparr>mq_head = hd_node, mq_tail = tl_node, mq_next = (\<lambda>_. None)\<rparr>,
      rq_producers = (\<lambda>_. Push_idle)(5 := p5), rq_drainers = (\<lambda>_. Drain_idle)(7 := d7, 8 := d8),
      rq_pushed = taken @ queue, rq_popped = taken, rq_queued = queue,
      rq_pokes = (if hd_node = None \<and> taken = [] \<and> d7 = Drain_idle then 0 else 1)\<rparr>"

lemma none_upd: "(\<lambda>_. None)(a := None) = (\<lambda>_. None)" by auto

lemma drain_upd: "(f(7 := a, 8 := b))(7 := c) = f(7 := c, 8 := (b :: nat drain_pc))" for f :: "dispatch_tid \<Rightarrow> nat drain_pc"
  by (auto simp: fun_eq_iff)

abbreviation root_reached :: "nat root_sys \<Rightarrow> bool" where
  "root_reached \<equiv> reach root_init (root_step 0)"

lemma root_pushed: "root_reached (root_at (Some 1) (Some 1) Push_idle Drain_idle Drain_idle [] [1])"
proof -
  have "root_reached (root_at None None Push_idle Drain_idle Drain_idle [] [])"
    by (rule reach_init) (auto simp: root_init_def root_at_def)
  moreover have "root_step 0 (root_at None None Push_idle Drain_idle Drain_idle [] [])
      (root_at None (Some 1) (Push_prev None 1) Drain_idle Drain_idle [] [1])"
    using root_step.push_update_tail [of "root_at None None Push_idle Drain_idle Drain_idle [] []" 5 0 "[1]"]
    by (simp add: root_at_def root_push_ok_def os_mpsc_push_update_tail_def none_upd)
  ultimately have "root_reached (root_at None (Some 1) (Push_prev None 1) Drain_idle Drain_idle [] [1])" by (rule reach_step)
  moreover have "root_step 0 (root_at None (Some 1) (Push_prev None 1) Drain_idle Drain_idle [] [1])
      (root_at (Some 1) (Some 1) Push_idle Drain_idle Drain_idle [] [1])"
    using root_step.push_update_prev [of "root_at None (Some 1) (Push_prev None 1) Drain_idle Drain_idle [] [1]" 5 None 1 0]
    by (simp add: root_at_def os_mpsc_push_update_prev_def os_mpsc_push_was_empty_def)
  ultimately show ?thesis by (rule reach_step)
qed

lemma root_contended: "root_reached (root_at (Some 0) (Some 1) Push_idle (Drain_owner 1) Drain_contended [] [1])"
proof -
  note root_pushed
  moreover have "root_step 0 (root_at (Some 1) (Some 1) Push_idle Drain_idle Drain_idle [] [1])
      (root_at (Some 0) (Some 1) Push_idle (Drain_owner 1) Drain_idle [] [1])"
    using root_step.xchg_head [of "root_at (Some 1) (Some 1) Push_idle Drain_idle Drain_idle [] [1]" 7 0]
    by (simp add: root_at_def root_queue_xchg_head_def drain_upd)
  ultimately have "root_reached (root_at (Some 0) (Some 1) Push_idle (Drain_owner 1) Drain_idle [] [1])" by (rule reach_step)
  moreover have "root_step 0 (root_at (Some 0) (Some 1) Push_idle (Drain_owner 1) Drain_idle [] [1])
      (root_at (Some 0) (Some 1) Push_idle (Drain_owner 1) Drain_contended [] [1])"
    using root_step.xchg_head [of "root_at (Some 0) (Some 1) Push_idle (Drain_owner 1) Drain_idle [] [1]" 8 0]
    by (simp add: root_at_def root_queue_xchg_head_def)
  ultimately show ?thesis by (rule reach_step)
qed

lemma root_taken: "root_reached (root_at None None Push_idle Drain_idle Drain_contended [1] [])"
proof -
  note root_contended
  moreover have "root_step 0 (root_at (Some 0) (Some 1) Push_idle (Drain_owner 1) Drain_contended [] [1])
      (root_at (Some 0) (Some 1) Push_idle (Drain_loaded 1 None) Drain_contended [] [1])"
    using root_step.load_next [of "root_at (Some 0) (Some 1) Push_idle (Drain_owner 1) Drain_contended [] [1]" 7 1 0]
    by (simp add: root_at_def drain_upd)
  ultimately have "root_reached (root_at (Some 0) (Some 1) Push_idle (Drain_loaded 1 None) Drain_contended [] [1])" by (rule reach_step)
  moreover have "root_step 0 (root_at (Some 0) (Some 1) Push_idle (Drain_loaded 1 None) Drain_contended [] [1])
      (root_at None (Some 1) Push_idle (Drain_cas 1) Drain_contended [] [1])"
    using root_step.store_null [of "root_at (Some 0) (Some 1) Push_idle (Drain_loaded 1 None) Drain_contended [] [1]" 7 1 0]
    by (simp add: root_at_def drain_upd mpsc_store_head_def)
  ultimately have "root_reached (root_at None (Some 1) Push_idle (Drain_cas 1) Drain_contended [] [1])" by (rule reach_step)
  moreover have "root_step 0 (root_at None (Some 1) Push_idle (Drain_cas 1) Drain_contended [] [1])
      (root_at None None Push_idle Drain_idle Drain_contended [1] [])"
    using root_step.take_last [of "root_at None (Some 1) Push_idle (Drain_cas 1) Drain_contended [] [1]" 7 1]
    by (simp add: root_at_def drain_upd mpsc_cmpxchg_tail_def)
  ultimately show ?thesis by (rule reach_step)
qed

section \<open>Properties\<close>

text \<open>C34: However many threads drain a root queue at the same time, the items they take are the pushed
  ones, each once and in the order of the pushes; at most one thread owns the list at a time; and once all of
  them are done the mediator is gone and the head is the first item left.\<close>

theorem root_queue_fifo:
  assumes "reach root_init (root_step mediator) s"
  shows "rq_popped s @ rq_queued s = rq_pushed s \<and> distinct (rq_queued s) \<and>
    (\<forall>t u. owned_item (rq_drainers s t) \<noteq> None \<and> owned_item (rq_drainers s u) \<noteq> None \<longrightarrow> t = u) \<and>
    ((\<forall>t. \<not> root_busy s t \<and> \<not> root_waits mediator s t) \<longrightarrow>
      mq_head (rq_words s) = (case rq_queued s of [] \<Rightarrow> None | h # _ \<Rightarrow> Some h))"
proof -
  have inv: "root_inv mediator s" by (rule root_queue.inv_reach [OF assms])
  note I = root_invD [OF inv] and H = root_head_okD [OF root_invD(6) [OF inv]]
  have one: "t = u" if "owned_item (rq_drainers s t) \<noteq> None" "owned_item (rq_drainers s u) \<noteq> None" for t u
    by (rule root_owner_okD(1) [OF I(7) that])
  have quiet: "mq_head (rq_words s) = (case rq_queued s of [] \<Rightarrow> None | h # _ \<Rightarrow> Some h)" if q: "\<forall>t. \<not> root_busy s t"
  proof -
    have nb: "\<not> root_busy s u" for u using q by blast
    have nm: "mq_head (rq_words s) \<noteq> Some mediator" using mediator_busy [OF inv] nb by blast
    have no: "\<not> root_owned s" using owner_busy [OF inv] nb unfolding root_owned_def by blast
    have np: "\<not> pushing s None b" for b using nb by (auto simp: pushing_def root_busy_def)
    show ?thesis
    proof (cases "rq_queued s")
      case Nil
      then show ?thesis using H(2) nm by (auto simp: head_free_def)
    next
      case (Cons h ys)
      then show ?thesis using H(3) [OF no] np by auto
    qed
  qed
  show ?thesis using I(1,3) one quiet by blast
qed

theorem root_queue_fifo_witness:
  "rq_popped (root_at None None Push_idle Drain_idle Drain_contended [1] []) @
     rq_queued (root_at None None Push_idle Drain_idle Drain_contended [1] []) = [1]"
proof -
  have "rq_pushed (root_at None None Push_idle Drain_idle Drain_contended [1] []) = [1]" by (simp add: root_at_def)
  then show ?thesis using root_queue_fifo [OF root_taken] by simp
qed

text \<open>C35: A thread that waits in \<open>_dispatch_root_queue_drain_one\<close>, for the mediator to go, for a link, or
  for head and tail to agree, always waits for a thread that is in the middle of a push or a pop and can take
  its next step without waiting for anybody: draining threads cannot block each other for good.\<close>

theorem root_queue_progress:
  assumes "reach root_init (root_step mediator) s" "root_waits mediator s t"
  shows "\<exists>u s'. root_busy s u \<and> root_step mediator s s' \<and> moves s u s' \<and> rq_drainers s' t = rq_drainers s t"
proof -
  obtain u where u: "root_busy s u" using waits_busy [OF root_queue.inv_reach [OF assms(1)] assms(2)] by blast
  show ?thesis
  proof (cases "\<exists>p n. rq_producers s u = Push_prev p n")
    case True
    then obtain p n where "rq_producers s u = Push_prev p n" by blast
    from pusher_steps [OF this, of mediator] obtain s' where
      "root_step mediator s s'" "moves s u s'" "rq_drainers s' = rq_drainers s" by blast
    then show ?thesis using u by (intro exI [of _ u] exI [of _ s']) simp
  next
    case False
    have "u \<noteq> t"
    proof
      assume "u = t"
      then show False using u False assms(2) by (cases "rq_drainers s t") (auto simp: root_busy_def root_waits_def)
    qed
    moreover obtain s' where "root_step mediator s s'" "moves s u s'" using drainer_steps [OF u False] by blast
    ultimately show ?thesis using u by (intro exI [of _ u] exI [of _ s']) (simp add: moves_def)
  qed
qed

theorem root_queue_progress_witness:
  "\<exists>u. root_busy (root_at (Some 0) (Some 1) Push_idle (Drain_owner 1) Drain_contended [] [1]) u"
proof -
  have "root_waits 0 (root_at (Some 0) (Some 1) Push_idle (Drain_owner 1) Drain_contended [] [1]) 8"
    by (simp add: root_waits_def root_at_def root_queue_mediator_is_gone_def)
  then show ?thesis using root_queue_progress [OF root_contended] by blast
qed

end
