(* ===== verification/Spec2Isabelle.thy ===== *)
theory Spec2Isabelle
  imports Time Transform_Properties Timer_Properties Semaphore_Properties Group_Properties Lock_Properties Queue_Stuck Queue_Suspend Mpsc_Properties Object_Properties Apply_Width Root_Queue_Properties
begin

text \<open>
  \<^bold>\<open>A verification library for libdispatch.\<close> The repository holds notes and, under
  \<open>src/apple/iOS/libdispatch-1271.40.12/\<close>, the sources of Apple's libdispatch; paths below are
  relative to that directory. What is modelled is the build for a 64 bit little endian Apple system:
  time in nanoseconds, Mach semaphores, ulocks with the unfair lock, no quiescent counter for once, no
  introspection.

  \<^bold>\<open>The program.\<close> libdispatch runs functions on queues. A client makes a deadline (\<open>src/time.c\<close>),
  a semaphore or a group to wait on (\<open>src/semaphore.c\<close>, over the locks of \<open>src/shims/lock.c\<close>),
  or an immutable byte string (\<open>src/data.c\<close>) that it may encode or decode (\<open>src/transform.c\<close>).
  Work goes into lanes (\<open>src/queue.c\<close>), whose items hang in a multi producer queue and whose 64 bit
  state word (\<open>src/inline_internal.h\<close>) says who may run what; \<open>dispatch_apply\<close>
  (\<open>src/apply.c\<close>) spreads a loop over the threads of a root queue. Timer sources sit in heaps
  (\<open>src/event/event.c\<close>). All of these are reference counted objects (\<open>src/object.c\<close>).

  \<^bold>\<open>How it is modelled.\<close> Sequential code is functions on records that mirror the C structs; C integers
  are words of their width, or naturals with the wrap-around written out where the theory says so.
  Crashes, failed assertions and memory errors are the \<open>fault\<close> of the \<open>result\<close> type
  (\<open>Prelude\<close>), or a fault field of the state. Concurrent code is a step relation in which a step is
  one atomic operation of one thread (or one kernel call) with the local code around it, and a program
  counter per thread says what comes next; interleavings are sequences of steps (\<open>reach\<close>), under
  sequential consistency: memory orders are not modelled. The locale \<open>invariant_system\<close> (\<open>Threads\<close>)
  turns an inductive invariant into a property of every reachable state, and every concurrent component
  interprets it on its own machine. What is in the header files only as a macro is a definition too.

  \<^bold>\<open>Theories, sources and results.\<close>

  \<^item> \<open>Prelude\<close>, \<open>Threads\<close>: faults and results, words as integers, reachability, counting threads.
  \<^item> \<open>Time\<close> (\<open>src/time.c\<close>, \<open>src/shims/time.h\<close>): \<open>dispatch_time\<close>, \<open>dispatch_walltime\<close>,
    \<open>_dispatch_timeout\<close> and the encoding of three clocks in one 64 bit value. The sum saturates; a
    wall time decodes to what it was made from within its range.
  \<^item> \<open>Dispatch_Data\<close>, \<open>Data_Invariant\<close>, \<open>Data_Ops\<close>, \<open>Data_Apply\<close>, \<open>Data_Properties\<close>
    (\<open>src/data.c\<close>, \<open>src/data_internal.h\<close>): ropes in a heap with reference counts.
    \<open>data_bytes\<close> says which bytes an object is; every constructor refines the operation on byte
    lists, the reference count of every object is exact, and nothing is left once all is released.
  \<^item> \<open>Timer_Heap\<close>, \<open>Timer_Storage\<close>, \<open>Timer_Order\<close>, \<open>Timer_Heap_Ops\<close>, \<open>Timer_Walk\<close>,
    \<open>Timer_Properties\<close> (\<open>src/event/event.c\<close>): two interleaved min-heaps in a segmented array. Slots
    are distinct, the heap order is kept by insert, remove and update, the locale \<open>timer_queue\<close> gives
    that timers come out in the order of their targets (it is interpreted for targets and for deadlines),
    and the prefix walk ends.
  \<^item> \<open>Transform\<close>, \<open>Base_Codec\<close>, \<open>Base_Instances\<close>, \<open>Base_Data\<close>, \<open>Transform_Properties\<close>
    (\<open>src/transform.c\<close>): the transform buffer, UTF and base encodings (of UTF only the code is modelled). The locale \<open>base_codec\<close> states
    what an encoder and decoder of groups of bits share; its interpretations for base64, base32 and
    base32hex give that the streaming code over any split into regions computes the reference, and
    decodes what it has encoded.
  \<^item> \<open>Semaphore\<close>, \<open>Semaphore_Properties\<close> (\<open>src/semaphore.c\<close>): permits are conserved and no wakeup is lost.
  \<^item> \<open>Group_State\<close>, \<open>Group\<close>, \<open>Group_Invariant\<close>, \<open>Group_Properties\<close> (\<open>src/semaphore.c\<close>): the
    state word with its count and generation; each notification is submitted once, and a waiter is woken
    by the last leave of its generation.
  \<^item> \<open>Lock\<close>, \<open>Lock_Word\<close>, \<open>Unfair_Lock\<close>, \<open>Once\<close>, \<open>Thread_Event\<close>, \<open>Lock_Properties\<close>
    (\<open>src/shims/lock.h\<close>, \<open>src/shims/lock.c\<close>, \<open>src/once.c\<close>): mutual exclusion of the unfair lock,
    a once function that runs once and whose waiters return, an event that delivers one signal.
  \<^item> \<open>Queue_State\<close>, \<open>Queue_Ops\<close>, \<open>Queue_Width\<close>, \<open>Queue_Account\<close>, \<open>Queue_Locking\<close>, \<open>Queue_Lane\<close>,
    \<open>Queue_Lane_Steps\<close>, \<open>Queue_Lane_Invariant\<close>, \<open>Queue_Properties\<close> (\<open>src/queue.c\<close>,
    \<open>src/queue_internal.h\<close>, \<open>src/inline_internal.h\<close>): the readers and updates of the state word of a
    lane and the machine in which threads apply them. \<open>Queue_Account\<close> says who has how much of the
    width; every update keeps it, so a barrier excludes all other items.
  \<^item> \<open>Queue_Suspend\<close>: the suspend count with its side count is one natural number, up to its limit.
  \<^item> \<open>Queue_Stuck\<close>: a reachable sequence of updates after which a lane of width 2 can never run again.
  \<^item> \<open>Mpsc\<close>, \<open>Mpsc_Invariant\<close>, \<open>Mpsc_Properties\<close> (\<open>src/inline_internal.h\<close>): the queue of items with
    many producers and one consumer, with snapshots and undone pops. It is a FIFO, and a consumer that waits
    for a pointer waits for a store some producer is about to make.
  \<^item> \<open>Root_Queue\<close>, \<open>Root_Queue_Invariant\<close>, \<open>Root_Queue_Properties\<close> (\<open>src/queue.c\<close>): many threads
    take items from one root queue, with the mediator pointer in the head. Items come out once and in order,
    and a thread that waits always waits for one that can go on.
  \<^item> \<open>Object\<close>, \<open>Object_Properties\<close> (\<open>src/object.c\<close>): external and internal reference counts; an
    object is disposed of once, with its last reference.
  \<^item> \<open>Apply\<close>, \<open>Apply_Invariant\<close>, \<open>Apply_Properties\<close>, \<open>Apply_Width\<close> (\<open>src/apply.c\<close>): the threads of
    one \<open>dispatch_apply\<close> call the function once with every index, do not touch dead memory and cannot get
    stuck; a redirected apply gives back the width it has reserved on a chain of lanes.

  \<^bold>\<open>How the parts meet.\<close> The root queue uses the list of \<open>Mpsc\<close>, its words and its pushes. Semaphores, groups, once, thread events and apply use the atomic words and
  kernel answers of \<open>Lock\<close>, \<open>Lock_Word\<close> and \<open>Thread_Event\<close>; apply calls the signal and the wait of
  \<open>Thread_Event\<close> on its own event field and reads the width of lanes with \<open>Queue_State\<close>; transforms
  build and read data objects with the operations of \<open>Dispatch_Data\<close>; deadlines of waits are those of \<open>Time\<close>.

  \<^bold>\<open>Parameters.\<close> The kernel is a parameter: \<open>counting_kernel\<close> (Mach semaphores), \<open>compare_and_wait\<close>
  and \<open>wakes_one\<close> (ulocks) state what its calls are documented to do, and the witnesses instantiate
  them with counters and sets. So are the clocks (\<open>clocks\<close>), the sizes for which \<open>malloc\<close> succeeds
  (\<open>malloc_ok\<close>), the contents of fresh memory (\<open>junk\<close>) and the code of appliers and destructors.

  \<^bold>\<open>Bounds.\<close> Recursion over object graphs and heaps has fuel; the properties of data objects and
  timer heaps state results, so that the fuel the entry points give is shown to be enough
  (\<open>Out_of_fuel\<close> is not a result). The two UTF loops have fuel too; no property is claimed of them. Thread identifiers are 32 bit Mach ports, so there are finitely
  many threads. A lane has a width below 0x1000 as the code's own limit, an object at most \<open>internal_limit\<close>
  internal references, an apply a number of iterations and threads whose sum fits a \<open>size_t\<close>.

  \<^bold>\<open>Not modelled.\<close> Sources, timers above their heaps, event backends, I/O channels, Mach channels, vouchers,
  firehose and workgroups: they are bound to kernel interfaces (kqueue, Mach messages, work intervals) or are
  glue over them, and little of their state is theirs. Of queues: the thread pool, workloops, changes of
  the target queue, priority overrides in the kernel, attributes. Of locks: the futex and Win32 branches.
  The continuation allocator and the block runtime are not part of the modelled build. Initialisation,
  introspection and debugging output. The list of components of the manifest gives the reason for each.
\<close>

end
